(* ===== verification/Prelude.thy ===== *)
theory Prelude
  imports Complex_Main "HOL-Library.Word" "HOL-Library.Monad_Syntax"
begin

unbundle bit_operations_syntax

section \<open>Prelude: machine words, the register bus, and shared facts\<close>

text \<open>
  The types and the generic facts shared by every theory of the development:
  \<^item> names for the C integer types of the 32-bit MIPS target and the C operations whose
    behaviour differs from HOL's (shifts by a variable amount, division by a variable);
  \<^item> the memory-mapped register bus through which the \<^verbatim>\<open>libraries/\<close> and \<^verbatim>\<open>drivers/\<close> code
    talks to the LS1C: the value each register holds, the sequence of writes made so far (the
    order in which a peripheral sees them) and whether an access went through a null pointer;
  \<^item> the locale \<open>register_file\<close>, the read-over-write contract that all register code relies on,
    interpreted for the 32-bit and the 8-bit accesses of the bus;
  \<^item> the error codes of \<^verbatim>\<open>rtdef.h\<close> that the kernel and the drivers return.
\<close>

named_theorems bus_simps \<open>reads and frames over register accesses\<close>
named_theorems word_bits \<open>bits of the mask expressions that register code builds\<close>

subsection \<open>C integers\<close>

type_synonym u8 = "8 word"
type_synonym u16 = "16 word"
type_synonym u32 = "32 word"

text \<open>
  A shift by a variable amount: the MIPS \<^verbatim>\<open>sllv\<close>, \<^verbatim>\<open>srlv\<close> instructions use the low five bits of
  the amount (C leaves an amount of 32 or more undefined).
\<close>

definition shl32 :: "u32 \<Rightarrow> u32 \<Rightarrow> u32" where
  "shl32 x n = push_bit (unat n mod 32) x"

definition shr32 :: "u32 \<Rightarrow> u32 \<Rightarrow> u32" where
  "shr32 x n = drop_bit (unat n mod 32) x"

text \<open>Unsigned division; a zero divisor traps, which is \<open>None\<close>.\<close>

definition cdiv :: "u32 \<Rightarrow> u32 \<Rightarrow> u32 option" where
  "cdiv a b = (if b = 0 then None else Some (a div b))"

lemma cdiv_eq_Some [simp]: "cdiv a b = Some c \<longleftrightarrow> b \<noteq> 0 \<and> c = a div b"
  by (auto simp: cdiv_def)

lemma cdiv_eq_None [simp]: "cdiv a b = None \<longleftrightarrow> b = 0"
  by (simp add: cdiv_def)

lemma unat_bound32: "unat (x :: u32) < 4294967296"
  by (rule order_less_le_trans [OF unsigned_less]) simp

lemma unat_mult32:
  fixes x y :: u32
  assumes "unat x * unat y < 4294967296"
  shows "unat (x * y) = unat x * unat y"
  using assms by (simp add: unat_word_ariths)

lemma unat_add32:
  fixes x y :: u32
  assumes "unat x + unat y < 4294967296"
  shows "unat (x + y) = unat x + unat y"
  using assms by (simp add: unat_word_ariths)

subsection \<open>Bits of masks\<close>

lemma bit_shl32_1 [word_bits]: "bit (shl32 1 n) i \<longleftrightarrow> i = unat n mod 32"
  by (auto simp: shl32_def bit_push_bit_iff bit_1_iff simp flip: push_bit_of_1)

lemma bit_or_mask [word_bits]:
  "bit (x OR shl32 1 n) i \<longleftrightarrow> bit x i \<or> i = unat n mod 32"
  by (simp add: bit_or_iff word_bits)

lemma bit_clear_mask [word_bits]:
  "bit (x AND NOT (shl32 1 n)) i \<longleftrightarrow> bit x i \<and> i \<noteq> unat n mod 32"
  by (cases "i < 32") (auto simp: bit_and_iff bit_not_iff word_bits dest: bit_imp_le_length)

lemma and_1_eq_bit: "(x :: 'a::len word) AND 1 = (if bit x 0 then 1 else 0)"
  by (simp add: and_one_eq bit_0 odd_iff_mod_2_eq_one)

lemma shr32_and_1: "shr32 x n AND 1 = (if bit x (unat n mod 32) then 1 else 0)"
  by (simp add: shr32_def and_1_eq_bit bit_drop_bit_eq)

lemma unat_and_mask: "unat (x AND mask n) = unat (x :: 'a::len word) mod 2 ^ n"
  by (simp add: unsigned_take_bit_eq take_bit_eq_mod [where 'a = nat] flip: take_bit_eq_mask)

lemma unat_drop_bit: "unat (drop_bit n x) = unat (x :: 'a::len word) div 2 ^ n"
proof -
  have "take_bit LENGTH('a) (unat x) = unat x" by (simp add: take_bit_nat_eq_self)
  then show ?thesis by (simp add: unsigned_drop_bit_eq drop_bit_eq_div [where 'a = nat])
qed

subsection \<open>The register bus\<close>

datatype access = W32 u32 u32 | W8 u32 u8

record bus =
  mem32 :: "u32 \<Rightarrow> u32"
  mem8 :: "u32 \<Rightarrow> u8"
  bus_trace :: "access list"
  bus_fault :: bool

text \<open>
  Word-wide and byte-wide registers belong to different peripherals of the LS1C, so the two
  kinds of access have stores of their own. A write through the null pointer raises the CPU's
  address exception: it is recorded in \<open>bus_fault\<close>, which no operation clears.
\<close>

definition wr32 :: "u32 \<Rightarrow> u32 \<Rightarrow> bus \<Rightarrow> bus" where
  "wr32 a v s =
     (if a = 0 then s\<lparr>bus_fault := True\<rparr>
      else s\<lparr>mem32 := (mem32 s)(a := v), bus_trace := bus_trace s @ [W32 a v]\<rparr>)"

definition rd32 :: "u32 \<Rightarrow> bus \<Rightarrow> u32" where
  "rd32 a s = mem32 s a"

definition wr8 :: "u32 \<Rightarrow> u8 \<Rightarrow> bus \<Rightarrow> bus" where
  "wr8 a v s =
     (if a = 0 then s\<lparr>bus_fault := True\<rparr>
      else s\<lparr>mem8 := (mem8 s)(a := v), bus_trace := bus_trace s @ [W8 a v]\<rparr>)"

definition rd8 :: "u32 \<Rightarrow> bus \<Rightarrow> u8" where
  "rd8 a s = mem8 s a"

definition bus0 :: bus where
  "bus0 = \<lparr>mem32 = (\<lambda>_. 0), mem8 = (\<lambda>_. 0), bus_trace = [], bus_fault = False\<rparr>"

text \<open>
  What register code relies on: a write is read back at its own address and nowhere else. The
  law holds for the addresses in \<open>valid\<close>.
\<close>

locale register_file =
  fixes rd :: "u32 \<Rightarrow> 's \<Rightarrow> 'w::len word"
    and wr :: "u32 \<Rightarrow> 'w word \<Rightarrow> 's \<Rightarrow> 's"
    and valid :: "u32 \<Rightarrow> bool"
  assumes rd_wr: "valid a \<Longrightarrow> rd b (wr a v s) = (if b = a then v else rd b s)"
begin

lemma rd_wr_same: "valid a \<Longrightarrow> rd a (wr a v s) = v"
  by (simp add: rd_wr)

lemma rd_wr_other: "valid a \<Longrightarrow> b \<noteq> a \<Longrightarrow> rd b (wr a v s) = rd b s"
  by (simp add: rd_wr)

text \<open>A read-modify-write that sets or clears masked bits changes those bits of that register only.\<close>

lemma bit_rmw_set:
  "valid a \<Longrightarrow> bit (rd b (wr a (rd a s OR m) s)) i \<longleftrightarrow> bit (rd b s) i \<or> (b = a \<and> bit m i)"
  by (auto simp: rd_wr bit_or_iff)

lemma bit_rmw_clear:
  "valid a \<Longrightarrow> bit (rd b (wr a (rd a s AND NOT m) s)) i \<longleftrightarrow> bit (rd b s) i \<and> \<not> (b = a \<and> bit m i)"
  by (auto simp: rd_wr bit_and_iff bit_not_iff dest: bit_imp_le_length)

lemma rd_wr_commute:
  "valid a \<Longrightarrow> valid b \<Longrightarrow> a \<noteq> b \<Longrightarrow> rd c (wr a v (wr b w s)) = rd c (wr b w (wr a v s))"
  by (simp add: rd_wr)

end

interpretation reg32: register_file rd32 wr32 "\<lambda>a. a \<noteq> 0"
  by unfold_locales (simp add: rd32_def wr32_def)

interpretation reg8: register_file rd8 wr8 "\<lambda>a. a \<noteq> 0"
  by unfold_locales (simp add: rd8_def wr8_def)

lemma rd32_wr32 [bus_simps]:
  "rd32 b (wr32 a v s) = (if b = a \<and> a \<noteq> 0 then v else rd32 b s)"
  by (simp add: rd32_def wr32_def)

lemma rd8_wr8 [bus_simps]:
  "rd8 b (wr8 a v s) = (if b = a \<and> a \<noteq> 0 then v else rd8 b s)"
  by (simp add: rd8_def wr8_def)

lemma rd_cross [bus_simps]: "rd32 b (wr8 a v8 s) = rd32 b s" "rd8 b (wr32 a v s) = rd8 b s"
  by (simp_all add: rd32_def rd8_def wr32_def wr8_def)

lemma bus_fault_wr [bus_simps]:
  "bus_fault (wr32 a v s) \<longleftrightarrow> bus_fault s \<or> a = 0"
  "bus_fault (wr8 a v8 s) \<longleftrightarrow> bus_fault s \<or> a = 0"
  by (auto simp: wr32_def wr8_def)

lemma bus_trace_wr [bus_simps]:
  "bus_trace (wr32 a v s) = bus_trace s @ (if a = 0 then [] else [W32 a v])"
  "bus_trace (wr8 a v8 s) = bus_trace s @ (if a = 0 then [] else [W8 a v8])"
  by (simp_all add: wr32_def wr8_def)

subsection \<open>Error codes\<close>

text \<open>The codes of \<^verbatim>\<open>rtdef.h\<close> that the modelled code returns; the sources negate them.\<close>

datatype rt_err = RT_EOK | RT_ERROR | RT_ETIMEOUT | RT_EFULL | RT_EEMPTY | RT_ENOMEM
  | RT_ENOSYS | RT_EBUSY | RT_EIO | RT_EINTR | RT_EINVAL

end
