(* ===== verification/Ls1c_Public.thy ===== *)
theory Ls1c_Public
  imports Prelude
begin

unbundle bit_operations_syntax

section \<open>Register helpers and bit search (\<^verbatim>\<open>libraries/ls1c_public.c\<close>)\<close>

text \<open>
  The single-bit read-modify-write helpers every peripheral library is written with, and the
  branch-by-halves bit searches \<open>ls1c_ffs\<close> and \<open>ls1c_fls\<close>. The lemmas give the exact set of
  bits each helper changes and the meaning of the two searches.
\<close>

subsection \<open>Register access\<close>

definition reg_write_32 :: "u32 \<Rightarrow> u32 \<Rightarrow> bus \<Rightarrow> bus" where
  "reg_write_32 data addr s = wr32 addr data s"

definition reg_read_32 :: "u32 \<Rightarrow> bus \<Rightarrow> u32" where
  "reg_read_32 addr s = rd32 addr s"

definition reg_write_8 :: "u8 \<Rightarrow> u32 \<Rightarrow> bus \<Rightarrow> bus" where
  "reg_write_8 data addr s = wr8 addr data s"

definition reg_read_8 :: "u32 \<Rightarrow> bus \<Rightarrow> u8" where
  "reg_read_8 addr s = rd8 addr s"

definition reg_set_one_bit :: "u32 \<Rightarrow> u32 \<Rightarrow> bus \<Rightarrow> bus" where
  "reg_set_one_bit reg n s =
     (let mask = shl32 1 n;
          temp = rd32 reg s;
          temp = temp OR mask
      in wr32 reg temp s)"

definition reg_clr_one_bit :: "u32 \<Rightarrow> u32 \<Rightarrow> bus \<Rightarrow> bus" where
  "reg_clr_one_bit reg n s =
     (let mask = shl32 1 n;
          temp = rd32 reg s;
          temp = temp AND NOT mask
      in wr32 reg temp s)"

definition reg_get_bit :: "u32 \<Rightarrow> u32 \<Rightarrow> bus \<Rightarrow> u32" where
  "reg_get_bit reg n s =
     (let temp = rd32 reg s
      in shr32 temp n AND 1)"

subsection \<open>Bit search\<close>

text \<open>
  Each search tests the half of the word that cannot hold the answer and, when it is empty,
  shifts it out. The argument is a C \<^verbatim>\<open>int\<close>: its right shift is arithmetic.
\<close>

definition ffs_step :: "nat \<Rightarrow> u32 \<times> nat \<Rightarrow> u32 \<times> nat" where
  "ffs_step k = (\<lambda>(x, r). if x AND mask k = 0 then (signed_drop_bit k x, r + k) else (x, r))"

definition ls1c_ffs :: "u32 \<Rightarrow> nat" where
  "ls1c_ffs x =
     (if x = 0 then 0
      else snd (ffs_step 1 (ffs_step 2 (ffs_step 4 (ffs_step 8 (ffs_step 16 (x, 1)))))))"

definition fls_step :: "nat \<Rightarrow> u32 \<times> nat \<Rightarrow> u32 \<times> nat" where
  "fls_step k = (\<lambda>(x, r). if x AND NOT (mask (32 - k)) = 0 then (push_bit k x, r - k) else (x, r))"

definition ls1c_fls :: "u32 \<Rightarrow> nat" where
  "ls1c_fls x =
     (if x = 0 then 0
      else snd (fls_step 1 (fls_step 2 (fls_step 4 (fls_step 8 (fls_step 16 (x, 32)))))))"

subsection \<open>Single-bit accesses\<close>

lemma bit_reg_set_one_bit [bus_simps]:
  assumes "reg \<noteq> 0"
  shows "bit (rd32 a (reg_set_one_bit reg n s)) i \<longleftrightarrow>
           bit (rd32 a s) i \<or> (a = reg \<and> i = unat n mod 32)"
  using reg32.bit_rmw_set [OF assms] by (simp add: reg_set_one_bit_def Let_def word_bits)

lemma bit_reg_clr_one_bit [bus_simps]:
  assumes "reg \<noteq> 0"
  shows "bit (rd32 a (reg_clr_one_bit reg n s)) i \<longleftrightarrow>
           bit (rd32 a s) i \<and> \<not> (a = reg \<and> i = unat n mod 32)"
  using reg32.bit_rmw_clear [OF assms] by (simp add: reg_clr_one_bit_def Let_def word_bits)

lemma reg_get_bit_eq: "reg_get_bit reg n s = (if bit (rd32 reg s) (unat n mod 32) then 1 else 0)"
  by (simp add: reg_get_bit_def shr32_and_1)

lemma bus_fault_reg_bit [bus_simps]:
  "bus_fault (reg_set_one_bit reg n s) \<longleftrightarrow> bus_fault s \<or> reg = 0"
  "bus_fault (reg_clr_one_bit reg n s) \<longleftrightarrow> bus_fault s \<or> reg = 0"
  by (simp_all add: reg_set_one_bit_def reg_clr_one_bit_def bus_simps)


subsection \<open>What the searches compute\<close>

text \<open>
  Invariant of \<open>ls1c_ffs\<close> after the steps down to window \<open>w\<close>: the first set bit of the argument
  \<open>x0\<close> lies in the \<open>w\<close> bits from \<open>r - 1\<close> on, and \<open>x\<close> is \<open>x0\<close> with the bits below shifted out.
\<close>

definition ffs_inv :: "u32 \<Rightarrow> nat \<Rightarrow> u32 \<times> nat \<Rightarrow> bool" where
  "ffs_inv x0 w p \<longleftrightarrow>
     (\<exists>b. snd p = Suc b \<and> b + w \<le> 32 \<and> fst p = signed_drop_bit b x0 \<and>
          (\<forall>i < b. \<not> bit x0 i) \<and> (\<exists>i < b + w. bit x0 i))"

lemma bit_signed_drop32:
  "n + i < 32 \<Longrightarrow> bit (signed_drop_bit n (x :: u32)) i \<longleftrightarrow> bit x (n + i)"
  by (auto simp: bit_signed_drop_bit_iff)

lemma and_mask_eq_0_iff:
  "x AND mask k = 0 \<longleftrightarrow> (\<forall>i < k. \<not> bit (x :: 'a::len word) i)"
  by (auto simp: bit_eq_iff bit_simps dest: bit_imp_le_length)

lemma ffs_step_inv:
  assumes "ffs_inv x0 (2 * k) p"
  shows "ffs_inv x0 k (ffs_step k p)"
proof -
  obtain b j where p: "p = (signed_drop_bit b x0, Suc b)" and b: "b + 2 * k \<le> 32"
    and below: "\<forall>i < b. \<not> bit x0 i" and j: "j < b + 2 * k" "bit x0 j"
    using assms by (cases p) (auto simp: ffs_inv_def)
  have low: "signed_drop_bit b x0 AND mask k = 0 \<longleftrightarrow> (\<forall>i < k. \<not> bit x0 (b + i))"
    using b by (auto simp: and_mask_eq_0_iff bit_signed_drop32)
  show ?thesis
  proof (cases "signed_drop_bit b x0 AND mask k = 0")
    case True
    have "\<not> bit x0 i" if "i < b + k" for i
      using that below low True by (cases "i < b") (auto dest: spec [of _ "i - b"])
    then show ?thesis
      using True b j unfolding ffs_inv_def p ffs_step_def
      by (intro exI [of _ "b + k"]) (auto simp: add.commute mult_2 intro!: exI [of _ j])
  next
    case False
    then obtain i where "i < k" "bit x0 (b + i)" using low by auto
    with False b below show ?thesis
      unfolding ffs_inv_def p ffs_step_def by (intro exI [of _ b]) (auto intro!: exI [of _ "b + i"])
  qed
qed

lemma ffs_inv_start: "x \<noteq> 0 \<Longrightarrow> ffs_inv x 32 (x, 1)"
  using bit_imp_le_length [of x] by (auto simp: ffs_inv_def bit_eq_iff [of x 0] intro!: exI [of _ 0])

lemma ls1c_ffs_Least: "ls1c_ffs x = (if x = 0 then 0 else Suc (LEAST i. bit x i))"
proof (cases "x = 0")
  case False
  let ?p = "ffs_step 1 (ffs_step 2 (ffs_step 4 (ffs_step 8 (ffs_step 16 (x, 1)))))"
  have "ffs_inv x 1 ?p"
    using ffs_inv_start [OF False] ffs_step_inv [of x 16] ffs_step_inv [of x 8]
      ffs_step_inv [of x 4] ffs_step_inv [of x 2] ffs_step_inv [of x 1] by simp
  then obtain b i where b: "snd ?p = Suc b" "\<forall>i < b. \<not> bit x i" "i < Suc b" "bit x i"
    unfolding ffs_inv_def by auto
  then have "i = b" by (auto simp: less_Suc_eq)
  then have "(LEAST i. bit x i) = b"
    using b by (intro Least_equality) (auto simp: not_less [symmetric])
  then show ?thesis using False b(1) by (simp add: ls1c_ffs_def)
qed (simp add: ls1c_ffs_def)

text \<open>
  Invariant of \<open>ls1c_fls\<close>: the last set bit of \<open>x0\<close> lies in the \<open>w\<close> bits below \<open>r\<close>, and \<open>x\<close> is
  \<open>x0\<close> moved up so that bit \<open>r - 1\<close> of \<open>x0\<close> is the top bit.
\<close>

definition fls_inv :: "u32 \<Rightarrow> nat \<Rightarrow> u32 \<times> nat \<Rightarrow> bool" where
  "fls_inv x0 w p \<longleftrightarrow>
     (case p of (x, r) \<Rightarrow>
        w \<le> r \<and> r \<le> 32 \<and> x = push_bit (32 - r) x0 \<and>
        (\<forall>i. bit x0 i \<longrightarrow> i < r) \<and> (\<exists>i. r - w \<le> i \<and> bit x0 i))"

lemma and_not_mask_eq_0_iff:
  "(x :: u32) AND NOT (mask n) = 0 \<longleftrightarrow> (\<forall>i. bit x i \<longrightarrow> i < n)"
  using bit_imp_le_length [of x] by (auto simp: bit_eq_iff bit_simps not_le)

lemma fls_step_inv:
  assumes "fls_inv x0 (2 * k) p"
  shows "fls_inv x0 k (fls_step k p)"
proof (cases p)
  case (Pair x r)
  with assms have inv: "2 * k \<le> r" "r \<le> 32" "x = push_bit (32 - r) x0"
      "\<forall>i. bit x0 i \<longrightarrow> i < r" "\<exists>i. r - 2 * k \<le> i \<and> bit x0 i"
    by (auto simp: fls_inv_def)
  have high: "x AND NOT (mask (32 - k)) = 0 \<longleftrightarrow> (\<forall>i. bit x0 i \<longrightarrow> i < r - k)"
    (is "?L \<longleftrightarrow> ?R")
  proof
    assume ?L
    show ?R
    proof (intro allI impI)
      fix i assume "bit x0 i"
      then have "bit x (i + (32 - r))" using inv by (auto simp: bit_push_bit_iff)
      then have "i + (32 - r) < 32 - k" using \<open>?L\<close> and_not_mask_eq_0_iff by blast
      then show "i < r - k" by linarith
    qed
  next
    assume ?R
    then show ?L using inv by (auto simp: and_not_mask_eq_0_iff bit_push_bit_iff)
  qed
  show ?thesis
  proof (cases ?thesis)
    case False
    show ?thesis
    proof (cases "x AND NOT (mask (32 - k)) = 0")
      case True
      then show ?thesis using Pair inv high
        by (auto simp: fls_inv_def fls_step_def add.commute mult_2)
    next
      case f: False
      then obtain i where "bit x0 i" "\<not> i < r - k" using high by auto
      then show ?thesis using f Pair inv
        by (auto simp: fls_inv_def fls_step_def intro!: exI [of _ i])
    qed
  qed
qed

lemma fls_inv_start: "x \<noteq> 0 \<Longrightarrow> fls_inv x 32 (x, 32)"
  by (auto simp: fls_inv_def bit_eq_iff dest: bit_imp_le_length)

lemma ls1c_fls_top:
  assumes "x \<noteq> 0"
  shows "1 \<le> ls1c_fls x" "ls1c_fls x \<le> 32" "bit x (ls1c_fls x - 1)"
    "\<And>i. bit x i \<Longrightarrow> i < ls1c_fls x"
proof -
  let ?p = "fls_step 1 (fls_step 2 (fls_step 4 (fls_step 8 (fls_step 16 (x, 32)))))"
  have "fls_inv x 1 ?p"
    using fls_inv_start [OF assms] fls_step_inv [of x 16] fls_step_inv [of x 8]
      fls_step_inv [of x 4] fls_step_inv [of x 2] fls_step_inv [of x 1] by simp
  then obtain y r where p: "?p = (y, r)" and r: "1 \<le> r" "r \<le> 32" "\<forall>i. bit x i \<longrightarrow> i < r"
      "\<exists>i \<ge> r - 1. bit x i"
    by (cases ?p) (auto simp: fls_inv_def)
  then obtain i where "r - 1 \<le> i" "bit x i" by auto
  moreover from this r have "i = r - 1" by (metis Suc_diff_1 One_nat_def Suc_le_lessD le_antisym less_Suc_eq_le)
  moreover have "ls1c_fls x = r" using assms p by (simp add: ls1c_fls_def)
  ultimately show "1 \<le> ls1c_fls x" "ls1c_fls x \<le> 32" "bit x (ls1c_fls x - 1)"
    "\<And>i. bit x i \<Longrightarrow> i < ls1c_fls x" using r by auto
qed

text \<open>The position \<open>ls1c_fls\<close> returns is the bit length of the argument read as unsigned.\<close>

lemma ls1c_fls_bounds:
  assumes "x \<noteq> 0"
  shows "2 ^ (ls1c_fls x - 1) \<le> unat x" "unat x < 2 ^ ls1c_fls x"
proof -
  note top = ls1c_fls_top [OF assms]
  show "2 ^ (ls1c_fls x - 1) \<le> unat x"
  proof (rule ccontr)
    assume "\<not> 2 ^ (ls1c_fls x - 1) \<le> unat x"
    then have "\<not> bit (unat x) (ls1c_fls x - 1)" by (simp add: bit_iff_odd)
    with top(2,3) show False by (simp add: bit_unsigned_iff)
  qed
  have "take_bit (ls1c_fls x) x = x"
    using top(4) by (auto simp: bit_eq_iff bit_take_bit_iff)
  then have "unat x = take_bit (ls1c_fls x) (unat x)"
    by (metis unsigned_take_bit_eq)
  then show "unat x < 2 ^ ls1c_fls x"
    by (metis take_bit_nat_less_exp)
qed

lemma ls1c_fls_unique:
  assumes "2 ^ n \<le> unat x" "unat x < 2 ^ Suc n"
  shows "ls1c_fls x = Suc n"
proof -
  have "x \<noteq> 0" using assms(1) by auto
  note b = ls1c_fls_bounds [OF this] and t = ls1c_fls_top [OF this]
  have "n < ls1c_fls x"
    using le_less_trans [OF assms(1) b(2)] by (simp add: power_strict_increasing_iff)
  moreover have "ls1c_fls x - 1 < Suc n"
    using le_less_trans [OF b(1) assms(2)] by (metis power_strict_increasing_iff one_less_numeral_iff semiring_norm(76))
  ultimately show ?thesis by simp
qed

subsection \<open>Correctness of the searches\<close>

text \<open>
  The bit searches of the peripheral library. \<open>ls1c_ffs\<close> returns the 1-based index of the
  lowest set bit, although its arithmetic shifts drag the sign bit along; \<open>ls1c_fls\<close> returns the
  bit length of the argument read as an unsigned number; both return 0 for 0.
\<close>

theorem ls1c_bit_search:
  "(if x = 0 then ls1c_ffs x = 0 \<and> ls1c_fls x = 0
    else ls1c_ffs x = Suc (LEAST i. bit x i) \<and> 1 \<le> ls1c_fls x \<and> ls1c_fls x \<le> 32 \<and>
         2 ^ (ls1c_fls x - 1) \<le> unat x \<and> unat x < 2 ^ ls1c_fls x)"
  using ls1c_fls_bounds [of x] ls1c_fls_top(1,2) [of x] by (simp add: ls1c_ffs_Least ls1c_fls_def)

end
