(* ===== verification/Ls1c_Clock.thy ===== *)
theory Ls1c_Clock
  imports Ls1c_Public
begin

unbundle bit_operations_syntax

section \<open>Clock tree (\<^verbatim>\<open>libraries/ls1c_clock.c\<close>) and busy-wait delays (\<^verbatim>\<open>libraries/ls1c_delay.c\<close>)\<close>

text \<open>
  The frequencies the peripheral libraries derive their dividers from, computed from the
  \<open>START_FREQ\<close> and \<open>CLK_DIV_PARAM\<close> registers in 32-bit unsigned arithmetic. A divider field of
  zero makes the division trap, which is the result \<open>None\<close>.
\<close>

abbreviation LS1C_START_FREQ :: u32 where "LS1C_START_FREQ \<equiv> 0xbfe78030"
abbreviation LS1C_CLK_DIV_PARAM :: u32 where "LS1C_CLK_DIV_PARAM \<equiv> 0xbfe78034"
abbreviation APB_CLK :: u32 where "APB_CLK \<equiv> 24000000"
abbreviation M_PLL :: u32 where "M_PLL \<equiv> 0xff00"
abbreviation FRAC_N :: u32 where "FRAC_N \<equiv> 0xff0000"
abbreviation DIV_SDRAM :: u32 where "DIV_SDRAM \<equiv> 0x3"
abbreviation DIV_PIX :: u32 where "DIV_PIX \<equiv> 0x7f000000"
abbreviation DIV_CPU_EN :: u32 where "DIV_CPU_EN \<equiv> 0x8000"
abbreviation DIV_CPU :: u32 where "DIV_CPU \<equiv> 0x7f00"
abbreviation DIV_CPU_SEL :: u32 where "DIV_CPU_SEL \<equiv> 0x1"

definition clk_get_pll_rate :: "bus \<Rightarrow> u32" where
  "clk_get_pll_rate s =
     (let ctrl = reg_read_32 LS1C_START_FREQ s
      in (drop_bit 8 (ctrl AND M_PLL) + drop_bit 16 (ctrl AND FRAC_N)) * APB_CLK div 4)"

definition clk_get_cpu_rate :: "bus \<Rightarrow> u32 option" where
  "clk_get_cpu_rate s =
     (let pll_rate = clk_get_pll_rate s;
          ctrl = reg_read_32 LS1C_CLK_DIV_PARAM s
      in if DIV_CPU_SEL AND ctrl \<noteq> 0
         then (if DIV_CPU_EN AND ctrl \<noteq> 0
               then cdiv pll_rate (drop_bit 8 (ctrl AND DIV_CPU))
               else Some (pll_rate div 2))
         else Some APB_CLK)"

definition clk_get_ddr_rate :: "bus \<Rightarrow> u32 option" where
  "clk_get_ddr_rate s =
     do { cpu_rate \<leftarrow> clk_get_cpu_rate s;
          let ctrl = reg_read_32 LS1C_START_FREQ s AND DIV_SDRAM;
          Some (if ctrl = 0 then cpu_rate div 2
                else if ctrl = 1 then cpu_rate div 4
                else if ctrl = 2 \<or> ctrl = 3 then cpu_rate div 3
                else 0) }"

definition clk_get_apb_rate :: "bus \<Rightarrow> u32 option" where
  "clk_get_apb_rate s = clk_get_ddr_rate s"

definition clk_get_dc_rate :: "bus \<Rightarrow> u32 option" where
  "clk_get_dc_rate s =
     (let pll_rate = clk_get_pll_rate s;
          ctrl = reg_read_32 LS1C_CLK_DIV_PARAM s
      in cdiv pll_rate (drop_bit 24 (ctrl AND DIV_PIX)))"

text \<open>
  The delays spin for a number of iterations of an empty loop; the model gives that number. The
  arguments are C \<^verbatim>\<open>int\<close>s: a count that is not positive means no iteration (there the rounding
  of the division is irrelevant). The product \<open>n * 3\<close> of \<open>delay_us\<close> is in the range of \<^verbatim>\<open>int\<close> for
  arguments below \<open>2 ^ 29\<close>; the callers in this program pass at most 10000.
\<close>

definition delay_us_count :: "int \<Rightarrow> nat" where
  "delay_us_count n =
     (let count_1us = 252000000 div 1000000 div 84;
          count_max = n * count_1us;
          count_max = (if n \<le> 10 then count_max div 3
                       else if n \<le> 100 then count_max - count_max div 5
                       else count_max - count_max div 10)
      in nat count_max)"

definition delay_ms_count :: "int \<Rightarrow> bus \<Rightarrow> nat option" where
  "delay_ms_count j s =
     do { cpu_rate \<leftarrow> clk_get_cpu_rate s;
          let k_max = unat cpu_rate div 1000 div 92;
          Some (nat j * k_max) }"

definition delay_s_count :: "int \<Rightarrow> bus \<Rightarrow> nat option" where
  "delay_s_count i s =
     do { per_s \<leftarrow> delay_ms_count 1000 s;
          Some (nat i * per_s) }"

subsection \<open>Register fields as numbers\<close>

text \<open>The integer and fractional multiplier fields of \<open>START_FREQ\<close> and the CPU divider field.\<close>

definition pll_mult :: "bus \<Rightarrow> nat" where
  "pll_mult s = unat (rd32 LS1C_START_FREQ s) div 2 ^ 8 mod 256
              + unat (rd32 LS1C_START_FREQ s) div 2 ^ 16 mod 256"

definition cpu_div :: "bus \<Rightarrow> nat" where
  "cpu_div s = unat (rd32 LS1C_CLK_DIV_PARAM s) div 2 ^ 8 mod 128"

lemma pll_fields:
  fixes x :: u32
  shows "unat (drop_bit n x AND 255) = unat x div 2 ^ n mod 256"
    and "unat (drop_bit n x AND 127) = unat x div 2 ^ n mod 128"
    and "unat (x AND 3) = unat x mod 4"
  using unat_and_mask [of "drop_bit n x" 8] unat_and_mask [of "drop_bit n x" 7]
    unat_and_mask [of x 2]
  by (simp_all add: mask_eq_exp_minus_1 unat_drop_bit)

lemma pll_mult_le: "pll_mult s \<le> 510"
  unfolding pll_mult_def by (intro add_le_mono [of _ 255 _ 255, simplified]) (auto simp: less_Suc_eq_le [symmetric])

lemma clk_get_pll_rate_wrap:
  "unat (clk_get_pll_rate s) = (pll_mult s * 24000000) mod 2 ^ 32 div 4"
  unfolding clk_get_pll_rate_def pll_mult_def Let_def reg_read_32_def
  by (simp add: unat_div unat_word_ariths pll_fields mod_add_eq distrib_right)

lemma clk_get_pll_rate_exact:
  "pll_mult s \<le> 178 \<Longrightarrow> unat (clk_get_pll_rate s) = pll_mult s * 6000000"
  by (simp add: clk_get_pll_rate_wrap)

lemma unat_pll_div: "unat (clk_get_pll_rate s) \<le> 1073741823"
proof -
  have "(pll_mult s * 24000000) mod 2 ^ 32 \<le> 4294967295"
    by (rule less_Suc_eq_le [THEN iffD1]) simp
  then show ?thesis unfolding clk_get_pll_rate_wrap by linarith
qed

lemma clk_get_cpu_rate_fields:
  "clk_get_cpu_rate s =
     (if \<not> bit (rd32 LS1C_CLK_DIV_PARAM s) 0 then Some APB_CLK
      else if \<not> bit (rd32 LS1C_CLK_DIV_PARAM s) 15 then Some (clk_get_pll_rate s div 2)
      else if cpu_div s = 0 then None
      else Some (clk_get_pll_rate s div of_nat (cpu_div s)))"
proof -
  have b0: "DIV_CPU_SEL AND c = 0 \<longleftrightarrow> \<not> bit c 0" for c :: u32
    using and_1_eq_bit [of c] by (simp add: and.commute)
  have b15: "DIV_CPU_EN AND c = 0 \<longleftrightarrow> \<not> bit c 15" for c :: u32
    using and_exp_eq_0_iff_not_bit [of c 15] by (simp add: and.commute)
  have d: "unat (drop_bit 8 (c AND DIV_CPU)) = unat c div 2 ^ 8 mod 128" for c :: u32
    using pll_fields(2) [of 8 c] by simp
  define x where "x = drop_bit 8 (rd32 LS1C_CLK_DIV_PARAM s AND DIV_CPU)"
  have "unat x = cpu_div s" unfolding x_def cpu_div_def by (rule d)
  then have x: "x = of_nat (cpu_div s)" "x = 0 \<longleftrightarrow> cpu_div s = 0" by (auto simp: unsigned_eq_0_iff simp flip: \<open>unat x = cpu_div s\<close>)
  have "cdiv r x = (if cpu_div s = 0 then None else Some (r div of_nat (cpu_div s)))" for r
    by (simp add: cdiv_def x(2)) (simp add: x(1))
  then show ?thesis
    unfolding clk_get_cpu_rate_def Let_def reg_read_32_def x_def [symmetric] b0 b15 by simp
qed

text \<open>
  The clock tree. The PLL frequency is the multiplier times 6 MHz, computed modulo \<open>2 ^ 32\<close>
  before the division by four; it is exact if the sum of the multiplier fields is at most 178 (and
  wraps from 179 on). The CPU clock is the 24 MHz crystal, half the PLL or the PLL divided by the
  divider field, and the computation traps exactly when the enabled divider field is zero.
\<close>

theorem clk_rates:
  "(if pll_mult s \<le> 178 then unat (clk_get_pll_rate s) = pll_mult s * 6000000
    else unat (clk_get_pll_rate s) < pll_mult s * 6000000) \<and>
   clk_get_cpu_rate s =
     (if \<not> bit (rd32 LS1C_CLK_DIV_PARAM s) 0 then Some 24000000
      else if \<not> bit (rd32 LS1C_CLK_DIV_PARAM s) 15 then Some (clk_get_pll_rate s div 2)
      else if cpu_div s = 0 then None
      else Some (clk_get_pll_rate s div of_nat (cpu_div s)))"
  using clk_get_pll_rate_exact [of s] unat_pll_div [of s] clk_get_cpu_rate_fields [of s] by auto

end
