(* ===== verification/Ls1c_Gpio.thy ===== *)
theory Ls1c_Gpio
  imports Ls1c_Public
begin

unbundle bit_operations_syntax

section \<open>GPIO and pin multiplexing (\<^verbatim>\<open>libraries/ls1c_gpio.c\<close>, \<^verbatim>\<open>libraries/ls1c_pin.c\<close>)\<close>

text \<open>
  The 128 GPIOs are four ports of 32 pins. Every port has a configuration, a direction, an input
  and an output register, and five multiplexing registers that select the pin's alternative
  function. The functions that look a register up by port return the null pointer for a port
  that does not exist; a later access through it is a bus fault.
\<close>

datatype gpio_mode_t = gpio_mode_output | gpio_mode_input
datatype gpio_level_t = gpio_level_low | gpio_level_high
datatype pin_purpose_t = PIN_PURPOSE_GPIO | PIN_PURPOSE_OTHER
datatype pin_remap_t = PIN_REMAP_FIRST | PIN_REMAP_SECOND | PIN_REMAP_THIRD
  | PIN_REMAP_FOURTH | PIN_REMAP_FIFTH | PIN_REMAP_DEFAULT

abbreviation LS1C_GPIO_CFG0 :: u32 where "LS1C_GPIO_CFG0 \<equiv> 0xbfd010c0"
abbreviation LS1C_GPIO_EN0 :: u32 where "LS1C_GPIO_EN0 \<equiv> 0xbfd010d0"
abbreviation LS1C_GPIO_IN0 :: u32 where "LS1C_GPIO_IN0 \<equiv> 0xbfd010e0"
abbreviation LS1C_GPIO_OUT0 :: u32 where "LS1C_GPIO_OUT0 \<equiv> 0xbfd010f0"
abbreviation LS1C_CBUS_FIRST0 :: u32 where "LS1C_CBUS_FIRST0 \<equiv> 0xbfd011c0"

text \<open>\<^verbatim>\<open>GPIO_GET_PORT\<close> and \<^verbatim>\<open>GPIO_GET_PIN\<close>.\<close>

definition GPIO_GET_PORT :: "u32 \<Rightarrow> u32" where "GPIO_GET_PORT gpio = gpio div 32"
definition GPIO_GET_PIN :: "u32 \<Rightarrow> u32" where "GPIO_GET_PIN gpio = gpio mod 32"

definition gpio_get_cfg_reg :: "u32 \<Rightarrow> u32" where
  "gpio_get_cfg_reg gpio =
     (let port = GPIO_GET_PORT gpio
      in if port = 0 then 0xbfd010c0
         else if port = 1 then 0xbfd010c4
         else if port = 2 then 0xbfd010c8
         else if port = 3 then 0xbfd010cc
         else 0)"

definition gpio_get_en_reg :: "u32 \<Rightarrow> u32" where
  "gpio_get_en_reg gpio =
     (let port = GPIO_GET_PORT gpio
      in if port = 0 then 0xbfd010d0
         else if port = 1 then 0xbfd010d4
         else if port = 2 then 0xbfd010d8
         else if port = 3 then 0xbfd010dc
         else 0)"

definition pin_set_purpose :: "u32 \<Rightarrow> pin_purpose_t \<Rightarrow> bus \<Rightarrow> bus" where
  "pin_set_purpose gpio purpose s =
     (let pin = GPIO_GET_PIN gpio;
          gpio_cfgx = gpio_get_cfg_reg gpio
      in if purpose = PIN_PURPOSE_GPIO then reg_set_one_bit gpio_cfgx pin s
         else reg_clr_one_bit gpio_cfgx pin s)"

definition gpio_init :: "u32 \<Rightarrow> gpio_mode_t \<Rightarrow> bus \<Rightarrow> bus" where
  "gpio_init gpio mode s =
     (let pin = GPIO_GET_PIN gpio;
          s1 = pin_set_purpose gpio PIN_PURPOSE_GPIO s;
          gpio_enx = gpio_get_en_reg gpio
      in if mode = gpio_mode_output then reg_clr_one_bit gpio_enx pin s1
         else reg_set_one_bit gpio_enx pin s1)"

definition gpio_set :: "u32 \<Rightarrow> gpio_level_t \<Rightarrow> bus \<Rightarrow> bus" where
  "gpio_set gpio level s =
     (let port = GPIO_GET_PORT gpio;
          pin = GPIO_GET_PIN gpio;
          out = (\<lambda>gpio_outx. if level = gpio_level_low then reg_clr_one_bit gpio_outx pin s
                             else reg_set_one_bit gpio_outx pin s)
      in if port = 0 then out 0xbfd010f0
         else if port = 1 then out 0xbfd010f4
         else if port = 2 then out 0xbfd010f8
         else if port = 3 then out 0xbfd010fc
         else s)"

definition gpio_get :: "u32 \<Rightarrow> bus \<Rightarrow> u32" where
  "gpio_get gpio s =
     (let port = GPIO_GET_PORT gpio;
          pin = GPIO_GET_PIN gpio
      in if port = 0 then reg_get_bit 0xbfd010e0 pin s
         else if port = 1 then reg_get_bit 0xbfd010e4 pin s
         else if port = 2 then reg_get_bit 0xbfd010e8 pin s
         else if port = 3 then reg_get_bit 0xbfd010ec pin s
         else 0)"

text \<open>
  The interrupt types of \<^verbatim>\<open>gpio_irq_type_t\<close>. Ports 0 to 2 have interrupt polarity and edge
  registers; for any other port the two pointers keep their initial null value.
\<close>

datatype gpio_irq_type_t = IRQ_TYPE_EDGE_RISING | IRQ_TYPE_EDGE_FALLING | IRQ_TYPE_EDGE_BOTH
  | IRQ_TYPE_LEVEL_HIGH | IRQ_TYPE_LEVEL_LOW | IRQ_TYPE_LEVEL_MASK

definition gpio_int_regs :: "u32 \<Rightarrow> u32 \<times> u32" where
  "gpio_int_regs port =
     (if port = 0 then (0xbfd01080, 0xbfd01084)
      else if port = 1 then (0xbfd01098, 0xbfd0109c)
      else if port = 2 then (0xbfd010b0, 0xbfd010b4)
      else (0, 0))"

definition reg_or :: "u32 \<Rightarrow> u32 \<Rightarrow> bus \<Rightarrow> bus" where
  "reg_or a m s = wr32 a (rd32 a s OR m) s"

definition reg_andn :: "u32 \<Rightarrow> u32 \<Rightarrow> bus \<Rightarrow> bus" where
  "reg_andn a m s = wr32 a (rd32 a s AND NOT m) s"

definition gpio_set_irq_type :: "u32 \<Rightarrow> gpio_irq_type_t \<Rightarrow> bus \<Rightarrow> bus" where
  "gpio_set_irq_type gpio type s =
     (let port = GPIO_GET_PORT gpio;
          pin = GPIO_GET_PIN gpio;
          (int_pol, int_edge) = gpio_int_regs port;
          m = shl32 1 pin
      in case type of
           IRQ_TYPE_EDGE_RISING \<Rightarrow> reg_or int_edge m (reg_or int_pol m s)
         | IRQ_TYPE_EDGE_FALLING \<Rightarrow> reg_or int_edge m (reg_andn int_pol m s)
         | IRQ_TYPE_LEVEL_HIGH \<Rightarrow> reg_andn int_edge m (reg_or int_pol m s)
         | IRQ_TYPE_LEVEL_LOW \<Rightarrow> reg_andn int_edge m (reg_andn int_pol m s)
         | _ \<Rightarrow> s)"

text \<open>
  \<open>pin_set_remap\<close> first clears the pin's bit in all five multiplexing registers of the port
  (their addresses are 16 apart), then sets it in the one selected. The nested switch of the
  source is \<open>cbus_reg\<close>; \<open>None\<close> is its default case, which returns.
\<close>

fun cbus_reg :: "u32 \<Rightarrow> pin_remap_t \<Rightarrow> u32 option" where
  "cbus_reg port PIN_REMAP_FIRST =
     (if port = 0 then Some 0xbfd011c0 else if port = 1 then Some 0xbfd011c4
      else if port = 2 then Some 0xbfd011c8 else if port = 3 then Some 0xbfd011cc else None)"
| "cbus_reg port PIN_REMAP_SECOND =
     (if port = 0 then Some 0xbfd011d0 else if port = 1 then Some 0xbfd011d4
      else if port = 2 then Some 0xbfd011d8 else if port = 3 then Some 0xbfd011dc else None)"
| "cbus_reg port PIN_REMAP_THIRD =
     (if port = 0 then Some 0xbfd011e0 else if port = 1 then Some 0xbfd011e4
      else if port = 2 then Some 0xbfd011e8 else if port = 3 then Some 0xbfd011ec else None)"
| "cbus_reg port PIN_REMAP_FOURTH =
     (if port = 0 then Some 0xbfd011f0 else if port = 1 then Some 0xbfd011f4
      else if port = 2 then Some 0xbfd011f8 else if port = 3 then Some 0xbfd011fc else None)"
| "cbus_reg port PIN_REMAP_FIFTH =
     (if port = 0 then Some 0xbfd01200 else if port = 1 then Some 0xbfd01204
      else if port = 2 then Some 0xbfd01208 else if port = 3 then Some 0xbfd0120c else None)"
| "cbus_reg port PIN_REMAP_DEFAULT = None"

definition remap_clear :: "u32 \<Rightarrow> u32 \<Rightarrow> bus \<Rightarrow> bus" where
  "remap_clear port pin s =
     fold (\<lambda>i. reg_clr_one_bit (LS1C_CBUS_FIRST0 + port * 0x04 + i * 0x10) pin) [0, 1, 2, 3, 4] s"

definition pin_set_remap :: "u32 \<Rightarrow> pin_remap_t \<Rightarrow> bus \<Rightarrow> bus" where
  "pin_set_remap gpio remap s =
     (let port = GPIO_GET_PORT gpio;
          pin = GPIO_GET_PIN gpio;
          s1 = remap_clear port pin s
      in if remap = PIN_REMAP_DEFAULT then s1
         else case cbus_reg port remap of
                None \<Rightarrow> s1
              | Some reg \<Rightarrow> reg_set_one_bit reg pin s1)"

subsection \<open>Ports, pins and register addresses\<close>

lemma port_cases:
  assumes "unat gpio < 128"
  obtains "GPIO_GET_PORT gpio = 0" | "GPIO_GET_PORT gpio = 1"
    | "GPIO_GET_PORT gpio = 2" | "GPIO_GET_PORT gpio = 3"
proof -
  have "unat (gpio div 32) = unat gpio div 32" by (simp add: unat_div)
  moreover have "unat gpio div 32 < 4" using assms by linarith
  ultimately have "gpio div 32 = 0 \<or> gpio div 32 = 1 \<or> gpio div 32 = 2 \<or> gpio div 32 = 3"
    by (auto simp: word_unat_eq_iff)
  then show thesis using that by (auto simp: GPIO_GET_PORT_def)
qed

lemma unat_pin [simp]: "unat (GPIO_GET_PIN gpio) mod 32 = unat gpio mod 32"
  by (simp add: GPIO_GET_PIN_def unat_mod)

lemma port_out_of_range:
  assumes "128 \<le> unat gpio"
  shows "GPIO_GET_PORT gpio \<notin> {0, 1, 2, 3}"
proof -
  have "4 \<le> unat (gpio div 32)" using assms by (simp add: unat_div div_le_mono [of 128, simplified])
  then show ?thesis by (auto simp: GPIO_GET_PORT_def)
qed

text \<open>The register tables are the port number scaled into the block of four registers.\<close>

lemma gpio_reg_addr:
  assumes "unat gpio < 128"
  shows "gpio_get_cfg_reg gpio = LS1C_GPIO_CFG0 + 4 * GPIO_GET_PORT gpio"
    and "gpio_get_en_reg gpio = LS1C_GPIO_EN0 + 4 * GPIO_GET_PORT gpio"
    and "gpio_get_cfg_reg gpio \<noteq> 0" and "gpio_get_en_reg gpio \<noteq> 0"
  by (rule port_cases [OF assms]; simp add: gpio_get_cfg_reg_def gpio_get_en_reg_def)+

lemma gpio_set_addr:
  assumes "unat gpio < 128"
  shows "gpio_set gpio level s =
    (if level = gpio_level_low then reg_clr_one_bit (LS1C_GPIO_OUT0 + 4 * GPIO_GET_PORT gpio) (GPIO_GET_PIN gpio) s
     else reg_set_one_bit (LS1C_GPIO_OUT0 + 4 * GPIO_GET_PORT gpio) (GPIO_GET_PIN gpio) s)"
    and "LS1C_GPIO_OUT0 + 4 * GPIO_GET_PORT gpio \<noteq> 0"
  by (rule port_cases [OF assms]; simp add: gpio_set_def)+


subsection \<open>Effect of each operation, bit by bit\<close>

lemma pin_set_purpose_bit:
  assumes "unat gpio < 128"
  shows "bit (rd32 a (pin_set_purpose gpio p s)) i \<longleftrightarrow>
    (if a = LS1C_GPIO_CFG0 + 4 * GPIO_GET_PORT gpio \<and> i = unat gpio mod 32
     then p = PIN_PURPOSE_GPIO else bit (rd32 a s) i)"
  using gpio_reg_addr [OF assms]
  by (cases p) (auto simp: pin_set_purpose_def Let_def bus_simps)

lemma bus_fault_pin_set_purpose:
  "bus_fault (pin_set_purpose gpio p s) \<longleftrightarrow> bus_fault s \<or> 128 \<le> unat gpio"
proof (cases "unat gpio < 128")
  case True
  then show ?thesis using gpio_reg_addr [OF True]
    by (auto simp: pin_set_purpose_def Let_def bus_simps)
next
  case False
  then show ?thesis using port_out_of_range [of gpio]
    by (auto simp: pin_set_purpose_def gpio_get_cfg_reg_def Let_def bus_simps)
qed

lemma gpio_init_bit:
  assumes "unat gpio < 128"
  shows "bit (rd32 a (gpio_init gpio mode s)) i \<longleftrightarrow>
    (if a = LS1C_GPIO_CFG0 + 4 * GPIO_GET_PORT gpio \<and> i = unat gpio mod 32 then True
     else if a = LS1C_GPIO_EN0 + 4 * GPIO_GET_PORT gpio \<and> i = unat gpio mod 32 then mode = gpio_mode_input
     else bit (rd32 a s) i)"
  using gpio_reg_addr [OF assms] pin_set_purpose_bit [OF assms]
  by (cases mode) (auto simp: gpio_init_def Let_def bus_simps)

lemma bus_fault_gpio_init:
  "bus_fault (gpio_init gpio mode s) \<longleftrightarrow> bus_fault s \<or> 128 \<le> unat gpio"
proof (cases "unat gpio < 128")
  case True
  then show ?thesis using gpio_reg_addr [OF True]
    by (auto simp: gpio_init_def Let_def bus_simps bus_fault_pin_set_purpose)
next
  case False
  then show ?thesis
    by (auto simp: gpio_init_def Let_def bus_simps bus_fault_pin_set_purpose)
qed

lemma gpio_set_bit:
  assumes "unat gpio < 128"
  shows "bit (rd32 a (gpio_set gpio level s)) i \<longleftrightarrow>
    (if a = LS1C_GPIO_OUT0 + 4 * GPIO_GET_PORT gpio \<and> i = unat gpio mod 32
     then level = gpio_level_high else bit (rd32 a s) i)"
  using gpio_set_addr [OF assms] by (cases level) (auto simp: bus_simps)

lemma gpio_set_out_of_range: "128 \<le> unat gpio \<Longrightarrow> gpio_set gpio level s = s"
  using port_out_of_range [of gpio] by (simp add: gpio_set_def)

lemma gpio_get_bit:
  assumes "unat gpio < 128"
  shows "gpio_get gpio s = (if bit (rd32 (LS1C_GPIO_IN0 + 4 * GPIO_GET_PORT gpio) s) (unat gpio mod 32) then 1 else 0)"
  by (rule port_cases [OF assms]; simp add: gpio_get_def reg_get_bit_eq)

lemma bus_fault_gpio_set: "bus_fault (gpio_set gpio level s) \<longleftrightarrow> bus_fault s"
  by (cases "unat gpio < 128")
    (auto simp: gpio_set_addr gpio_set_out_of_range bus_simps)

lemma bit_reg_or [bus_simps]:
  "a \<noteq> 0 \<Longrightarrow> bit (rd32 b (reg_or a m s)) i \<longleftrightarrow> bit (rd32 b s) i \<or> (b = a \<and> bit m i)"
  unfolding reg_or_def by (rule reg32.bit_rmw_set)

lemma bit_reg_andn [bus_simps]:
  "a \<noteq> 0 \<Longrightarrow> bit (rd32 b (reg_andn a m s)) i \<longleftrightarrow> bit (rd32 b s) i \<and> \<not> (b = a \<and> bit m i)"
  unfolding reg_andn_def by (rule reg32.bit_rmw_clear)

lemma bus_fault_reg_or [bus_simps]:
  "bus_fault (reg_or a m s) \<longleftrightarrow> bus_fault s \<or> a = 0"
  "bus_fault (reg_andn a m s) \<longleftrightarrow> bus_fault s \<or> a = 0"
  by (simp_all add: reg_or_def reg_andn_def bus_simps)

lemma gpio_int_regs_nonzero:
  assumes "unat gpio < 96"
  shows "fst (gpio_int_regs (GPIO_GET_PORT gpio)) \<noteq> 0" "snd (gpio_int_regs (GPIO_GET_PORT gpio)) \<noteq> 0"
    "fst (gpio_int_regs (GPIO_GET_PORT gpio)) \<noteq> snd (gpio_int_regs (GPIO_GET_PORT gpio))"
proof -
  have "unat (gpio div 32) < 3" using assms by (simp add: unat_div)
  then have "GPIO_GET_PORT gpio \<noteq> 3" by (auto simp: GPIO_GET_PORT_def)
  with assms show "fst (gpio_int_regs (GPIO_GET_PORT gpio)) \<noteq> 0"
    "snd (gpio_int_regs (GPIO_GET_PORT gpio)) \<noteq> 0"
    "fst (gpio_int_regs (GPIO_GET_PORT gpio)) \<noteq> snd (gpio_int_regs (GPIO_GET_PORT gpio))"
    by (auto simp: gpio_int_regs_def intro: port_cases [of gpio])
qed

lemma bus_fault_gpio_set_irq_type:
  assumes "96 \<le> unat gpio" "type \<notin> {IRQ_TYPE_EDGE_BOTH, IRQ_TYPE_LEVEL_MASK}"
  shows "bus_fault (gpio_set_irq_type gpio type s)"
proof -
  have "3 \<le> unat (gpio div 32)" using assms(1) by (simp add: unat_div div_le_mono [of 96, simplified])
  then have "GPIO_GET_PORT gpio \<notin> {0, 1, 2}" by (auto simp: GPIO_GET_PORT_def)
  with assms(2) show ?thesis
    by (cases type) (auto simp: gpio_set_irq_type_def gpio_int_regs_def Let_def bus_simps)
qed

lemma gpio_set_irq_type_bit:
  fixes gpio :: u32 and s :: bus
  defines "pol \<equiv> fst (gpio_int_regs (GPIO_GET_PORT gpio))"
    and "edge \<equiv> snd (gpio_int_regs (GPIO_GET_PORT gpio))"
  assumes "unat gpio < 96" "type \<notin> {IRQ_TYPE_EDGE_BOTH, IRQ_TYPE_LEVEL_MASK}"
  shows "bit (rd32 a (gpio_set_irq_type gpio type s)) i \<longleftrightarrow>
    (if a = pol \<and> i = unat gpio mod 32 then type \<in> {IRQ_TYPE_EDGE_RISING, IRQ_TYPE_LEVEL_HIGH}
     else if a = edge \<and> i = unat gpio mod 32 then type \<in> {IRQ_TYPE_EDGE_RISING, IRQ_TYPE_EDGE_FALLING}
     else bit (rd32 a s) i)"
  using gpio_int_regs_nonzero [OF assms(3)] assms(4) unfolding assms(1,2)
  by (cases type) (auto simp: gpio_set_irq_type_def Let_def split_beta bus_simps word_bits)

subsection \<open>Multiplexing is one-hot\<close>

fun remap_index :: "pin_remap_t \<Rightarrow> u32" where
  "remap_index PIN_REMAP_FIRST = 0"
| "remap_index PIN_REMAP_SECOND = 1"
| "remap_index PIN_REMAP_THIRD = 2"
| "remap_index PIN_REMAP_FOURTH = 3"
| "remap_index PIN_REMAP_FIFTH = 4"
| "remap_index PIN_REMAP_DEFAULT = 5"

definition mux_reg :: "u32 \<Rightarrow> u32 \<Rightarrow> u32" where
  "mux_reg gpio k = LS1C_CBUS_FIRST0 + GPIO_GET_PORT gpio * 4 + k * 16"

lemma cbus_reg_eq:
  assumes "unat gpio < 128" "remap \<noteq> PIN_REMAP_DEFAULT"
  shows "cbus_reg (GPIO_GET_PORT gpio) remap = Some (mux_reg gpio (remap_index remap))"
  by (rule port_cases [OF assms(1)]; cases remap; simp add: mux_reg_def assms(2))

lemma mux_reg_facts:
  assumes "unat gpio < 128"
  shows "k \<in> {0, 1, 2, 3, 4} \<Longrightarrow> mux_reg gpio k \<noteq> 0"
    and "j \<in> {0, 1, 2, 3, 4} \<Longrightarrow> k \<in> {0, 1, 2, 3, 4} \<Longrightarrow> mux_reg gpio j = mux_reg gpio k \<longleftrightarrow> j = k"
  by (rule port_cases [OF assms]; auto simp: mux_reg_def)+

lemma fold_clr_bit:
  assumes "\<forall>k \<in> set ks. f k \<noteq> 0"
  shows "bit (rd32 a (fold (\<lambda>k. reg_clr_one_bit (f k) pin) ks s)) i \<longleftrightarrow>
    bit (rd32 a s) i \<and> \<not> (a \<in> f ` set ks \<and> i = unat pin mod 32)"
  using assms by (induction ks arbitrary: s) (auto simp: bus_simps)

lemma remap_clear_mux:
  "remap_clear (GPIO_GET_PORT gpio) pin s = fold (\<lambda>k. reg_clr_one_bit (mux_reg gpio k) pin) [0, 1, 2, 3, 4] s"
  unfolding remap_clear_def mux_reg_def ..

lemma remap_clear_bit:
  assumes "unat gpio < 128"
  shows "bit (rd32 a (remap_clear (GPIO_GET_PORT gpio) (GPIO_GET_PIN gpio) s)) i \<longleftrightarrow>
    bit (rd32 a s) i \<and> \<not> (a \<in> mux_reg gpio ` {0, 1, 2, 3, 4} \<and> i = unat gpio mod 32)"
proof -
  have nz: "\<forall>k \<in> set [0, 1, 2, 3, 4]. mux_reg gpio k \<noteq> 0"
    using mux_reg_facts(1) [OF assms] by (simp only: list.set) blast
  show ?thesis
    using fold_clr_bit [OF nz, of a "GPIO_GET_PIN gpio" s i]
    by (simp only: remap_clear_mux unat_pin list.set)
qed

lemma pin_set_remap_bit:
  assumes "unat gpio < 128"
  shows "bit (rd32 a (pin_set_remap gpio remap s)) i \<longleftrightarrow>
    (if a \<in> mux_reg gpio ` {0, 1, 2, 3, 4} \<and> i = unat gpio mod 32
     then remap \<noteq> PIN_REMAP_DEFAULT \<and> a = mux_reg gpio (remap_index remap)
     else bit (rd32 a s) i)"
proof (cases "remap = PIN_REMAP_DEFAULT")
  case True
  then show ?thesis 
    using remap_clear_bit [OF assms, of a s i] by (simp add: pin_set_remap_def)
next
  case False
  define M where "M = mux_reg gpio ` {0, 1, 2, 3, 4}"
  define m where "m = mux_reg gpio (remap_index remap)"
  have idx: "remap_index remap \<in> {0, 1, 2, 3, 4}" using False by (cases remap) auto
  have m: "m \<noteq> 0" "m \<in> M"
    unfolding m_def M_def using mux_reg_facts(1) [OF assms idx] idx by blast+
  have "pin_set_remap gpio remap s = reg_set_one_bit m (GPIO_GET_PIN gpio)
      (remap_clear (GPIO_GET_PORT gpio) (GPIO_GET_PIN gpio) s)"
    using False by (simp add: pin_set_remap_def Let_def cbus_reg_eq [OF assms] m_def)
  then show ?thesis
    using m False
    by (simp only: bit_reg_set_one_bit [OF m(1)] remap_clear_bit [OF assms] unat_pin
        m_def [symmetric] M_def [symmetric]) auto
qed

subsection \<open>Correctness of the GPIO operations\<close>

text \<open>
  Driving a pin. For the 128 existing GPIOs, \<open>gpio_init\<close> makes the pin a GPIO and sets its
  direction, \<open>gpio_set\<close> sets its output level, no other bit of any register changes, and there is
  no bus fault; for any other number \<open>gpio_init\<close> faults and \<open>gpio_set\<close> does nothing.
\<close>

theorem gpio_output_frame:
  "(if unat gpio < 128
    then (\<forall>a i. bit (rd32 a (gpio_set gpio level (gpio_init gpio mode s))) i =
            (if i = unat gpio mod 32 \<and> a = LS1C_GPIO_CFG0 + 4 * GPIO_GET_PORT gpio then True
             else if i = unat gpio mod 32 \<and> a = LS1C_GPIO_EN0 + 4 * GPIO_GET_PORT gpio then mode = gpio_mode_input
             else if i = unat gpio mod 32 \<and> a = LS1C_GPIO_OUT0 + 4 * GPIO_GET_PORT gpio then level = gpio_level_high
             else bit (rd32 a s) i)) \<and>
         bus_fault (gpio_set gpio level (gpio_init gpio mode s)) = bus_fault s
    else bus_fault (gpio_init gpio mode s) \<and> gpio_set gpio level s = s)"
proof (cases "unat gpio < 128")
  case True
  define cfg en out where regs: "cfg = LS1C_GPIO_CFG0 + 4 * GPIO_GET_PORT gpio"
    "en = LS1C_GPIO_EN0 + 4 * GPIO_GET_PORT gpio" "out = LS1C_GPIO_OUT0 + 4 * GPIO_GET_PORT gpio"
  have ne: "out \<noteq> cfg" "out \<noteq> en" unfolding regs by simp_all
  have "bit (rd32 a (gpio_set gpio level (gpio_init gpio mode s))) i =
    (if i = unat gpio mod 32 \<and> a = cfg then True
     else if i = unat gpio mod 32 \<and> a = en then mode = gpio_mode_input
     else if i = unat gpio mod 32 \<and> a = out then level = gpio_level_high else bit (rd32 a s) i)" for a i
    unfolding gpio_set_bit [OF True, folded regs] gpio_init_bit [OF True, folded regs] using ne by argo
  moreover have "bus_fault (gpio_set gpio level (gpio_init gpio mode s)) = bus_fault s"
    using True by (simp add: bus_fault_gpio_set bus_fault_gpio_init)
  ultimately show ?thesis using True unfolding regs [symmetric] by presburger
next
  case False
  then show ?thesis by (simp add: bus_fault_gpio_init gpio_set_out_of_range)
qed

text \<open>
  Pin multiplexing is one-hot. After \<open>pin_set_remap\<close> the pin's bit is set in exactly the
  multiplexing register of the selected function, in none for the default function, and no other
  bit of any register has changed.
\<close>

theorem pin_set_remap_one_hot:
  assumes "unat gpio < 128"
  shows "(\<forall>k \<in> {0, 1, 2, 3, 4}. bit (rd32 (mux_reg gpio k) (pin_set_remap gpio remap s)) (unat gpio mod 32) =
            (k = remap_index remap)) \<and>
         (\<forall>a i. (i \<noteq> unat gpio mod 32 \<or> a \<notin> mux_reg gpio ` {0, 1, 2, 3, 4}) \<longrightarrow>
            bit (rd32 a (pin_set_remap gpio remap s)) i = bit (rd32 a s) i)"
proof -
  have "mux_reg gpio k = mux_reg gpio (remap_index remap) \<longleftrightarrow> k = remap_index remap"
    if "k \<in> {0, 1, 2, 3, 4}" "remap \<noteq> PIN_REMAP_DEFAULT" for k
  proof -
    have "remap_index remap \<in> {0, 1, 2, 3, 4}" using that(2) by (cases remap) auto
    then show ?thesis using mux_reg_facts(2) [OF assms that(1)] by blast
  qed
  moreover have "k \<noteq> 5" if "k \<in> {0, 1, 2, 3, 4}" for k :: u32 using that by auto
  ultimately have "\<forall>k \<in> {0, 1, 2, 3, 4}. (remap \<noteq> PIN_REMAP_DEFAULT \<and> mux_reg gpio k = mux_reg gpio (remap_index remap)) =
            (k = remap_index remap)" by (cases "remap = PIN_REMAP_DEFAULT") auto
  then have "\<forall>k \<in> {0, 1, 2, 3, 4}. bit (rd32 (mux_reg gpio k) (pin_set_remap gpio remap s)) (unat gpio mod 32) =
            (k = remap_index remap)"
    by (simp only: pin_set_remap_bit [OF assms] imageI simp_thms if_True ball_simps cong: ball_cong)
  then show ?thesis using pin_set_remap_bit [OF assms, of _ remap s] by (meson)
qed

theorem pin_set_remap_one_hot_witness:
  "bit (rd32 (mux_reg 53 1) (pin_set_remap 53 PIN_REMAP_SECOND bus0)) 21"
  using pin_set_remap_one_hot [of 53 PIN_REMAP_SECOND bus0] by simp

text \<open>
  Interrupt types exist for the first 96 GPIOs only. There \<open>gpio_set_irq_type\<close> programs the
  polarity and the edge bit of the pin and nothing else; for the GPIOs 96 to 127, which the
  interface admits, it writes through a null pointer.
\<close>

theorem gpio_set_irq_type_range:
  assumes "type \<in> {IRQ_TYPE_EDGE_RISING, IRQ_TYPE_EDGE_FALLING, IRQ_TYPE_LEVEL_HIGH, IRQ_TYPE_LEVEL_LOW}"
  shows "(if unat gpio < 96
    then (\<forall>a i. bit (rd32 a (gpio_set_irq_type gpio type s)) i =
            (if i = unat gpio mod 32 \<and> a = fst (gpio_int_regs (GPIO_GET_PORT gpio))
             then type \<in> {IRQ_TYPE_EDGE_RISING, IRQ_TYPE_LEVEL_HIGH}
             else if i = unat gpio mod 32 \<and> a = snd (gpio_int_regs (GPIO_GET_PORT gpio))
             then type \<in> {IRQ_TYPE_EDGE_RISING, IRQ_TYPE_EDGE_FALLING}
             else bit (rd32 a s) i))
    else bus_fault (gpio_set_irq_type gpio type s))"
proof -
  have t: "type \<notin> {IRQ_TYPE_EDGE_BOTH, IRQ_TYPE_LEVEL_MASK}" using assms by auto
  show ?thesis
    using gpio_set_irq_type_bit [OF _ t, of gpio] bus_fault_gpio_set_irq_type [OF _ t, of gpio s] by auto
qed

theorem gpio_set_irq_type_range_witness:
  "bit (rd32 0xbfd0109c (gpio_set_irq_type 40 IRQ_TYPE_EDGE_RISING bus0)) 8 \<and>
   bus_fault (gpio_set_irq_type 100 IRQ_TYPE_EDGE_RISING bus0)"
  using gpio_set_irq_type_range [of IRQ_TYPE_EDGE_RISING 40 bus0] gpio_set_irq_type_range [of IRQ_TYPE_EDGE_RISING 100 bus0]
  by (simp add: gpio_int_regs_def GPIO_GET_PORT_def)

end
