(* ===== verification/Rt_Ffs.thy ===== *)
theory Rt_Ffs
  imports Prelude
begin

unbundle bit_operations_syntax

section \<open>Bit search of the scheduler (\<^verbatim>\<open>rt-thread/src/kservice.c\<close>)\<close>

text \<open>
  The table-driven \<^verbatim>\<open>__rt_ffs\<close> with which the scheduler finds the highest ready priority, and its
  equivalence with the least set bit of the argument.
\<close>


text \<open>\<open>lowest_bit_bitmap\<close> is row \<open>h\<close>, column \<open>l\<close> of the source's 256-entry table: its rows agree but for their first entry.\<close>

definition lowest_bit_row :: "nat list" where
  "lowest_bit_row = [0, 0, 1, 0, 2, 0, 1, 0, 3, 0, 1, 0, 2, 0, 1, 0]"

definition lowest_bit_col :: "nat list" where
  "lowest_bit_col = [0, 4, 5, 4, 6, 4, 5, 4, 7, 4, 5, 4, 6, 4, 5, 4]"

definition lowest_bit_bitmap :: "nat list" where
  "lowest_bit_bitmap = concat (map (\<lambda>c. c # tl lowest_bit_row) lowest_bit_col)"

definition rt_ffs :: "u32 \<Rightarrow> nat" where
  "rt_ffs value =
     (if value = 0 then 0
      else if value AND 0xff \<noteq> 0 then lowest_bit_bitmap ! unat (value AND 0xff) + 1
      else if value AND 0xff00 \<noteq> 0 then lowest_bit_bitmap ! unat (drop_bit 8 (value AND 0xff00)) + 9
      else if value AND 0xff0000 \<noteq> 0 then lowest_bit_bitmap ! unat (drop_bit 16 (value AND 0xff0000)) + 17
      else lowest_bit_bitmap ! unat (drop_bit 24 (value AND 0xff000000)) + 25)"

lemma lowest_bit_table:
  "list_all2 (\<lambda>b j. b mod (2 * 2 ^ j) = 2 ^ j \<and> j < 8) [1..<256] (tl lowest_bit_bitmap)"
  unfolding lowest_bit_bitmap_def lowest_bit_row_def lowest_bit_col_def
  by (simp add: upt_rec)

lemma mod_first_bit:
  assumes "b mod (2 * 2 ^ j) = (2::nat) ^ j"
  shows "bit b j" "i < j \<Longrightarrow> \<not> bit b i"
proof -
  have t: "take_bit (Suc j) b = 2 ^ j" using assms by (simp add: take_bit_eq_mod)
  have e: "bit (take_bit (Suc j) b) i \<longleftrightarrow> i = j" for i unfolding t by (auto simp: bit_exp_iff)
  show "bit b j" using e [of j] by (simp add: bit_take_bit_iff)
  show "i < j \<Longrightarrow> \<not> bit b i" using e [of i] by (simp add: bit_take_bit_iff)
qed

lemma lowest_bit_bitmap_first:
  assumes "0 < b" "b < 256"
  shows "lowest_bit_bitmap ! b < 8" "bit b (lowest_bit_bitmap ! b)"
    "i < lowest_bit_bitmap ! b \<Longrightarrow> \<not> bit b i"
proof -
  have len: "length lowest_bit_bitmap = 256"
    using list_all2_lengthD [OF lowest_bit_table] by simp
  have e: "b mod (2 * 2 ^ (tl lowest_bit_bitmap ! (b - 1))) = 2 ^ (tl lowest_bit_bitmap ! (b - 1)) \<and> tl lowest_bit_bitmap ! (b - 1) < 8"
    using list_all2_nthD [OF lowest_bit_table, of "b - 1"] assms by (simp)
  moreover have "tl lowest_bit_bitmap ! (b - 1) = lowest_bit_bitmap ! b"
    using assms len by (simp add: nth_tl)
  ultimately show "lowest_bit_bitmap ! b < 8" "bit b (lowest_bit_bitmap ! b)"
    "i < lowest_bit_bitmap ! b \<Longrightarrow> \<not> bit b i" using mod_first_bit by auto
qed

lemma byte_of_word:
  "bit (unat (drop_bit n (x AND push_bit n 0xff) :: u32)) i \<longleftrightarrow> i < 8 \<and> bit x (n + i)"
  "unat (drop_bit n (x AND push_bit n 0xff) :: u32) < 256"
proof -
  have e: "drop_bit n (x AND push_bit n 0xff) = drop_bit n x AND (drop_bit n (push_bit n 0xff))"
    by (simp add: drop_bit_and)
  have m: "(0xff :: u32) = mask 8" by (simp add: mask_eq_exp_minus_1)
  show "bit (unat (drop_bit n (x AND push_bit n 0xff) :: u32)) i \<longleftrightarrow> i < 8 \<and> bit x (n + i)"
    by (auto simp: m bit_simps dest: bit_imp_le_length)
  have "drop_bit n (x AND push_bit n 0xff) = take_bit 8 (drop_bit n (x AND push_bit n 0xff))"
    by (rule bit_eqI) (auto simp: m bit_simps)
  then have "unat (drop_bit n (x AND push_bit n 0xff)) < 2 ^ 8"
    by (metis take_bit_nat_less_exp unsigned_take_bit_eq)
  then show "unat (drop_bit n (x AND push_bit n 0xff) :: u32) < 256" by simp
qed

lemma rt_ffs_byte:
  assumes "x AND push_bit n 0xff \<noteq> (0 :: u32)" "n \<in> {0, 8, 16, 24}" "\<forall>i < n. \<not> bit x i"
  defines "j \<equiv> lowest_bit_bitmap ! unat (drop_bit n (x AND push_bit n 0xff))"
  shows "(LEAST i. bit x i) = n + j"
proof -
  define b where "b = unat (drop_bit n (x AND push_bit n 0xff))"
  note byte = byte_of_word [of n x, folded b_def]
  have m: "(0xff :: u32) = mask 8" by (simp add: mask_eq_exp_minus_1)
  obtain i where "bit (x AND push_bit n 0xff) i" using assms(1) by (auto simp: bit_eq_iff)
  then have "n \<le> i" "i - n < 8" "bit x i" by (auto simp: m bit_simps)
  then have "bit b (i - n)" by (simp add: byte)
  then have "0 < b" by (cases b) auto
  note first = lowest_bit_bitmap_first [OF this byte(2), folded j_def [folded b_def]]
  show ?thesis
  proof (rule Least_equality)
    show "bit x (n + j)" using first(2) by (simp add: byte)
    fix y assume y: "bit x y"
    show "n + j \<le> y"
    proof (rule ccontr)
      assume "\<not> n + j \<le> y"
      then have "y < n \<or> y - n < j \<and> n \<le> y" by linarith
      then show False using assms(3) y first(1) first(3) [of "y - n"] byte(1) [of "y - n"] by auto
    qed
  qed
qed

lemma rt_ffs_Least: "rt_ffs x = (if x = 0 then 0 else Suc (LEAST i. bit x i))"
proof -
  have m: "(0xff :: u32) = mask 8" by (simp add: mask_eq_exp_minus_1)
  have z: "x AND push_bit n 0xff = 0 \<longleftrightarrow> (\<forall>i. n \<le> i \<and> i < n + 8 \<longrightarrow> \<not> bit x i)"
    (is "?L = ?R") for n
  proof
    assume ?L
    then have a: "\<not> bit (x AND push_bit n 0xff) i" for i by simp
    have "\<not> bit x i" if "n \<le> i" "i < n + 8" for i
      using a [of i] that bit_imp_le_length [of x i] by (auto simp: m bit_and_iff bit_push_bit_iff bit_mask_iff)
    then show ?R by blast
  next
    assume ?R
    then show ?L by (intro bit_eqI) (auto simp: m bit_and_iff bit_push_bit_iff bit_mask_iff)
  qed
  have low: "\<forall>i<8. \<not> bit x i" if "x AND 0xff = 0" using z [of 0] that by auto
  have low2: "\<forall>i<16. \<not> bit x i" if "x AND 0xff = 0" "x AND 0xff00 = 0"
    using z [of 8] that low by (simp add: push_bit_eq_mult) (metis not_le)
  have low3: "\<forall>i<24. \<not> bit x i" if "x AND 0xff = 0" "x AND 0xff00 = 0" "x AND 0xff0000 = 0"
    using z [of 16] that low2 by (simp add: push_bit_eq_mult) (metis not_le)
  have top: "x AND 0xff000000 \<noteq> 0" if "x AND 0xff = 0" "x AND 0xff00 = 0" "x AND 0xff0000 = 0" "x \<noteq> 0"
  proof
    assume "x AND 0xff000000 = 0"
    then have "\<forall>i. 24 \<le> i \<and> i < 32 \<longrightarrow> \<not> bit x i" using z [of 24] by (simp add: push_bit_eq_mult)
    then have "x = 0" using low3 that bit_imp_le_length [of x] by (auto simp: bit_eq_iff) (metis not_le)
    then show False using that by simp
  qed
  have pb: "push_bit 0 0xff = (0xff :: u32)" "push_bit 8 0xff = (0xff00 :: u32)"
    "push_bit 16 0xff = (0xff0000 :: u32)" "push_bit 24 0xff = (0xff000000 :: u32)"
    by (simp_all add: push_bit_eq_mult)
  note b = rt_ffs_byte [of x 0, unfolded pb] rt_ffs_byte [of x 8, unfolded pb]
    rt_ffs_byte [of x 16, unfolded pb] rt_ffs_byte [of x 24, unfolded pb]
  consider "x = 0" | "x \<noteq> 0" "x AND 0xff \<noteq> 0" | "x \<noteq> 0" "x AND 0xff = 0" "x AND 0xff00 \<noteq> 0"
    | "x \<noteq> 0" "x AND 0xff = 0" "x AND 0xff00 = 0" "x AND 0xff0000 \<noteq> 0"
    | "x \<noteq> 0" "x AND 0xff = 0" "x AND 0xff00 = 0" "x AND 0xff0000 = 0" by blast
  then show ?thesis
  proof cases
    case 1 then show ?thesis by (simp add: rt_ffs_def)
  next
    case 2 then show ?thesis using b(1) by (simp add: rt_ffs_def)
  next
    case 3 then show ?thesis using b(2) low by (simp add: rt_ffs_def)
  next
    case 4 then show ?thesis using b(3) low2 by (simp add: rt_ffs_def)
  next
    case 5 then show ?thesis using b(4) low3 top by (simp add: rt_ffs_def)
  qed
qed

text \<open>
  \<open>__rt_ffs\<close> with its 256-entry table finds the first set bit: it returns one more than the
  index of the lowest set bit of its argument, and 0 for the argument 0.
\<close>

theorem rt_ffs_first_set: "rt_ffs x = (if x = 0 then 0 else Suc (LEAST i. bit x i))"
  by (rule rt_ffs_Least)

end
