(* ===== verification/Rt_Kernel.thy ===== *)
theory Rt_Kernel
  imports Rt_Ffs
begin

unbundle bit_operations_syntax

section \<open>Threads, scheduler and timers of the RT-Thread kernel\<close>

text \<open>
  The state the kernel keeps on the single CPU of the LS1C, and its operations, from
  \<^verbatim>\<open>rt-thread/src/scheduler.c\<close>, \<^verbatim>\<open>thread.c\<close>, \<^verbatim>\<open>timer.c\<close> and \<^verbatim>\<open>clock.c\<close>, in the configuration of \<^verbatim>\<open>rtconfig.h\<close> (32 priorities, no SMP, no soft
  timers, a timer skip list of one level).

  A thread is linked through its one node \<^verbatim>\<open>tlist\<close>, so the doubly linked lists are modelled as a
  family of lists of thread numbers: the ready queue of each priority, the waiting lists of IPC
  objects and the defunct list. Unlinking the node removes the thread from whichever list holds
  it. That a thread is never linked twice is not built in: it is part of the invariant \<open>kinv\<close>
  that the operations are shown to keep. A failing \<^verbatim>\<open>RT_ASSERT\<close> stops the system; it sets
  \<open>halted\<close>, which no operation clears. Signals and hooks are not modelled.
\<close>

named_theorems kern_simps \<open>kernel operations on the fields they leave alone\<close>

subsection \<open>State\<close>

datatype tstat = RT_THREAD_INIT | RT_THREAD_READY | RT_THREAD_SUSPEND | RT_THREAD_RUNNING
  | RT_THREAD_CLOSE

type_synonym tid = nat

datatype lid = Ready nat | Wait nat | WaitSend nat | Defunct

datatype tmid = ThreadTimer tid | UserTimer nat

record rt_timer =
  activated :: bool
  periodic :: bool
  init_tick :: u32
  timeout_tick :: u32

record rt_thread =
  stat :: tstat
  stat_yield :: bool
  init_priority :: nat
  current_priority :: nat
  number_mask :: u32
  th_init_tick :: u32
  remaining_tick :: u32
  th_error :: rt_err
  event_set :: u32
  event_info :: u8
  is_systemobject :: bool
  has_cleanup :: bool

record kern =
  threads :: "tid \<Rightarrow> rt_thread"
  queues :: "lid \<Rightarrow> tid list"
  ready_group :: u32
  rt_current_thread :: "tid option"
  rt_current_priority :: nat
  lock_nest :: nat
  rt_tick :: u32
  timers :: "tmid \<Rightarrow> rt_timer"
  rt_timer_list :: "tmid list"
  halted :: bool

abbreviation HALF_TICK_MAX :: u32 where "HALF_TICK_MAX \<equiv> 0x7fffffff"

definition rt_assert :: "bool \<Rightarrow> kern \<Rightarrow> kern" where
  "rt_assert c k = (if c then k else k\<lparr>halted := True\<rparr>)"

definition upd_thread :: "tid \<Rightarrow> (rt_thread \<Rightarrow> rt_thread) \<Rightarrow> kern \<Rightarrow> kern" where
  "upd_thread t f k = k\<lparr>threads := (threads k)(t := f (threads k t))\<rparr>"

definition upd_timer :: "tmid \<Rightarrow> (rt_timer \<Rightarrow> rt_timer) \<Rightarrow> kern \<Rightarrow> kern" where
  "upd_timer m f k = k\<lparr>timers := (timers k)(m := f (timers k m))\<rparr>"

text \<open>\<^verbatim>\<open>thread->stat = s | (thread->stat & ~RT_THREAD_STAT_MASK)\<close>, and the node removal.\<close>

definition set_stat :: "tid \<Rightarrow> tstat \<Rightarrow> kern \<Rightarrow> kern" where
  "set_stat t s = upd_thread t (\<lambda>th. th\<lparr>stat := s\<rparr>)"

definition set_error :: "tid \<Rightarrow> rt_err \<Rightarrow> kern \<Rightarrow> kern" where
  "set_error t e = upd_thread t (\<lambda>th. th\<lparr>th_error := e\<rparr>)"

definition rt_list_remove :: "tid \<Rightarrow> kern \<Rightarrow> kern" where
  "rt_list_remove t k = k\<lparr>queues := (\<lambda>l. removeAll t (queues k l))\<rparr>"

subsection \<open>Timers (\<^verbatim>\<open>timer.c\<close>)\<close>

datatype timer_cmd = RT_TIMER_CTRL_GET_TIME | RT_TIMER_CTRL_SET_TIME u32 | RT_TIMER_CTRL_SET_ONESHOT
  | RT_TIMER_CTRL_SET_PERIODIC | RT_TIMER_CTRL_GET_STATE

definition rt_timer_remove :: "tmid \<Rightarrow> kern \<Rightarrow> kern" where
  "rt_timer_remove m k = k\<lparr>rt_timer_list := removeAll m (rt_timer_list k)\<rparr>"

definition rt_timer_init :: "tmid \<Rightarrow> u32 \<Rightarrow> bool \<Rightarrow> kern \<Rightarrow> kern" where
  "rt_timer_init m time per k =
     k\<lparr>timers := (timers k)(m := \<lparr>activated = False, periodic = per, init_tick = time, timeout_tick = 0\<rparr>)\<rparr>"

definition rt_timer_detach :: "tmid \<Rightarrow> kern \<Rightarrow> kern" where
  "rt_timer_detach m k = rt_timer_remove m k"

text \<open>The place of a new timer: before the first one that expires strictly later.\<close>

fun timer_insert :: "(tmid \<Rightarrow> u32) \<Rightarrow> tmid \<Rightarrow> tmid list \<Rightarrow> tmid list" where
  "timer_insert timeout m [] = [m]"
| "timer_insert timeout m (t # ts) =
     (if timeout t - timeout m = 0 then t # timer_insert timeout m ts
      else if timeout t - timeout m < HALF_TICK_MAX then m # t # ts
      else t # timer_insert timeout m ts)"

definition rt_timer_start :: "tmid \<Rightarrow> kern \<Rightarrow> kern" where
  "rt_timer_start m k =
     (let k = rt_timer_remove m k;
          k = upd_timer m (\<lambda>tm. tm\<lparr>activated := False\<rparr>) k;
          k = rt_assert (init_tick (timers k m) < HALF_TICK_MAX) k;
          k = upd_timer m (\<lambda>tm. tm\<lparr>timeout_tick := rt_tick k + init_tick tm\<rparr>) k;
          k = k\<lparr>rt_timer_list := timer_insert (\<lambda>i. timeout_tick (timers k i)) m (rt_timer_list k)\<rparr>
      in upd_timer m (\<lambda>tm. tm\<lparr>activated := True\<rparr>) k)"

definition rt_timer_stop :: "tmid \<Rightarrow> kern \<Rightarrow> kern \<times> rt_err" where
  "rt_timer_stop m k =
     (if \<not> activated (timers k m) then (k, RT_ERROR)
      else (upd_timer m (\<lambda>tm. tm\<lparr>activated := False\<rparr>) (rt_timer_remove m k), RT_EOK))"

text \<open>The second result is what \<^verbatim>\<open>*arg\<close> receives; \<^verbatim>\<open>RT_TIMER_FLAG_ACTIVATED\<close> is 1.\<close>

fun rt_timer_control :: "tmid \<Rightarrow> timer_cmd \<Rightarrow> kern \<Rightarrow> kern \<times> u32 option" where
  "rt_timer_control m RT_TIMER_CTRL_GET_TIME k = (k, Some (init_tick (timers k m)))"
| "rt_timer_control m (RT_TIMER_CTRL_SET_TIME v) k = (upd_timer m (\<lambda>tm. tm\<lparr>init_tick := v\<rparr>) k, None)"
| "rt_timer_control m RT_TIMER_CTRL_SET_ONESHOT k = (upd_timer m (\<lambda>tm. tm\<lparr>periodic := False\<rparr>) k, None)"
| "rt_timer_control m RT_TIMER_CTRL_SET_PERIODIC k = (upd_timer m (\<lambda>tm. tm\<lparr>periodic := True\<rparr>) k, None)"
| "rt_timer_control m RT_TIMER_CTRL_GET_STATE k = (k, Some (if activated (timers k m) then 1 else 0))"

definition rt_timer_next_timeout_tick :: "kern \<Rightarrow> u32" where
  "rt_timer_next_timeout_tick k =
     (case rt_timer_list k of [] \<Rightarrow> 0xffffffff | m # _ \<Rightarrow> timeout_tick (timers k m))"

subsection \<open>Scheduler (\<^verbatim>\<open>scheduler.c\<close>)\<close>

definition rt_schedule_insert_thread :: "tid \<Rightarrow> kern \<Rightarrow> kern" where
  "rt_schedule_insert_thread t k =
     (if rt_current_thread k = Some t then set_stat t RT_THREAD_RUNNING k
      else let k = set_stat t RT_THREAD_READY k;
               th = threads k t;
               q = Ready (current_priority th)
           in k\<lparr>queues := (queues k)(q := queues k q @ [t]),
                ready_group := ready_group k OR number_mask th\<rparr>)"

definition rt_schedule_remove_thread :: "tid \<Rightarrow> kern \<Rightarrow> kern" where
  "rt_schedule_remove_thread t k =
     (let k = rt_list_remove t k;
          th = threads k t
      in if queues k (Ready (current_priority th)) = []
         then k\<lparr>ready_group := ready_group k AND NOT (number_mask th)\<rparr>
         else k)"

definition get_highest_priority_thread :: "kern \<Rightarrow> nat \<times> tid" where
  "get_highest_priority_thread k =
     (let highest_ready_priority = rt_ffs (ready_group k) - 1
      in (highest_ready_priority, hd (queues k (Ready highest_ready_priority))))"

definition rt_schedule :: "kern \<Rightarrow> kern" where
  "rt_schedule k =
     (if lock_nest k \<noteq> 0 \<or> ready_group k = 0 then k
      else case rt_current_thread k of
        None \<Rightarrow> k\<lparr>halted := True\<rparr>
      | Some cur \<Rightarrow>
          let (highest_ready_priority, to_thread) = get_highest_priority_thread k;
              c = threads k cur;
              running = (stat c = RT_THREAD_RUNNING);
              stay = (running \<and>
                      (current_priority c < highest_ready_priority \<or>
                       current_priority c = highest_ready_priority \<and> \<not> stat_yield c));
              to_thread = (if stay then cur else to_thread);
              need_insert_from_thread = (running \<and> \<not> stay);
              k = (if running then upd_thread cur (\<lambda>th. th\<lparr>stat_yield := False\<rparr>) k else k)
          in if to_thread \<noteq> cur
             then let k = k\<lparr>rt_current_priority := highest_ready_priority, rt_current_thread := Some to_thread\<rparr>;
                      k = (if need_insert_from_thread then rt_schedule_insert_thread cur k else k);
                      k = rt_schedule_remove_thread to_thread k
                  in set_stat to_thread RT_THREAD_RUNNING k
             else set_stat cur RT_THREAD_RUNNING (rt_schedule_remove_thread cur k))"

definition rt_system_scheduler_start :: "kern \<Rightarrow> kern" where
  "rt_system_scheduler_start k =
     (let to_thread = snd (get_highest_priority_thread k);
          k = k\<lparr>rt_current_thread := Some to_thread\<rparr>;
          k = rt_schedule_remove_thread to_thread k
      in upd_thread to_thread (\<lambda>th. th\<lparr>stat := RT_THREAD_RUNNING, stat_yield := False\<rparr>) k)"

definition rt_system_scheduler_init :: "kern \<Rightarrow> kern" where
  "rt_system_scheduler_init k =
     k\<lparr>lock_nest := 0,
       queues := (\<lambda>l. case l of Ready p \<Rightarrow> [] | Defunct \<Rightarrow> [] | Wait i \<Rightarrow> queues k (Wait i) | WaitSend i \<Rightarrow> queues k (WaitSend i)),
       ready_group := 0\<rparr>"

definition rt_system_timer_init :: "kern \<Rightarrow> kern" where
  "rt_system_timer_init k = k\<lparr>rt_timer_list := []\<rparr>"

definition rt_enter_critical :: "kern \<Rightarrow> kern" where
  "rt_enter_critical k = k\<lparr>lock_nest := lock_nest k + 1\<rparr>"

text \<open>The nesting counter is a signed number that is reset to zero when it falls to zero or below.\<close>

definition rt_exit_critical :: "kern \<Rightarrow> kern" where
  "rt_exit_critical k =
     (let k = k\<lparr>lock_nest := lock_nest k - 1\<rparr>
      in if lock_nest k = 0 \<and> rt_current_thread k \<noteq> None then rt_schedule k else k)"

subsection \<open>Threads (\<^verbatim>\<open>thread.c\<close>)\<close>

text \<open>
  \<^verbatim>\<open>_rt_thread_init\<close> initialises the node of a thread that is in no list yet; the thread's stack and
  entry function are not modelled.
\<close>

definition rt_thread_init :: "tid \<Rightarrow> nat \<Rightarrow> u32 \<Rightarrow> bool \<Rightarrow> kern \<Rightarrow> kern" where
  "rt_thread_init t priority tick0 sysobj k =
     (let k = rt_assert (priority < 32) k;
          k = upd_thread t (\<lambda>th. th\<lparr>init_priority := priority, current_priority := priority,
                number_mask := 0, th_init_tick := tick0, remaining_tick := tick0,
                th_error := RT_EOK, stat := RT_THREAD_INIT, stat_yield := False,
                is_systemobject := sysobj, has_cleanup := False\<rparr>) k
      in rt_timer_init (ThreadTimer t) 0 False k)"

definition rt_thread_suspend :: "tid \<Rightarrow> kern \<Rightarrow> kern \<times> rt_err" where
  "rt_thread_suspend t k =
     (let st = stat (threads k t)
      in if st \<noteq> RT_THREAD_READY \<and> st \<noteq> RT_THREAD_RUNNING then (k, RT_ERROR)
         else let k = rt_assert (st = RT_THREAD_RUNNING \<longrightarrow> rt_current_thread k = Some t) k;
                  k = rt_schedule_remove_thread t k;
                  k = set_stat t RT_THREAD_SUSPEND k;
                  k = fst (rt_timer_stop (ThreadTimer t) k)
              in (k, RT_EOK))"

definition rt_thread_resume :: "tid \<Rightarrow> kern \<Rightarrow> kern \<times> rt_err" where
  "rt_thread_resume t k =
     (if stat (threads k t) \<noteq> RT_THREAD_SUSPEND then (k, RT_ERROR)
      else let k = rt_list_remove t k;
               k = fst (rt_timer_stop (ThreadTimer t) k)
           in (rt_schedule_insert_thread t k, RT_EOK))"

definition rt_thread_timeout :: "tid \<Rightarrow> kern \<Rightarrow> kern" where
  "rt_thread_timeout t k =
     (let k = rt_assert (stat (threads k t) = RT_THREAD_SUSPEND) k;
          k = set_error t RT_ETIMEOUT k;
          k = rt_list_remove t k;
          k = rt_schedule_insert_thread t k
      in rt_schedule k)"

definition rt_thread_startup :: "tid \<Rightarrow> kern \<Rightarrow> kern" where
  "rt_thread_startup t k =
     (let k = rt_assert (stat (threads k t) = RT_THREAD_INIT) k;
          k = upd_thread t (\<lambda>th. th\<lparr>current_priority := init_priority th,
                number_mask := push_bit (init_priority th) 1,
                stat := RT_THREAD_SUSPEND, stat_yield := False\<rparr>) k;
          k = fst (rt_thread_resume t k)
      in if rt_current_thread k \<noteq> None then rt_schedule k else k)"

text \<open>Closing a thread: a static object without clean-up is detached, any other goes to the head of the defunct list.\<close>

definition close_thread :: "tid \<Rightarrow> kern \<Rightarrow> kern" where
  "close_thread t k =
     (let k = upd_thread t (\<lambda>th. th\<lparr>stat := RT_THREAD_CLOSE, stat_yield := False\<rparr>) k
      in if is_systemobject (threads k t) \<and> \<not> has_cleanup (threads k t) then k
         else k\<lparr>queues := (queues k)(Defunct := t # queues k Defunct)\<rparr>)"

definition rt_thread_exit :: "tid \<Rightarrow> kern \<Rightarrow> kern" where
  "rt_thread_exit t k =
     (let k = rt_schedule_remove_thread t k;
          k = rt_timer_detach (ThreadTimer t) k;
          k = close_thread t k
      in rt_schedule k)"

definition rt_thread_detach :: "tid \<Rightarrow> kern \<Rightarrow> kern" where
  "rt_thread_detach t k =
     (if stat (threads k t) = RT_THREAD_CLOSE then k
      else let k = (if stat (threads k t) \<noteq> RT_THREAD_INIT then rt_schedule_remove_thread t k else k);
               k = rt_timer_detach (ThreadTimer t) k
           in close_thread t k)"

definition rt_thread_delete :: "tid \<Rightarrow> kern \<Rightarrow> kern" where
  "rt_thread_delete t k =
     (if stat (threads k t) = RT_THREAD_CLOSE then k
      else let k = (if stat (threads k t) \<noteq> RT_THREAD_INIT then rt_schedule_remove_thread t k else k);
               k = rt_timer_detach (ThreadTimer t) k;
               k = upd_thread t (\<lambda>th. th\<lparr>stat := RT_THREAD_CLOSE, stat_yield := False\<rparr>) k
           in k\<lparr>queues := (queues k)(Defunct := t # queues k Defunct)\<rparr>)"

definition rt_thread_yield :: "tid \<Rightarrow> kern \<Rightarrow> kern" where
  "rt_thread_yield t k =
     rt_schedule (upd_thread t (\<lambda>th. th\<lparr>remaining_tick := th_init_tick th, stat_yield := True\<rparr>) k)"

text \<open>
  \<open>rt_thread_sleep\<close> up to the context switch, and what it does when the thread runs again;
  \<open>rt_thread_delay\<close> is the same call.
\<close>

definition rt_thread_sleep :: "tid \<Rightarrow> u32 \<Rightarrow> kern \<Rightarrow> kern" where
  "rt_thread_sleep t tick0 k =
     (let k = fst (rt_thread_suspend t k);
          k = fst (rt_timer_control (ThreadTimer t) (RT_TIMER_CTRL_SET_TIME tick0) k);
          k = rt_timer_start (ThreadTimer t) k
      in rt_schedule k)"

definition rt_thread_sleep_end :: "tid \<Rightarrow> kern \<Rightarrow> kern" where
  "rt_thread_sleep_end t k =
     (if th_error (threads k t) = RT_ETIMEOUT then set_error t RT_EOK k else k)"

text \<open>\<open>rt_thread_delay_until\<close>: the tick the caller passed, as an amount to sleep or \<open>None\<close> when it does not sleep.\<close>

definition delay_until_ticks :: "u32 \<Rightarrow> u32 \<Rightarrow> u32 \<Rightarrow> u32 option" where
  "delay_until_ticks now tick0 inc_tick =
     (if now - tick0 < inc_tick then Some (now - tick0 + inc_tick) else None)"

definition rt_thread_delay_until :: "tid \<Rightarrow> u32 \<Rightarrow> u32 \<Rightarrow> kern \<Rightarrow> kern" where
  "rt_thread_delay_until t tick0 inc_tick k =
     (case delay_until_ticks (rt_tick k) tick0 inc_tick of
        None \<Rightarrow> k
      | Some n \<Rightarrow> rt_thread_sleep t n k)"

definition change_priority :: "tid \<Rightarrow> nat \<Rightarrow> kern \<Rightarrow> kern" where
  "change_priority t prio k =
     (let set_prio = upd_thread t (\<lambda>th. th\<lparr>current_priority := prio, number_mask := push_bit prio 1\<rparr>)
      in if stat (threads k t) = RT_THREAD_READY
         then rt_schedule_insert_thread t (set_prio (rt_schedule_remove_thread t k))
         else set_prio k)"

datatype thread_cmd = RT_THREAD_CTRL_CHANGE_PRIORITY nat | RT_THREAD_CTRL_STARTUP | RT_THREAD_CTRL_CLOSE

fun rt_thread_control :: "tid \<Rightarrow> thread_cmd \<Rightarrow> kern \<Rightarrow> kern" where
  "rt_thread_control t (RT_THREAD_CTRL_CHANGE_PRIORITY prio) k = change_priority t prio k"
| "rt_thread_control t RT_THREAD_CTRL_STARTUP k = rt_thread_startup t k"
| "rt_thread_control t RT_THREAD_CTRL_CLOSE k =
     (if is_systemobject (threads k t) then rt_thread_detach t k else rt_thread_delete t k)"

subsection \<open>The tick interrupt (\<^verbatim>\<open>timer.c\<close>, \<^verbatim>\<open>clock.c\<close>)\<close>

text \<open>
  The timeout function of a thread's timer is \<open>rt_thread_timeout\<close>; that of any other timer is the
  parameter \<open>cb\<close>, installed by the code that created the timer. The loop restarts a periodic
  timer as soon as it has fired, so it need not end (a period of zero): \<open>fuel\<close> bounds it and
  \<open>None\<close> means that it was not enough.
\<close>

definition timeout_func :: "(nat \<Rightarrow> kern \<Rightarrow> kern) \<Rightarrow> tmid \<Rightarrow> kern \<Rightarrow> kern" where
  "timeout_func cb m = (case m of ThreadTimer t \<Rightarrow> rt_thread_timeout t | UserTimer n \<Rightarrow> cb n)"

definition timer_fire :: "(nat \<Rightarrow> kern \<Rightarrow> kern) \<Rightarrow> tmid \<Rightarrow> kern \<Rightarrow> kern" where
  "timer_fire cb m k =
     (let k = rt_timer_remove m k;
          k = timeout_func cb m k
      in if periodic (timers k m) \<and> activated (timers k m)
         then rt_timer_start m (upd_timer m (\<lambda>tm. tm\<lparr>activated := False\<rparr>) k)
         else upd_timer m (\<lambda>tm. tm\<lparr>activated := False\<rparr>) k)"

fun timer_check_loop :: "(nat \<Rightarrow> kern \<Rightarrow> kern) \<Rightarrow> nat \<Rightarrow> u32 \<Rightarrow> kern \<Rightarrow> kern option" where
  "timer_check_loop cb 0 current_tick k = None"
| "timer_check_loop cb (Suc fuel) current_tick k =
     (case rt_timer_list k of
        [] \<Rightarrow> Some k
      | m # _ \<Rightarrow>
          if current_tick - timeout_tick (timers k m) < HALF_TICK_MAX
          then let k = timer_fire cb m k in timer_check_loop cb fuel (rt_tick k) k
          else Some k)"

definition rt_timer_check :: "(nat \<Rightarrow> kern \<Rightarrow> kern) \<Rightarrow> nat \<Rightarrow> kern \<Rightarrow> kern option" where
  "rt_timer_check cb fuel k = timer_check_loop cb fuel (rt_tick k) k"

definition time_slice :: "tid \<Rightarrow> kern \<Rightarrow> kern" where
  "time_slice t k =
     (let k = upd_thread t (\<lambda>th. th\<lparr>remaining_tick := remaining_tick th - 1\<rparr>) k
      in if remaining_tick (threads k t) = 0
         then rt_schedule (upd_thread t (\<lambda>th. th\<lparr>remaining_tick := th_init_tick th, stat_yield := True\<rparr>) k)
         else k)"

definition rt_tick_increase :: "(nat \<Rightarrow> kern \<Rightarrow> kern) \<Rightarrow> nat \<Rightarrow> kern \<Rightarrow> kern option" where
  "rt_tick_increase cb fuel k =
     (let k = k\<lparr>rt_tick := rt_tick k + 1\<rparr>
      in case rt_current_thread k of
           None \<Rightarrow> Some (k\<lparr>halted := True\<rparr>)
         | Some t \<Rightarrow> rt_timer_check cb fuel (time_slice t k))"

text \<open>\<open>rt_tick_from_millisecond\<close> with 1000 ticks per second; the argument is a signed 32-bit number.\<close>

definition rt_tick_from_millisecond :: "u32 \<Rightarrow> u32" where
  "rt_tick_from_millisecond ms =
     (if sint ms < 0 then 0xffffffff
      else 1000 * (ms div 1000) + (1000 * (ms mod 1000) + 999) div 1000)"

subsection \<open>The kernel before its threads are created\<close>

text \<open>Statically allocated storage: all zero.\<close>

definition zero_thread :: rt_thread where
  "zero_thread = \<lparr>stat = RT_THREAD_INIT, stat_yield = False, init_priority = 0, current_priority = 0,
     number_mask = 0, th_init_tick = 0, remaining_tick = 0, th_error = RT_EOK, event_set = 0,
     event_info = 0, is_systemobject = False, has_cleanup = False\<rparr>"

definition zero_timer :: rt_timer where
  "zero_timer = \<lparr>activated = False, periodic = False, init_tick = 0, timeout_tick = 0\<rparr>"

definition boot :: kern where
  "boot = rt_system_timer_init (rt_system_scheduler_init
     \<lparr>threads = (\<lambda>_. zero_thread), queues = (\<lambda>_. []), ready_group = 0, rt_current_thread = None,
      rt_current_priority = 0, lock_nest = 0, rt_tick = 0, timers = (\<lambda>_. zero_timer), rt_timer_list = [],
      halted = False\<rparr>)"

end
