(* ===== verification/Rt_Kernel_Inv.thy ===== *)
theory Rt_Kernel_Inv
  imports Rt_Kernel
begin

unbundle bit_operations_syntax

section \<open>The kernel invariant\<close>

text \<open>
  What the kernel's lists, thread states, priority bitmap and timer list have to do with each
  other, and that every scheduler, thread and timer operation keeps it. Inside an operation a
  thread is unlinked and its state is changed in several steps; \<open>kinv_x X\<close> is the invariant in
  which the threads of \<open>X\<close> are between two states (and in no list).
\<close>

subsection \<open>Definition\<close>

definition live :: "rt_thread \<Rightarrow> bool" where
  "live th \<longleftrightarrow> stat th \<noteq> RT_THREAD_INIT \<and> stat th \<noteq> RT_THREAD_CLOSE"

fun stat_of :: "lid \<Rightarrow> tstat" where
  "stat_of (Ready p) = RT_THREAD_READY"
| "stat_of (Wait i) = RT_THREAD_SUSPEND"
| "stat_of (WaitSend i) = RT_THREAD_SUSPEND"
| "stat_of Defunct = RT_THREAD_CLOSE"

definition links_ok :: "tid set \<Rightarrow> kern \<Rightarrow> bool" where
  "links_ok X k \<longleftrightarrow>
     (\<forall>l. distinct (queues k l)) \<and>
     (\<forall>l l' t. t \<in> set (queues k l) \<longrightarrow> t \<in> set (queues k l') \<longrightarrow> l = l') \<and>
     (\<forall>l t. t \<in> set (queues k l) \<longrightarrow> t \<notin> X \<and> stat (threads k t) = stat_of l) \<and>
     (\<forall>p t. t \<in> set (queues k (Ready p)) \<longrightarrow> current_priority (threads k t) = p) \<and>
     (\<forall>t. t \<notin> X \<longrightarrow> stat (threads k t) = RT_THREAD_READY \<longrightarrow>
          t \<in> set (queues k (Ready (current_priority (threads k t)))))"

definition prio_ok :: "kern \<Rightarrow> bool" where
  "prio_ok k \<longleftrightarrow>
     (\<forall>t. live (threads k t) \<longrightarrow>
          current_priority (threads k t) < 32 \<and>
          number_mask (threads k t) = push_bit (current_priority (threads k t)) 1) \<and>
     (\<forall>p. bit (ready_group k) p \<longleftrightarrow> queues k (Ready p) \<noteq> [])"

definition run_ok :: "tid set \<Rightarrow> kern \<Rightarrow> bool" where
  "run_ok X k \<longleftrightarrow>
     (\<forall>t. t \<notin> X \<longrightarrow> stat (threads k t) = RT_THREAD_RUNNING \<longrightarrow> rt_current_thread k = Some t)"

definition timers_ok :: "tid set \<Rightarrow> kern \<Rightarrow> bool" where
  "timers_ok X k \<longleftrightarrow>
     distinct (rt_timer_list k) \<and>
     (\<forall>m \<in> set (rt_timer_list k). activated (timers k m)) \<and>
     (\<forall>t. \<not> periodic (timers k (ThreadTimer t))) \<and>
     (\<forall>t. ThreadTimer t \<in> set (rt_timer_list k) \<longrightarrow> t \<notin> X \<longrightarrow> stat (threads k t) = RT_THREAD_SUSPEND)"

definition kinv_x :: "tid set \<Rightarrow> kern \<Rightarrow> bool" where
  "kinv_x X k \<longleftrightarrow> links_ok X k \<and> prio_ok k \<and> run_ok X k \<and> timers_ok X k"

abbreviation kinv :: "kern \<Rightarrow> bool" where "kinv \<equiv> kinv_x {}"

lemmas kinv_defs = kinv_x_def links_ok_def prio_ok_def run_ok_def timers_ok_def

text \<open>The operations on fields they do not touch.\<close>

lemma upd_thread_sel [simp]:
  "threads (upd_thread t f k) = (threads k)(t := f (threads k t))"
  "queues (upd_thread t f k) = queues k" "ready_group (upd_thread t f k) = ready_group k"
  "rt_current_thread (upd_thread t f k) = rt_current_thread k"
  "lock_nest (upd_thread t f k) = lock_nest k" "rt_tick (upd_thread t f k) = rt_tick k"
  "timers (upd_thread t f k) = timers k" "rt_timer_list (upd_thread t f k) = rt_timer_list k"
  "halted (upd_thread t f k) = halted k"
  by (simp_all add: upd_thread_def)

lemma upd_timer_sel [simp]:
  "timers (upd_timer m g k) = (timers k)(m := g (timers k m))"
  "threads (upd_timer m g k) = threads k"
  "queues (upd_timer m g k) = queues k" "ready_group (upd_timer m g k) = ready_group k"
  "rt_current_thread (upd_timer m g k) = rt_current_thread k"
  "lock_nest (upd_timer m g k) = lock_nest k" "rt_tick (upd_timer m g k) = rt_tick k"
  "rt_timer_list (upd_timer m g k) = rt_timer_list k" "halted (upd_timer m g k) = halted k"
  by (simp_all add: upd_timer_def)

lemma rt_assert_sel [simp]:
  "timers (rt_assert c k) = timers k" "threads (rt_assert c k) = threads k"
  "queues (rt_assert c k) = queues k" "ready_group (rt_assert c k) = ready_group k"
  "rt_current_thread (rt_assert c k) = rt_current_thread k"
  "lock_nest (rt_assert c k) = lock_nest k" "rt_tick (rt_assert c k) = rt_tick k"
  "rt_timer_list (rt_assert c k) = rt_timer_list k"
  "halted (rt_assert c k) \<longleftrightarrow> halted k \<or> \<not> c"
  by (simp_all add: rt_assert_def)

lemma rt_list_remove_sel [simp]:
  "queues (rt_list_remove t k) l = removeAll t (queues k l)"
  "timers (rt_list_remove t k) = timers k" "threads (rt_list_remove t k) = threads k"
  "ready_group (rt_list_remove t k) = ready_group k"
  "rt_current_thread (rt_list_remove t k) = rt_current_thread k"
  "lock_nest (rt_list_remove t k) = lock_nest k" "rt_tick (rt_list_remove t k) = rt_tick k"
  "rt_timer_list (rt_list_remove t k) = rt_timer_list k" "halted (rt_list_remove t k) = halted k"
  by (simp_all add: rt_list_remove_def)

lemma kinv_x_halted [simp]:
  "kinv_x X (k\<lparr>halted := b\<rparr>) = kinv_x X k" "kinv_x X (rt_assert c k) = kinv_x X k"
  "kinv_x X (k\<lparr>rt_current_priority := n\<rparr>) = kinv_x X k" "kinv_x X (k\<lparr>lock_nest := m\<rparr>) = kinv_x X k"
  "kinv_x X (k\<lparr>rt_tick := w\<rparr>) = kinv_x X k"
  by (simp_all add: kinv_defs)

subsection \<open>Ready queue\<close>

lemma bit_one_push: "bit (2 ^ p :: u32) i \<longleftrightarrow> i = p \<and> p < 32"
  by (auto simp: bit_exp_iff)

lemma remove_thread_sel [simp]:
  "queues (rt_schedule_remove_thread t k) l = removeAll t (queues k l)"
  "timers (rt_schedule_remove_thread t k) = timers k"
  "threads (rt_schedule_remove_thread t k) = threads k"
  "rt_current_thread (rt_schedule_remove_thread t k) = rt_current_thread k"
  "lock_nest (rt_schedule_remove_thread t k) = lock_nest k"
  "rt_tick (rt_schedule_remove_thread t k) = rt_tick k"
  "rt_timer_list (rt_schedule_remove_thread t k) = rt_timer_list k"
  "halted (rt_schedule_remove_thread t k) = halted k"
  by (simp_all add: rt_schedule_remove_thread_def Let_def)

lemma ready_group_remove:
  assumes "kinv_x X k" "live (threads k t)"
  shows "bit (ready_group (rt_schedule_remove_thread t k)) p \<longleftrightarrow> removeAll t (queues k (Ready p)) \<noteq> []"
proof (cases "p = current_priority (threads k t)")
  case True
  with assms show ?thesis
    by (auto simp: rt_schedule_remove_thread_def Let_def kinv_x_def prio_ok_def bit_and_iff bit_not_iff
        bit_one_push)
next
  case False
  with assms have "t \<notin> set (queues k (Ready p))" by (auto simp: kinv_x_def links_ok_def)
  moreover have "bit (number_mask (threads k t)) p = False"
    using assms False by (auto simp: kinv_x_def prio_ok_def bit_one_push)
  ultimately show ?thesis using assms bit_imp_le_length [of "ready_group k" p]
    by (auto simp: rt_schedule_remove_thread_def Let_def kinv_x_def prio_ok_def bit_and_iff bit_not_iff)
qed

lemma kinv_x_unlink:
  assumes "kinv_x X k" "stat (threads k t) = RT_THREAD_SUSPEND"
  shows "kinv_x X (rt_list_remove t k)"
proof -
  have "t \<notin> set (queues k (Ready p))" for p
    using assms by (auto simp: kinv_x_def links_ok_def)
  then have [simp]: "removeAll t (queues k (Ready p)) = queues k (Ready p)" for p by simp
  show ?thesis using assms by (auto simp: kinv_defs distinct_removeAll)
qed

lemma kinv_x_remove:
  assumes "kinv_x X k" "live (threads k t)"
  shows "kinv_x (insert t X) (rt_schedule_remove_thread t k)"
proof -
  have "links_ok (insert t X) (rt_schedule_remove_thread t k)"
    using assms(1) by (auto simp: kinv_x_def links_ok_def distinct_removeAll)
  moreover have "prio_ok (rt_schedule_remove_thread t k)"
    using assms(1) ready_group_remove [OF assms] by (simp add: kinv_x_def prio_ok_def)
  moreover have "run_ok (insert t X) (rt_schedule_remove_thread t k)"
    using assms(1) by (simp add: kinv_x_def run_ok_def)
  moreover have "timers_ok (insert t X) (rt_schedule_remove_thread t k)"
    using assms(1) by (simp add: kinv_x_def timers_ok_def)
  ultimately show ?thesis by (simp add: kinv_x_def)
qed

lemma kinv_x_enter:
  "kinv_x X k \<Longrightarrow> \<forall>l. t \<notin> set (queues k l) \<Longrightarrow> kinv_x (insert t X) k"
  by (auto simp: kinv_defs)

text \<open>A thread that is between two states takes one of them.\<close>

lemma kinv_x_set_stat:
  assumes "kinv_x X k" "t \<in> X" "live (threads k t)" "live ((threads k t)\<lparr>stat := s\<rparr>)"
    "s \<noteq> RT_THREAD_READY" "s = RT_THREAD_RUNNING \<Longrightarrow> rt_current_thread k = Some t"
    "s \<noteq> RT_THREAD_SUSPEND \<Longrightarrow> ThreadTimer t \<notin> set (rt_timer_list k)"
  shows "kinv_x (X - {t}) (set_stat t s k)"
  using assms unfolding kinv_x_def
  apply (intro conjI)
  subgoal by (auto simp: links_ok_def set_stat_def)
  subgoal by (auto simp: prio_ok_def set_stat_def live_def)
  subgoal by (auto simp: run_ok_def set_stat_def)
  subgoal by (auto simp: timers_ok_def set_stat_def)
  done

lemma links_ok_put:
  assumes ok: "links_ok X k" and t: "\<forall>l. t \<notin> set (queues k l)"
    and q: "set q = insert t (set (queues k l0))" "distinct q"
    and st: "stat (threads k' t) = stat_of l0" "\<And>p. l0 = Ready p \<Longrightarrow> current_priority (threads k' t) = p"
    and thr: "\<And>u. u \<noteq> t \<Longrightarrow> threads k' u = threads k u"
    and qs: "queues k' = (queues k)(l0 := q)"
  shows "links_ok (X - {t}) k'"
  unfolding links_ok_def qs
proof (intro conjI allI impI)
  fix l u assume "u \<in> set (((queues k)(l0 := q)) l)"
  then have c: "u = t \<and> l = l0 \<or> u \<noteq> t \<and> u \<in> set (queues k l)" using t q(1) by (auto split: if_splits)
  then show "stat (threads k' u) = stat_of l" "u \<notin> X - {t}"
    using ok st thr by (auto simp: links_ok_def)
next
  fix l l' u assume "u \<in> set (((queues k)(l0 := q)) l)" "u \<in> set (((queues k)(l0 := q)) l')"
  then have "u = t \<and> l = l0 \<and> l' = l0 \<or> u \<in> set (queues k l) \<and> u \<in> set (queues k l')"
    using t q(1) by (auto split: if_splits)
  then show "l = l'" using ok unfolding links_ok_def by blast
next
  fix p u assume "u \<in> set (((queues k)(l0 := q)) (Ready p))"
  then have "u = t \<and> l0 = Ready p \<or> u \<noteq> t \<and> u \<in> set (queues k (Ready p))"
    using t q(1) by (auto split: if_splits)
  then show "current_priority (threads k' u) = p" using ok st(2) thr by (auto simp: links_ok_def)
next
  fix u assume u: "u \<notin> X - {t}" "stat (threads k' u) = RT_THREAD_READY"
  show "u \<in> set (((queues k)(l0 := q)) (Ready (current_priority (threads k' u))))"
  proof (cases "u = t")
    case True
    then show ?thesis using u(2) st q(1) by (cases l0) auto
  next
    case False
    then have "u \<in> set (queues k (Ready (current_priority (threads k u))))"
      using u thr ok by (auto simp: links_ok_def)
    then show ?thesis using q(1) thr False by auto
  qed
next
  fix l show "distinct (((queues k)(l0 := q)) l)" using ok q(2) by (auto simp: links_ok_def)
qed

lemma kinv_x_insert:
  assumes "kinv_x X k" "t \<in> X" "live (threads k t)" "ThreadTimer t \<notin> set (rt_timer_list k)"
  shows "kinv_x (X - {t}) (rt_schedule_insert_thread t k)"
proof (cases "rt_current_thread k = Some t")
  case True
  then show ?thesis using assms
    by (auto simp: rt_schedule_insert_thread_def live_def intro!: kinv_x_set_stat)
next
  case False
  have t: "\<forall>l. t \<notin> set (queues k l)" using assms(1,2) by (auto simp: kinv_x_def links_ok_def)
  have p: "current_priority (threads k t) < 32"
    "number_mask (threads k t) = push_bit (current_priority (threads k t)) 1"
    using assms(1,3) by (auto simp: kinv_x_def prio_ok_def)
  show ?thesis unfolding kinv_x_def
  proof (intro conjI)
    show "links_ok (X - {t}) (rt_schedule_insert_thread t k)"
      using assms(1) t False unfolding kinv_x_def
      by (intro links_ok_put [of X k t "queues k (Ready (current_priority (threads k t))) @ [t]"
            "Ready (current_priority (threads k t))"])
        (auto simp: rt_schedule_insert_thread_def set_stat_def Let_def links_ok_def)
    show "prio_ok (rt_schedule_insert_thread t k)" using assms(1,3) p False
      by (auto simp: kinv_x_def prio_ok_def rt_schedule_insert_thread_def set_stat_def Let_def live_def
          bit_or_iff bit_one_push)
    show "run_ok (X - {t}) (rt_schedule_insert_thread t k)" using assms(1) False
      by (auto simp: kinv_x_def run_ok_def rt_schedule_insert_thread_def set_stat_def Let_def)
    show "timers_ok (X - {t}) (rt_schedule_insert_thread t k)" using assms(1,4) False
      by (auto simp: kinv_x_def timers_ok_def rt_schedule_insert_thread_def set_stat_def Let_def)
  qed
qed

lemma kinv_x_upd_other:
  assumes "\<And>th. stat (f th) = stat th" "\<And>th. current_priority (f th) = current_priority th"
    "\<And>th. number_mask (f th) = number_mask th"
  shows "kinv_x X (upd_thread t f k) = kinv_x X k"
proof -
  have p: "stat (((threads k)(t := f (threads k t))) u) = stat (threads k u)"
    "current_priority (((threads k)(t := f (threads k t))) u) = current_priority (threads k u)"
    "number_mask (((threads k)(t := f (threads k t))) u) = number_mask (threads k u)" for u
    using assms by simp_all
  show ?thesis unfolding kinv_defs live_def upd_thread_sel p ..
qed

lemma kinv_x_set_error [simp]: "kinv_x X (set_error t e k) = kinv_x X k"
  unfolding set_error_def by (rule kinv_x_upd_other) simp_all

lemma kinv_D:
  assumes "kinv_x X k"
  shows "t \<in> set (queues k l) \<Longrightarrow> stat (threads k t) = stat_of l"
    and "t \<in> set (queues k (Ready p)) \<Longrightarrow> current_priority (threads k t) = p"
    and "t \<notin> X \<Longrightarrow> stat (threads k t) = RT_THREAD_READY \<Longrightarrow>
           t \<in> set (queues k (Ready (current_priority (threads k t))))"
    and "bit (ready_group k) p \<longleftrightarrow> queues k (Ready p) \<noteq> []"
    and "live (threads k t) \<Longrightarrow> current_priority (threads k t) < 32"
    and "t \<notin> X \<Longrightarrow> stat (threads k t) = RT_THREAD_RUNNING \<Longrightarrow> rt_current_thread k = Some t"
    and "ThreadTimer t \<in> set (rt_timer_list k) \<Longrightarrow> t \<notin> X \<Longrightarrow> stat (threads k t) = RT_THREAD_SUSPEND"
    and "m \<in> set (rt_timer_list k) \<Longrightarrow> activated (timers k m)"
    and "distinct (rt_timer_list k)" and "distinct (queues k l)"
    and "\<not> periodic (timers k (ThreadTimer t))"
  using assms by (auto simp: kinv_defs)

lemma unlinked:
  assumes "kinv_x X k" "stat (threads k t) = RT_THREAD_RUNNING \<or> stat (threads k t) = RT_THREAD_INIT"
  shows "t \<notin> set (queues k l)"
  using kinv_D(1) [OF assms(1), of t l] assms(2) by (cases l) auto

subsection \<open>Timers\<close>

lemma timer_insert_set [simp]: "set (timer_insert f m ts) = insert m (set ts)"
  by (induction ts) auto

lemma timer_insert_distinct [simp]: "distinct (timer_insert f m ts) \<longleftrightarrow> distinct (m # ts)"
  by (induction ts) auto

lemma timer_start_sel [simp]:
  "queues (rt_timer_start m k) = queues k" "threads (rt_timer_start m k) = threads k"
  "ready_group (rt_timer_start m k) = ready_group k"
  "rt_current_thread (rt_timer_start m k) = rt_current_thread k"
  "lock_nest (rt_timer_start m k) = lock_nest k" "rt_tick (rt_timer_start m k) = rt_tick k"
  "set (rt_timer_list (rt_timer_start m k)) = insert m (set (rt_timer_list k))"
  "activated (timers (rt_timer_start m k) n) \<longleftrightarrow> n = m \<or> activated (timers k n)"
  "periodic (timers (rt_timer_start m k) n) = periodic (timers k n)"
  "halted (rt_timer_start m k) \<longleftrightarrow> halted k \<or> \<not> init_tick (timers k m) < HALF_TICK_MAX"
  by (auto simp: rt_timer_start_def rt_timer_remove_def Let_def)

lemma kinv_x_timer_start:
  assumes "kinv_x X k" "\<And>t. m = ThreadTimer t \<Longrightarrow> t \<in> X \<or> stat (threads k t) = RT_THREAD_SUSPEND"
  shows "kinv_x X (rt_timer_start m k)"
proof -
  have "distinct (rt_timer_list (rt_timer_start m k))"
    using assms(1) by (simp add: rt_timer_start_def rt_timer_remove_def Let_def kinv_defs distinct_removeAll)
  then show ?thesis using assms by (auto simp: kinv_defs)
qed

lemma timer_stop_sel [simp]:
  "queues (fst (rt_timer_stop m k)) = queues k" "threads (fst (rt_timer_stop m k)) = threads k"
  "ready_group (fst (rt_timer_stop m k)) = ready_group k"
  "rt_current_thread (fst (rt_timer_stop m k)) = rt_current_thread k"
  "lock_nest (fst (rt_timer_stop m k)) = lock_nest k" "rt_tick (fst (rt_timer_stop m k)) = rt_tick k"
  "halted (fst (rt_timer_stop m k)) = halted k"
  by (simp_all add: rt_timer_stop_def rt_timer_remove_def)

lemma kinv_x_timer_remove: "kinv_x X k \<Longrightarrow> kinv_x X (rt_timer_remove m k)"
  by (auto simp: kinv_defs rt_timer_remove_def distinct_removeAll)

lemma kinv_x_timer_stop:
  assumes "kinv_x X k"
  shows "kinv_x X (fst (rt_timer_stop m k))" "m \<notin> set (rt_timer_list (fst (rt_timer_stop m k)))"
  using assms by (auto simp: kinv_defs rt_timer_stop_def rt_timer_remove_def distinct_removeAll)

lemma kinv_x_upd_timer:
  assumes "kinv_x X k" "m \<in> set (rt_timer_list k) \<Longrightarrow> activated (f (timers k m))"
    "\<And>t. m = ThreadTimer t \<Longrightarrow> \<not> periodic (f (timers k m))"
  shows "kinv_x X (upd_timer m f k)"
  using assms by (auto simp: kinv_defs)

subsection \<open>The scheduler\<close>

lemma get_highest_priority_thread_spec:
  assumes "kinv_x X k" "ready_group k \<noteq> 0" "get_highest_priority_thread k = (hp, to)"
  shows "to \<in> set (queues k (Ready hp))" "stat (threads k to) = RT_THREAD_READY"
    "current_priority (threads k to) = hp"
    "u \<notin> X \<Longrightarrow> stat (threads k u) = RT_THREAD_READY \<Longrightarrow> hp \<le> current_priority (threads k u)"
proof -
  have hp: "hp = (LEAST i. bit (ready_group k) i)" and to: "to = hd (queues k (Ready hp))"
    using assms(2,3) by (auto simp: get_highest_priority_thread_def rt_ffs_Least Let_def)
  obtain i where "bit (ready_group k) i" using assms(2) by (auto simp: bit_eq_iff)
  then have "bit (ready_group k) hp" unfolding hp by (rule LeastI)
  then show q: "to \<in> set (queues k (Ready hp))" using kinv_D(4) [OF assms(1)] to by simp
  show "stat (threads k to) = RT_THREAD_READY" using kinv_D(1) [OF assms(1) q] by simp
  show "current_priority (threads k to) = hp" using kinv_D(2) [OF assms(1) q] .
  show "hp \<le> current_priority (threads k u)" if "u \<notin> X" "stat (threads k u) = RT_THREAD_READY"
    using kinv_D(3) [OF assms(1) that] kinv_D(4) [OF assms(1), of "current_priority (threads k u)"]
    unfolding hp by (intro Least_le) auto
qed

text \<open>The two ways \<open>rt_schedule\<close> ends: the current thread goes on, or another one takes the CPU.\<close>

definition sched_stay :: "tid \<Rightarrow> kern \<Rightarrow> kern" where
  "sched_stay c k = set_stat c RT_THREAD_RUNNING (rt_schedule_remove_thread c k)"

definition sched_switch :: "tid \<Rightarrow> tid \<Rightarrow> kern \<Rightarrow> kern" where
  "sched_switch c to k =
     (let k' = k\<lparr>rt_current_priority := current_priority (threads k to), rt_current_thread := Some to\<rparr>
      in sched_stay to (if stat (threads k c) = RT_THREAD_RUNNING then rt_schedule_insert_thread c k' else k'))"

lemma kinv_x_set_current:
  assumes "kinv_x X k" "\<And>t. t \<notin> X \<Longrightarrow> stat (threads k t) \<noteq> RT_THREAD_RUNNING"
  shows "kinv_x X (k\<lparr>rt_current_priority := n, rt_current_thread := c\<rparr>)"
  using assms by (simp add: kinv_defs)

lemma kinv_sched_stay:
  assumes "kinv k" "live (threads k c)" "rt_current_thread k = Some c"
    "stat (threads k c) \<noteq> RT_THREAD_SUSPEND"
  shows "kinv (sched_stay c k)"
proof -
  have "ThreadTimer c \<notin> set (rt_timer_list k)" using kinv_D(7) [OF assms(1), of c] assms(4) by auto
  then have "kinv_x ({c} - {c}) (sched_stay c k)" unfolding sched_stay_def
    using assms kinv_x_remove [OF assms(1,2)] by (intro kinv_x_set_stat) (auto simp: live_def)
  then show ?thesis by simp
qed

lemma kinv_sched_switch:
  assumes "kinv k" "rt_current_thread k = Some c" "to \<noteq> c" "stat (threads k to) = RT_THREAD_READY"
  shows "kinv (sched_switch c to k)"
proof -
  define k1 where "k1 = k\<lparr>rt_current_priority := current_priority (threads k to), rt_current_thread := Some to\<rparr>"
  have k1 [simp]: "threads k1 = threads k" "rt_timer_list k1 = rt_timer_list k" "rt_current_thread k1 = Some to"
    by (simp_all add: k1_def)
  define k2 where "k2 = (if stat (threads k c) = RT_THREAD_RUNNING then rt_schedule_insert_thread c k1 else k1)"
  have "kinv k2 \<and> threads k2 to = threads k to \<and> rt_current_thread k2 = Some to"
  proof (cases "stat (threads k c) = RT_THREAD_RUNNING")
    case True
    have "kinv_x {c} k" using kinv_x_enter [OF assms(1)] unlinked [OF assms(1)] True by blast
    then have "kinv_x {c} k1" unfolding k1_def
      by (rule kinv_x_set_current) (use kinv_D(6) [OF assms(1)] assms(2) in auto)
    moreover have "ThreadTimer c \<notin> set (rt_timer_list k)" using kinv_D(7) [OF assms(1), of c] True by auto
    ultimately have "kinv_x ({c} - {c}) (rt_schedule_insert_thread c k1)"
      using True by (intro kinv_x_insert) (simp_all add: live_def)
    then have "kinv k2" using True by (simp add: k2_def)
    then show ?thesis using True assms(3)
      by (auto simp: k2_def rt_schedule_insert_thread_def set_stat_def Let_def)
  next
    case False
    then have "kinv k1" unfolding k1_def
      by (intro kinv_x_set_current [OF assms(1)]) (use kinv_D(6) [OF assms(1)] assms(2) in auto)
    then show ?thesis using False by (simp add: k2_def)
  qed
  then have "kinv (sched_stay to k2)" using assms(4) by (intro kinv_sched_stay) (auto simp: live_def)
  then show ?thesis unfolding sched_switch_def k2_def k1_def Let_def by simp
qed

lemma rt_schedule_cases:
  assumes "kinv k" "rt_current_thread k = Some c"
  obtains (idle) "rt_schedule k = k" "lock_nest k \<noteq> 0 \<or> ready_group k = 0"
  | (stay) k0 where "rt_schedule k = sched_stay c k0"
      "k0 = (if stat (threads k c) = RT_THREAD_RUNNING then upd_thread c (\<lambda>th. th\<lparr>stat_yield := False\<rparr>) k else k)"
      "stat (threads k c) = RT_THREAD_RUNNING \<or> stat (threads k c) = RT_THREAD_READY"
      "\<And>u. stat (threads k u) = RT_THREAD_READY \<Longrightarrow> current_priority (threads k c) \<le> current_priority (threads k u)"
  | (switch) k0 to where "rt_schedule k = sched_switch c to k0" "to \<noteq> c"
      "k0 = (if stat (threads k c) = RT_THREAD_RUNNING then upd_thread c (\<lambda>th. th\<lparr>stat_yield := False\<rparr>) k else k)"
      "stat (threads k to) = RT_THREAD_READY"
      "\<And>u. stat (threads k u) = RT_THREAD_READY \<Longrightarrow> current_priority (threads k to) \<le> current_priority (threads k u)"
      "stat (threads k c) = RT_THREAD_RUNNING \<Longrightarrow> current_priority (threads k to) \<le> current_priority (threads k c)"
proof (cases "lock_nest k \<noteq> 0 \<or> ready_group k = 0")
  case True
  then show ?thesis using idle by (auto simp: rt_schedule_def)
next
  case False
  obtain hp to where g: "get_highest_priority_thread k = (hp, to)" by fastforce
  note sp = get_highest_priority_thread_spec [OF assms(1) _ g]
  define stay where "stay \<longleftrightarrow> stat (threads k c) = RT_THREAD_RUNNING \<and>
     (current_priority (threads k c) < hp \<or> current_priority (threads k c) = hp \<and> \<not> stat_yield (threads k c))"
  define k0 where "k0 = (if stat (threads k c) = RT_THREAD_RUNNING then upd_thread c (\<lambda>th. th\<lparr>stat_yield := False\<rparr>) k else k)"
  have e: "rt_schedule k = (if stay \<or> to = c then sched_stay c k0 else sched_switch c to k0)"
    using False assms(2) sp(3)
    by (auto simp: rt_schedule_def g stay_def k0_def sched_stay_def sched_switch_def Let_def)
  show ?thesis
  proof (cases "stay \<or> to = c")
    case True
    show ?thesis
    proof (rule that(2) [of k0])
      show "stat (threads k c) = RT_THREAD_RUNNING \<or> stat (threads k c) = RT_THREAD_READY"
        using True sp(2) False by (auto simp: stay_def)
      show "current_priority (threads k c) \<le> current_priority (threads k u)"
        if "stat (threads k u) = RT_THREAD_READY" for u
        using True sp(3) sp(4) [of u] that False by (auto simp: stay_def)
    qed (use e True in \<open>simp_all add: k0_def\<close>)
  next
    case f: False
    show ?thesis
    proof (rule that(3) [of to k0])
      show "current_priority (threads k to) \<le> current_priority (threads k u)"
        if "stat (threads k u) = RT_THREAD_READY" for u
        using sp(3) sp(4) [of u] that False by auto
      show "stat (threads k c) = RT_THREAD_RUNNING \<Longrightarrow> current_priority (threads k to) \<le> current_priority (threads k c)"
        using f sp(3) False by (auto simp: stay_def)
    qed (use e f sp(2) False in \<open>simp_all add: k0_def\<close>)
  qed
qed

lemma kinv_rt_schedule:
  assumes "kinv k"
  shows "kinv (rt_schedule k)"
proof (cases "rt_current_thread k")
  case None
  then show ?thesis using assms by (simp add: rt_schedule_def)
next
  case (Some c)
  have y: "kinv (if stat (threads k c) = RT_THREAD_RUNNING then upd_thread c (\<lambda>th. th\<lparr>stat_yield := False\<rparr>) k else k)"
    using assms by (auto simp: kinv_x_upd_other)
  show ?thesis
  using assms Some
  proof (cases rule: rt_schedule_cases)
    case idle then show ?thesis using assms by simp
  next
    case (stay k0)
    then show ?thesis using y Some by (auto intro!: kinv_sched_stay simp: live_def split: if_splits)
  next
    case (switch k0 to)
    then show ?thesis using y Some by (auto intro!: kinv_sched_switch split: if_splits)
  qed
qed

lemma sched_stay_sel:
  "threads (sched_stay c k) = (threads k)(c := (threads k c)\<lparr>stat := RT_THREAD_RUNNING\<rparr>)"
  "rt_current_thread (sched_stay c k) = rt_current_thread k"
  "timers (sched_stay c k) = timers k" "rt_timer_list (sched_stay c k) = rt_timer_list k"
  "rt_tick (sched_stay c k) = rt_tick k" "halted (sched_stay c k) = halted k"
  "lock_nest (sched_stay c k) = lock_nest k"
  "queues (sched_stay c k) l = removeAll c (queues k l)"
  by (simp_all add: sched_stay_def set_stat_def)

lemma sched_switch_sel:
  assumes "to \<noteq> c"
  shows "threads (sched_switch c to k) =
      (\<lambda>u. if u = to then (threads k to)\<lparr>stat := RT_THREAD_RUNNING\<rparr>
           else if u = c \<and> stat (threads k c) = RT_THREAD_RUNNING then (threads k c)\<lparr>stat := RT_THREAD_READY\<rparr>
           else threads k u)"
  "rt_current_thread (sched_switch c to k) = Some to"
  "timers (sched_switch c to k) = timers k" "rt_timer_list (sched_switch c to k) = rt_timer_list k"
  "rt_tick (sched_switch c to k) = rt_tick k" "halted (sched_switch c to k) = halted k"
  "lock_nest (sched_switch c to k) = lock_nest k"
  "\<not> (\<exists>p. l = Ready p) \<Longrightarrow> queues (sched_switch c to k) l = removeAll to (queues k l)"
  using assms by (auto simp: sched_switch_def Let_def sched_stay_sel rt_schedule_insert_thread_def set_stat_def)

lemma rt_schedule_sel [simp]:
  "timers (rt_schedule k) = timers k" "rt_timer_list (rt_schedule k) = rt_timer_list k"
  "rt_tick (rt_schedule k) = rt_tick k" "lock_nest (rt_schedule k) = lock_nest k"
  by (auto simp: rt_schedule_def set_stat_def Let_def rt_schedule_insert_thread_def split: option.splits prod.splits)

lemma rt_schedule_halted: "rt_current_thread k \<noteq> None \<Longrightarrow> halted (rt_schedule k) = halted k"
  by (auto simp: rt_schedule_def set_stat_def Let_def rt_schedule_insert_thread_def split: option.splits prod.splits)

lemma rt_schedule_wait:
  assumes "kinv k" "\<not> (\<exists>p. l = Ready p)"
  shows "queues (rt_schedule k) l = queues k l"
proof (cases "rt_current_thread k")
  case None
  then show ?thesis by (simp add: rt_schedule_def)
next
  case (Some c)
  have nin: "u \<notin> set (queues k l)" if "stat (threads k u) = RT_THREAD_READY \<or> stat (threads k u) = RT_THREAD_RUNNING" for u
    using kinv_D(1) [OF assms(1), of u l] assms(2) that by (cases l) auto
  from assms(1) Some show ?thesis
  proof (cases rule: rt_schedule_cases)
    case (stay k0) then show ?thesis using nin [of c] by (auto simp: sched_stay_sel)
  next
    case (switch k0 to) then show ?thesis using nin [of to] assms(2) by (auto simp: sched_switch_sel)
  qed simp
qed

lemma rt_schedule_highest:
  assumes "kinv k" "lock_nest k = 0" "rt_current_thread k = Some c"
    "stat (threads k c) = RT_THREAD_RUNNING \<or> (\<exists>u. stat (threads k u) = RT_THREAD_READY)"
  shows "\<exists>t. rt_current_thread (rt_schedule k) = Some t \<and>
           stat (threads (rt_schedule k) t) = RT_THREAD_RUNNING \<and>
           (\<forall>u. stat (threads (rt_schedule k) u) = RT_THREAD_READY \<longrightarrow>
              current_priority (threads (rt_schedule k) t) \<le> current_priority (threads (rt_schedule k) u))"
  using assms(1,3)
proof (cases rule: rt_schedule_cases)
  case idle
  then have "stat (threads k u) \<noteq> RT_THREAD_READY" for u
    using kinv_D(3,4) [OF assms(1)] assms(2) by auto
  then show ?thesis using idle assms by auto
next
  case (stay k0)
  then show ?thesis using assms(3) by (auto simp: sched_stay_sel)
next
  case (switch k0 to)
  have "current_priority (threads k0 u) = current_priority (threads k u)" "stat (threads k0 u) = stat (threads k u)" for u
    using switch(3) by simp_all
  then show ?thesis using switch(4,5,6) unfolding switch(1) sched_switch_sel [OF switch(2)] by auto
qed

text \<open>What a context switch leaves alone: priorities, masks, error codes, and every thread that was not running or ready.\<close>

definition thread_core :: "rt_thread \<Rightarrow> nat \<times> nat \<times> rt_err \<times> u32 \<times> u8 \<times> u32 \<times> bool \<times> bool" where
  "thread_core th = (current_priority th, init_priority th, th_error th, event_set th, event_info th,
     th_init_tick th, is_systemobject th, has_cleanup th)"

lemma rt_schedule_core:
  assumes "kinv k"
  shows "thread_core (threads (rt_schedule k) u) = thread_core (threads k u)"
    and "stat (threads k u) \<noteq> RT_THREAD_READY \<Longrightarrow> stat (threads k u) \<noteq> RT_THREAD_RUNNING \<Longrightarrow>
       stat (threads (rt_schedule k) u) = stat (threads k u)"
proof -
  have "thread_core (threads (rt_schedule k) u) = thread_core (threads k u) \<and>
    (stat (threads k u) \<noteq> RT_THREAD_READY \<longrightarrow> stat (threads k u) \<noteq> RT_THREAD_RUNNING \<longrightarrow>
       stat (threads (rt_schedule k) u) = stat (threads k u))"
  proof (cases "rt_current_thread k")
    case None
    then show ?thesis by (simp add: rt_schedule_def)
  next
    case (Some c)
    from assms Some show ?thesis
    proof (cases rule: rt_schedule_cases)
      case (stay k0) then show ?thesis by (auto simp: sched_stay_sel thread_core_def)
    next
      case (switch k0 to) then show ?thesis by (auto simp: sched_switch_sel thread_core_def)
    qed simp
  qed
  then show "thread_core (threads (rt_schedule k) u) = thread_core (threads k u)"
    "stat (threads k u) \<noteq> RT_THREAD_READY \<Longrightarrow> stat (threads k u) \<noteq> RT_THREAD_RUNNING \<Longrightarrow>
       stat (threads (rt_schedule k) u) = stat (threads k u)" by blast+
qed

lemma rt_schedule_not_suspend:
  assumes "kinv k" "stat (threads k u) \<noteq> RT_THREAD_SUSPEND"
  shows "stat (threads (rt_schedule k) u) \<noteq> RT_THREAD_SUSPEND"
proof (cases "rt_current_thread k")
  case None
  then show ?thesis using assms by (simp add: rt_schedule_def)
next
  case (Some c)
  from assms(1) Some show ?thesis
  proof (cases rule: rt_schedule_cases)
    case (stay k0) then show ?thesis using assms(2) by (auto simp: sched_stay_sel)
  next
    case (switch k0 to) then show ?thesis using assms(2) by (auto simp: sched_switch_sel)
  qed (use assms in simp)
qed

lemma rt_schedule_threads [simp]:
  assumes "kinv k"
  shows "current_priority (threads (rt_schedule k) u) = current_priority (threads k u)"
    "init_priority (threads (rt_schedule k) u) = init_priority (threads k u)"
    "th_error (threads (rt_schedule k) u) = th_error (threads k u)"
    "event_set (threads (rt_schedule k) u) = event_set (threads k u)"
    "event_info (threads (rt_schedule k) u) = event_info (threads k u)"
  using rt_schedule_core(1) [OF assms, of u] by (simp_all add: thread_core_def)

subsection \<open>Suspending and resuming\<close>

lemma kinv_rt_thread_suspend:
  assumes "kinv k"
  shows "kinv (fst (rt_thread_suspend t k))"
proof (cases "stat (threads k t) = RT_THREAD_READY \<or> stat (threads k t) = RT_THREAD_RUNNING")
  case True
  define a where "a \<longleftrightarrow> (stat (threads k t) = RT_THREAD_RUNNING \<longrightarrow> rt_current_thread k = Some t)"
  have l: "live (threads k t)" using True by (auto simp: live_def)
  have "kinv_x ({t} - {t}) (set_stat t RT_THREAD_SUSPEND (rt_schedule_remove_thread t (rt_assert a k)))"
    using assms l by (intro kinv_x_set_stat kinv_x_remove) (auto simp: live_def)
  then have "kinv (set_stat t RT_THREAD_SUSPEND (rt_schedule_remove_thread t (rt_assert a k)))" by simp
  from kinv_x_timer_stop(1) [OF this, of "ThreadTimer t"] show ?thesis
    using True by (auto simp: rt_thread_suspend_def Let_def a_def)
qed (use assms in \<open>auto simp: rt_thread_suspend_def\<close>)

lemma kinv_rt_thread_resume:
  assumes "kinv k"
  shows "kinv (fst (rt_thread_resume t k))"
proof (cases "stat (threads k t) = RT_THREAD_SUSPEND")
  case True
  define k1 where "k1 = fst (rt_timer_stop (ThreadTimer t) (rt_list_remove t k))"
  have "kinv (rt_list_remove t k)" using kinv_x_unlink [OF assms True] .
  then have k1: "kinv k1" "ThreadTimer t \<notin> set (rt_timer_list k1)"
    unfolding k1_def using kinv_x_timer_stop by auto
  have "kinv_x {t} k1" using k1(1) by (rule kinv_x_enter) (simp add: k1_def)
  then have "kinv_x ({t} - {t}) (rt_schedule_insert_thread t k1)"
    by (rule kinv_x_insert) (use True k1(2) in \<open>auto simp: k1_def live_def\<close>)
  then show ?thesis using True by (simp add: rt_thread_resume_def Let_def k1_def)
qed (use assms in \<open>auto simp: rt_thread_resume_def\<close>)

lemma kinv_rt_thread_timeout:
  assumes "kinv k" "stat (threads k t) = RT_THREAD_SUSPEND" "ThreadTimer t \<notin> set (rt_timer_list k)"
  shows "kinv (rt_thread_timeout t k)"
proof -
  define k1 where "k1 = rt_list_remove t (set_error t RT_ETIMEOUT (rt_assert True k))"
  have "kinv k1" unfolding k1_def using assms(1) by (intro kinv_x_unlink) (simp_all add: assms(2) set_error_def kinv_x_upd_other)
  then have "kinv_x {t} k1" by (rule kinv_x_enter) (simp add: k1_def)
  then have "kinv_x ({t} - {t}) (rt_schedule_insert_thread t k1)"
    by (rule kinv_x_insert) (use assms in \<open>auto simp: k1_def live_def set_error_def\<close>)
  then show ?thesis using assms(2) kinv_rt_schedule
    by (simp add: rt_thread_timeout_def Let_def k1_def)
qed

subsection \<open>Starting, closing and re-prioritising threads\<close>

lemma kinv_x_set_prio:
  assumes "kinv_x X k" "p < 32" "t \<in> X \<or> stat (threads k t) \<noteq> RT_THREAD_READY"
  shows "kinv_x X (upd_thread t (\<lambda>th. th\<lparr>current_priority := p, number_mask := push_bit p 1\<rparr>) k)"
proof -
  have "t \<notin> set (queues k (Ready q))" for q
    using assms(1,3) by (auto simp: kinv_x_def links_ok_def)
  then have ne: "u \<in> set (queues k (Ready q)) \<Longrightarrow> u \<noteq> t" for u q by auto
  show ?thesis unfolding kinv_x_def
  proof (intro conjI)
    show "links_ok X (upd_thread t (\<lambda>th. th\<lparr>current_priority := p, number_mask := push_bit p 1\<rparr>) k)"
      using assms(1,3) ne unfolding kinv_x_def links_ok_def by auto
  qed (use assms(1,2) in \<open>auto simp: kinv_x_def prio_ok_def run_ok_def timers_ok_def live_def\<close>)
qed

lemma kinv_change_priority:
  assumes "kinv k" "p < 32"
  shows "kinv (change_priority t p k)"
proof (cases "stat (threads k t) = RT_THREAD_READY")
  case True
  then have l: "live (threads k t)" by (simp add: live_def)
  have tm: "ThreadTimer t \<notin> set (rt_timer_list k)" using kinv_D(7) [OF assms(1), of t] True by auto
  have "kinv_x ({t} - {t}) (rt_schedule_insert_thread t
     (upd_thread t (\<lambda>th. th\<lparr>current_priority := p, number_mask := push_bit p 1\<rparr>) (rt_schedule_remove_thread t k)))"
    using kinv_x_remove [OF assms(1) l] assms(2) l tm
    by (intro kinv_x_insert kinv_x_set_prio) (auto simp: live_def)
  then show ?thesis using True by (simp add: change_priority_def)
next
  case False
  then show ?thesis using kinv_x_set_prio [OF assms] by (simp add: change_priority_def)
qed

lemma kinv_rt_thread_startup:
  assumes "kinv k" "stat (threads k t) = RT_THREAD_INIT" "init_priority (threads k t) < 32"
  shows "kinv (rt_thread_startup t k)" "halted (rt_thread_startup t k) \<longleftrightarrow> halted k"
proof -
  define k1 where "k1 = upd_thread t (\<lambda>th. th\<lparr>current_priority := init_priority th,
     number_mask := push_bit (init_priority th) 1, stat := RT_THREAD_SUSPEND, stat_yield := False\<rparr>) k"
  have un: "u \<in> set (queues k l) \<Longrightarrow> u \<noteq> t" for u l using unlinked [OF assms(1), of t] assms(2) by auto
  have "links_ok {} k1" using assms(1) un unfolding kinv_x_def k1_def links_ok_def by auto
  moreover have "prio_ok k1" using assms(1,3) unfolding kinv_x_def k1_def prio_ok_def by (auto simp: live_def)
  moreover have "run_ok {} k1" using assms(1) unfolding kinv_x_def k1_def run_ok_def by auto
  moreover have "timers_ok {} k1" using assms(1) unfolding kinv_x_def k1_def timers_ok_def by auto
  ultimately have "kinv k1" by (simp add: kinv_x_def)
  then have kr: "kinv (fst (rt_thread_resume t k1))" by (rule kinv_rt_thread_resume)
  then show "kinv (rt_thread_startup t k)" using assms(2) kinv_rt_schedule
    by (simp add: rt_thread_startup_def Let_def k1_def rt_assert_def)
  have "halted (fst (rt_thread_resume t k1)) = halted k"
    by (simp add: rt_thread_resume_def rt_schedule_insert_thread_def k1_def set_stat_def Let_def)
  then show "halted (rt_thread_startup t k) \<longleftrightarrow> halted k" using assms(2) rt_schedule_halted
    by (simp add: rt_thread_startup_def Let_def k1_def rt_assert_def)
qed

lemma kinv_x_close:
  assumes "kinv_x {t} k" "ThreadTimer t \<notin> set (rt_timer_list k)"
  defines "k' \<equiv> upd_thread t (\<lambda>th. th\<lparr>stat := RT_THREAD_CLOSE, stat_yield := False\<rparr>) k"
  shows "kinv k'" "kinv (k'\<lparr>queues := (queues k')(Defunct := t # queues k' Defunct)\<rparr>)"
proof -
  have t: "\<forall>l. t \<notin> set (queues k l)" using assms(1) by (auto simp: kinv_x_def links_ok_def)
  have rest: "prio_ok k'" "run_ok {} k'" "timers_ok {} k'"
    using assms(1,2) unfolding k'_def by (auto simp: kinv_x_def prio_ok_def run_ok_def timers_ok_def live_def)
  have "links_ok {} k'" using assms(1) t unfolding k'_def by (auto simp: kinv_x_def links_ok_def)
  then show "kinv k'" using rest by (simp add: kinv_x_def)
  have "links_ok ({t} - {t}) (k'\<lparr>queues := (queues k')(Defunct := t # queues k' Defunct)\<rparr>)"
    using assms(1) t unfolding kinv_x_def
    by (intro links_ok_put [of "{t}" k t "t # queues k Defunct" Defunct]) (auto simp: k'_def links_ok_def)
  then show "kinv (k'\<lparr>queues := (queues k')(Defunct := t # queues k' Defunct)\<rparr>)"
    using rest by (auto simp: kinv_x_def prio_ok_def run_ok_def timers_ok_def)
qed

lemma kinv_close_thread: "kinv_x {t} k \<Longrightarrow> ThreadTimer t \<notin> set (rt_timer_list k) \<Longrightarrow> kinv (close_thread t k)"
  using kinv_x_close unfolding close_thread_def Let_def by auto

lemma kinv_x_closing:
  assumes "kinv k" "stat (threads k t) \<noteq> RT_THREAD_CLOSE"
  defines "k' \<equiv> rt_timer_detach (ThreadTimer t)
     (if stat (threads k t) \<noteq> RT_THREAD_INIT then rt_schedule_remove_thread t k else k)"
  shows "kinv_x {t} k'" "ThreadTimer t \<notin> set (rt_timer_list k')"
proof -
  have "kinv_x {t} (if stat (threads k t) \<noteq> RT_THREAD_INIT then rt_schedule_remove_thread t k else k)"
  proof (cases "stat (threads k t) = RT_THREAD_INIT")
    case True
    have "kinv_x {t} k" using assms(1) by (rule kinv_x_enter) (use unlinked [OF assms(1)] True in blast)
    then show ?thesis using True by simp
  next
    case False
    then show ?thesis using kinv_x_remove [OF assms(1), of t] assms(2) by (simp add: live_def)
  qed
  then show "kinv_x {t} k'" unfolding k'_def rt_timer_detach_def by (rule kinv_x_timer_remove)
  show "ThreadTimer t \<notin> set (rt_timer_list k')" by (simp add: k'_def rt_timer_detach_def rt_timer_remove_def)
qed

lemma kinv_rt_thread_detach: "kinv k \<Longrightarrow> kinv (rt_thread_detach t k)"
  using kinv_close_thread [OF kinv_x_closing] by (auto simp: rt_thread_detach_def Let_def)

lemma kinv_rt_thread_delete: "kinv k \<Longrightarrow> kinv (rt_thread_delete t k)"
  using kinv_x_close(2) [OF kinv_x_closing] by (auto simp: rt_thread_delete_def Let_def)

lemma kinv_rt_thread_exit:
  assumes "kinv k" "stat (threads k t) = RT_THREAD_RUNNING"
  shows "kinv (rt_thread_exit t k)"
  using kinv_rt_schedule [OF kinv_close_thread [OF kinv_x_closing [OF assms(1), of t]]] assms(2)
  by (simp add: rt_thread_exit_def Let_def)

lemma kinv_rt_thread_yield: "kinv k \<Longrightarrow> kinv (rt_thread_yield t k)"
  unfolding rt_thread_yield_def by (intro kinv_rt_schedule) (simp add: kinv_x_upd_other)

lemma suspend_stat:
  assumes "stat (threads k t) = RT_THREAD_READY \<or> stat (threads k t) = RT_THREAD_RUNNING"
  shows "stat (threads (fst (rt_thread_suspend t k)) t) = RT_THREAD_SUSPEND"
  using assms by (auto simp: rt_thread_suspend_def set_stat_def Let_def)

lemma kinv_set_time:
  "kinv_x X k \<Longrightarrow> kinv_x X (fst (rt_timer_control m (RT_TIMER_CTRL_SET_TIME v) k))"
  by (auto intro!: kinv_x_upd_timer dest: kinv_D(8,11))

lemma kinv_rt_thread_sleep:
  assumes "kinv k" "stat (threads k t) = RT_THREAD_RUNNING"
  shows "kinv (rt_thread_sleep t n k)"
  using kinv_set_time [OF kinv_rt_thread_suspend [OF assms(1)]] suspend_stat [of k t] assms(2)
  unfolding rt_thread_sleep_def Let_def
  by (intro kinv_rt_schedule kinv_x_timer_start) auto

lemma kinv_critical:
  "kinv k \<Longrightarrow> kinv (rt_enter_critical k)" "kinv k \<Longrightarrow> kinv (rt_exit_critical k)"
  using kinv_rt_schedule by (simp_all add: rt_enter_critical_def rt_exit_critical_def Let_def)

lemma kinv_time_slice: "kinv k \<Longrightarrow> kinv (time_slice t k)"
  using kinv_rt_schedule by (simp add: time_slice_def Let_def kinv_x_upd_other)
subsection \<open>Boot\<close>

lemma kinv_boot: "kinv boot"
proof -
  have "queues boot l = []" for l
    by (cases l) (simp_all add: boot_def rt_system_timer_init_def rt_system_scheduler_init_def)
  then show ?thesis
    by (auto simp: kinv_defs live_def boot_def rt_system_timer_init_def rt_system_scheduler_init_def
        zero_thread_def zero_timer_def)
qed

lemma kinv_rt_thread_init:
  assumes "kinv k" "stat (threads k t) = RT_THREAD_INIT"
  shows "kinv (rt_thread_init t p n sysobj k)"
proof -
  have t: "u \<in> set (queues k l) \<Longrightarrow> u \<noteq> t" for u l using unlinked [OF assms(1), of t] assms(2) by auto
  have tm: "ThreadTimer t \<notin> set (rt_timer_list k)" using kinv_D(7) [OF assms(1), of t] assms(2) by auto
  then have tm': "m \<in> set (rt_timer_list k) \<Longrightarrow> m \<noteq> ThreadTimer t" for m by auto
  show ?thesis unfolding kinv_x_def
  proof (intro conjI)
    show "links_ok {} (rt_thread_init t p n sysobj k)" using assms(1) t
      unfolding kinv_x_def links_ok_def rt_thread_init_def rt_timer_init_def Let_def by auto
    show "prio_ok (rt_thread_init t p n sysobj k)" using assms(1)
      unfolding kinv_x_def prio_ok_def rt_thread_init_def rt_timer_init_def Let_def by (auto simp: live_def)
    show "run_ok {} (rt_thread_init t p n sysobj k)" using assms(1)
      unfolding kinv_x_def run_ok_def rt_thread_init_def rt_timer_init_def Let_def by auto
    show "timers_ok {} (rt_thread_init t p n sysobj k)" using assms(1) tm tm'
      unfolding kinv_x_def timers_ok_def rt_thread_init_def rt_timer_init_def Let_def by auto
  qed
qed

lemma kinv_rt_system_scheduler_start:
  assumes "kinv k" "ready_group k \<noteq> 0" "rt_current_thread k = None"
  shows "kinv (rt_system_scheduler_start k)"
proof -
  obtain hp to where g: "get_highest_priority_thread k = (hp, to)" by fastforce
  note sp = get_highest_priority_thread_spec [OF assms(1,2) g]
  have "kinv (k\<lparr>rt_current_thread := Some to\<rparr>)"
    using assms(1,3) by (simp add: kinv_defs)
  then have "kinv (sched_stay to (k\<lparr>rt_current_thread := Some to\<rparr>))"
    using sp(2) by (intro kinv_sched_stay) (simp_all add: live_def)
  then have "kinv (upd_thread to (\<lambda>th. th\<lparr>stat_yield := False\<rparr>) (sched_stay to (k\<lparr>rt_current_thread := Some to\<rparr>)))"
    by (simp add: kinv_x_upd_other)
  moreover have "rt_system_scheduler_start k =
      upd_thread to (\<lambda>th. th\<lparr>stat_yield := False\<rparr>) (sched_stay to (k\<lparr>rt_current_thread := Some to\<rparr>))"
    by (simp add: rt_system_scheduler_start_def g Let_def sched_stay_def set_stat_def upd_thread_def)
  ultimately show ?thesis by simp
qed

subsection \<open>A small running system\<close>

text \<open>The idle thread 0 and an application thread 1, which has the CPU.\<close>

definition idle_ready :: kern where
  "idle_ready = rt_thread_startup 0 (rt_thread_init 0 31 10 True boot)"

definition two_kern :: kern where
  "two_kern = rt_system_scheduler_start (rt_thread_startup 1 (rt_thread_init 1 10 20 True idle_ready))"

lemma kinv_two_kern: "kinv two_kern"
proof -
  have "stat (threads boot 0) = RT_THREAD_INIT" "stat (threads (rt_thread_init 0 31 10 True boot) 0) = RT_THREAD_INIT"
    "init_priority (threads (rt_thread_init 0 31 10 True boot) 0) < 32" by code_simp+
  then have i: "kinv idle_ready" unfolding idle_ready_def
    by (intro kinv_rt_thread_startup kinv_rt_thread_init kinv_boot)
  define k1 where "k1 = rt_thread_startup 1 (rt_thread_init 1 10 20 True idle_ready)"
  have "stat (threads idle_ready 1) = RT_THREAD_INIT"
    "stat (threads (rt_thread_init 1 10 20 True idle_ready) 1) = RT_THREAD_INIT"
    "init_priority (threads (rt_thread_init 1 10 20 True idle_ready) 1) < 32" by code_simp+
  then have k1: "kinv k1" unfolding k1_def
    by (intro kinv_rt_thread_startup kinv_rt_thread_init i)
  have "ready_group k1 \<noteq> 0" "rt_current_thread k1 = None" unfolding k1_def by code_simp+
  then show ?thesis unfolding two_kern_def k1_def [symmetric] by (intro kinv_rt_system_scheduler_start k1)
qed

lemma two_kern_runs: "rt_current_thread two_kern = Some 1" "stat (threads two_kern 1) = RT_THREAD_RUNNING"
  "stat (threads two_kern 0) = RT_THREAD_READY" "lock_nest two_kern = 0" "halted two_kern = False"
  by code_simp+

subsection \<open>The scheduler\<close>

text \<open>
  C6. Strict priority scheduling without loss. When the scheduler is not locked and some thread
  can run, \<open>rt_schedule\<close> leaves the kernel consistent, makes current a running thread whose
  priority no ready thread beats, keeps every runnable thread runnable and every other thread in
  the state it was in, and changes no priority and no waiting list.
\<close>

theorem rt_schedule_runs_highest:
  assumes "kinv k" "lock_nest k = 0" "rt_current_thread k = Some c"
    "stat (threads k c) = RT_THREAD_RUNNING \<or> (\<exists>u. stat (threads k u) = RT_THREAD_READY)"
  shows "kinv (rt_schedule k) \<and>
     (\<exists>t. rt_current_thread (rt_schedule k) = Some t \<and> stat (threads (rt_schedule k) t) = RT_THREAD_RUNNING \<and>
        (\<forall>u. stat (threads (rt_schedule k) u) = RT_THREAD_READY \<longrightarrow>
           current_priority (threads k t) \<le> current_priority (threads k u))) \<and>
     (\<forall>u. (if stat (threads k u) \<in> {RT_THREAD_READY, RT_THREAD_RUNNING}
           then stat (threads (rt_schedule k) u) \<in> {RT_THREAD_READY, RT_THREAD_RUNNING}
           else stat (threads (rt_schedule k) u) = stat (threads k u))) \<and>
     (\<forall>u. current_priority (threads (rt_schedule k) u) = current_priority (threads k u)) \<and>
     (\<forall>l. \<not> (\<exists>p. l = Ready p) \<longrightarrow> queues (rt_schedule k) l = queues k l)"
proof -
  have "stat (threads (rt_schedule k) u) \<in> {RT_THREAD_READY, RT_THREAD_RUNNING}"
    if "stat (threads k u) \<in> {RT_THREAD_READY, RT_THREAD_RUNNING}" for u
    using assms(1,3)
  proof (cases rule: rt_schedule_cases)
    case (stay k0) then show ?thesis using that by (auto simp: sched_stay_sel)
  next
    case (switch k0 to) then show ?thesis using that by (auto simp: sched_switch_sel)
  qed (use that in simp)
  then show ?thesis
    using rt_schedule_highest [OF assms] rt_schedule_core(2) [OF assms(1)] rt_schedule_wait [OF assms(1)]
      kinv_rt_schedule [OF assms(1)] rt_schedule_threads(1) [OF assms(1)] by auto
qed

text \<open>A ready idle thread and a running thread of higher priority.\<close>

theorem rt_schedule_runs_highest_witness:
  "kinv (rt_schedule two_kern) \<and> (\<exists>t. rt_current_thread (rt_schedule two_kern) = Some t \<and>
     stat (threads (rt_schedule two_kern) t) = RT_THREAD_RUNNING) \<and> stat (threads two_kern 0) = RT_THREAD_READY"
  using rt_schedule_runs_highest [of two_kern 1] kinv_two_kern two_kern_runs by blast

end
