(* ===== verification/Rt_Timer_Check.thy ===== *)
theory Rt_Timer_Check
  imports Rt_Kernel_Inv
begin
unbundle bit_operations_syntax

section \<open>The timer list and the tick interrupt\<close>

text \<open>
  \<open>rt_timer_start\<close> keeps the list of running timers in the order in which they expire, although
  expiry ticks wrap around; \<open>rt_timer_check\<close> ends, and fires exactly the timers that are due.
\<close>

subsection \<open>Order of the timer list\<close>

definition off :: "u32 \<Rightarrow> (tmid \<Rightarrow> u32) \<Rightarrow> tmid \<Rightarrow> nat" where
  "off b f m = unat (f m - b)"

lemma unat_diff32: "unat ((x :: u32) - y) =
    (if unat y \<le> unat x then unat x - unat y else 2 ^ 32 + unat x - unat y)"
  using unat_sub_if_size [of x y] by (auto simp: word_size)

lemma off_diff: "unat (f t - f m) = (if off b f m \<le> off b f t then off b f t - off b f m
     else 2 ^ 32 + off b f t - off b f m)"
proof -
  have "f t - f m = (f t - b) - (f m - b)" by simp
  then show ?thesis unfolding off_def using unat_diff32 [of "f t - b" "f m - b"] by simp
qed

lemma timer_insert_eq:
  assumes "off b f m \<le> 0x7fffffff" "\<forall>i \<in> set ts. off b f i < off b f m + 0x7fffffff"
  shows "timer_insert f m ts =
    takeWhile (\<lambda>i. off b f i \<le> off b f m) ts @ m # dropWhile (\<lambda>i. off b f i \<le> off b f m) ts"
  using assms(2)
proof (induction ts)
  case (Cons t ts)
  have z: "f t - f m = 0 \<longleftrightarrow> off b f t = off b f m"
    using off_diff [of f t m b] assms(1) by (auto simp: word_unat_eq_iff split: if_splits)
  have l: "f t - f m < HALF_TICK_MAX \<longleftrightarrow> off b f m \<le> off b f t"
    using off_diff [of f t m b] assms(1) Cons.prems by (auto simp: word_less_nat_alt split: if_splits)
  show ?case using Cons z l by auto
qed simp

lemma sorted_insert_at:
  assumes "sorted_wrt (\<lambda>i j. g i \<le> (g j :: nat)) ts"
  shows "sorted_wrt (\<lambda>i j. g i \<le> g j) (takeWhile (\<lambda>i. g i \<le> g m) ts @ m # dropWhile (\<lambda>i. g i \<le> g m) ts)"
  using assms
proof (induction ts)
  case (Cons t ts)
  show ?case
  proof (cases "g t \<le> g m")
    case True
    have "set ts = set (takeWhile (\<lambda>i. g i \<le> g m) ts @ dropWhile (\<lambda>i. g i \<le> g m) ts)" by simp
    then show ?thesis using Cons True by (auto simp del: takeWhile_dropWhile_id)
  next
    case False
    then show ?thesis using Cons.prems by (auto dest: order_trans [of "g m"])
  qed
qed simp

definition list_sorted :: "u32 \<Rightarrow> kern \<Rightarrow> bool" where
  "list_sorted b k \<longleftrightarrow>
     sorted_wrt (\<lambda>i j. off b (\<lambda>m. timeout_tick (timers k m)) i \<le> off b (\<lambda>m. timeout_tick (timers k m)) j) (rt_timer_list k)"

abbreviation toff :: "u32 \<Rightarrow> kern \<Rightarrow> tmid \<Rightarrow> nat" where
  "toff b k \<equiv> off b (\<lambda>m. timeout_tick (timers k m))"

text \<open>Between ticks every running timer expires within the half of the tick range that the comparison can tell apart.\<close>

definition timers_sorted :: "kern \<Rightarrow> bool" where
  "timers_sorted k \<longleftrightarrow> list_sorted (rt_tick k) k \<and>
     (\<forall>m \<in> set (rt_timer_list k). toff (rt_tick k) k m < 0x7fffffff)"

lemma sorted_wrt_off_cong:
  "(\<And>i. i \<in> set xs \<Longrightarrow> f i = g i) \<Longrightarrow>
     sorted_wrt (\<lambda>i j. off b f i \<le> off b f j) xs = sorted_wrt (\<lambda>i j. off b g i \<le> off b g j) xs"
  by (induction xs) (auto simp: off_def)

lemma timer_start_list:
  fixes m :: tmid and k :: kern
  defines "k' \<equiv> rt_timer_start m k" and "ts \<equiv> removeAll m (rt_timer_list k)"
  assumes "list_sorted b k" "\<forall>i \<in> set ts. toff b k i < toff b k' m + 0x7fffffff" "toff b k' m \<le> 0x7fffffff"
  shows "rt_timer_list k' = takeWhile (\<lambda>i. toff b k' i \<le> toff b k' m) ts @ m # dropWhile (\<lambda>i. toff b k' i \<le> toff b k' m) ts"
    and "list_sorted b k'"
    and "timeout_tick (timers k' m) = rt_tick k + init_tick (timers k m)"
    and "i \<noteq> m \<Longrightarrow> timers k' i = timers k i" and "init_tick (timers k' i) = init_tick (timers k i)"
proof -
  let ?f = "\<lambda>i. timeout_tick (timers k' i)"
  have same: "i \<noteq> m \<Longrightarrow> timers k' i = timers k i" for i
    by (simp add: k'_def rt_timer_start_def rt_timer_remove_def Let_def)
  then show "i \<noteq> m \<Longrightarrow> timers k' i = timers k i" .
  have ne: "i \<noteq> m" if "i \<in> set ts" for i using that by (simp add: ts_def)
  have "rt_timer_list k' = timer_insert ?f m ts"
    by (simp add: k'_def rt_timer_start_def rt_timer_remove_def Let_def ts_def fun_upd_def if_distrib cong: if_cong)
  moreover have "\<forall>i \<in> set ts. off b ?f i < off b ?f m + 0x7fffffff"
    using assms(4) ne same by (simp add: off_def)
  ultimately show eq: "rt_timer_list k' = takeWhile (\<lambda>i. toff b k' i \<le> toff b k' m) ts @ m # dropWhile (\<lambda>i. toff b k' i \<le> toff b k' m) ts"
    using timer_insert_eq [of b ?f m ts] assms(5) by simp
  have "sorted_wrt (\<lambda>i j. toff b k i \<le> toff b k j) ts"
    using assms(3) unfolding list_sorted_def ts_def removeAll_filter_not_eq by (rule sorted_wrt_filter)
  then have "sorted_wrt (\<lambda>i j. toff b k' i \<le> toff b k' j) ts"
    using ne same by (subst sorted_wrt_off_cong [of _ _ "\<lambda>m. timeout_tick (timers k m)"]) auto
  then show "list_sorted b k'" unfolding list_sorted_def eq by (rule sorted_insert_at)
  show "timeout_tick (timers k' m) = rt_tick k + init_tick (timers k m)" "init_tick (timers k' i) = init_tick (timers k i)"
    by (simp_all add: k'_def rt_timer_start_def rt_timer_remove_def Let_def)
qed

lemma timers_sorted_start:
  assumes "timers_sorted k" "init_tick (timers k m) < HALF_TICK_MAX"
  shows "timers_sorted (rt_timer_start m k)"
proof -
  define k' where "k' = rt_timer_start m k"
  have tick: "rt_tick k' = rt_tick k" by (simp add: k'_def)
  have "timeout_tick (timers k' m) = rt_tick k + init_tick (timers k m)"
    by (simp add: k'_def rt_timer_start_def rt_timer_remove_def Let_def)
  then have om: "toff (rt_tick k) k' m < 0x7fffffff" using assms(2) by (simp add: off_def word_less_nat_alt)
  have olds: "\<forall>i \<in> set (rt_timer_list k). toff (rt_tick k) k i < 0x7fffffff"
    using assms(1) by (simp add: timers_sorted_def)
  note L = timer_start_list [of "rt_tick k" k m, folded k'_def]
  have pre: "list_sorted (rt_tick k) k" "\<forall>i \<in> set (removeAll m (rt_timer_list k)). toff (rt_tick k) k i < toff (rt_tick k) k' m + 0x7fffffff"
    "toff (rt_tick k) k' m \<le> 0x7fffffff"
    using assms(1) olds om by (auto simp: timers_sorted_def)
  have "toff (rt_tick k) k' i < 0x7fffffff" if "i \<in> set (rt_timer_list k')" for i
    using that om olds L(4) [OF pre] by (cases "i = m") (auto simp: k'_def off_def)
  then show ?thesis using L(2) [OF pre] unfolding timers_sorted_def k'_def [symmetric] tick by blast
qed
subsection \<open>Firing timers\<close>

text \<open>
  What is assumed of the timeout functions that applications install: they keep the kernel
  invariant and do not themselves start, stop or change timers.
\<close>

definition quiet :: "(nat \<Rightarrow> kern \<Rightarrow> kern) \<Rightarrow> bool" where
  "quiet cb \<longleftrightarrow> (\<forall>n k. kinv k \<longrightarrow> rt_current_thread k \<noteq> None \<longrightarrow>
     kinv (cb n k) \<and> rt_current_thread (cb n k) \<noteq> None \<and> timers (cb n k) = timers k \<and>
     rt_timer_list (cb n k) = rt_timer_list k \<and> rt_tick (cb n k) = rt_tick k \<and>
     (halted (cb n k) \<longleftrightarrow> halted k))"

lemma insert_thread_sel [simp]:
  "timers (rt_schedule_insert_thread t k) = timers k"
  "rt_timer_list (rt_schedule_insert_thread t k) = rt_timer_list k"
  "rt_tick (rt_schedule_insert_thread t k) = rt_tick k"
  "halted (rt_schedule_insert_thread t k) = halted k"
  "rt_current_thread (rt_schedule_insert_thread t k) = rt_current_thread k"
  "lock_nest (rt_schedule_insert_thread t k) = lock_nest k"
  by (simp_all add: rt_schedule_insert_thread_def set_stat_def Let_def)

lemma rt_schedule_current: "rt_current_thread k \<noteq> None \<Longrightarrow> rt_current_thread (rt_schedule k) \<noteq> None"
  by (auto simp: rt_schedule_def set_stat_def Let_def split: option.splits prod.splits)

lemma rt_thread_timeout_sel:
  assumes "stat (threads k t) = RT_THREAD_SUSPEND" "rt_current_thread k \<noteq> None"
  shows "timers (rt_thread_timeout t k) = timers k" "rt_timer_list (rt_thread_timeout t k) = rt_timer_list k"
    "rt_tick (rt_thread_timeout t k) = rt_tick k" "halted (rt_thread_timeout t k) = halted k"
    "rt_current_thread (rt_thread_timeout t k) \<noteq> None"
  using assms by (simp_all add: rt_thread_timeout_def Let_def rt_schedule_halted rt_schedule_current set_error_def)

lemma timeout_func_sel:
  assumes "kinv k" "quiet cb" "rt_current_thread k \<noteq> None" "m \<notin> set (rt_timer_list k)"
    "\<And>t. m = ThreadTimer t \<Longrightarrow> stat (threads k t) = RT_THREAD_SUSPEND"
  shows "kinv (timeout_func cb m k)" "rt_current_thread (timeout_func cb m k) \<noteq> None"
    "timers (timeout_func cb m k) = timers k" "rt_timer_list (timeout_func cb m k) = rt_timer_list k"
    "rt_tick (timeout_func cb m k) = rt_tick k" "halted (timeout_func cb m k) = halted k"
  using assms kinv_rt_thread_timeout rt_thread_timeout_sel
  by (cases m; simp add: timeout_func_def quiet_def)+

lemma timer_fire_sel:
  fixes m :: tmid and k :: kern
  assumes "kinv k" "quiet cb" "rt_current_thread k \<noteq> None" "rt_timer_list k = m # ts"
  obtains k0 where
    "kinv k0" "rt_current_thread k0 \<noteq> None" "rt_tick k0 = rt_tick k" "rt_timer_list k0 = ts"
    "halted k0 = halted k" "timers k0 = (timers k)(m := (timers k m)\<lparr>activated := False\<rparr>)"
    "timer_fire cb m k = (if periodic (timers k m) then rt_timer_start m k0 else k0)"
    "periodic (timers k m) \<longrightarrow> (\<exists>n. m = UserTimer n)"
proof -
  have d: "m \<notin> set ts" "removeAll m ts = ts" and a: "activated (timers k m)"
    using kinv_D(8,9) [OF assms(1)] assms(4) by auto
  define k1 where "k1 = timeout_func cb m (rt_timer_remove m k)"
  have r: "kinv (rt_timer_remove m k)" using kinv_x_timer_remove [OF assms(1)] .
  have rs: "rt_timer_list (rt_timer_remove m k) = ts" "timers (rt_timer_remove m k) = timers k"
    "rt_tick (rt_timer_remove m k) = rt_tick k" "halted (rt_timer_remove m k) = halted k"
    "rt_current_thread (rt_timer_remove m k) = rt_current_thread k" "threads (rt_timer_remove m k) = threads k"
    using d assms(4) by (simp_all add: rt_timer_remove_def)
  have "stat (threads k t) = RT_THREAD_SUSPEND" if "m = ThreadTimer t" for t
    using kinv_D(7) [OF assms(1), of t] that assms(4) by simp
  note k1 = timeout_func_sel [OF r assms(2), of m, folded k1_def, unfolded rs, OF assms(3) d(1) this, simplified]
  define k0 where "k0 = upd_timer m (\<lambda>tm. tm\<lparr>activated := False\<rparr>) k1"
  have "\<not> periodic (timers k1 (ThreadTimer t))" for t using kinv_D(11) [OF k1(1)] .
  then have "kinv k0" unfolding k0_def using k1(1,4) d(1) by (intro kinv_x_upd_timer) auto
  moreover have "timer_fire cb m k = (if periodic (timers k m) then rt_timer_start m k0 else k0)"
    using a k1(3) by (simp add: timer_fire_def Let_def k1_def [symmetric] k0_def)
  moreover have "\<exists>n. m = UserTimer n" if "periodic (timers k m)"
    using kinv_D(11) [OF assms(1)] that by (cases m) auto
  ultimately show ?thesis using k1 by (intro that [of k0]) (simp_all add: k0_def)
qed

definition due :: "u32 \<Rightarrow> kern \<Rightarrow> tmid \<Rightarrow> bool" where
  "due c k m \<longleftrightarrow> c - timeout_tick (timers k m) < HALF_TICK_MAX"

lemma due_off:
  assumes "toff b k m \<le> 0x7fffffff"
  shows "due (b + 1) k m \<longleftrightarrow> toff b k m \<le> 1"
proof -
  define x where "x = timeout_tick (timers k m) - b"
  have "b + 1 - timeout_tick (timers k m) = 1 - x" by (simp add: x_def)
  moreover have "toff b k m = unat x" by (simp add: off_def x_def)
  ultimately have "due (b + 1) k m \<longleftrightarrow> unat (1 - x) < 0x7fffffff"
    by (simp only: due_def word_less_nat_alt) simp
  then show ?thesis using \<open>toff b k m = unat x\<close> assms unat_diff32 [of 1 x] by auto
qed

text \<open>State of the loop of \<open>rt_timer_check\<close> at tick \<open>b + 1\<close>.\<close>

definition check_inv :: "u32 \<Rightarrow> kern \<Rightarrow> bool" where
  "check_inv b k \<longleftrightarrow> kinv k \<and> rt_current_thread k \<noteq> None \<and> rt_tick k = b + 1 \<and> list_sorted b k \<and>
     (\<forall>m \<in> set (rt_timer_list k). toff b k m \<le> 0x7fffffff \<and>
        (periodic (timers k m) \<longrightarrow> 0 < init_tick (timers k m) \<and> init_tick (timers k m) < HALF_TICK_MAX))"

lemma list_sorted_tl:
  assumes "list_sorted b k" "rt_timer_list k = m # ts" "rt_timer_list k0 = ts"
    "\<And>i. timeout_tick (timers k0 i) = timeout_tick (timers k i)"
  shows "list_sorted b k0"
  using assms by (simp add: list_sorted_def)

definition due_set :: "u32 \<Rightarrow> kern \<Rightarrow> tmid set" where
  "due_set c k = {m \<in> set (rt_timer_list k). due c k m}"

lemma check_invD:
  assumes "check_inv b k" "i \<in> set (rt_timer_list k)"
  shows "toff b k i \<le> 0x7fffffff"
    "periodic (timers k i) \<Longrightarrow> 0 < init_tick (timers k i)" 
    "periodic (timers k i) \<Longrightarrow> init_tick (timers k i) < HALF_TICK_MAX"
  using assms by (auto simp: check_inv_def)

lemma restart_step:
  assumes "kinv k0" "rt_current_thread k0 \<noteq> None" "rt_tick k0 = b + 1" "list_sorted b k0"
    "m \<notin> set (rt_timer_list k0)" "m = UserTimer n" "0 < init_tick (timers k0 m)" "init_tick (timers k0 m) < HALF_TICK_MAX"
    and olds: "\<And>i. i \<in> set (rt_timer_list k0) \<Longrightarrow> toff b k0 i \<le> 0x7fffffff \<and>
       (periodic (timers k0 i) \<longrightarrow> 0 < init_tick (timers k0 i) \<and> init_tick (timers k0 i) < HALF_TICK_MAX)"
  defines "k' \<equiv> rt_timer_start m k0"
  shows "check_inv b k'" "halted k' = halted k0" "\<not> due (b + 1) k' m"
proof -
  have tm: "timeout_tick (timers k' m) = rt_tick k0 + init_tick (timers k0 m)"
    "\<And>i. i \<noteq> m \<Longrightarrow> timers k' i = timers k0 i" "init_tick (timers k' m) = init_tick (timers k0 m)"
    by (simp_all add: k'_def rt_timer_start_def rt_timer_remove_def Let_def)
  then have "timeout_tick (timers k' m) - b = init_tick (timers k0 m) + 1" using assms(3) by simp
  then have om: "2 \<le> toff b k' m" "toff b k' m \<le> 0x7fffffff"
    using assms(7,8) unat_add32 [of "init_tick (timers k0 m)" 1] by (auto simp: off_def word_less_nat_alt)
  have pre: "\<forall>i \<in> set (removeAll m (rt_timer_list k0)). toff b k0 i < toff b k' m + 0x7fffffff"
    using olds om(1) by fastforce
  have L: "list_sorted b k'" using timer_start_list(2) [OF assms(4) pre [unfolded k'_def] om(2) [unfolded k'_def]]
    by (simp add: k'_def)
  show "\<not> due (b + 1) k' m" using due_off [OF om(2)] om(1) by simp
  show "halted k' = halted k0" using assms(8) by (simp add: k'_def)
  have "toff b k' i \<le> 0x7fffffff \<and>
       (periodic (timers k' i) \<longrightarrow> 0 < init_tick (timers k' i) \<and> init_tick (timers k' i) < HALF_TICK_MAX)"
    if "i \<in> set (rt_timer_list k')" for i
  proof (cases "i = m")
    case True
    then show ?thesis using om tm(3) assms(7,8) by simp
  next
    case False
    then have "i \<in> set (rt_timer_list k0)" using that by (simp add: k'_def)
    then show ?thesis using olds tm(2) [OF False] by (simp add: off_def)
  qed
  moreover have "kinv k'" unfolding k'_def using assms(1,6) by (intro kinv_x_timer_start) auto
  ultimately show "check_inv b k'" using assms(2,3) L unfolding check_inv_def by (simp add: k'_def)
qed

lemma timer_fire_step:
  assumes "check_inv b k" "quiet cb" "rt_timer_list k = m # ts" "due (b + 1) k m"
  defines "k' \<equiv> timer_fire cb m k"
  shows "check_inv b k' \<and> halted k' = halted k \<and>
    set (rt_timer_list k') = (if periodic (timers k m) then set (rt_timer_list k) else set (rt_timer_list k) - {m}) \<and>
    (\<forall>i. i \<noteq> m \<longrightarrow> timers k' i = timers k i) \<and>
    periodic (timers k' m) = periodic (timers k m) \<and> init_tick (timers k' m) = init_tick (timers k m) \<and>
    (m \<in> set (rt_timer_list k') \<longrightarrow> \<not> due (b + 1) k' m)"
proof -
  have inv: "kinv k" "rt_current_thread k \<noteq> None" "rt_tick k = b + 1" "list_sorted b k"
    using assms(1) by (auto simp: check_inv_def)
  have mts: "m \<notin> set ts" using kinv_D(9) [OF inv(1)] assms(3) by auto
  obtain k0 where k0: "kinv k0" "rt_current_thread k0 \<noteq> None" "rt_tick k0 = rt_tick k" "rt_timer_list k0 = ts"
    "halted k0 = halted k" "timers k0 = (timers k)(m := (timers k m)\<lparr>activated := False\<rparr>)"
    "k' = (if periodic (timers k m) then rt_timer_start m k0 else k0)"
    "periodic (timers k m) \<longrightarrow> (\<exists>n. m = UserTimer n)"
    unfolding k'_def by (rule timer_fire_sel [OF inv(1) assms(2) inv(2) assms(3)]) blast
  have tt: "timeout_tick (timers k0 i) = timeout_tick (timers k i)" "init_tick (timers k0 i) = init_tick (timers k i)"
    "periodic (timers k0 i) = periodic (timers k i)" for i by (simp_all add: k0(6))
  have ls: "list_sorted b k0" using list_sorted_tl [OF inv(4) assms(3) k0(4)] tt(1) by blast
  have olds: "toff b k0 i \<le> 0x7fffffff \<and>
       (periodic (timers k0 i) \<longrightarrow> 0 < init_tick (timers k0 i) \<and> init_tick (timers k0 i) < HALF_TICK_MAX)"
    if "i \<in> set (rt_timer_list k0)" for i
    using check_invD [OF assms(1), of i] that by (simp add: k0(4) assms(3) off_def tt)
  show ?thesis
  proof (cases "periodic (timers k m)")
    case False
    then have e: "k' = k0" by (simp add: k0(7))
    have "check_inv b k0" using k0(1,2,3) inv(3) ls olds by (simp add: check_inv_def)
    then show ?thesis using False k0(4,5,6) mts assms(3) unfolding e by auto
  next
    case True
    then have e: "k' = rt_timer_start m k0" by (simp add: k0(7))
    obtain n where n: "m = UserTimer n" using k0(8) True by blast
    have it: "0 < init_tick (timers k0 m)" "init_tick (timers k0 m) < HALF_TICK_MAX"
      using check_invD(2,3) [OF assms(1), of m] True assms(3) tt by auto
    note R = restart_step [OF k0(1,2) k0(3) [unfolded inv(3)] ls mts [folded k0(4)] n it olds, folded e]
    have "timers k' i = timers k i" if "i \<noteq> m" for i
      using that k0(6) by (simp add: e rt_timer_start_def rt_timer_remove_def Let_def)
    moreover have "set (rt_timer_list k') = insert m (set ts)" "periodic (timers k' m) = periodic (timers k m)"
      by (simp_all add: e k0(4) tt)
    moreover have "init_tick (timers k' m) = init_tick (timers k m)"
      using tt(2) [of m] by (simp add: e rt_timer_start_def rt_timer_remove_def Let_def)
    ultimately show ?thesis using True R k0(5) assms(3) by auto
  qed
qed

lemma timer_check_loop_spec:
  assumes "check_inv b k" "quiet cb" "card (due_set (b + 1) k) < fuel"
  shows "\<exists>k'. timer_check_loop cb fuel (b + 1) k = Some k' \<and> check_inv b k' \<and> halted k' = halted k \<and>
    (\<forall>m \<in> set (rt_timer_list k'). \<not> due (b + 1) k' m) \<and>
    (\<forall>m. m \<in> set (rt_timer_list k') \<longleftrightarrow> m \<in> set (rt_timer_list k) \<and> (due (b + 1) k m \<longrightarrow> periodic (timers k m))) \<and>
    (\<forall>m. m \<notin> due_set (b + 1) k \<longrightarrow> timers k' m = timers k m) \<and>
    (\<forall>m. periodic (timers k' m) = periodic (timers k m) \<and> init_tick (timers k' m) = init_tick (timers k m))"
  using assms
proof (induction fuel arbitrary: k)
  case (Suc fuel)
  show ?case
  proof (cases "rt_timer_list k")
    case Nil
    then show ?thesis using Suc.prems by simp
  next
    case (Cons m ts)
    show ?thesis
    proof (cases "due (b + 1) k m")
      case True
      define k1 where "k1 = timer_fire cb m k"
      note st = timer_fire_step [OF Suc.prems(1,2) Cons True, folded k1_def]
      have fin: "finite (due_set (b + 1) k)" by (simp add: due_set_def)
      have d: "due_set (b + 1) k1 = due_set (b + 1) k - {m}"
        using st by (auto simp: due_set_def due_def split: if_splits)
      moreover have "m \<in> due_set (b + 1) k" using True Cons by (simp add: due_set_def)
      ultimately have "card (due_set (b + 1) k1) < fuel"
        using Suc.prems(3) fin card_Suc_Diff1 [of "due_set (b + 1) k" m] by simp
      then obtain k' where k': "timer_check_loop cb fuel (b + 1) k1 = Some k'" "check_inv b k'" "halted k' = halted k1"
        "\<forall>m \<in> set (rt_timer_list k'). \<not> due (b + 1) k' m"
        "\<And>i. i \<in> set (rt_timer_list k') \<longleftrightarrow> i \<in> set (rt_timer_list k1) \<and> (due (b + 1) k1 i \<longrightarrow> periodic (timers k1 i))"
        "\<And>i. i \<notin> due_set (b + 1) k1 \<Longrightarrow> timers k' i = timers k1 i"
        "\<And>i. periodic (timers k' i) = periodic (timers k1 i) \<and> init_tick (timers k' i) = init_tick (timers k1 i)"
        using Suc.IH [OF conjunct1 [OF st] Suc.prems(2)] by blast
      have "rt_tick k1 = b + 1" using st by (auto simp: check_inv_def)
      then have e: "timer_check_loop cb (Suc fuel) (b + 1) k = Some k'"
        using Cons True k'(1) by (simp add: due_def k1_def Let_def)
      have du: "i \<noteq> m \<Longrightarrow> due (b + 1) k1 i = due (b + 1) k i" for i using st by (simp add: due_def)
      have "i \<in> set (rt_timer_list k') \<longleftrightarrow> i \<in> set (rt_timer_list k) \<and> (due (b + 1) k i \<longrightarrow> periodic (timers k i))" for i
        using k'(5) [of i] st True Cons du by (cases "i = m") (auto split: if_splits)
      moreover have "timers k' i = timers k i" if "i \<notin> due_set (b + 1) k" for i
        using k'(6) [of i] st that d True Cons by (cases "i = m") (auto simp: due_set_def)
      moreover have "periodic (timers k' i) = periodic (timers k i) \<and> init_tick (timers k' i) = init_tick (timers k i)" for i
        using k'(7) [of i] st by (cases "i = m") auto
      ultimately show ?thesis using e k'(2,3,4) st by auto
    next
      case False
      have "\<not> due (b + 1) k i" if "i \<in> set (rt_timer_list k)" for i
      proof -
        have "toff b k m \<le> toff b k i" using Suc.prems(1) that Cons by (auto simp: check_inv_def list_sorted_def)
        moreover have "2 \<le> toff b k m"
          using False due_off [OF check_invD(1) [OF Suc.prems(1), of m]] Cons by auto
        ultimately show ?thesis using due_off [OF check_invD(1) [OF Suc.prems(1) that]] by auto
      qed
      then show ?thesis using False Cons Suc.prems(1) by (auto simp: due_def)
    qed
  qed
qed simp

lemma off_shift: "2 \<le> off b f m \<Longrightarrow> Suc (off (b + 1) f m) = off b f m"
proof -
  assume a: "2 \<le> off b f m"
  have "f m - (b + 1) = (f m - b) - 1" by simp
  then have "off (b + 1) f m = off b f m - 1"
    using a unat_diff32 [of "f m - b" 1] unfolding off_def by (simp only:) simp
  then show ?thesis using a by simp
qed

lemma sorted_wrt_shift:
  assumes "\<forall>i \<in> set xs. 2 \<le> off b f i" "sorted_wrt (\<lambda>i j. off b f i \<le> off b f j) xs"
  shows "sorted_wrt (\<lambda>i j. off (b + 1) f i \<le> off (b + 1) f j) xs"
proof (rule sorted_wrt_mono_rel [OF _ assms(2)])
  fix i j assume "i \<in> set xs" "j \<in> set xs" "off b f i \<le> off b f j"
  then show "off (b + 1) f i \<le> off (b + 1) f j"
    using assms(1) off_shift [of b f i] off_shift [of b f j] by auto
qed

lemma check_done_sorted:
  assumes "check_inv b k" "\<forall>m \<in> set (rt_timer_list k). \<not> due (b + 1) k m"
  shows "timers_sorted k"
proof -
  have two: "\<forall>m \<in> set (rt_timer_list k). 2 \<le> toff b k m"
    using due_off [OF check_invD(1) [OF assms(1)]] assms(2) by fastforce
  moreover have "Suc (toff (b + 1) k m) = toff b k m" if "m \<in> set (rt_timer_list k)" for m
    using off_shift two that by blast
  ultimately show ?thesis
    using assms(1) sorted_wrt_shift [OF two] check_invD(1) [OF assms(1)]
    by (fastforce simp: timers_sorted_def check_inv_def list_sorted_def)
qed

lemma time_slice_sel [simp]:
  "timers (time_slice t k) = timers k" "rt_timer_list (time_slice t k) = rt_timer_list k"
  "rt_tick (time_slice t k) = rt_tick k"
  by (simp_all add: time_slice_def Let_def)

lemma time_slice_halted: "rt_current_thread k \<noteq> None \<Longrightarrow> halted (time_slice t k) = halted k"
  "rt_current_thread k \<noteq> None \<Longrightarrow> rt_current_thread (time_slice t k) \<noteq> None"
  using rt_schedule_current by (simp_all add: time_slice_def Let_def rt_schedule_halted del: not_None_eq)

lemma tick_result:
  assumes "kinv k" "timers_sorted k" "rt_current_thread k \<noteq> None" "quiet cb" "length (rt_timer_list k) < fuel"
    and periods: "\<forall>m \<in> set (rt_timer_list k). periodic (timers k m) \<longrightarrow>
       0 < init_tick (timers k m) \<and> init_tick (timers k m) < HALF_TICK_MAX"
  shows "\<exists>k'. rt_tick_increase cb fuel k = Some k' \<and> kinv k' \<and> timers_sorted k' \<and>
    rt_tick k' = rt_tick k + 1 \<and> halted k' = halted k \<and>
    rt_current_thread k' \<noteq> None \<and>
    (\<forall>m. periodic (timers k' m) = periodic (timers k m) \<and> init_tick (timers k' m) = init_tick (timers k m)) \<and>
    (\<forall>m. m \<in> set (rt_timer_list k') \<longleftrightarrow> m \<in> set (rt_timer_list k) \<and>
       (timeout_tick (timers k m) - rt_tick k \<le> 1 \<longrightarrow> periodic (timers k m))) \<and>
    (\<forall>m \<in> set (rt_timer_list k'). 0 < timeout_tick (timers k' m) - rt_tick k')"
proof -
  obtain t where t: "rt_current_thread k = Some t" using assms(3) by auto
  define b where "b = rt_tick k"
  define k1 where "k1 = time_slice t (k\<lparr>rt_tick := b + 1\<rparr>)"
  have sel: "timers k1 = timers k" "rt_timer_list k1 = rt_timer_list k" "rt_tick k1 = b + 1"
    by (simp_all add: k1_def)
  have offs: "toff b k m < 0x7fffffff" if "m \<in> set (rt_timer_list k)" for m
    using assms(2) that by (simp add: timers_sorted_def b_def)
  have "kinv k1" unfolding k1_def by (rule kinv_time_slice) (simp add: assms(1))
  then have inv: "check_inv b k1"
    using time_slice_halted(2) [of "k\<lparr>rt_tick := b + 1\<rparr>" t] assms(2,3) offs periods
    by (fastforce simp: check_inv_def sel k1_def timers_sorted_def list_sorted_def b_def)
  have "card (due_set (b + 1) k1) \<le> length (rt_timer_list k)"
    unfolding due_set_def sel by (rule order_trans [OF card_mono card_length]) auto
  then obtain k' where k': "timer_check_loop cb fuel (b + 1) k1 = Some k'" "check_inv b k'" "halted k' = halted k1"
    "\<forall>m \<in> set (rt_timer_list k'). \<not> due (b + 1) k' m"
    "\<And>m. m \<in> set (rt_timer_list k') \<longleftrightarrow> m \<in> set (rt_timer_list k1) \<and> (due (b + 1) k1 m \<longrightarrow> periodic (timers k1 m))"
    "\<And>m. periodic (timers k' m) = periodic (timers k1 m) \<and> init_tick (timers k' m) = init_tick (timers k1 m)"
    using timer_check_loop_spec [OF inv assms(4), of fuel] assms(5) by auto
  have e: "rt_tick_increase cb fuel k = Some k'"
    using k'(1) t by (simp add: rt_tick_increase_def Let_def rt_timer_check_def k1_def b_def)
  have due: "due (b + 1) k1 m \<longleftrightarrow> timeout_tick (timers k m) - b \<le> 1" if "m \<in> set (rt_timer_list k)" for m
    using due_off [of b k1 m] offs [OF that] by (simp add: off_def sel word_le_nat_alt)
  have "0 < timeout_tick (timers k' m) - (b + 1)" if m: "m \<in> set (rt_timer_list k')" for m
  proof (rule ccontr)
    assume "\<not> 0 < timeout_tick (timers k' m) - (b + 1)"
    then have "timeout_tick (timers k' m) - (b + 1) = 0" by (simp only: word_gt_0 not_not)
    then have "timeout_tick (timers k' m) = b + 1" by (simp only: right_minus_eq)
    then show False using k'(4) m by (auto simp: due_def)
  qed
  moreover have "rt_tick k' = b + 1" "kinv k'" "rt_current_thread k' \<noteq> None" using k'(2) by (auto simp: check_inv_def)
  moreover have "halted k' = halted k"
    using k'(3) time_slice_halted(1) [of "k\<lparr>rt_tick := b + 1\<rparr>" t] assms(3) by (simp add: k1_def)
  moreover have "m \<in> set (rt_timer_list k') \<longleftrightarrow> m \<in> set (rt_timer_list k) \<and>
       (timeout_tick (timers k m) - b \<le> 1 \<longrightarrow> periodic (timers k m))" for m
    using k'(5) [of m] due [of m] sel by auto
  ultimately show ?thesis using e check_done_sorted [OF k'(2,4)] k'(6) sel(1) by (auto simp: b_def)
qed



text \<open>A system with one running periodic timer.\<close>

definition tick_demo :: kern where
  "tick_demo = rt_timer_start (UserTimer 0) (rt_timer_init (UserTimer 0) 1 True two_kern)"

lemma tick_demo_ok: "kinv tick_demo" "timers_sorted tick_demo"
proof -
  have l: "rt_timer_list two_kern = []" "rt_tick two_kern = 0" by code_simp+
  have "kinv (rt_timer_init (UserTimer 0) 1 True two_kern)"
    using kinv_two_kern l(1) by (simp add: rt_timer_init_def kinv_defs)
  then show "kinv tick_demo" unfolding tick_demo_def by (rule kinv_x_timer_start) simp
  have "timers_sorted (rt_timer_init (UserTimer 0) 1 True two_kern)"
    using l by (simp add: timers_sorted_def list_sorted_def rt_timer_init_def)
  then show "timers_sorted tick_demo" unfolding tick_demo_def
    by (rule timers_sorted_start) (simp add: rt_timer_init_def)
qed


end
