(* ===== verification/Rt_Ipc_List.thy ===== *)
theory Rt_Ipc_List
  imports Rt_Kernel_Inv
begin

section \<open>Waiting lists of IPC objects (\<^verbatim>\<open>rt-thread/src/ipc.c\<close>)\<close>

text \<open>
  The three list helpers every blocking IPC call is written with, the common sequence with which
  such a call puts the running thread to sleep, and their effect on the kernel invariant.
  A blocking call runs to the context switch; what it does once the thread runs again is a
  definition of its own, applied to the state of that moment.
\<close>

subsection \<open>Definitions\<close>

datatype ipc_flag = RT_IPC_FLAG_FIFO | RT_IPC_FLAG_PRIO

text \<open>How a call ends: it returns an error code, or the caller sleeps until it is resumed.\<close>

datatype outcome = Ret rt_err | Blocked

fun prio_insert :: "(tid \<Rightarrow> nat) \<Rightarrow> tid \<Rightarrow> tid list \<Rightarrow> tid list" where
  "prio_insert prio t [] = [t]"
| "prio_insert prio t (s # ss) = (if prio t < prio s then t # s # ss else s # prio_insert prio t ss)"

definition fifo_insert :: "(tid \<Rightarrow> nat) \<Rightarrow> tid \<Rightarrow> tid list \<Rightarrow> tid list" where
  "fifo_insert prio t q = q @ [t]"

definition wait_insert :: "ipc_flag \<Rightarrow> (tid \<Rightarrow> nat) \<Rightarrow> tid \<Rightarrow> tid list \<Rightarrow> tid list" where
  "wait_insert flag = (case flag of RT_IPC_FLAG_FIFO \<Rightarrow> fifo_insert | RT_IPC_FLAG_PRIO \<Rightarrow> prio_insert)"

definition rt_ipc_list_suspend :: "lid \<Rightarrow> tid \<Rightarrow> ipc_flag \<Rightarrow> kern \<Rightarrow> kern" where
  "rt_ipc_list_suspend l t flag k =
     (let k = fst (rt_thread_suspend t k)
      in k\<lparr>queues := (queues k)(l := wait_insert flag (\<lambda>u. current_priority (threads k u)) t (queues k l))\<rparr>)"

definition rt_ipc_list_resume :: "lid \<Rightarrow> kern \<Rightarrow> kern" where
  "rt_ipc_list_resume l k = fst (rt_thread_resume (hd (queues k l)) k)"

text \<open>
  The loop of \<open>rt_ipc_list_resume_all\<close> runs once per waiting thread: each pass removes the first
  one. The bound is the length of the list when it starts.
\<close>

fun resume_all_loop :: "nat \<Rightarrow> lid \<Rightarrow> kern \<Rightarrow> kern" where
  "resume_all_loop 0 l k = k"
| "resume_all_loop (Suc n) l k =
     (if queues k l = [] then k
      else resume_all_loop n l (fst (rt_thread_resume (hd (queues k l)) (set_error (hd (queues k l)) RT_ERROR k))))"

definition rt_ipc_list_resume_all :: "lid \<Rightarrow> kern \<Rightarrow> kern" where
  "rt_ipc_list_resume_all l k = resume_all_loop (length (queues k l)) l k"

text \<open>
  The end of every blocking call: arm the timer of the thread \<open>t\<close>, which has just been suspended on a
  list, when the waiting time is positive, and switch to another thread. A negative time waits
  forever.
\<close>

definition ipc_sleep :: "tid \<Rightarrow> int \<Rightarrow> kern \<Rightarrow> kern" where
  "ipc_sleep t time k =
     rt_schedule
       (if time > 0
        then rt_timer_start (ThreadTimer t)
               (fst (rt_timer_control (ThreadTimer t) (RT_TIMER_CTRL_SET_TIME (word_of_int time)) k))
        else k)"

definition ipc_wait :: "lid \<Rightarrow> tid \<Rightarrow> ipc_flag \<Rightarrow> int \<Rightarrow> kern \<Rightarrow> kern" where
  "ipc_wait l t flag time k = ipc_sleep t time (rt_ipc_list_suspend l t flag k)"

subsection \<open>Order of service\<close>

text \<open>
  The contract of both queueing disciplines: a new waiter goes behind exactly the first waiters
  that are \<open>ahead\<close> of it.
\<close>

locale wait_queue =
  fixes ins :: "(tid \<Rightarrow> nat) \<Rightarrow> tid \<Rightarrow> tid list \<Rightarrow> tid list"
    and ahead :: "(tid \<Rightarrow> nat) \<Rightarrow> tid \<Rightarrow> tid \<Rightarrow> bool"
  assumes ins_eq: "ins p t q = takeWhile (\<lambda>u. ahead p u t) q @ t # dropWhile (\<lambda>u. ahead p u t) q"
    and ahead_trans: "ahead p u v \<Longrightarrow> ahead p v w \<Longrightarrow> ahead p u w"
    and ahead_total: "ahead p u v \<or> ahead p v u"
begin

lemma set_ins: "set (ins p t q) = insert t (set q)"
proof -
  have "set q = set (takeWhile (\<lambda>u. ahead p u t) q @ dropWhile (\<lambda>u. ahead p u t) q)" by simp
  then show ?thesis unfolding ins_eq by (auto simp del: takeWhile_dropWhile_id)
qed

lemma distinct_ins: "distinct (ins p t q) \<longleftrightarrow> distinct (t # q)"
proof -
  have "distinct (xs @ t # ys) \<longleftrightarrow> distinct (t # xs @ ys)" for xs ys by auto
  then have "distinct (ins p t q) \<longleftrightarrow> distinct (t # takeWhile (\<lambda>u. ahead p u t) q @ dropWhile (\<lambda>u. ahead p u t) q)"
    unfolding ins_eq by blast
  then show ?thesis by simp
qed

lemma sorted_ins:
  assumes "sorted_wrt (ahead p) q"
  shows "sorted_wrt (ahead p) (ins p t q)"
  using assms unfolding ins_eq
proof (induction q)
  case (Cons u q)
  show ?case
  proof (cases "ahead p u t")
    case True
    have "set q = set (takeWhile (\<lambda>u. ahead p u t) q @ dropWhile (\<lambda>u. ahead p u t) q)" by simp
    then show ?thesis using Cons True by (auto simp del: takeWhile_dropWhile_id)
  next
    case False
    then have "ahead p t u" using ahead_total by blast
    then show ?thesis using Cons.prems False ahead_trans by auto
  qed
qed simp

text \<open>The next thread to be served changes only when the newcomer is ahead of everyone.\<close>

lemma hd_ins: "q \<noteq> [] \<Longrightarrow> hd (ins p t q) = (if ahead p (hd q) t then hd q else t)"
  unfolding ins_eq by (cases q) auto

end

lemma fifo_insert_eq: "fifo_insert p t q = takeWhile (\<lambda>u. True) q @ t # dropWhile (\<lambda>u. True) q"
  unfolding fifo_insert_def by (induction q) auto

interpretation fifo: wait_queue fifo_insert "\<lambda>p u t. True"
  by unfold_locales (simp_all add: fifo_insert_eq)

lemma prio_insert_eq:
  "prio_insert p t q = takeWhile (\<lambda>u. p u \<le> p t) q @ t # dropWhile (\<lambda>u. p u \<le> p t) q"
  by (induction q) auto

interpretation prio: wait_queue prio_insert "\<lambda>p u t. p u \<le> p t"
  by unfold_locales (auto simp: prio_insert_eq)

lemma wait_insert_set [simp]: "set (wait_insert flag p t q) = insert t (set q)"
  by (cases flag) (simp_all add: wait_insert_def fifo.set_ins prio.set_ins)

lemma wait_insert_distinct [simp]: "distinct (wait_insert flag p t q) \<longleftrightarrow> distinct (t # q)"
  by (cases flag) (simp_all only: wait_insert_def fifo.distinct_ins prio.distinct_ins ipc_flag.case)

lemma wait_insert_not_Nil [simp]: "wait_insert flag p t q \<noteq> []"
  using wait_insert_set [of flag p t q] by (metis insert_not_empty list.set(1))

subsection \<open>Suspending on a list\<close>

definition waiting :: "lid \<Rightarrow> bool" where
  "waiting l \<longleftrightarrow> (\<forall>p. l \<noteq> Ready p) \<and> l \<noteq> Defunct"

lemma waiting_simps [simp]: "waiting (Wait i)" "waiting (WaitSend i)" "\<not> waiting (Ready p)" "\<not> waiting Defunct"
  by (simp_all add: waiting_def)

lemma stat_of_waiting [simp]: "waiting l \<Longrightarrow> stat_of l = RT_THREAD_SUSPEND"
  by (cases l) auto

lemma suspend_sel:
  assumes "stat (threads k t) = RT_THREAD_RUNNING" "rt_current_thread k = Some t"
  shows "threads (fst (rt_thread_suspend t k)) = (threads k)(t := (threads k t)\<lparr>stat := RT_THREAD_SUSPEND\<rparr>)"
    "queues (fst (rt_thread_suspend t k)) l = removeAll t (queues k l)"
    "rt_current_thread (fst (rt_thread_suspend t k)) = Some t"
    "lock_nest (fst (rt_thread_suspend t k)) = lock_nest k"
    "rt_tick (fst (rt_thread_suspend t k)) = rt_tick k"
    "halted (fst (rt_thread_suspend t k)) = halted k"
  using assms by (auto simp: rt_thread_suspend_def set_stat_def Let_def)

lemma running_unlinked:
  "kinv k \<Longrightarrow> stat (threads k t) = RT_THREAD_RUNNING \<Longrightarrow> removeAll t (queues k l) = queues k l"
  using unlinked [of "{}" k t l] by simp

text \<open>A thread suspended and linked anywhere into a waiting list.\<close>

lemma suspend_link_sel:
  assumes "kinv k" "stat (threads k t) = RT_THREAD_RUNNING" "rt_current_thread k = Some t" "waiting l"
    and q': "set q' = insert t (set (queues k l))" "distinct q'"
  defines "k1 \<equiv> fst (rt_thread_suspend t k)"
  defines "k' \<equiv> k1\<lparr>queues := (queues k1)(l := q')\<rparr>"
  shows "kinv k'" "threads k' = (threads k)(t := (threads k t)\<lparr>stat := RT_THREAD_SUSPEND\<rparr>)"
    "queues k' = (queues k)(l := q')"
    "rt_current_thread k' = Some t" "lock_nest k' = lock_nest k" "rt_tick k' = rt_tick k" "halted k' = halted k"
proof -
  note s = suspend_sel [OF assms(2,3), folded k1_def]
  have q: "queues k1 = queues k" using s(2) running_unlinked [OF assms(1,2)] by (intro ext) simp
  show "threads k' = (threads k)(t := (threads k t)\<lparr>stat := RT_THREAD_SUSPEND\<rparr>)" "queues k' = (queues k)(l := q')"
    "rt_current_thread k' = Some t" "lock_nest k' = lock_nest k" "rt_tick k' = rt_tick k" "halted k' = halted k"
    using s by (simp_all add: k'_def q)
  have inv: "kinv k1" unfolding k1_def by (rule kinv_rt_thread_suspend [OF assms(1)])
  have un: "\<forall>l. t \<notin> set (queues k1 l)" using unlinked [OF assms(1), of t] assms(2) by (simp add: q)
  have "links_ok ({} - {t}) k'"
    using inv un assms(4) q' unfolding kinv_x_def
    by (intro links_ok_put [of _ k1 t q' l]) (auto simp: k'_def q s(1) links_ok_def)
  moreover have "prio_ok k'" using inv assms(4) by (auto simp: k'_def kinv_x_def prio_ok_def q waiting_def)
  moreover have "run_ok {} k'" "timers_ok {} k'" using inv by (simp_all add: k'_def kinv_x_def run_ok_def timers_ok_def)
  ultimately show "kinv k'" by (simp add: kinv_x_def)
qed

lemma list_suspend_sel:
  fixes flag :: ipc_flag
  assumes "kinv k" "stat (threads k t) = RT_THREAD_RUNNING" "rt_current_thread k = Some t" "waiting l"
  defines "k' \<equiv> rt_ipc_list_suspend l t flag k"
  shows "kinv k'" "threads k' = (threads k)(t := (threads k t)\<lparr>stat := RT_THREAD_SUSPEND\<rparr>)"
    "queues k' = (queues k)(l := wait_insert flag (\<lambda>u. current_priority (threads k u)) t (queues k l))"
    "rt_current_thread k' = Some t" "lock_nest k' = lock_nest k" "rt_tick k' = rt_tick k" "halted k' = halted k"
proof -
  define q where "q = wait_insert flag (\<lambda>u. current_priority (threads k u)) t (queues k l)"
  have d: "set q = insert t (set (queues k l))" "distinct q"
    using kinv_D(10) [OF assms(1), of l] unlinked [OF assms(1), of t l] assms(2) by (simp_all add: q_def)
  have "(\<lambda>u. current_priority (threads (fst (rt_thread_suspend t k)) u)) = (\<lambda>u. current_priority (threads k u))"
    by (auto simp: suspend_sel [OF assms(2,3)])
  moreover have "queues (fst (rt_thread_suspend t k)) l = queues k l"
    using suspend_sel(2) [OF assms(2,3)] running_unlinked [OF assms(1,2)] by simp
  ultimately have k': "k' = (fst (rt_thread_suspend t k))\<lparr>queues := (queues (fst (rt_thread_suspend t k)))(l := q)\<rparr>"
    by (simp add: k'_def rt_ipc_list_suspend_def Let_def q_def)
  show "kinv k'" "threads k' = (threads k)(t := (threads k t)\<lparr>stat := RT_THREAD_SUSPEND\<rparr>)"
    "queues k' = (queues k)(l := wait_insert flag (\<lambda>u. current_priority (threads k u)) t (queues k l))"
    "rt_current_thread k' = Some t" "lock_nest k' = lock_nest k" "rt_tick k' = rt_tick k" "halted k' = halted k"
    using suspend_link_sel [OF assms(1-4) d, folded k'] by (simp_all add: q_def)
qed

text \<open>Going to sleep changes no waiting list and wakes nobody.\<close>

lemma ipc_sleep_sel:
  assumes "kinv k" "stat (threads k t) = RT_THREAD_SUSPEND" "rt_current_thread k = Some t"
  shows "kinv (ipc_sleep t time k)"
    and "waiting l \<Longrightarrow> queues (ipc_sleep t time k) l = queues k l"
    and "stat (threads (ipc_sleep t time k) t) = RT_THREAD_SUSPEND"
    and "thread_core (threads (ipc_sleep t time k) u) = thread_core (threads k u)"
    and "halted (ipc_sleep t time k) \<longleftrightarrow> halted k \<or> time > 0 \<and> \<not> word_of_int time < HALF_TICK_MAX"
    and "time \<le> 0 \<or> ThreadTimer t \<in> set (rt_timer_list (ipc_sleep t time k))"
proof -
  define k2 where "k2 = (if time > 0 then rt_timer_start (ThreadTimer t) (fst (rt_timer_control (ThreadTimer t)
      (RT_TIMER_CTRL_SET_TIME (word_of_int time)) k)) else k)"
  have e: "ipc_sleep t time k = rt_schedule k2" by (simp add: ipc_sleep_def k2_def)
  have "kinv (rt_timer_start (ThreadTimer t) (fst (rt_timer_control (ThreadTimer t)
      (RT_TIMER_CTRL_SET_TIME (word_of_int time)) k)))"
    using kinv_set_time [OF assms(1)] assms(2) by (intro kinv_x_timer_start) auto
  then have inv: "kinv k2" unfolding k2_def using assms(1) by simp
  have k2: "threads k2 = threads k" "queues k2 = queues k" "rt_current_thread k2 = Some t"
    using assms(3) by (simp_all add: k2_def)
  show "kinv (ipc_sleep t time k)" unfolding e by (rule kinv_rt_schedule [OF inv])
  show "waiting l \<Longrightarrow> queues (ipc_sleep t time k) l = queues k l"
    using rt_schedule_wait [OF inv, of l] k2(2) by (auto simp: e waiting_def)
  show "stat (threads (ipc_sleep t time k) t) = RT_THREAD_SUSPEND"
    using rt_schedule_core(2) [OF inv, of t] k2(1) assms(2) by (simp add: e)
  show "thread_core (threads (ipc_sleep t time k) u) = thread_core (threads k u)"
    using rt_schedule_core(1) [OF inv, of u] k2(1) by (simp add: e)
  show "halted (ipc_sleep t time k) \<longleftrightarrow> halted k \<or> time > 0 \<and> \<not> word_of_int time < HALF_TICK_MAX"
    using rt_schedule_halted [of k2] k2(3) by (simp add: e k2_def)
  show "time \<le> 0 \<or> ThreadTimer t \<in> set (rt_timer_list (ipc_sleep t time k))"
    by (simp add: e k2_def)
qed

lemma ipc_wait_sel:
  assumes "kinv k" "stat (threads k t) = RT_THREAD_RUNNING" "rt_current_thread k = Some t" "waiting l"
  shows "waiting l' \<Longrightarrow> queues (ipc_wait l t flag time k) l' =
      (if l' = l then wait_insert flag (\<lambda>u. current_priority (threads k u)) t (queues k l) else queues k l')"
    and "stat (threads (ipc_wait l t flag time k) t) = RT_THREAD_SUSPEND"
    and "thread_core (threads (ipc_wait l t flag time k) u) = thread_core (threads k u)"
    and "halted (ipc_wait l t flag time k) \<longleftrightarrow> halted k \<or> time > 0 \<and> \<not> word_of_int time < HALF_TICK_MAX"
    and "time \<le> 0 \<or> ThreadTimer t \<in> set (rt_timer_list (ipc_wait l t flag time k))"
    and "kinv (ipc_wait l t flag time k)"
proof -
  note s = list_suspend_sel [OF assms, of flag]
  have "stat (threads (rt_ipc_list_suspend l t flag k) t) = RT_THREAD_SUSPEND" by (simp add: s(2))
  note w = ipc_sleep_sel [OF s(1) this s(4), where time = time, folded ipc_wait_def]
  show "waiting l' \<Longrightarrow> queues (ipc_wait l t flag time k) l' =
      (if l' = l then wait_insert flag (\<lambda>u. current_priority (threads k u)) t (queues k l) else queues k l')"
    using w(2) [of l'] by (simp add: s(3))
  show "stat (threads (ipc_wait l t flag time k) t) = RT_THREAD_SUSPEND" by (rule w(3))
  show "thread_core (threads (ipc_wait l t flag time k) u) = thread_core (threads k u)"
    using w(4) [of u] by (simp add: s(2) thread_core_def)
  show "halted (ipc_wait l t flag time k) \<longleftrightarrow> halted k \<or> time > 0 \<and> \<not> word_of_int time < HALF_TICK_MAX"
    using w(5) by (simp add: s(7))
  show "time \<le> 0 \<or> ThreadTimer t \<in> set (rt_timer_list (ipc_wait l t flag time k))" by (rule w(6))
  show "kinv (ipc_wait l t flag time k)" by (rule w(1))
qed

lemma kinv_ipc_wait:
  assumes "kinv k" "stat (threads k t) = RT_THREAD_RUNNING" "rt_current_thread k = Some t" "waiting l"
  shows "kinv (ipc_wait l t flag time k)"
  by (rule ipc_wait_sel(6) [OF assms])

subsection \<open>Resuming from a list\<close>

lemma resume_wait:
  assumes "kinv k" "stat (threads k t) = RT_THREAD_SUSPEND"
  shows "kinv (fst (rt_thread_resume t k))"
    and "\<forall>p. l \<noteq> Ready p \<Longrightarrow> queues (fst (rt_thread_resume t k)) l = removeAll t (queues k l)"
    and "thread_core (threads (fst (rt_thread_resume t k)) u) = thread_core (threads k u)"
    and "u \<noteq> t \<Longrightarrow> stat (threads (fst (rt_thread_resume t k)) u) = stat (threads k u)"
    and "stat (threads (fst (rt_thread_resume t k)) t) =
           (if rt_current_thread k = Some t then RT_THREAD_RUNNING else RT_THREAD_READY)"
    and "halted (fst (rt_thread_resume t k)) = halted k"
    and "rt_current_thread (fst (rt_thread_resume t k)) = rt_current_thread k"
    and "lock_nest (fst (rt_thread_resume t k)) = lock_nest k"
  subgoal by (rule kinv_rt_thread_resume [OF assms(1)])
  using assms(2) by (auto simp: rt_thread_resume_def rt_schedule_insert_thread_def set_stat_def Let_def thread_core_def)

lemma list_resume_sel:
  assumes "kinv k" "waiting l" "queues k l = t # q"
  defines "k' \<equiv> rt_ipc_list_resume l k"
  shows "kinv k'" "queues k' l = q" "waiting l' \<Longrightarrow> l' \<noteq> l \<Longrightarrow> queues k' l' = queues k l'"
    "thread_core (threads k' u) = thread_core (threads k u)"
    "u \<noteq> t \<Longrightarrow> stat (threads k' u) = stat (threads k u)"
    "stat (threads k' t) = (if rt_current_thread k = Some t then RT_THREAD_RUNNING else RT_THREAD_READY)"
    "halted k' = halted k" "rt_current_thread k' = rt_current_thread k" "lock_nest k' = lock_nest k"
proof -
  have t: "t \<in> set (queues k l)" using assms(3) by simp
  then have st: "stat (threads k t) = RT_THREAD_SUSPEND" using kinv_D(1) [OF assms(1) t] assms(2) by simp
  have k': "k' = fst (rt_thread_resume t k)" by (simp add: k'_def rt_ipc_list_resume_def assms(3))
  note r = resume_wait [OF assms(1) st, folded k']
  show "kinv k'" "thread_core (threads k' u) = thread_core (threads k u)"
    "u \<noteq> t \<Longrightarrow> stat (threads k' u) = stat (threads k u)"
    "stat (threads k' t) = (if rt_current_thread k = Some t then RT_THREAD_RUNNING else RT_THREAD_READY)"
    "halted k' = halted k" "rt_current_thread k' = rt_current_thread k" "lock_nest k' = lock_nest k"
    using r by simp_all
  have "distinct (queues k l)" using kinv_D(10) [OF assms(1)] .
  then show "queues k' l = q" using r(2) [of l] assms(2,3) by (simp add: waiting_def)
  show "queues k' l' = queues k l'" if "waiting l'" "l' \<noteq> l"
  proof -
    have "t \<notin> set (queues k l')"
      using assms(1) t that(2) unfolding kinv_x_def links_ok_def by blast
    then show ?thesis using r(2) [of l'] that(1) by (simp add: waiting_def)
  qed
qed

text \<open>What resuming every waiter of \<open>l\<close> leaves behind.\<close>

definition resumed_all :: "lid \<Rightarrow> kern \<Rightarrow> kern \<Rightarrow> bool" where
  "resumed_all l k k' \<longleftrightarrow> kinv k' \<and> queues k' l = [] \<and>
     (\<forall>l'. waiting l' \<longrightarrow> l' \<noteq> l \<longrightarrow> queues k' l' = queues k l') \<and>
     (\<forall>u. th_error (threads k' u) = (if u \<in> set (queues k l) then RT_ERROR else th_error (threads k u))) \<and>
     (\<forall>u \<in> set (queues k l). stat (threads k' u) \<noteq> RT_THREAD_SUSPEND) \<and>
     (\<forall>u. u \<notin> set (queues k l) \<longrightarrow> stat (threads k' u) = stat (threads k u)) \<and>
     (\<forall>u. current_priority (threads k' u) = current_priority (threads k u)) \<and>
     halted k' = halted k \<and> rt_current_thread k' = rt_current_thread k \<and> lock_nest k' = lock_nest k"

lemma resume_all_loop_post:
  assumes "kinv k" "waiting l" "length (queues k l) \<le> n"
  shows "resumed_all l k (resume_all_loop n l k)"
  using assms(1,3)
proof (induction n arbitrary: k)
  case (Suc n)
  show ?case
  proof (cases "queues k l")
    case Nil
    then show ?thesis using Suc.prems by (simp add: resumed_all_def)
  next
    case (Cons t q)
    define k0 where "k0 = set_error t RT_ERROR k"
    have k0: "kinv k0" "queues k0 = queues k" "queues k0 l = t # q"
      using Suc.prems(1) Cons by (simp_all add: k0_def) (simp_all add: set_error_def)
    define k1 where "k1 = rt_ipc_list_resume l k0"
    note r = list_resume_sel [OF k0(1) assms(2) k0(3), folded k1_def]
    have e: "resume_all_loop (Suc n) l k = resume_all_loop n l k1"
      using Cons by (simp add: k1_def rt_ipc_list_resume_def k0_def set_error_def)
    have "length (queues k1 l) \<le> n" using Suc.prems(2) Cons r(2) by simp
    note IH = Suc.IH [OF r(1) this, unfolded resumed_all_def r(2)]
    have tq: "t \<notin> set q" using kinv_D(10) [OF Suc.prems(1), of l] Cons by simp
    have thr: "th_error (threads k1 u) = (if u = t then RT_ERROR else th_error (threads k u))"
      "current_priority (threads k1 u) = current_priority (threads k u)" for u
      using r(4) [of u] by (auto simp: thread_core_def k0_def set_error_def)
    have st: "stat (threads k1 u) = stat (threads k u)" if "u \<noteq> t" for u
      using r(5) [OF that] that by (simp add: k0_def set_error_def)
    have rest: "queues k1 l' = queues k l'" if "waiting l'" "l' \<noteq> l" for l'
      using r(3) [OF that] k0(2) by simp
    have misc: "halted k1 = halted k" "rt_current_thread k1 = rt_current_thread k" "lock_nest k1 = lock_nest k"
      using r(7,8,9) by (simp_all add: k0_def set_error_def)
    have s1: "stat (threads (resume_all_loop n l k1) u) \<noteq> RT_THREAD_SUSPEND" if "u \<in> insert t (set q)" for u
      using IH r(6) that tq by (cases "u = t") auto
    have s2: "stat (threads (resume_all_loop n l k1) u) = stat (threads k u)" if "u \<notin> insert t (set q)" for u
      using IH st [of u] that by auto
    show ?thesis unfolding e resumed_all_def using IH s1 s2 Cons tq thr rest misc by auto
  qed
qed (simp add: resumed_all_def)

lemma resume_all_post: "kinv k \<Longrightarrow> waiting l \<Longrightarrow> resumed_all l k (rt_ipc_list_resume_all l k)"
  unfolding rt_ipc_list_resume_all_def by (rule resume_all_loop_post) simp_all

end
