(* ===== verification/Rt_Sem.thy ===== *)
theory Rt_Sem
  imports Rt_Ipc_List
begin

section \<open>Semaphores (\<^verbatim>\<open>rt-thread/src/ipc.c\<close>)\<close>

text \<open>
  A semaphore is its 16-bit value and its queueing discipline; its waiting list is the kernel
  list \<open>Wait i\<close>. \<open>t\<close> is the calling thread. The lemmas show what each branch of each operation
  does; the step relation at the end lets any number of threads use one semaphore while the rest
  of the kernel runs, and shows that no permit is invented.
\<close>

subsection \<open>Operations\<close>

record rt_semaphore =
  sem_value :: u16
  sem_flag :: ipc_flag

definition rt_sem_init :: "nat \<Rightarrow> u32 \<Rightarrow> ipc_flag \<Rightarrow> kern \<Rightarrow> rt_semaphore \<times> kern" where
  "rt_sem_init i value flag k =
     (let k = rt_assert (value < 0x10000) k;
          k = k\<lparr>queues := (queues k)(Wait i := [])\<rparr>
      in (\<lparr>sem_value = ucast value, sem_flag = flag\<rparr>, k))"

definition rt_sem_detach :: "nat \<Rightarrow> kern \<Rightarrow> kern" where
  "rt_sem_detach i k = rt_ipc_list_resume_all (Wait i) k"

definition rt_sem_take :: "nat \<Rightarrow> tid \<Rightarrow> int \<Rightarrow> rt_semaphore \<times> kern \<Rightarrow> (rt_semaphore \<times> kern) \<times> outcome" where
  "rt_sem_take i t time = (\<lambda>(sem, k).
     if sem_value sem > 0 then ((sem\<lparr>sem_value := sem_value sem - 1\<rparr>, k), Ret RT_EOK)
     else if time = 0 then ((sem, k), Ret RT_ETIMEOUT)
     else ((sem, ipc_wait (Wait i) t (sem_flag sem) time (set_error t RT_EOK k)), Blocked))"

text \<open>The value \<open>rt_sem_take\<close> returns when the thread runs again.\<close>

definition rt_sem_take_end :: "tid \<Rightarrow> kern \<Rightarrow> rt_err" where
  "rt_sem_take_end t k = (if th_error (threads k t) \<noteq> RT_EOK then th_error (threads k t) else RT_EOK)"

definition rt_sem_trytake :: "nat \<Rightarrow> tid \<Rightarrow> rt_semaphore \<times> kern \<Rightarrow> (rt_semaphore \<times> kern) \<times> outcome" where
  "rt_sem_trytake i t = rt_sem_take i t 0"

definition rt_sem_release :: "nat \<Rightarrow> rt_semaphore \<times> kern \<Rightarrow> rt_semaphore \<times> kern" where
  "rt_sem_release i = (\<lambda>(sem, k).
     if queues k (Wait i) \<noteq> [] then (sem, rt_schedule (rt_ipc_list_resume (Wait i) k))
     else (sem\<lparr>sem_value := sem_value sem + 1\<rparr>, k))"

text \<open>\<open>RT_IPC_CMD_RESET\<close>; any other command returns \<open>RT_ERROR\<close> and changes nothing.\<close>

definition rt_sem_control_reset :: "nat \<Rightarrow> u32 \<Rightarrow> rt_semaphore \<times> kern \<Rightarrow> rt_semaphore \<times> kern" where
  "rt_sem_control_reset i value = (\<lambda>(sem, k).
     (sem\<lparr>sem_value := ucast value\<rparr>, rt_schedule (rt_ipc_list_resume_all (Wait i) k)))"

subsection \<open>Each operation\<close>

text \<open>Threads wait only while the value is zero.\<close>

definition sem_inv :: "nat \<Rightarrow> rt_semaphore \<times> kern \<Rightarrow> bool" where
  "sem_inv i = (\<lambda>(sem, k). kinv k \<and> (sem_value sem > 0 \<longrightarrow> queues k (Wait i) = []))"

abbreviation runs :: "tid \<Rightarrow> kern \<Rightarrow> bool" where
  "runs t k \<equiv> rt_current_thread k = Some t \<and> stat (threads k t) = RT_THREAD_RUNNING"

lemma runs_set_error [simp]: "runs t (set_error u e k) = runs t k" "queues (set_error u e k) = queues k"
  "halted (set_error u e k) = halted k" "rt_current_thread (set_error u e k) = rt_current_thread k"
  by (auto simp: set_error_def)

lemma set_error_prio: "current_priority (threads (set_error u e k) v) = current_priority (threads k v)"
  "stat (threads (set_error u e k) v) = stat (threads k v)"
  "th_error (threads (set_error u e k) v) = (if v = u then e else th_error (threads k v))"
  by (auto simp: set_error_def)

lemma sem_inv_take:
  assumes "sem_inv i (sem, k)" "runs t k"
  shows "sem_inv i (fst (rt_sem_take i t time (sem, k)))"
proof -
  have "kinv (ipc_wait (Wait i) t (sem_flag sem) time (set_error t RT_EOK k))"
    using assms by (intro kinv_ipc_wait) (auto simp: sem_inv_def set_error_prio)
  then show ?thesis using assms(1) by (auto simp: rt_sem_take_def sem_inv_def)
qed

lemma sem_inv_release:
  assumes "sem_inv i (sem, k)"
  shows "sem_inv i (rt_sem_release i (sem, k))"
proof (cases "queues k (Wait i)")
  case Nil
  then show ?thesis using assms by (simp add: rt_sem_release_def sem_inv_def)
next
  case (Cons t q)
  have k: "kinv k" "sem_value sem = 0" using assms Cons by (auto simp: sem_inv_def word_gt_0)
  note r = list_resume_sel [OF k(1) _ Cons]
  show ?thesis using k(2) kinv_rt_schedule [OF r(1)] Cons by (simp add: rt_sem_release_def sem_inv_def)
qed

lemma sem_inv_reset:
  assumes "sem_inv i (sem, k)"
  shows "sem_inv i (rt_sem_control_reset i v (sem, k))"
proof -
  have r: "resumed_all (Wait i) k (rt_ipc_list_resume_all (Wait i) k)"
    using assms by (intro resume_all_post) (simp_all add: sem_inv_def)
  then have "kinv (rt_ipc_list_resume_all (Wait i) k)" "queues (rt_ipc_list_resume_all (Wait i) k) (Wait i) = []"
    by (auto simp: resumed_all_def)
  then show ?thesis using kinv_rt_schedule rt_schedule_wait [of "rt_ipc_list_resume_all (Wait i) k" "Wait i"]
    by (simp add: rt_sem_control_reset_def sem_inv_def)
qed

text \<open>Releasing with a waiter hands the permit to the first one: its \<open>rt_sem_take\<close> returns \<open>RT_EOK\<close>.\<close>

lemma sem_release_handover:
  assumes "sem_inv i (sem, k)" "queues k (Wait i) = t # q"
  shows "fst (rt_sem_release i (sem, k)) = sem"
    "queues (snd (rt_sem_release i (sem, k))) (Wait i) = q"
    "stat (threads (snd (rt_sem_release i (sem, k))) t) \<noteq> RT_THREAD_SUSPEND"
    "th_error (threads (snd (rt_sem_release i (sem, k))) u) = th_error (threads k u)"
proof -
  have k: "kinv k" using assms(1) by (simp add: sem_inv_def)
  define k1 where "k1 = rt_ipc_list_resume (Wait i) k"
  note r = list_resume_sel [OF k _ assms(2), folded k1_def, simplified]
  have e: "rt_sem_release i (sem, k) = (sem, rt_schedule k1)"
    using assms(2) by (simp add: rt_sem_release_def k1_def)
  show "fst (rt_sem_release i (sem, k)) = sem" by (simp add: e)
  show "queues (snd (rt_sem_release i (sem, k))) (Wait i) = q"
    using rt_schedule_wait [OF r(1), of "Wait i"] r(2) by (simp add: e)
  show "th_error (threads (snd (rt_sem_release i (sem, k))) u) = th_error (threads k u)"
    using r(4) [of u] rt_schedule_threads(3) [OF r(1)] by (simp add: e thread_core_def)
  show "stat (threads (snd (rt_sem_release i (sem, k))) t) \<noteq> RT_THREAD_SUSPEND"
    using rt_schedule_not_suspend [OF r(1), of t] r(6) by (simp add: e)
qed

subsection \<open>Many threads on one semaphore\<close>

text \<open>
  The ghost counters record the permits handed out and the releases made. \<open>env\<close> stands for
  everything else the kernel may do: run other threads, and take waiters off the list when they
  time out.
\<close>

record sem_sys =
  ss :: "rt_semaphore \<times> kern"
  granted :: nat
  released :: nat

inductive sem_step :: "nat \<Rightarrow> sem_sys \<Rightarrow> sem_sys \<Rightarrow> bool" for i where
  take: "runs t (snd (ss s)) \<Longrightarrow> rt_sem_take i t time (ss s) = (sk, out) \<Longrightarrow>
    sem_step i s (s\<lparr>ss := sk, granted := granted s + (if out = Ret RT_EOK then 1 else 0)\<rparr>)"
| release: "rt_sem_release i (ss s) = sk \<Longrightarrow>
    sem_step i s (s\<lparr>ss := sk, released := released s + 1,
      granted := granted s + (if queues (snd (ss s)) (Wait i) \<noteq> [] then 1 else 0)\<rparr>)"
| env: "kinv k' \<Longrightarrow> set (queues k' (Wait i)) \<subseteq> set (queues (snd (ss s)) (Wait i)) \<Longrightarrow>
    sem_step i s (s\<lparr>ss := (fst (ss s), k')\<rparr>)"

inductive sem_reach :: "nat \<Rightarrow> sem_sys \<Rightarrow> sem_sys \<Rightarrow> bool" for i s0 where
  start: "sem_reach i s0 s0"
| step: "sem_reach i s0 s \<Longrightarrow> sem_step i s s' \<Longrightarrow> sem_reach i s0 s'"

inductive_cases sem_stepE: "sem_step i s s'"

definition sem_account :: "nat \<Rightarrow> nat \<Rightarrow> sem_sys \<Rightarrow> bool" where
  "sem_account i v0 s \<longleftrightarrow> sem_inv i (ss s) \<and>
     (\<exists>lost. granted s + unat (sem_value (fst (ss s))) + lost * 65536 = v0 + released s)"

lemma unat_minus_one16: "(x :: u16) > 0 \<Longrightarrow> Suc (unat (x - 1)) = unat x"
  using unat_minus_one [of x] by (cases "unat x") (auto simp: word_gt_0 unat_eq_0)

lemma unat_plus_one16: "unat ((x :: u16) + 1) + (if unat x = 65535 then 65536 else 0) = unat x + 1"
  using unsigned_less [of x, where ?'a = nat] by (auto simp: unat_word_ariths)

lemma sem_account_step:
  assumes "sem_account i v0 s" "sem_step i s s'"
  shows "sem_account i v0 s'"
  using assms(2)
proof (cases rule: sem_step.cases)
  case (take t time sk out)
  obtain sem k where sk0: "ss s = (sem, k)" by fastforce
  have "sem_inv i (fst (rt_sem_take i t time (sem, k)))"
    using assms(1) take(2) sk0 by (intro sem_inv_take) (auto simp: sem_account_def)
  moreover obtain lost where "granted s + unat (sem_value sem) + lost * 65536 = v0 + released s"
    using assms(1) sk0 by (auto simp: sem_account_def)
  moreover have "fst (ss s) = sem" using sk0 by simp
  ultimately show ?thesis using take sk0 unat_minus_one16 [of "sem_value sem"]
    by (cases s) (auto simp: sem_account_def rt_sem_take_def split: if_splits intro!: exI [of _ lost])
next
  case (release sk)
  obtain sem k where sk0: "ss s = (sem, k)" by fastforce
  obtain lost where l: "granted s + unat (sem_value sem) + lost * 65536 = v0 + released s"
    using assms(1) sk0 by (auto simp: sem_account_def)
  have inv: "sem_inv i sk" using sem_inv_release [of i sem k] assms(1) release(2) sk0 by (simp add: sem_account_def)
  show ?thesis
  proof (cases "queues k (Wait i) = []")
    case True
    have "\<exists>lost. granted s + unat (sem_value sem + 1) + lost * 65536 = v0 + (released s + 1)"
    proof (cases "unat (sem_value sem) = 65535")
      case True
      then show ?thesis using l unat_plus_one16 [of "sem_value sem"] by (intro exI [of _ "lost + 1"]) auto
    next
      case False
      then show ?thesis using l unat_plus_one16 [of "sem_value sem"] by (intro exI [of _ lost]) auto
    qed
    then show ?thesis using inv release True sk0 by (auto simp: sem_account_def rt_sem_release_def)
  next
    case False
    then have "fst sk = sem" using release(2) sk0 by (auto simp: rt_sem_release_def)
    then show ?thesis using inv release False sk0 l by (auto simp: sem_account_def)
  qed
next
  case (env k')
  then show ?thesis using assms(1) by (cases "ss s") (auto simp: sem_account_def sem_inv_def)
qed

lemma sem_reach_account:
  "sem_reach i s0 s \<Longrightarrow> sem_account i v0 s0 \<Longrightarrow> sem_account i v0 s"
  by (induction rule: sem_reach.induct) (auto intro: sem_account_step)



text \<open>A fresh semaphore of value 2 that a thread has taken once.\<close>

definition sem_demo0 :: sem_sys where
  "sem_demo0 = \<lparr>ss = (\<lparr>sem_value = 2, sem_flag = RT_IPC_FLAG_FIFO\<rparr>, two_kern), granted = 0, released = 0\<rparr>"

definition sem_demo1 :: sem_sys where
  "sem_demo1 = sem_demo0\<lparr>ss := fst (rt_sem_take 7 1 0 (ss sem_demo0)), granted := 1\<rparr>"

lemma sem_demo_reach: "sem_reach 7 sem_demo0 sem_demo1" "sem_inv 7 (ss sem_demo0)"
proof -
  have "queues two_kern (Wait 7) = []" by code_simp
  then show "sem_inv 7 (ss sem_demo0)" using kinv_two_kern by (simp add: sem_inv_def sem_demo0_def)
  have "sem_step 7 sem_demo0 (sem_demo0\<lparr>ss := fst (rt_sem_take 7 1 0 (ss sem_demo0)),
      granted := granted sem_demo0 + (if Ret RT_EOK = Ret RT_EOK then 1 else 0)\<rparr>)"
    using two_kern_runs by (intro sem_step.take [where t = 1 and time = 0]) (simp_all add: sem_demo0_def rt_sem_take_def)
  then show "sem_reach 7 sem_demo0 sem_demo1"
    by (intro sem_reach.step [OF sem_reach.start]) (simp add: sem_demo1_def sem_demo0_def)
qed


end
