(* ===== verification/Rt_System.thy ===== *)
theory Rt_System
  imports Rt_Timer_Check Rt_Sem
begin

section \<open>Every state the kernel can reach\<close>

text \<open>
  A step is one call of a kernel service by the running thread, by start-up code or by the tick
  interrupt, with the arguments its documentation allows (priorities below 32, delays below half
  the tick range, periods that are not zero). From the state after initialisation every reachable
  state satisfies the kernel invariant and no assertion has failed; the tick interrupt always
  returns.
\<close>

subsection \<open>What the services leave of the timers\<close>

definition tv_le :: "kern \<Rightarrow> kern \<Rightarrow> bool" where
  "tv_le k k' \<longleftrightarrow> rt_tick k' = rt_tick k \<and> (\<exists>P. rt_timer_list k' = filter P (rt_timer_list k)) \<and>
     (\<forall>m. timeout_tick (timers k' m) = timeout_tick (timers k m) \<and> init_tick (timers k' m) = init_tick (timers k m) \<and>
       periodic (timers k' m) = periodic (timers k m)) \<and>
     (halted k' \<longrightarrow> halted k) \<and> (rt_current_thread k \<noteq> None \<longrightarrow> rt_current_thread k' \<noteq> None)"

lemma ex_filter_id [simp]: "\<exists>P. xs = filter P xs"
  by (rule exI [of _ "\<lambda>_. True"]) simp

lemma tv_le_refl [simp]: "tv_le k k"
  by (simp add: tv_le_def)

lemma tv_le_trans: "tv_le k k1 \<Longrightarrow> tv_le k1 k2 \<Longrightarrow> tv_le k k2"
  unfolding tv_le_def by (elim conjE exE, intro conjI) (simp_all, blast)

lemma tv_le_same:
  "rt_tick k' = rt_tick k \<Longrightarrow> rt_timer_list k' = rt_timer_list k \<Longrightarrow> timers k' = timers k \<Longrightarrow> halted k' = halted k \<Longrightarrow>
     rt_current_thread k' = rt_current_thread k \<Longrightarrow> tv_le k k'"
  by (simp add: tv_le_def)

lemma tv_le_current: "tv_le k k' \<Longrightarrow> rt_current_thread k \<noteq> None \<Longrightarrow> rt_current_thread k' \<noteq> None"
  unfolding tv_le_def by blast

lemma tv_le_schedule: "rt_current_thread k \<noteq> None \<Longrightarrow> tv_le k (rt_schedule k)"
  using rt_schedule_halted [of k] rt_schedule_current [of k] by (simp add: tv_le_def)

lemma tv_le_upd_thread: "tv_le k (upd_thread t f k)" "tv_le k (set_stat t s k)" "tv_le k (set_error t e k)"
  "tv_le k (rt_schedule_remove_thread t k)" "tv_le k (rt_schedule_insert_thread t k)" "tv_le k (rt_list_remove t k)"
  by (rule tv_le_same; simp add: set_stat_def set_error_def)+

lemma tv_le_timer_remove: "tv_le k (rt_timer_remove m k)"
  unfolding tv_le_def rt_timer_remove_def removeAll_filter_not_eq by auto

lemma tv_le_timer_stop: "tv_le k (fst (rt_timer_stop m k))"
proof (cases "activated (timers k m)")
  case True
  have "tv_le (rt_timer_remove m k) (upd_timer m (\<lambda>tm. tm\<lparr>activated := False\<rparr>) (rt_timer_remove m k))"
    by (simp add: tv_le_def)
  then show ?thesis using True tv_le_trans [OF tv_le_timer_remove] by (simp add: rt_timer_stop_def)
qed (simp add: rt_timer_stop_def)

lemma tv_le_suspend: "stat (threads k t) = RT_THREAD_RUNNING \<Longrightarrow> rt_current_thread k = Some t \<Longrightarrow> tv_le k (fst (rt_thread_suspend t k))"
  by (auto simp: rt_thread_suspend_def Let_def rt_assert_def
      intro!: tv_le_trans [OF tv_le_upd_thread(4) tv_le_trans [OF tv_le_upd_thread(2) tv_le_timer_stop]])

lemma tv_le_resume: "tv_le k (fst (rt_thread_resume t k))"
  by (auto simp: rt_thread_resume_def Let_def
      intro!: tv_le_trans [OF tv_le_upd_thread(6) tv_le_trans [OF tv_le_timer_stop tv_le_upd_thread(5)]])

lemma tv_le_close: "tv_le k (close_thread t k)"
  by (auto simp: close_thread_def Let_def intro!: tv_le_same)

lemma tv_le_detach: "tv_le k (rt_thread_detach t k)"
  by (auto simp: rt_thread_detach_def Let_def rt_timer_detach_def
      intro!: tv_le_trans [OF tv_le_upd_thread(4) tv_le_trans [OF tv_le_timer_remove tv_le_close]]
        tv_le_trans [OF tv_le_timer_remove tv_le_close])

lemma tv_le_change_priority: "tv_le k (change_priority t p k)"
  by (rule tv_le_same) (simp_all add: change_priority_def Let_def)

subsection \<open>The invariant of the whole kernel\<close>

definition sys_inv :: "kern \<Rightarrow> bool" where
  "sys_inv k \<longleftrightarrow> kinv k \<and> timers_sorted k \<and> \<not> halted k \<and>
     (\<forall>m. periodic (timers k m) \<longrightarrow> 0 < init_tick (timers k m) \<and> init_tick (timers k m) < HALF_TICK_MAX)"

lemma timers_sorted_tv_le:
  assumes "tv_le k k'" "timers_sorted k"
  shows "timers_sorted k'"
proof -
  obtain P where P: "rt_timer_list k' = filter P (rt_timer_list k)" using assms(1) by (auto simp: tv_le_def)
  have t: "rt_tick k' = rt_tick k" "(\<lambda>m. timeout_tick (timers k' m)) = (\<lambda>m. timeout_tick (timers k m))"
    using assms(1) by (auto simp: tv_le_def)
  show ?thesis using assms(2) unfolding timers_sorted_def list_sorted_def t P
    by (auto intro: sorted_wrt_filter)
qed

lemma timers_sorted_cong:
  assumes "rt_tick k' = rt_tick k" "rt_timer_list k' = rt_timer_list k"
    "\<And>m. m \<in> set (rt_timer_list k) \<Longrightarrow> timeout_tick (timers k' m) = timeout_tick (timers k m)" "timers_sorted k"
  shows "timers_sorted k'"
proof -
  have "sorted_wrt (\<lambda>i j. toff (rt_tick k) k' i \<le> toff (rt_tick k) k' j) (rt_timer_list k)"
    using assms(3,4) sorted_wrt_off_cong [of "rt_timer_list k" "\<lambda>m. timeout_tick (timers k' m)"
        "\<lambda>m. timeout_tick (timers k m)"] by (simp add: timers_sorted_def list_sorted_def)
  moreover have "toff (rt_tick k) k' m < 0x7fffffff" if "m \<in> set (rt_timer_list k)" for m
    using assms(3) [OF that] assms(4) that by (simp add: timers_sorted_def off_def)
  ultimately show ?thesis unfolding timers_sorted_def list_sorted_def assms(1,2) by blast
qed

lemma sys_inv_tv_le: "sys_inv k \<Longrightarrow> kinv k' \<Longrightarrow> tv_le k k' \<Longrightarrow> sys_inv k'"
  using timers_sorted_tv_le by (auto simp: sys_inv_def tv_le_def)


lemma sys_inv_resched: "sys_inv k \<Longrightarrow> rt_current_thread k \<noteq> None \<Longrightarrow> sys_inv (rt_schedule k)"
  using sys_inv_tv_le [OF _ kinv_rt_schedule tv_le_schedule] by (auto simp: sys_inv_def)

lemma sys_inv_boot: "sys_inv boot"
  using kinv_boot by (simp add: sys_inv_def timers_sorted_def list_sorted_def boot_def rt_system_timer_init_def
      rt_system_scheduler_init_def zero_timer_def)

lemma sys_inv_init:
  assumes "sys_inv k" "stat (threads k t) = RT_THREAD_INIT" "p < 32"
  shows "sys_inv (rt_thread_init t p n so k)"
proof -
  have inv: "kinv k" using assms(1) by (simp add: sys_inv_def)
  have nt: "ThreadTimer t \<notin> set (rt_timer_list k)" using kinv_D(7) [OF inv, of t] assms(2) by auto
  have l: "rt_timer_list (rt_thread_init t p n so k) = rt_timer_list k" "rt_tick (rt_thread_init t p n so k) = rt_tick k"
    "halted (rt_thread_init t p n so k) = halted k"
    "timers (rt_thread_init t p n so k) =
      (timers k)(ThreadTimer t := \<lparr>activated = False, periodic = False, init_tick = 0, timeout_tick = 0\<rparr>)"
    using assms(3) by (simp_all add: rt_thread_init_def rt_timer_init_def Let_def)
  have "timers_sorted (rt_thread_init t p n so k)"
  proof (rule timers_sorted_cong [of _ k])
    show "timeout_tick (timers (rt_thread_init t p n so k) m) = timeout_tick (timers k m)"
      if "m \<in> set (rt_timer_list k)" for m using that nt by (auto simp: l(4))
  qed (use assms(1) l in \<open>simp_all add: sys_inv_def\<close>)
  then show ?thesis using assms(1) kinv_rt_thread_init [OF inv assms(2)] by (auto simp: sys_inv_def l)
qed

lemma sys_inv_startup:
  assumes "sys_inv k" "stat (threads k t) = RT_THREAD_INIT" "init_priority (threads k t) < 32"
  shows "sys_inv (rt_thread_startup t k)"
proof -
  have inv: "kinv k" using assms(1) by (simp add: sys_inv_def)
  define k1 where "k1 = fst (rt_thread_resume t (upd_thread t (\<lambda>th. th\<lparr>current_priority := init_priority th,
     number_mask := push_bit (init_priority th) 1, stat := RT_THREAD_SUSPEND, stat_yield := False\<rparr>) k))"
  have "tv_le k k1" unfolding k1_def by (rule tv_le_trans [OF tv_le_upd_thread(1) tv_le_resume])
  moreover have "rt_thread_startup t k = (if rt_current_thread k1 \<noteq> None then rt_schedule k1 else k1)"
    using assms(2) by (simp add: rt_thread_startup_def Let_def k1_def rt_assert_def)
  ultimately have "tv_le k (rt_thread_startup t k)" using tv_le_trans [OF _ tv_le_schedule] by auto
  then show ?thesis using sys_inv_tv_le [OF assms(1) kinv_rt_thread_startup(1) [OF inv assms(2,3)]] by simp
qed

lemma sys_inv_start:
  assumes "sys_inv k" "ready_group k \<noteq> 0" "rt_current_thread k = None"
  shows "sys_inv (rt_system_scheduler_start k)"
proof -
  have "tv_le k (rt_system_scheduler_start k)"
    by (simp add: tv_le_def rt_system_scheduler_start_def Let_def assms(3))
  moreover have "kinv (rt_system_scheduler_start k)"
    using assms by (intro kinv_rt_system_scheduler_start) (simp_all add: sys_inv_def)
  ultimately show ?thesis using sys_inv_tv_le [OF assms(1)] by blast
qed

lemma sys_inv_set_time:
  assumes "sys_inv k" "0 < v" "v < HALF_TICK_MAX"
  shows "sys_inv (fst (rt_timer_control m (RT_TIMER_CTRL_SET_TIME v) k))"
proof -
  have "timers_sorted (upd_timer m (\<lambda>tm. tm\<lparr>init_tick := v\<rparr>) k)"
    by (rule timers_sorted_cong [of _ k]) (use assms(1) in \<open>simp_all add: sys_inv_def\<close>)
  then show ?thesis using assms kinv_set_time [of "{}" k m v] by (auto simp: sys_inv_def)
qed


lemma sys_inv_timer_start:
  assumes "sys_inv k" "init_tick (timers k m) < HALF_TICK_MAX"
    "\<And>t. m = ThreadTimer t \<Longrightarrow> stat (threads k t) = RT_THREAD_SUSPEND"
  shows "sys_inv (rt_timer_start m k)"
proof -
  have "kinv (rt_timer_start m k)" using assms(1,3) by (intro kinv_x_timer_start) (auto simp: sys_inv_def)
  moreover have "timers_sorted (rt_timer_start m k)" using assms(1,2) timers_sorted_start by (simp add: sys_inv_def)
  moreover have "init_tick (timers (rt_timer_start m k) n) = init_tick (timers k n)" for n
    by (simp add: rt_timer_start_def rt_timer_remove_def Let_def)
  ultimately show ?thesis using assms(1,2) by (simp add: sys_inv_def)
qed

lemma sys_inv_sleep:
  assumes "sys_inv k" "runs t k" "0 < n" "n < HALF_TICK_MAX"
  shows "sys_inv (rt_thread_sleep t n k)"
proof -
  define k1 where "k1 = fst (rt_thread_suspend t k)"
  have k1: "sys_inv k1" using assms(1,2) sys_inv_tv_le [OF assms(1) kinv_rt_thread_suspend tv_le_suspend, of t]
    by (simp add: k1_def sys_inv_def)
  define k2 where "k2 = fst (rt_timer_control (ThreadTimer t) (RT_TIMER_CTRL_SET_TIME n) k1)"
  have k2: "sys_inv k2" unfolding k2_def by (rule sys_inv_set_time [OF k1 assms(3,4)])
  have st: "stat (threads k2 t) = RT_THREAD_SUSPEND" "rt_current_thread k2 = Some t" "init_tick (timers k2 (ThreadTimer t)) = n"
    using suspend_stat [of k t] assms(2) by (simp_all add: k2_def k1_def) (simp add: rt_thread_suspend_def set_stat_def Let_def)
  have "sys_inv (rt_timer_start (ThreadTimer t) k2)" using k2 st assms(4) by (intro sys_inv_timer_start) auto
  then show ?thesis using sys_inv_resched [of "rt_timer_start (ThreadTimer t) k2"] st(2)
    by (simp add: rt_thread_sleep_def Let_def k2_def k1_def)
qed

lemma sys_inv_tick:
  assumes "sys_inv k" "rt_current_thread k \<noteq> None" "quiet cb" "length (rt_timer_list k) < fuel"
  shows "\<exists>k'. rt_tick_increase cb fuel k = Some k' \<and> sys_inv k' \<and> rt_tick k' = rt_tick k + 1"
proof -
  have "\<forall>m \<in> set (rt_timer_list k). periodic (timers k m) \<longrightarrow>
       0 < init_tick (timers k m) \<and> init_tick (timers k m) < HALF_TICK_MAX" "kinv k" "timers_sorted k"
    using assms(1) by (auto simp: sys_inv_def)
  then obtain k' where k': "rt_tick_increase cb fuel k = Some k'" "kinv k'" "timers_sorted k'" "rt_tick k' = rt_tick k + 1"
    "halted k' = halted k" "\<forall>m. periodic (timers k' m) = periodic (timers k m) \<and> init_tick (timers k' m) = init_tick (timers k m)"
    using tick_result [OF _ _ assms(2-4)] by blast
  then show ?thesis using assms(1) by (simp add: sys_inv_def)
qed

lemma sys_inv_user_timer:
  assumes "sys_inv k" "UserTimer n \<notin> set (rt_timer_list k)" "per \<longrightarrow> 0 < v" "v < HALF_TICK_MAX"
  shows "sys_inv (rt_timer_init (UserTimer n) v per k)"
proof -
  have ne: "m \<noteq> UserTimer n" if "m \<in> set (rt_timer_list k)" for m using that assms(2) by auto
  have "timers_sorted (rt_timer_init (UserTimer n) v per k)"
    by (rule timers_sorted_cong [of _ k]) (use assms(1) ne in \<open>simp_all add: sys_inv_def rt_timer_init_def\<close>)
  moreover have "kinv (rt_timer_init (UserTimer n) v per k)"
    using assms(1) ne by (auto simp: sys_inv_def rt_timer_init_def kinv_defs)
  ultimately show ?thesis using assms by (auto simp: sys_inv_def rt_timer_init_def)
qed

subsection \<open>Reachable states\<close>

inductive kstep :: "kern \<Rightarrow> kern \<Rightarrow> bool" where
  init: "stat (threads k t) = RT_THREAD_INIT \<Longrightarrow> p < 32 \<Longrightarrow> kstep k (rt_thread_init t p n so k)"
| startup: "stat (threads k t) = RT_THREAD_INIT \<Longrightarrow> init_priority (threads k t) < 32 \<Longrightarrow> kstep k (rt_thread_startup t k)"
| start: "ready_group k \<noteq> 0 \<Longrightarrow> rt_current_thread k = None \<Longrightarrow> kstep k (rt_system_scheduler_start k)"
| suspend: "runs t k \<Longrightarrow> kstep k (rt_schedule (fst (rt_thread_suspend t k)))"
| resume: "kstep k (fst (rt_thread_resume t k))"
| schedule: "rt_current_thread k \<noteq> None \<Longrightarrow> kstep k (rt_schedule k)"
| yield: "runs t k \<Longrightarrow> kstep k (rt_thread_yield t k)"
| sleep: "runs t k \<Longrightarrow> 0 < n \<Longrightarrow> n < HALF_TICK_MAX \<Longrightarrow> kstep k (rt_thread_sleep t n k)"
| priority: "p < 32 \<Longrightarrow> kstep k (rt_thread_control t (RT_THREAD_CTRL_CHANGE_PRIORITY p) k)"
| detach: "kstep k (rt_thread_detach t k)"
| exit: "runs t k \<Longrightarrow> kstep k (rt_thread_exit t k)"
| lock: "kstep k (rt_enter_critical k)"
| unlock: "kstep k (rt_exit_critical k)"
| timer_init: "UserTimer n \<notin> set (rt_timer_list k) \<Longrightarrow> per \<longrightarrow> 0 < v \<Longrightarrow> v < HALF_TICK_MAX \<Longrightarrow>
    kstep k (rt_timer_init (UserTimer n) v per k)"
| timer_start: "init_tick (timers k (UserTimer n)) < HALF_TICK_MAX \<Longrightarrow> kstep k (rt_timer_start (UserTimer n) k)"
| timer_stop: "kstep k (fst (rt_timer_stop (UserTimer n) k))"
| tick: "rt_current_thread k \<noteq> None \<Longrightarrow> quiet cb \<Longrightarrow> length (rt_timer_list k) < fuel \<Longrightarrow>
    rt_tick_increase cb fuel k = Some k' \<Longrightarrow> kstep k k'"

inductive kreach :: "kern \<Rightarrow> bool" where
  boot: "kreach boot"
| step: "kreach k \<Longrightarrow> kstep k k' \<Longrightarrow> kreach k'"

lemma sys_inv_simple:
  assumes "sys_inv k"
  shows "runs t k \<Longrightarrow> sys_inv (rt_schedule (fst (rt_thread_suspend t k)))"
    and "sys_inv (fst (rt_thread_resume t k))" and "runs t k \<Longrightarrow> sys_inv (rt_thread_yield t k)"
    and "p < 32 \<Longrightarrow> sys_inv (change_priority t p k)" and "sys_inv (rt_thread_detach t k)"
    and "runs t k \<Longrightarrow> sys_inv (rt_thread_exit t k)" and "sys_inv (rt_enter_critical k)" "sys_inv (rt_exit_critical k)"
    and "sys_inv (fst (rt_timer_stop m k))"
proof -
  have inv: "kinv k" using assms by (simp add: sys_inv_def)
  show "sys_inv (rt_schedule (fst (rt_thread_suspend t k)))" if "runs t k"
  proof (rule sys_inv_resched)
    show "sys_inv (fst (rt_thread_suspend t k))"
      using sys_inv_tv_le [OF assms kinv_rt_thread_suspend [OF inv] tv_le_suspend] that by blast
    show "rt_current_thread (fst (rt_thread_suspend t k)) \<noteq> None" using suspend_sel(3) that by simp
  qed
  show "sys_inv (fst (rt_thread_resume t k))"
    by (rule sys_inv_tv_le [OF assms kinv_rt_thread_resume [OF inv] tv_le_resume])
  show "sys_inv (rt_thread_yield t k)" if "runs t k"
    unfolding rt_thread_yield_def
    by (rule sys_inv_resched [OF sys_inv_tv_le [OF assms _ tv_le_upd_thread(1)]]) (simp_all add: kinv_x_upd_other inv that)
  show "p < 32 \<Longrightarrow> sys_inv (change_priority t p k)"
    using sys_inv_tv_le [OF assms kinv_change_priority [OF inv] tv_le_change_priority] .
  show "sys_inv (rt_thread_detach t k)"
    by (rule sys_inv_tv_le [OF assms kinv_rt_thread_detach [OF inv] tv_le_detach])
  show "sys_inv (rt_thread_exit t k)" if r: "runs t k"
  proof (rule sys_inv_tv_le [OF assms kinv_rt_thread_exit [OF inv]])
    have le: "tv_le k (close_thread t (rt_timer_detach (ThreadTimer t) (rt_schedule_remove_thread t k)))"
      unfolding rt_timer_detach_def
      by (rule tv_le_trans [OF tv_le_upd_thread(4) tv_le_trans [OF tv_le_timer_remove tv_le_close]])
    show "tv_le k (rt_thread_exit t k)"
      unfolding rt_thread_exit_def Let_def
      by (rule tv_le_trans [OF le tv_le_schedule]) (rule tv_le_current [OF le], simp add: r)
  qed (use r in simp)
  show "sys_inv (rt_enter_critical k)"
    by (rule sys_inv_tv_le [OF assms kinv_critical(1) [OF inv]]) (simp add: rt_enter_critical_def tv_le_def)
  show "sys_inv (rt_exit_critical k)"
  proof (rule sys_inv_tv_le [OF assms kinv_critical(2) [OF inv]])
    have "tv_le k (k\<lparr>lock_nest := lock_nest k - 1\<rparr>)" by (simp add: tv_le_def)
    then show "tv_le k (rt_exit_critical k)"
      using tv_le_trans [OF _ tv_le_schedule] by (auto simp: rt_exit_critical_def Let_def)
  qed
  show "sys_inv (fst (rt_timer_stop m k))"
    by (rule sys_inv_tv_le [OF assms kinv_x_timer_stop(1) [OF inv] tv_le_timer_stop])
qed

lemma sys_inv_step:
  assumes "kstep k k'" "sys_inv k"
  shows "sys_inv k'"
  using assms
proof (induction rule: kstep.induct)
  case (timer_start k n)
  then show ?case by (intro sys_inv_timer_start) auto
next
  case (tick k cb fuel k')
  then show ?case using sys_inv_tick [of k cb fuel] by auto
qed (auto intro: sys_inv_init sys_inv_startup sys_inv_start sys_inv_simple sys_inv_resched sys_inv_sleep sys_inv_user_timer)

lemma kreach_sys_inv: "kreach k \<Longrightarrow> sys_inv k"
  by (induction rule: kreach.induct) (auto intro: sys_inv_boot sys_inv_step)

subsection \<open>The kernel from boot on\<close>


text \<open>Boot, the idle thread, a second thread, and the start of the scheduler.\<close>

lemma kreach_two_kern: "kreach two_kern"
proof -
  have "stat (threads boot 0) = RT_THREAD_INIT" "stat (threads (rt_thread_init 0 31 10 True boot) 0) = RT_THREAD_INIT"
    "init_priority (threads (rt_thread_init 0 31 10 True boot) 0) < 32" "stat (threads idle_ready 1) = RT_THREAD_INIT"
    "stat (threads (rt_thread_init 1 10 20 True idle_ready) 1) = RT_THREAD_INIT"
    "init_priority (threads (rt_thread_init 1 10 20 True idle_ready) 1) < 32"
    "ready_group (rt_thread_startup 1 (rt_thread_init 1 10 20 True idle_ready)) \<noteq> 0"
    "rt_current_thread (rt_thread_startup 1 (rt_thread_init 1 10 20 True idle_ready)) = None" by code_simp+
  note f = this
  have "kreach idle_ready" unfolding idle_ready_def
    by (rule kreach.step [OF kreach.step [OF kreach.boot kstep.init [OF f(1)]] kstep.startup [OF f(2,3)]]) simp
  then have "kreach (rt_thread_init 1 10 20 True idle_ready)" by (rule kreach.step) (rule kstep.init [OF f(4)], simp)
  then show ?thesis unfolding two_kern_def
    by (rule kreach.step [OF kreach.step [OF _ kstep.startup [OF f(5,6)]] kstep.start [OF f(7,8)]])
qed


end
