(* ===== verification/Rt_Mutex.thy ===== *)
theory Rt_Mutex
  imports Rt_Sem
begin

section \<open>Mutexes with priority inheritance (\<^verbatim>\<open>rt-thread/src/ipc.c\<close>)\<close>

text \<open>
  The recursive mutex: owner, nesting depth (8 bits), and the priority to give back. The lemmas
  show the ownership discipline and that a mutex with a priority-ordered list never leaves its
  owner at a lower priority than a thread it keeps waiting. \<open>RT_EINTR\<close>, the retry after a signal,
  is not modelled.
\<close>

subsection \<open>Operations\<close>

record rt_mutex =
  mutex_value :: u16
  owner :: "tid option"
  original_priority :: nat
  hold :: u8
  mutex_flag :: ipc_flag

definition rt_mutex_init :: "nat \<Rightarrow> ipc_flag \<Rightarrow> kern \<Rightarrow> rt_mutex \<times> kern" where
  "rt_mutex_init i flag k =
     (\<lparr>mutex_value = 1, owner = None, original_priority = 0xFF, hold = 0, mutex_flag = flag\<rparr>,
      k\<lparr>queues := (queues k)(Wait i := [])\<rparr>)"

definition rt_mutex_detach :: "nat \<Rightarrow> kern \<Rightarrow> kern" where
  "rt_mutex_detach i k = rt_ipc_list_resume_all (Wait i) k"

definition rt_mutex_take :: "nat \<Rightarrow> tid \<Rightarrow> int \<Rightarrow> rt_mutex \<times> kern \<Rightarrow> (rt_mutex \<times> kern) \<times> outcome" where
  "rt_mutex_take i t time = (\<lambda>(m, k).
     let k = set_error t RT_EOK k
     in if owner m = Some t then ((m\<lparr>hold := hold m + 1\<rparr>, k), Ret RT_EOK)
        else if mutex_value m > 0
        then ((m\<lparr>mutex_value := mutex_value m - 1, owner := Some t,
                original_priority := current_priority (threads k t), hold := hold m + 1\<rparr>, k), Ret RT_EOK)
        else if time = 0 then ((m, set_error t RT_ETIMEOUT k), Ret RT_ETIMEOUT)
        else case owner m of
               None \<Rightarrow> ((m, k\<lparr>halted := True\<rparr>), Blocked)
             | Some ow \<Rightarrow>
                 let k = (if current_priority (threads k t) < current_priority (threads k ow)
                          then rt_thread_control ow (RT_THREAD_CTRL_CHANGE_PRIORITY (current_priority (threads k t))) k
                          else k)
                 in ((m, ipc_wait (Wait i) t (mutex_flag m) time k), Blocked))"

definition rt_mutex_take_end :: "tid \<Rightarrow> kern \<Rightarrow> rt_err" where
  "rt_mutex_take_end t k = th_error (threads k t)"

definition rt_mutex_release :: "nat \<Rightarrow> tid \<Rightarrow> rt_mutex \<times> kern \<Rightarrow> (rt_mutex \<times> kern) \<times> rt_err" where
  "rt_mutex_release i t = (\<lambda>(m, k).
     if owner m \<noteq> Some t then ((m, set_error t RT_ERROR k), RT_ERROR)
     else let m = m\<lparr>hold := hold m - 1\<rparr>
          in if hold m \<noteq> 0 then ((m, k), RT_EOK)
             else let k = (if original_priority m \<noteq> current_priority (threads k t)
                           then rt_thread_control t (RT_THREAD_CTRL_CHANGE_PRIORITY (original_priority m)) k
                           else k)
                  in case queues k (Wait i) of
                       u # _ \<Rightarrow>
                         ((m\<lparr>owner := Some u, original_priority := current_priority (threads k u), hold := hold m + 1\<rparr>,
                           rt_schedule (rt_ipc_list_resume (Wait i) k)), RT_EOK)
                     | [] \<Rightarrow>
                         ((m\<lparr>mutex_value := mutex_value m + 1, owner := None, original_priority := 0xff\<rparr>, k), RT_EOK))"

subsection \<open>Invariant\<close>

text \<open>
  A free mutex has value 1, depth 0 and nobody waiting; a taken one has value 0, a positive depth,
  an owner that does not wait for it and a valid priority to restore.
\<close>

definition mutex_ok :: "nat \<Rightarrow> rt_mutex \<times> kern \<Rightarrow> bool" where
  "mutex_ok i = (\<lambda>(m, k). kinv k \<and>
     (case owner m of
        None \<Rightarrow> mutex_value m = 1 \<and> hold m = 0 \<and> queues k (Wait i) = []
      | Some ow \<Rightarrow> mutex_value m = 0 \<and> hold m > 0 \<and> ow \<notin> set (queues k (Wait i)) \<and> original_priority m < 32))"

text \<open>Order of the waiting list, and the owner's priority against that of the waiters.\<close>

definition inherits :: "nat \<Rightarrow> rt_mutex \<times> kern \<Rightarrow> bool" where
  "inherits i = (\<lambda>(m, k).
     sorted_wrt (\<lambda>u v. current_priority (threads k u) \<le> current_priority (threads k v)) (queues k (Wait i)) \<and>
     (\<forall>ow. owner m = Some ow \<longrightarrow>
        (\<forall>u \<in> set (queues k (Wait i)). current_priority (threads k ow) \<le> current_priority (threads k u))))"

lemma change_priority_sel:
  assumes "kinv k"
  shows "current_priority (threads (change_priority t p k) u) = (if u = t then p else current_priority (threads k u))"
    "stat (threads (change_priority t p k) u) = stat (threads k u) \<or>
       u = t \<and> stat (threads k t) = RT_THREAD_READY \<and> stat (threads (change_priority t p k) u) = RT_THREAD_RUNNING"
    "waiting l \<Longrightarrow> queues (change_priority t p k) l = queues k l"
    "halted (change_priority t p k) = halted k"
    "rt_current_thread (change_priority t p k) = rt_current_thread k"
    "th_error (threads (change_priority t p k) u) = th_error (threads k u)"
proof -
  have q: "removeAll t (queues k l) = queues k l" if "stat (threads k t) = RT_THREAD_READY" "waiting l" for l
  proof -
    have "t \<notin> set (queues k l)" using kinv_D(1) [OF assms, of t l] that by auto
    then show ?thesis by simp
  qed
  show "waiting l \<Longrightarrow> queues (change_priority t p k) l = queues k l"
    using q [of l] by (cases l) (auto simp: change_priority_def rt_schedule_insert_thread_def set_stat_def Let_def)
qed (auto simp: change_priority_def rt_schedule_insert_thread_def set_stat_def Let_def)

lemma change_priority_runs:
  assumes "kinv k" "runs t k"
  shows "runs t (change_priority u p k)"
  using assms
  by (auto simp: change_priority_def rt_schedule_insert_thread_def set_stat_def Let_def)

lemma owner_not_waiting:
  assumes "kinv k" "runs t k"
  shows "t \<notin> set (queues k l)"
  using unlinked [OF assms(1), of t l] assms(2) by auto

lemma mutex_take_blocked:
  assumes "mutex_ok i (m, k)" "runs t k" "owner m = Some ow" "ow \<noteq> t" "time \<noteq> 0"
  obtains k1 where "rt_mutex_take i t time (m, k) = ((m, ipc_wait (Wait i) t (mutex_flag m) time k1), Blocked)"
    "kinv k1" "runs t k1" "queues k1 (Wait i) = queues k (Wait i)"
    "\<And>u. current_priority (threads k1 u) =
       (if u = ow then min (current_priority (threads k ow)) (current_priority (threads k t)) else current_priority (threads k u))"
    "halted k1 = halted k" "th_error (threads k1 t) = RT_EOK"
proof -
  define k0 where "k0 = set_error t RT_EOK k"
  have k0: "kinv k0" "runs t k0" using assms(1,2) by (auto simp: k0_def mutex_ok_def set_error_prio)
  have "live (threads k0 t)" using k0(2) by (simp add: live_def)
  then have p: "current_priority (threads k0 t) < 32" using kinv_D(5) [OF k0(1)] by simp
  define k1 where "k1 = (if current_priority (threads k0 t) < current_priority (threads k0 ow)
     then change_priority ow (current_priority (threads k0 t)) k0 else k0)"
  have "mutex_value m = 0" using assms(1,3) by (simp add: mutex_ok_def)
  then have e: "rt_mutex_take i t time (m, k) = ((m, ipc_wait (Wait i) t (mutex_flag m) time k1), Blocked)"
    using assms(3,4,5) by (simp add: rt_mutex_take_def Let_def k1_def k0_def)
  have k1: "kinv k1" "runs t k1"
    using k0 kinv_change_priority [OF k0(1) p] change_priority_runs [OF k0] by (auto simp: k1_def)
  note c = change_priority_sel [OF k0(1), where t = ow and p = "current_priority (threads k0 t)"]
  show ?thesis
  proof (rule that [OF e k1])
    show "queues k1 (Wait i) = queues k (Wait i)" using c(3) [of "Wait i"] by (simp add: k1_def k0_def)
    show "halted k1 = halted k" using c(4) by (simp add: k1_def k0_def)
    show "current_priority (threads k1 u) =
       (if u = ow then min (current_priority (threads k ow)) (current_priority (threads k t)) else current_priority (threads k u))" for u
      using c(1) by (auto simp: k1_def k0_def set_error_prio min_def)
    show "th_error (threads k1 t) = RT_EOK" using c(6) by (simp add: k1_def k0_def set_error_prio)
  qed
qed

lemma mutex_take_ok:
  assumes "mutex_ok i (m, k)" "runs t k" "hold m < 255"
  shows "mutex_ok i (fst (rt_mutex_take i t time (m, k)))"
proof (cases "owner m")
  case None
  have "current_priority (threads k t) < 32" using kinv_D(5) [of "{}" k t] assms(1,2)
    by (auto simp: mutex_ok_def live_def)
  then show ?thesis using None assms by (auto simp: mutex_ok_def rt_mutex_take_def Let_def set_error_prio)
next
  case (Some ow)
  show ?thesis
  proof (cases "ow = t \<or> time = 0")
    case True
    have "hold m + 1 > 0" using assms(3) by (auto simp: word_less_nat_alt unat_word_ariths)
    then show ?thesis using True Some assms(1) by (auto simp: mutex_ok_def rt_mutex_take_def Let_def)
  next
    case False
    obtain k1 where k1: "rt_mutex_take i t time (m, k) = ((m, ipc_wait (Wait i) t (mutex_flag m) time k1), Blocked)"
      "kinv k1" "runs t k1" "queues k1 (Wait i) = queues k (Wait i)"
      using mutex_take_blocked [OF assms(1,2) Some] False by metis
    have "kinv (ipc_wait (Wait i) t (mutex_flag m) time k1)" using k1(2,3) by (intro kinv_ipc_wait) auto
    then show ?thesis using assms(1) Some k1 False ipc_wait_sel(1) [OF k1(2), of t "Wait i" "Wait i"]
      by (auto simp: mutex_ok_def)
  qed
qed


text \<open>The last release: the owner's priority is restored, then the first waiter becomes the owner.\<close>

lemma mutex_release_last:
  assumes "mutex_ok i (m, k)" "runs t k" "owner m = Some t" "hold m = 1"
  obtains k1 where "kinv k1" "runs t k1" "queues k1 (Wait i) = queues k (Wait i)"
    "\<And>u. current_priority (threads k1 u) = (if u = t then original_priority m else current_priority (threads k u))"
    "rt_mutex_release i t (m, k) =
       (case queues k (Wait i) of
          u # _ \<Rightarrow> ((m\<lparr>hold := 1, owner := Some u, original_priority := current_priority (threads k u)\<rparr>,
                    rt_schedule (rt_ipc_list_resume (Wait i) k1)), RT_EOK)
        | [] \<Rightarrow> ((m\<lparr>hold := 0, mutex_value := 1, owner := None, original_priority := 0xff\<rparr>, k1), RT_EOK))"
proof -
  have inv: "kinv k" "original_priority m < 32" "mutex_value m = 0" using assms(1,3) by (auto simp: mutex_ok_def)
  define k1 where "k1 = (if original_priority m \<noteq> current_priority (threads k t)
     then change_priority t (original_priority m) k else k)"
  note c = change_priority_sel [OF inv(1), where t = t and p = "original_priority m"]
  have k1: "kinv k1" "runs t k1"
    using inv assms(2) kinv_change_priority [OF inv(1,2)] change_priority_runs [OF inv(1) assms(2)]
    by (auto simp: k1_def)
  have q: "queues k1 (Wait i) = queues k (Wait i)" using c(3) [of "Wait i"] by (simp add: k1_def)
  have p: "current_priority (threads k1 u) = (if u = t then original_priority m else current_priority (threads k u))" for u
    using c(1) by (auto simp: k1_def)
  have tq: "t \<notin> set (queues k (Wait i))" using owner_not_waiting [OF inv(1) assms(2)] .
  have "rt_mutex_release i t (m, k) =
       (case queues k1 (Wait i) of
          u # _ \<Rightarrow> ((m\<lparr>hold := 1, owner := Some u, original_priority := current_priority (threads k1 u)\<rparr>,
                    rt_schedule (rt_ipc_list_resume (Wait i) k1)), RT_EOK)
        | [] \<Rightarrow> ((m\<lparr>hold := 0, mutex_value := 1, owner := None, original_priority := 0xff\<rparr>, k1), RT_EOK))"
    using assms(3,4) inv(3) by (auto simp: rt_mutex_release_def Let_def k1_def split: list.split)
  then have "rt_mutex_release i t (m, k) =
       (case queues k (Wait i) of
          u # _ \<Rightarrow> ((m\<lparr>hold := 1, owner := Some u, original_priority := current_priority (threads k u)\<rparr>,
                    rt_schedule (rt_ipc_list_resume (Wait i) k1)), RT_EOK)
        | [] \<Rightarrow> ((m\<lparr>hold := 0, mutex_value := 1, owner := None, original_priority := 0xff\<rparr>, k1), RT_EOK))"
    using q p tq by (cases "queues k (Wait i)") auto
  then show ?thesis using that k1 q p by blast
qed

lemma mutex_release_ok:
  assumes "mutex_ok i (m, k)" "runs t k"
  shows "mutex_ok i (fst (rt_mutex_release i t (m, k)))"
proof (cases "owner m = Some t \<and> hold m = 1")
  case True
  obtain k1 where k1: "kinv k1" "runs t k1" "queues k1 (Wait i) = queues k (Wait i)"
    and e: "rt_mutex_release i t (m, k) =
       (case queues k (Wait i) of
          u # _ \<Rightarrow> ((m\<lparr>hold := 1, owner := Some u, original_priority := current_priority (threads k u)\<rparr>,
                    rt_schedule (rt_ipc_list_resume (Wait i) k1)), RT_EOK)
        | [] \<Rightarrow> ((m\<lparr>hold := 0, mutex_value := 1, owner := None, original_priority := 0xff\<rparr>, k1), RT_EOK))"
    by (rule mutex_release_last [OF assms]) (use True in auto)
  show ?thesis
  proof (cases "queues k (Wait i)")
    case Nil
    then show ?thesis using e k1 by (simp add: mutex_ok_def)
  next
    case (Cons u q)
    note r = list_resume_sel [OF k1(1) _ k1(3) [unfolded Cons]]
    have inv: "kinv k" using assms(1) by (simp add: mutex_ok_def)
    have "stat (threads k u) = RT_THREAD_SUSPEND" using kinv_D(1) [OF inv, of u "Wait i"] Cons by simp
    then have "current_priority (threads k u) < 32" using kinv_D(5) [OF inv] by (simp add: live_def)
    moreover have "u \<notin> set q" using kinv_D(10) [OF inv, of "Wait i"] Cons by simp
    moreover have "queues (rt_schedule (rt_ipc_list_resume (Wait i) k1)) (Wait i) = q"
      using rt_schedule_wait [OF r(1), of "Wait i"] r(2) by simp
    moreover have "kinv (rt_schedule (rt_ipc_list_resume (Wait i) k1))" using kinv_rt_schedule [OF r(1)] by simp
    ultimately show ?thesis using e Cons assms(1) True by (simp add: mutex_ok_def)
  qed
next
  case False
  have "hold m - 1 \<noteq> 0" if "hold m \<noteq> 1" using that by (simp only: right_minus_eq) simp
  then show ?thesis using False assms(1)
    by (auto simp: rt_mutex_release_def mutex_ok_def Let_def word_gt_0 split: option.splits)
qed

lemma sorted_wrt_prio_cong:
  "(\<And>u. u \<in> set xs \<Longrightarrow> f u = (g u :: nat)) \<Longrightarrow>
     sorted_wrt (\<lambda>u v. f u \<le> f v) xs = sorted_wrt (\<lambda>u v. g u \<le> g v) xs"
  by (induction xs) auto

lemma inherits_take:
  assumes "mutex_ok i (m, k)" "runs t k" "mutex_flag m = RT_IPC_FLAG_PRIO" "inherits i (m, k)"
  shows "inherits i (fst (rt_mutex_take i t time (m, k)))"
proof (cases "\<exists>ow. owner m = Some ow \<and> ow \<noteq> t \<and> time \<noteq> 0")
  case True
  then obtain ow where ow: "owner m = Some ow" "ow \<noteq> t" "time \<noteq> 0" by blast
  obtain k1 where e: "rt_mutex_take i t time (m, k) = ((m, ipc_wait (Wait i) t (mutex_flag m) time k1), Blocked)"
    and k1: "kinv k1" "runs t k1" "queues k1 (Wait i) = queues k (Wait i)"
    and p1: "\<And>u. current_priority (threads k1 u) =
       (if u = ow then min (current_priority (threads k ow)) (current_priority (threads k t)) else current_priority (threads k u))"
    by (rule mutex_take_blocked [OF assms(1,2) ow]) blast
  define k2 where "k2 = ipc_wait (Wait i) t (mutex_flag m) time k1"
  define pr where "pr = (\<lambda>u. current_priority (threads k1 u))"
  have oq: "ow \<notin> set (queues k (Wait i))" using assms(1) ow(1) by (simp add: mutex_ok_def)
  have p2: "current_priority (threads k2 u) = pr u" for u
    using ipc_wait_sel(3) [OF k1(1), of t "Wait i" "mutex_flag m" time u] k1(2)
    by (simp add: k2_def pr_def thread_core_def)
  have q2: "queues k2 (Wait i) = prio_insert pr t (queues k (Wait i))"
    using ipc_wait_sel(1) [OF k1(1), of t "Wait i" "Wait i" "mutex_flag m" time] k1(2,3) assms(3)
    by (simp add: k2_def pr_def wait_insert_def)
  have same: "pr u = current_priority (threads k u)" if "u \<in> set (queues k (Wait i))" for u
    using p1 that oq by (auto simp: pr_def)
  have "sorted_wrt (\<lambda>u v. pr u \<le> pr v) (queues k (Wait i))"
    using assms(4) sorted_wrt_prio_cong [of "queues k (Wait i)" pr "\<lambda>u. current_priority (threads k u)"] same
    by (simp add: inherits_def)
  then have "sorted_wrt (\<lambda>u v. pr u \<le> pr v) (queues k2 (Wait i))" unfolding q2 by (rule prio.sorted_ins)
  moreover have "pr ow \<le> pr u" if "u \<in> set (queues k2 (Wait i))" for u
    using that p1 ow same assms(4) unfolding q2 prio.set_ins by (auto simp: pr_def inherits_def)
  ultimately show ?thesis using ow(1) by (simp add: e k2_def [symmetric] inherits_def p2)
next
  case False
  then show ?thesis using assms(1,4)
    by (cases "owner m") (auto simp: inherits_def mutex_ok_def rt_mutex_take_def Let_def set_error_prio)
qed

lemma inherits_release:
  assumes "mutex_ok i (m, k)" "runs t k" "inherits i (m, k)"
  shows "inherits i (fst (rt_mutex_release i t (m, k)))"
proof (cases "owner m = Some t \<and> hold m = 1")
  case True
  obtain k1 where k1: "kinv k1" "queues k1 (Wait i) = queues k (Wait i)"
    and p: "\<And>u. current_priority (threads k1 u) = (if u = t then original_priority m else current_priority (threads k u))"
    and e: "rt_mutex_release i t (m, k) =
       (case queues k (Wait i) of
          u # _ \<Rightarrow> ((m\<lparr>hold := 1, owner := Some u, original_priority := current_priority (threads k u)\<rparr>,
                    rt_schedule (rt_ipc_list_resume (Wait i) k1)), RT_EOK)
        | [] \<Rightarrow> ((m\<lparr>hold := 0, mutex_value := 1, owner := None, original_priority := 0xff\<rparr>, k1), RT_EOK))"
    by (rule mutex_release_last [OF assms(1,2)]) (use True in auto)
  have tq: "t \<notin> set (queues k (Wait i))" using assms(1) True by (simp add: mutex_ok_def)
  show ?thesis
  proof (cases "queues k (Wait i)")
    case Nil
    then show ?thesis using e k1 by (simp add: inherits_def)
  next
    case (Cons u q)
    define k2 where "k2 = rt_schedule (rt_ipc_list_resume (Wait i) k1)"
    note r = list_resume_sel [OF k1(1) _ k1(2) [unfolded Cons]]
    have q2: "queues k2 (Wait i) = q"
      using rt_schedule_wait [OF r(1), of "Wait i"] r(2) by (simp add: k2_def)
    have p2: "current_priority (threads k2 v) = current_priority (threads k1 v)" for v
      using rt_schedule_threads(1) [OF r(1)] r(4) [of v] by (simp add: k2_def thread_core_def)
    have pk: "current_priority (threads k2 v) = current_priority (threads k v)" if "v \<in> set (u # q)" for v
      using p p2 tq that Cons by auto
    have "sorted_wrt (\<lambda>a b. current_priority (threads k a) \<le> current_priority (threads k b)) (u # q)"
      using assms(3) Cons by (simp add: inherits_def)
    then have "sorted_wrt (\<lambda>a b. current_priority (threads k2 a) \<le> current_priority (threads k2 b)) (u # q)"
      using sorted_wrt_prio_cong [of "u # q" "\<lambda>a. current_priority (threads k2 a)" "\<lambda>a. current_priority (threads k a)"] pk by blast
    then show ?thesis using e Cons q2 by (simp add: k2_def [symmetric] inherits_def)
  qed
next
  case False
  have "hold m - 1 \<noteq> 0" if "hold m \<noteq> 1" using that by (simp only: right_minus_eq) simp
  then show ?thesis using False assms(3)
    by (auto simp: rt_mutex_release_def inherits_def Let_def set_error_prio)
qed

subsection \<open>Many threads on one mutex\<close>

inductive mutex_step :: "nat \<Rightarrow> rt_mutex \<times> kern \<Rightarrow> rt_mutex \<times> kern \<Rightarrow> bool" for i where
  take: "runs t k \<Longrightarrow> hold m < 255 \<Longrightarrow> mutex_step i (m, k) (fst (rt_mutex_take i t time (m, k)))"
| release: "runs t k \<Longrightarrow> mutex_step i (m, k) (fst (rt_mutex_release i t (m, k)))"
| env: "kinv k' \<Longrightarrow> queues k' (Wait i) = filter P (queues k (Wait i)) \<Longrightarrow>
    (\<And>u. u \<in> set (queues k (Wait i)) \<or> owner m = Some u \<Longrightarrow>
       current_priority (threads k' u) = current_priority (threads k u)) \<Longrightarrow>
    mutex_step i (m, k) (m, k')"

inductive mutex_reach :: "nat \<Rightarrow> rt_mutex \<times> kern \<Rightarrow> rt_mutex \<times> kern \<Rightarrow> bool" for i s0 where
  start: "mutex_reach i s0 s0"
| step: "mutex_reach i s0 s \<Longrightarrow> mutex_step i s s' \<Longrightarrow> mutex_reach i s0 s'"

lemma mutex_flag_take: "mutex_flag (fst (fst (rt_mutex_take i t time (m, k)))) = mutex_flag m"
  by (auto simp: rt_mutex_take_def Let_def split: option.splits)

lemma mutex_flag_release: "mutex_flag (fst (fst (rt_mutex_release i t (m, k)))) = mutex_flag m"
  by (auto simp: rt_mutex_release_def Let_def split: list.splits)

lemma mutex_step_ok:
  assumes "mutex_step i s s'" "mutex_ok i s" "mutex_flag (fst s) = RT_IPC_FLAG_PRIO" "inherits i s"
  shows "mutex_ok i s' \<and> mutex_flag (fst s') = RT_IPC_FLAG_PRIO \<and> inherits i s'"
  using assms
proof (cases rule: mutex_step.cases)
  case (take t k m time)
  then show ?thesis using assms mutex_take_ok inherits_take mutex_flag_take by simp
next
  case (release t k m)
  then show ?thesis using assms mutex_release_ok inherits_release mutex_flag_release by simp
next
  case (env k' P k m)
  have same: "current_priority (threads k' u) = current_priority (threads k u)" if "u \<in> set (queues k (Wait i))" for u
    using env(5) that by blast
  have "sorted_wrt (\<lambda>u v. current_priority (threads k' u) \<le> current_priority (threads k' v)) (queues k (Wait i))"
    using assms(4) env(1) sorted_wrt_prio_cong [of "queues k (Wait i)" "\<lambda>u. current_priority (threads k' u)"
        "\<lambda>u. current_priority (threads k u)"] same by (simp add: inherits_def)
  then have "inherits i (m, k')"
    using assms(4) env(1,4,5) same by (auto simp: inherits_def intro: sorted_wrt_filter)
  moreover have "mutex_ok i (m, k')" using assms(2) env(1,3,4) by (auto simp: mutex_ok_def split: option.splits)
  ultimately show ?thesis using assms(3) env by simp
qed

lemma mutex_reach_ok:
  assumes "mutex_reach i s0 s" "mutex_ok i s0" "mutex_flag (fst s0) = RT_IPC_FLAG_PRIO" "inherits i s0"
  shows "mutex_ok i s \<and> mutex_flag (fst s) = RT_IPC_FLAG_PRIO \<and> inherits i s"
  using assms by (induction rule: mutex_reach.induct) (auto dest: mutex_step_ok)



text \<open>A thread takes a free mutex.\<close>

definition mutex_demo :: "rt_mutex \<times> kern" where
  "mutex_demo = fst (rt_mutex_take 7 1 0 (rt_mutex_init 7 RT_IPC_FLAG_PRIO two_kern))"


end
