(* ===== verification/Rt_Event.thy ===== *)
theory Rt_Event
  imports Rt_Sem
begin

unbundle bit_operations_syntax

section \<open>Event sets (\<^verbatim>\<open>rt-thread/src/ipc.c\<close>)\<close>

text \<open>
  An event object holds 32 flags. A thread waits for all (\<^verbatim>\<open>AND\<close>, 1) or any (\<^verbatim>\<open>OR\<close>, 2) of a set of
  them and may ask to clear (4) what it received; its request is kept in the thread. The
  lemmas show that a sender wakes whoever can go on: no thread is left waiting for flags that
  are set.
\<close>

subsection \<open>Operations\<close>

record rt_event =
  ev_set :: u32
  ev_flag :: ipc_flag

abbreviation RT_EVENT_FLAG_AND :: u8 where "RT_EVENT_FLAG_AND \<equiv> 1"
abbreviation RT_EVENT_FLAG_OR :: u8 where "RT_EVENT_FLAG_OR \<equiv> 2"
abbreviation RT_EVENT_FLAG_CLEAR :: u8 where "RT_EVENT_FLAG_CLEAR \<equiv> 4"

definition rt_event_init :: "nat \<Rightarrow> ipc_flag \<Rightarrow> kern \<Rightarrow> rt_event \<times> kern" where
  "rt_event_init i flag k = (\<lparr>ev_set = 0, ev_flag = flag\<rparr>, k\<lparr>queues := (queues k)(Wait i := [])\<rparr>)"

definition rt_event_detach :: "nat \<Rightarrow> kern \<Rightarrow> kern" where
  "rt_event_detach i k = rt_ipc_list_resume_all (Wait i) k"

text \<open>Resume a satisfied thread, clearing the flags it received if it asked for that.\<close>

definition event_wake :: "tid \<Rightarrow> u32 \<Rightarrow> kern \<Rightarrow> u32 \<times> kern" where
  "event_wake t eset k =
     ((if event_info (threads k t) AND RT_EVENT_FLAG_CLEAR \<noteq> 0
       then eset AND NOT (event_set (threads k t)) else eset),
      fst (rt_thread_resume t k))"

text \<open>The walk of \<open>rt_event_send\<close> over the waiting list; the results are the flags left, the kernel, \<open>need_schedule\<close> and the status.\<close>

fun event_walk :: "tid list \<Rightarrow> u32 \<Rightarrow> kern \<Rightarrow> bool \<Rightarrow> u32 \<times> kern \<times> bool \<times> rt_err" where
  "event_walk [] eset k need_schedule = (eset, k, need_schedule, RT_EOK)"
| "event_walk (t # ts) eset k need_schedule =
     (let th = threads k t
      in if event_info th AND RT_EVENT_FLAG_AND \<noteq> 0
         then (if event_set th AND eset = event_set th
               then (case event_wake t eset k of (eset', k') \<Rightarrow> event_walk ts eset' k' True)
               else event_walk ts eset k need_schedule)
         else if event_info th AND RT_EVENT_FLAG_OR \<noteq> 0
         then (if event_set th AND eset \<noteq> 0
               then (case event_wake t eset (upd_thread t (\<lambda>th. th\<lparr>event_set := event_set th AND eset\<rparr>) k) of
                       (eset', k') \<Rightarrow> event_walk ts eset' k' True)
               else event_walk ts eset k need_schedule)
         else (eset, k, need_schedule, RT_EINVAL))"

definition rt_event_send :: "nat \<Rightarrow> u32 \<Rightarrow> rt_event \<times> kern \<Rightarrow> (rt_event \<times> kern) \<times> rt_err" where
  "rt_event_send i set0 = (\<lambda>(ev, k).
     if set0 = 0 then ((ev, k), RT_ERROR)
     else case event_walk (queues k (Wait i)) (ev_set ev OR set0) k False of
            (eset, k', need_schedule, st) \<Rightarrow>
              ((ev\<lparr>ev_set := eset\<rparr>, if st = RT_EOK \<and> need_schedule then rt_schedule k' else k'), st))"

definition event_test :: "u8 \<Rightarrow> u32 \<Rightarrow> u32 \<Rightarrow> bool" where
  "event_test opt set0 eset =
     (if opt AND RT_EVENT_FLAG_AND \<noteq> 0 then eset AND set0 = set0
      else if opt AND RT_EVENT_FLAG_OR \<noteq> 0 then eset AND set0 \<noteq> 0
      else False)"

text \<open>The third result is what \<^verbatim>\<open>*recved\<close> receives when the call returns at once.\<close>

definition rt_event_recv ::
  "nat \<Rightarrow> tid \<Rightarrow> u32 \<Rightarrow> u8 \<Rightarrow> int \<Rightarrow> rt_event \<times> kern \<Rightarrow> (rt_event \<times> kern) \<times> outcome \<times> u32 option" where
  "rt_event_recv i t set0 opt timeout = (\<lambda>(ev, k).
     if set0 = 0 then ((ev, k), Ret RT_ERROR, None)
     else let k = set_error t RT_EOK k;
              k = rt_assert (opt AND RT_EVENT_FLAG_AND \<noteq> 0 \<or> opt AND RT_EVENT_FLAG_OR \<noteq> 0) k
          in if event_test opt set0 (ev_set ev)
             then ((ev\<lparr>ev_set := (if opt AND RT_EVENT_FLAG_CLEAR \<noteq> 0 then ev_set ev AND NOT set0 else ev_set ev)\<rparr>,
                    upd_thread t (\<lambda>th. th\<lparr>event_set := ev_set ev AND set0, event_info := opt\<rparr>) k),
                   Ret RT_EOK, Some (ev_set ev AND set0))
             else if timeout = 0 then ((ev, set_error t RT_ETIMEOUT k), Ret RT_ETIMEOUT, None)
             else ((ev, ipc_wait (Wait i) t (ev_flag ev) timeout
                      (upd_thread t (\<lambda>th. th\<lparr>event_set := set0, event_info := opt\<rparr>) k)), Blocked, None))"

definition rt_event_recv_end :: "tid \<Rightarrow> kern \<Rightarrow> rt_err \<times> u32 option" where
  "rt_event_recv_end t k =
     (if th_error (threads k t) \<noteq> RT_EOK then (th_error (threads k t), None)
      else (th_error (threads k t), Some (event_set (threads k t))))"

definition rt_event_control_reset :: "nat \<Rightarrow> rt_event \<times> kern \<Rightarrow> rt_event \<times> kern" where
  "rt_event_control_reset i = (\<lambda>(ev, k).
     (ev\<lparr>ev_set := 0\<rparr>, rt_schedule (rt_ipc_list_resume_all (Wait i) k)))"

subsection \<open>No satisfied thread is left waiting\<close>

definition valid_opt :: "u8 \<Rightarrow> bool" where
  "valid_opt opt \<longleftrightarrow> opt AND RT_EVENT_FLAG_AND \<noteq> 0 \<or> opt AND RT_EVENT_FLAG_OR \<noteq> 0"

definition unmet :: "u32 \<Rightarrow> rt_thread \<Rightarrow> bool" where
  "unmet eset th \<longleftrightarrow> valid_opt (event_info th) \<and> \<not> event_test (event_info th) (event_set th) eset"

definition event_ok :: "nat \<Rightarrow> rt_event \<times> kern \<Rightarrow> bool" where
  "event_ok i = (\<lambda>(ev, k). kinv k \<and> (\<forall>u \<in> set (queues k (Wait i)). unmet (ev_set ev) (threads k u)))"

lemma and_subset_mono:
  assumes "(e :: u32) AND s = s" "\<And>n. bit e n \<Longrightarrow> bit e' n"
  shows "e' AND s = s"
  using assms by (auto simp: bit_eq_iff bit_and_iff)

lemma and_nonzero_mono:
  assumes "(e :: u32) AND s \<noteq> 0" "\<And>n. bit e n \<Longrightarrow> bit e' n"
  shows "e' AND s \<noteq> 0"
  using assms by (auto simp: bit_eq_iff bit_and_iff)

text \<open>Clearing flags satisfies nobody.\<close>

lemma unmet_mono: "unmet e th \<Longrightarrow> (\<And>n. bit e' n \<Longrightarrow> bit e n) \<Longrightarrow> unmet e' th"
  unfolding unmet_def event_test_def using and_subset_mono [of e' "event_set th" e] and_nonzero_mono [of e' "event_set th" e]
  by (auto split: if_splits)

lemma event_wake_sub: "bit (fst (event_wake t e k)) n \<Longrightarrow> bit e n"
  by (auto simp: event_wake_def bit_and_iff split: if_splits)

lemma thread_core_event:
  "thread_core th = thread_core th' \<Longrightarrow> unmet e th = unmet e th'"
  "thread_core th = thread_core th' \<Longrightarrow> event_set th = event_set th'"
  "thread_core th = thread_core th' \<Longrightarrow> event_info th = event_info th'"
  by (simp_all add: thread_core_def unmet_def)

lemma kinv_event_set [simp]:
  "kinv (upd_thread t (\<lambda>th. th\<lparr>event_set := s th\<rparr>) k) = kinv k"
  "kinv (upd_thread t (\<lambda>th. th\<lparr>event_set := s th, event_info := opt\<rparr>) k) = kinv k"
  by (simp_all add: kinv_x_upd_other)

text \<open>What a resumed thread received of the flags \<open>e\<close>: all it waits for, or a non-empty part of it.\<close>

definition got :: "u32 \<Rightarrow> rt_thread \<Rightarrow> rt_thread \<Rightarrow> bool" where
  "got e th th' \<longleftrightarrow>
     (\<forall>n. bit (event_set th') n \<longrightarrow> bit e n \<and> bit (event_set th) n) \<and>
     (if event_info th AND RT_EVENT_FLAG_AND \<noteq> 0 then event_set th' = event_set th else event_set th' \<noteq> 0)"

lemma got_mono: "got e th th' \<Longrightarrow> (\<And>n. bit e n \<Longrightarrow> bit e2 n) \<Longrightarrow> got e2 th th'"
  by (auto simp: got_def)

text \<open>One satisfied thread: \<open>kk\<close> is the kernel with the received flags saved in the thread.\<close>

definition event_save :: "tid \<Rightarrow> u32 \<Rightarrow> kern \<Rightarrow> kern" where
  "event_save t e k = (if event_info (threads k t) AND RT_EVENT_FLAG_AND \<noteq> 0 then k
     else upd_thread t (\<lambda>th. th\<lparr>event_set := event_set th AND e\<rparr>) k)"

lemma event_walk_Cons:
  assumes "valid_opt (event_info (threads k t))"
  shows "event_walk (t # ts) e k ns =
    (if event_test (event_info (threads k t)) (event_set (threads k t)) e
     then (case event_wake t e (event_save t e k) of (e', k') \<Rightarrow> event_walk ts e' k' True)
     else event_walk ts e k ns)"
  using assms by (auto simp: event_test_def event_save_def valid_opt_def Let_def and.commute)

lemma event_save_sel:
  assumes "event_test (event_info (threads k t)) (event_set (threads k t)) e"
  shows "kinv (event_save t e k) = kinv k" "queues (event_save t e k) = queues k"
    "u \<noteq> t \<Longrightarrow> threads (event_save t e k) u = threads k u" "stat (threads (event_save t e k) u) = stat (threads k u)"
    "th_error (threads (event_save t e k) u) = th_error (threads k u)"
    "rt_current_thread (event_save t e k) = rt_current_thread k" "halted (event_save t e k) = halted k"
    "got e (threads k t) (threads (event_save t e k) t)"
proof -
  show "got e (threads k t) (threads (event_save t e k) t)"
  proof (cases "event_info (threads k t) AND RT_EVENT_FLAG_AND \<noteq> 0")
    case True
    then have "e AND event_set (threads k t) = event_set (threads k t)" using assms by (simp add: event_test_def)
    then have "bit e n" if "bit (event_set (threads k t)) n" for n using that by (metis bit_and_iff)
    then show ?thesis using True by (auto simp: got_def event_save_def)
  next
    case False
    then have "e AND event_set (threads k t) \<noteq> 0" using assms by (auto simp: event_test_def split: if_splits)
    then show ?thesis using False by (simp add: got_def event_save_def bit_and_iff and.commute)
  qed
qed (simp_all add: event_save_def kinv_x_upd_other)

lemma event_wake_step:
  assumes "kinv k" "queues k (Wait i) = ps @ t # ts"
    "event_test (event_info (threads k t)) (event_set (threads k t)) e"
    "event_wake t e (event_save t e k) = (e', k')"
  shows "kinv k'" "queues k' (Wait i) = ps @ ts" "\<And>n. bit e' n \<Longrightarrow> bit e n"
    "\<And>u. u \<noteq> t \<Longrightarrow> thread_core (threads k' u) = thread_core (threads k u)"
    "\<And>u. th_error (threads k' u) = th_error (threads k u)"
    "rt_current_thread k' = rt_current_thread k" "halted k' = halted k"
    "got e (threads k t) (threads k' t)" "stat (threads k' t) \<noteq> RT_THREAD_SUSPEND"
    "\<And>u. u \<noteq> t \<Longrightarrow> stat (threads k' u) = stat (threads k u)"
proof -
  define kk where "kk = event_save t e k"
  note sv = event_save_sel [OF assms(3), folded kk_def]
  have kk: "kinv kk" using assms(1) sv(1) by simp
  have "stat (threads k t) = RT_THREAD_SUSPEND" using kinv_D(1) [OF assms(1), of t "Wait i"] assms(2) by simp
  then have st: "stat (threads kk t) = RT_THREAD_SUSPEND" using sv(4) by simp
  have k': "k' = fst (rt_thread_resume t kk)" and e': "e' = fst (event_wake t e kk)"
    using assms(4) by (auto simp: event_wake_def kk_def)
  note r = resume_wait [OF kk st, folded k']
  show "kinv k'" by (rule r(1))
  have "t \<notin> set ps" "t \<notin> set ts" using kinv_D(10) [OF assms(1), of "Wait i"] assms(2) by auto
  then show "queues k' (Wait i) = ps @ ts" using r(2) [of "Wait i"] sv(2) assms(2) by simp
  show "bit e n" if "bit e' n" for n using event_wake_sub that unfolding e' by blast
  show "thread_core (threads k' u) = thread_core (threads k u)" if "u \<noteq> t" for u using r(3) sv(3) that by simp
  show "th_error (threads k' u) = th_error (threads k u)" for u
    using r(3) [of u] sv(5) [of u] by (simp add: thread_core_def)
  show "rt_current_thread k' = rt_current_thread k" "halted k' = halted k" using r(6,7) sv(6,7) by simp_all
  show "got e (threads k t) (threads k' t)"
    using sv(8) thread_core_event(2) [OF r(3) [of t]] by (simp add: got_def)
  show "stat (threads k' t) \<noteq> RT_THREAD_SUSPEND" using r(5) by simp
  show "stat (threads k' u) = stat (threads k u)" if "u \<noteq> t" for u using r(4) sv(4) that by simp
qed

text \<open>
  The walk over \<open>ts\<close>, with the waiters already passed over in \<open>ps\<close>: who is still on the list
  afterwards cannot go on with the flags that remain; everyone else was resumed with its flags.
\<close>

definition walk_post :: "nat \<Rightarrow> tid list \<Rightarrow> tid list \<Rightarrow> u32 \<Rightarrow> kern \<Rightarrow> u32 \<Rightarrow> kern \<Rightarrow> bool" where
  "walk_post i ps ts e k e' k' \<longleftrightarrow>
     kinv k' \<and> (\<forall>u \<in> set (queues k' (Wait i)). unmet e' (threads k' u)) \<and>
     set ps \<subseteq> set (queues k' (Wait i)) \<and> set (queues k' (Wait i)) \<subseteq> set ps \<union> set ts \<and>
     (\<forall>u \<in> set ts. u \<notin> set (queues k' (Wait i)) \<longrightarrow>
       got e (threads k u) (threads k' u) \<and> stat (threads k' u) \<noteq> RT_THREAD_SUSPEND) \<and>
     (\<forall>u. u \<notin> set ts \<longrightarrow> thread_core (threads k' u) = thread_core (threads k u) \<and>
       stat (threads k' u) = stat (threads k u)) \<and>
     (\<forall>u. th_error (threads k' u) = th_error (threads k u)) \<and>
     rt_current_thread k' = rt_current_thread k \<and> halted k' = halted k"

lemma event_walk_post:
  assumes "kinv k" "queues k (Wait i) = ps @ ts" "\<forall>u \<in> set ps. unmet e (threads k u)"
    "\<forall>u \<in> set ts. valid_opt (event_info (threads k u))" "event_walk ts e k ns = (e', k', ns', st)"
  shows "st = RT_EOK \<and> walk_post i ps ts e k e' k'"
  using assms
proof (induction ts arbitrary: ps e k ns)
  case Nil
  then show ?case by (auto simp: walk_post_def)
next
  case (Cons t ts)
  have val: "valid_opt (event_info (threads k t))" using Cons.prems(4) by simp
  have dis: "t \<notin> set ps" "t \<notin> set ts" using kinv_D(10) [OF Cons.prems(1), of "Wait i"] Cons.prems(2) by auto
  show ?case
  proof (cases "event_test (event_info (threads k t)) (event_set (threads k t)) e")
    case False
    then have w: "event_walk ts e k ns = (e', k', ns', st)" using Cons.prems(5) event_walk_Cons [OF val] by simp
    have "\<forall>u \<in> set (ps @ [t]). unmet e (threads k u)" using Cons.prems(3) False val by (auto simp: unmet_def)
    from Cons.IH [OF Cons.prems(1) _ this _ w] Cons.prems(2,4)
    show ?thesis by (auto simp: walk_post_def)
  next
    case True
    obtain e1 k1 where wk: "event_wake t e (event_save t e k) = (e1, k1)" by fastforce
    have w: "event_walk ts e1 k1 True = (e', k', ns', st)"
      using Cons.prems(5) event_walk_Cons [OF val] True wk by simp
    note ws = event_wake_step [OF Cons.prems(1,2) True wk]
    have "\<forall>u \<in> set ps. unmet e1 (threads k1 u)"
    proof
      fix u assume u: "u \<in> set ps"
      then have "unmet e1 (threads k u)" using Cons.prems(3) unmet_mono ws(3) by blast
      then show "unmet e1 (threads k1 u)" using thread_core_event(1) [OF ws(4)] u dis by metis
    qed
    moreover have "\<forall>u \<in> set ts. valid_opt (event_info (threads k1 u))"
      using Cons.prems(4) thread_core_event(3) [OF ws(4)] dis by (metis list.set_intros(2))
    ultimately have IH: "st = RT_EOK" "walk_post i ps ts e1 k1 e' k'"
      using Cons.IH [OF ws(1,2) _ _ w] by auto
    have g1: "got e (threads k u) (threads k' u)" if "u \<in> set ts" "u \<notin> set (queues k' (Wait i))" for u
    proof -
      have "got e1 (threads k1 u) (threads k' u)" using IH(2) that by (simp add: walk_post_def)
      then have "got e (threads k1 u) (threads k' u)" using got_mono ws(3) by blast
      moreover have "thread_core (threads k1 u) = thread_core (threads k u)" using ws(4) [of u] that dis by metis
      ultimately show ?thesis by (simp add: got_def thread_core_def)
    qed
    have "thread_core (threads k' t) = thread_core (threads k1 t)" "stat (threads k' t) = stat (threads k1 t)"
      using IH(2) dis by (auto simp: walk_post_def)
    then have g2: "got e (threads k t) (threads k' t)" "stat (threads k' t) \<noteq> RT_THREAD_SUSPEND"
      using ws(8,9) by (auto simp: got_def thread_core_def)
    show ?thesis
      using IH g1 g2 ws(4-7,10) unfolding walk_post_def by auto
  qed
qed

lemma event_ok_send:
  assumes "event_ok i (ev, k)" "rt_current_thread k \<noteq> None"
  shows "event_ok i (fst (rt_event_send i s (ev, k)))"
    and "s \<noteq> 0 \<Longrightarrow> snd (rt_event_send i s (ev, k)) = RT_EOK"
    and "u \<in> set (queues k (Wait i)) \<Longrightarrow> s \<noteq> 0 \<Longrightarrow>
       u \<in> set (queues (snd (fst (rt_event_send i s (ev, k)))) (Wait i)) \<or>
       got (ev_set ev OR s) (threads k u) (threads (snd (fst (rt_event_send i s (ev, k)))) u) \<and>
       stat (threads (snd (fst (rt_event_send i s (ev, k)))) u) \<noteq> RT_THREAD_SUSPEND"
    and "th_error (threads (snd (fst (rt_event_send i s (ev, k)))) v) = th_error (threads k v)"
proof -
  have k: "kinv k" "\<forall>u \<in> set (queues k (Wait i)). valid_opt (event_info (threads k u))"
    using assms(1) by (auto simp: event_ok_def unmet_def)
  obtain e' k' ns st where w: "event_walk (queues k (Wait i)) (ev_set ev OR s) k False = (e', k', ns, st)"
    by (metis prod_cases4)
  have post: "st = RT_EOK" "walk_post i [] (queues k (Wait i)) (ev_set ev OR s) k e' k'"
    using event_walk_post [OF k(1) _ _ k(2) w, of i "[]"] by auto
  define kf where "kf = (if ns then rt_schedule k' else k')"
  have inv: "kinv k'" using post(2) by (simp add: walk_post_def)
  have q: "queues kf (Wait i) = queues k' (Wait i)" using rt_schedule_wait [OF inv, of "Wait i"] by (simp add: kf_def)
  have core: "thread_core (threads kf u) = thread_core (threads k' u)" for u
    using rt_schedule_core(1) [OF inv] by (simp add: kf_def)
  have ns: "stat (threads kf u) \<noteq> RT_THREAD_SUSPEND" if "stat (threads k' u) \<noteq> RT_THREAD_SUSPEND" for u
    using rt_schedule_not_suspend [OF inv] that by (simp add: kf_def)
  have e: "rt_event_send i s (ev, k) = ((ev\<lparr>ev_set := e'\<rparr>, kf), RT_EOK)" if "s \<noteq> 0"
    using that w post(1) by (simp add: rt_event_send_def kf_def)
  have ok: "event_ok i (ev\<lparr>ev_set := e'\<rparr>, kf)"
    using post(2) kinv_rt_schedule [OF inv] inv q thread_core_event(1) [OF core]
    by (auto simp: event_ok_def walk_post_def kf_def)
  show "event_ok i (fst (rt_event_send i s (ev, k)))"
    using ok e assms(1) by (cases "s = 0") (auto simp: rt_event_send_def)
  show "s \<noteq> 0 \<Longrightarrow> snd (rt_event_send i s (ev, k)) = RT_EOK" using e by simp
  show "u \<in> set (queues (snd (fst (rt_event_send i s (ev, k)))) (Wait i)) \<or>
       got (ev_set ev OR s) (threads k u) (threads (snd (fst (rt_event_send i s (ev, k)))) u) \<and>
       stat (threads (snd (fst (rt_event_send i s (ev, k)))) u) \<noteq> RT_THREAD_SUSPEND"
    if "u \<in> set (queues k (Wait i))" "s \<noteq> 0"
    using post(2) that q ns core [of u] by (auto simp: e walk_post_def got_def thread_core_def)
  show "th_error (threads (snd (fst (rt_event_send i s (ev, k)))) v) = th_error (threads k v)"
  proof (cases "s = 0")
    case False
    then show ?thesis using post(2) core [of v] by (simp add: e walk_post_def thread_core_def)
  qed (simp add: rt_event_send_def)
qed

lemma event_ok_recv:
  assumes "event_ok i (ev, k)" "runs t k" "valid_opt opt"
  shows "event_ok i (fst (rt_event_recv i t s opt time (ev, k)))"
proof (cases "s = 0 \<or> event_test opt s (ev_set ev) \<or> time = 0")
  case True
  have k: "kinv k" "\<forall>u \<in> set (queues k (Wait i)). unmet (ev_set ev) (threads k u)"
    using assms(1) by (auto simp: event_ok_def)
  have tq: "u \<noteq> t" if "u \<in> set (queues k (Wait i))" for u using unlinked [OF k(1), of t] assms(2) that by auto
  have m: "unmet (ev_set ev AND NOT s) th" if "unmet (ev_set ev) th" for th
    using that by (rule unmet_mono) (simp add: bit_and_iff)
  show ?thesis using True k tq m
    by (auto simp: rt_event_recv_def event_ok_def Let_def set_error_def kinv_x_upd_other)
next
  case False
  have k: "kinv k" "\<forall>u \<in> set (queues k (Wait i)). unmet (ev_set ev) (threads k u)"
    using assms(1) by (auto simp: event_ok_def)
  define k1 where "k1 = upd_thread t (\<lambda>th. th\<lparr>event_set := s, event_info := opt\<rparr>)
     (rt_assert (opt AND RT_EVENT_FLAG_AND \<noteq> 0 \<or> opt AND RT_EVENT_FLAG_OR \<noteq> 0) (set_error t RT_EOK k))"
  have k1: "kinv k1" "stat (threads k1 t) = RT_THREAD_RUNNING" "rt_current_thread k1 = Some t"
    using k(1) assms(2) by (simp_all add: k1_def set_error_prio)
  have e: "fst (rt_event_recv i t s opt time (ev, k)) = (ev, ipc_wait (Wait i) t (ev_flag ev) time k1)"
    using False by (simp add: rt_event_recv_def Let_def k1_def)
  note w = ipc_wait_sel [OF k1, of "Wait i"]
  have "unmet (ev_set ev) (threads (ipc_wait (Wait i) t (ev_flag ev) time k1) u)"
    if "u \<in> set (queues (ipc_wait (Wait i) t (ev_flag ev) time k1) (Wait i))" for u
  proof -
    have "unmet (ev_set ev) (threads k1 u)"
    proof (cases "u = t")
      case True
      then show ?thesis using False assms(3) by (simp add: k1_def unmet_def)
    next
      case f: False
      have "u \<in> set (queues k (Wait i))" using that f w(1) [of "Wait i"] by (simp add: k1_def)
      then show ?thesis using k(2) f by (simp add: k1_def set_error_def unmet_def)
    qed
    then show ?thesis using thread_core_event(1) [OF w(3)] by simp
  qed
  then show ?thesis using kinv_ipc_wait [OF k1, of "Wait i"] by (simp add: e event_ok_def)
qed

lemma event_ok_reset:
  assumes "event_ok i (ev, k)"
  shows "event_ok i (rt_event_control_reset i (ev, k))"
proof -
  have "resumed_all (Wait i) k (rt_ipc_list_resume_all (Wait i) k)"
    using assms by (intro resume_all_post) (simp_all add: event_ok_def)
  then have "kinv (rt_ipc_list_resume_all (Wait i) k)" "queues (rt_ipc_list_resume_all (Wait i) k) (Wait i) = []"
    by (auto simp: resumed_all_def)
  then show ?thesis using kinv_rt_schedule rt_schedule_wait [of "rt_ipc_list_resume_all (Wait i) k" "Wait i"]
    by (simp add: rt_event_control_reset_def event_ok_def)
qed

subsection \<open>Senders and receivers\<close>

inductive event_step :: "nat \<Rightarrow> rt_event \<times> kern \<Rightarrow> rt_event \<times> kern \<Rightarrow> bool" for i where
  send: "rt_current_thread k \<noteq> None \<Longrightarrow> event_step i (ev, k) (fst (rt_event_send i s (ev, k)))"
| recv: "runs t k \<Longrightarrow> valid_opt opt \<Longrightarrow> event_step i (ev, k) (fst (rt_event_recv i t s opt time (ev, k)))"
| reset: "event_step i (ev, k) (rt_event_control_reset i (ev, k))"
| env: "kinv k' \<Longrightarrow> set (queues k' (Wait i)) \<subseteq> set (queues k (Wait i)) \<Longrightarrow>
    (\<And>u. u \<in> set (queues k (Wait i)) \<Longrightarrow> event_set (threads k' u) = event_set (threads k u) \<and>
       event_info (threads k' u) = event_info (threads k u)) \<Longrightarrow>
    event_step i (ev, k) (ev, k')"

inductive event_reach :: "nat \<Rightarrow> rt_event \<times> kern \<Rightarrow> rt_event \<times> kern \<Rightarrow> bool" for i s0 where
  start: "event_reach i s0 s0"
| step: "event_reach i s0 s \<Longrightarrow> event_step i s s' \<Longrightarrow> event_reach i s0 s'"

lemma event_step_ok: "event_step i s s' \<Longrightarrow> event_ok i s \<Longrightarrow> event_ok i s'"
proof (induction rule: event_step.induct)
  case (env k' k ev)
  then show ?case by (auto simp: event_ok_def unmet_def subset_iff)
qed (auto intro: event_ok_send event_ok_recv event_ok_reset)

lemma event_reach_ok: "event_reach i s0 s \<Longrightarrow> event_ok i s0 \<Longrightarrow> event_ok i s"
  by (induction rule: event_reach.induct) (auto intro: event_step_ok)

text \<open>
  C36. However senders, receivers, resets and timeouts interleave, no thread ever sleeps on an
  event object while the flags it asked for are set.
\<close>

theorem rt_event_no_lost_wakeup:
  assumes "event_reach i (rt_event_init i flag k0) (ev, k)" "kinv k0" "queues k0 (Wait i) = []"
  shows "kinv k \<and> (\<forall>u \<in> set (queues k (Wait i)).
     \<not> event_test (event_info (threads k u)) (event_set (threads k u)) (ev_set ev))"
proof -
  have "(queues k0)(Wait i := []) = queues k0" using assms(3) by auto
  then have "event_ok i (rt_event_init i flag k0)"
    using assms(2,3) by (simp add: rt_event_init_def event_ok_def)
  from event_reach_ok [OF assms(1) this] show ?thesis by (auto simp: event_ok_def unmet_def)
qed

definition event_demo :: "rt_event \<times> kern" where
  "event_demo = fst (rt_event_recv 7 1 6 RT_EVENT_FLAG_AND (-1) (rt_event_init 7 RT_IPC_FLAG_FIFO two_kern))"

theorem rt_event_no_lost_wakeup_witness:
  "queues (snd event_demo) (Wait 7) = [1] \<and> kinv (snd event_demo) \<and>
    \<not> event_test RT_EVENT_FLAG_AND 6 (ev_set (fst event_demo))"
proof -
  let ?s0 = "rt_event_init 7 RT_IPC_FLAG_FIFO two_kern"
  have f: "queues two_kern (Wait 7) = []" "queues (snd event_demo) (Wait 7) = [1]"
    "event_info (threads (snd event_demo) 1) = 1" "event_set (threads (snd event_demo) 1) = 6" by code_simp+
  have "runs 1 (snd ?s0)" using two_kern_runs by (simp add: rt_event_init_def)
  moreover have "valid_opt RT_EVENT_FLAG_AND" by (simp add: valid_opt_def)
  ultimately have "event_step 7 ?s0 event_demo"
    unfolding event_demo_def using event_step.recv [where k = "snd ?s0" and ev = "fst ?s0"] by simp
  then have "event_reach 7 ?s0 (fst event_demo, snd event_demo)"
    using event_reach.step [OF event_reach.start] by simp
  from rt_event_no_lost_wakeup [OF this kinv_two_kern f(1)] f show ?thesis by auto
qed

text \<open>
  \<open>rt_event_send\<close> accepts any non-empty set of flags, and every thread that was waiting is
  afterwards either still waiting (for flags that are not set) or has been resumed with exactly
  what it asked for: all its flags, or those of them that were set, and its call returns the
  error code it had.
\<close>

theorem rt_event_send_delivers:
  assumes "event_ok i (ev, k)" "rt_current_thread k \<noteq> None" "s \<noteq> 0"
    and r: "rt_event_send i s (ev, k) = ((ev', k'), st)"
  shows "st = RT_EOK \<and> event_ok i (ev', k') \<and>
    (\<forall>u \<in> set (queues k (Wait i)). th_error (threads k' u) = th_error (threads k u) \<and>
       (u \<in> set (queues k' (Wait i)) \<or>
        stat (threads k' u) \<noteq> RT_THREAD_SUSPEND \<and> got (ev_set ev OR s) (threads k u) (threads k' u)))"
  using event_ok_send [OF assms(1,2), where s = s] assms(3) r by auto

definition event_demo2 :: "rt_event \<times> kern" where
  "event_demo2 = fst (rt_event_send 7 6 event_demo)"

theorem rt_event_send_delivers_witness:
  "event_ok 7 event_demo2 \<and> event_set (threads (snd event_demo2) 1) = 6 \<and>
   stat (threads (snd event_demo2) 1) \<noteq> RT_THREAD_SUSPEND"
proof -
  have s0: "event_ok 7 (rt_event_init 7 RT_IPC_FLAG_FIFO two_kern)"
  proof -
    have e: "queues two_kern (Wait 7) = []" by code_simp
    then have "(queues two_kern)(Wait 7 := []) = queues two_kern" by auto
    then show ?thesis using kinv_two_kern e by (simp add: rt_event_init_def event_ok_def)
  qed
  have "runs 1 (snd (rt_event_init 7 RT_IPC_FLAG_FIFO two_kern))" using two_kern_runs by (simp add: rt_event_init_def)
  then have d: "event_ok 7 (fst event_demo, snd event_demo)"
    using event_ok_recv [of 7 "fst (rt_event_init 7 RT_IPC_FLAG_FIFO two_kern)" "snd (rt_event_init 7 RT_IPC_FLAG_FIFO two_kern)" 1 RT_EVENT_FLAG_AND 6 "-1"] s0
    by (simp add: event_demo_def valid_opt_def)
  have f: "rt_current_thread (snd event_demo) \<noteq> None" "queues (snd event_demo) (Wait 7) = [1]"
    "queues (snd event_demo2) (Wait 7) = []" "event_info (threads (snd event_demo) 1) = 1"
    "event_set (threads (snd event_demo) 1) = 6" by code_simp+
  have "rt_event_send 7 6 (fst event_demo, snd event_demo) =
      ((fst event_demo2, snd event_demo2), snd (rt_event_send 7 6 event_demo))" by (simp add: event_demo2_def)
  from rt_event_send_delivers [OF d f(1) _ this] f show ?thesis by (auto simp: got_def)
qed

end
