(* ===== verification/Fifo.thy ===== *)
theory Fifo
  imports Prelude
begin

section \<open>The contract of a bounded first-in first-out store\<close>

text \<open>
  Mailboxes, message queues and ring buffers pass data from producers to consumers. What their
  users rely on is one contract: with the invariant, putting appends while there is room, getting
  removes the oldest element while there is one, and neither happens otherwise (\<open>adm\<close> tells
  which elements the store takes at all). Under it, any
  interleaving of the two delivers what was accepted, in order, with nothing lost or repeated.
\<close>

datatype 'a fop = Put 'a | Get

text \<open>
  A run: \<open>put\<close> and \<open>get\<close> are the operations of the store (\<open>None\<close> when they are refused); the
  results are the elements accepted, those delivered, and the final store.
\<close>

fun fifo_run :: "('a \<Rightarrow> 'q \<Rightarrow> 'q option) \<Rightarrow> ('q \<Rightarrow> ('a \<times> 'q) option) \<Rightarrow> 'a fop list \<Rightarrow> 'q \<Rightarrow> 'a list \<times> 'a list \<times> 'q" where
  "fifo_run put get [] q = ([], [], q)"
| "fifo_run put get (Put x # ops) q =
     (case put x q of
        None \<Rightarrow> fifo_run put get ops q
      | Some q' \<Rightarrow> (case fifo_run put get ops q' of (a, d, r) \<Rightarrow> (x # a, d, r)))"
| "fifo_run put get (Get # ops) q =
     (case get q of
        None \<Rightarrow> fifo_run put get ops q
      | Some (x, q') \<Rightarrow> (case fifo_run put get ops q' of (a, d, r) \<Rightarrow> (a, x # d, r)))"

locale bounded_fifo =
  fixes put :: "'a \<Rightarrow> 'q \<Rightarrow> 'q option"
    and get :: "'q \<Rightarrow> ('a \<times> 'q) option"
    and contents :: "'q \<Rightarrow> 'a list"
    and capacity :: "'q \<Rightarrow> nat"
    and adm :: "'q \<Rightarrow> 'a \<Rightarrow> bool"
    and inv :: "'q \<Rightarrow> bool"
  assumes put_full: "inv q \<Longrightarrow> length (contents q) \<ge> capacity q \<or> \<not> adm q x \<Longrightarrow> put x q = None"
    and put_room: "inv q \<Longrightarrow> length (contents q) < capacity q \<Longrightarrow> adm q x \<Longrightarrow>
      \<exists>q'. put x q = Some q' \<and> inv q' \<and> contents q' = contents q @ [x] \<and> capacity q' = capacity q"
    and get_empty: "inv q \<Longrightarrow> contents q = [] \<Longrightarrow> get q = None"
    and get_oldest: "inv q \<Longrightarrow> contents q = x # xs \<Longrightarrow>
      \<exists>q'. get q = Some (x, q') \<and> inv q' \<and> contents q' = xs \<and> capacity q' = capacity q"
    and fits: "inv q \<Longrightarrow> length (contents q) \<le> capacity q"
begin

lemma run_order:
  "inv q \<Longrightarrow> fifo_run put get ops q = (acc, del, q') \<Longrightarrow>
     inv q' \<and> capacity q' = capacity q \<and> contents q @ acc = del @ contents q'"
proof (induction ops arbitrary: q acc del)
  case (Cons op ops)
  show ?case
  proof (cases op)
    case (Put x)
    show ?thesis
    proof (cases "length (contents q) < capacity q \<and> adm q x")
      case True
      then obtain q1 where q1: "put x q = Some q1" "inv q1" "contents q1 = contents q @ [x]" "capacity q1 = capacity q"
        using put_room [OF Cons.prems(1)] by blast
      then obtain a where "fifo_run put get ops q1 = (a, del, q')" "acc = x # a"
        using Cons.prems(2) Put by (auto split: prod.splits)
      then show ?thesis using Cons.IH [OF q1(2)] q1 by auto
    next
      case False
      then have "put x q = None" using put_full [OF Cons.prems(1), of x] by force
      then show ?thesis using Cons.IH [OF Cons.prems(1)] Cons.prems(2) Put by simp
    qed
  next
    case Get
    show ?thesis
    proof (cases "contents q")
      case Nil
      then have "fifo_run put get ops q = (acc, del, q')" using get_empty [OF Cons.prems(1)] Cons.prems(2) Get by simp
      then show ?thesis using Cons.IH [OF Cons.prems(1)] by blast
    next
      case c: (Cons x xs)
      then obtain q1 where q1: "get q = Some (x, q1)" "inv q1" "contents q1 = xs" "capacity q1 = capacity q"
        using get_oldest [OF Cons.prems(1)] by blast
      then obtain d where "fifo_run put get ops q1 = (acc, d, q')" "del = x # d"
        using Cons.prems(2) Get by (auto split: prod.splits)
      then show ?thesis using Cons.IH [OF q1(2)] q1 c by auto
    qed
  qed
qed simp

text \<open>A store that starts empty delivers a prefix of what it accepted; the rest is what it holds, within its capacity.\<close>

lemma run_from_empty:
  assumes "inv q" "contents q = []" "fifo_run put get ops q = (acc, del, q')"
  shows "acc = del @ contents q'" "length acc \<le> length del + capacity q"
  using run_order [OF assms(1,3)] assms(2) fits [of q'] by auto

end

subsection \<open>Indices of a ring\<close>

lemma mod_add_inj:
  assumes "x < n" "y < (n :: nat)" "(o0 + x) mod n = (o0 + y) mod n"
  shows "x = y"
proof -
  have "int x mod int n = int y mod int n"
    using assms(3) by (metis add_diff_cancel_left' mod_diff_left_eq of_nat_add of_nat_mod)
  then show ?thesis using assms(1,2) by (simp add: zmod_int [symmetric])
qed

lemma upt_0_Cons: "0 < n \<Longrightarrow> [0..<n] = 0 # map Suc [0..<n - 1]"
  by (cases n) (simp_all add: upt_conv_Cons map_Suc_upt del: upt_Suc)

end
