(* ===== verification/Rt_Mailbox.thy ===== *)
theory Rt_Mailbox
  imports Rt_Sem Fifo
begin

section \<open>Mailboxes (\<^verbatim>\<open>rt-thread/src/ipc.c\<close>)\<close>

text \<open>
  A mailbox is a ring of 32-bit values with a list of waiting receivers (\<open>Wait i\<close>) and one of
  waiting senders (\<open>WaitSend i\<close>). The ring's counters are 16-bit; the model writes the wrap-around
  of the increments out and the invariant shows that it never happens.
\<close>

subsection \<open>Operations\<close>

record rt_mailbox =
  msg_pool :: "u32 list"
  mb_size :: nat
  mb_entry :: nat
  in_offset :: nat
  out_offset :: nat
  mb_flag :: ipc_flag

definition rt_mb_init :: "nat \<Rightarrow> u32 list \<Rightarrow> nat \<Rightarrow> ipc_flag \<Rightarrow> kern \<Rightarrow> rt_mailbox \<times> kern" where
  "rt_mb_init i pool size0 flag k =
     (\<lparr>msg_pool = pool, mb_size = size0 mod 65536, mb_entry = 0, in_offset = 0, out_offset = 0, mb_flag = flag\<rparr>,
      k\<lparr>queues := (queues k)(Wait i := [], WaitSend i := [])\<rparr>)"

definition rt_mb_detach :: "nat \<Rightarrow> kern \<Rightarrow> kern" where
  "rt_mb_detach i k = rt_ipc_list_resume_all (WaitSend i) (rt_ipc_list_resume_all (Wait i) k)"

definition mb_store :: "u32 \<Rightarrow> rt_mailbox \<Rightarrow> rt_mailbox" where
  "mb_store value mb =
     (let pool = (msg_pool mb)[in_offset mb := value];
          i = (in_offset mb + 1) mod 65536;
          i = (if i \<ge> mb_size mb then 0 else i)
      in mb\<lparr>msg_pool := pool, in_offset := i, mb_entry := (mb_entry mb + 1) mod 65536\<rparr>)"

definition mb_fetch :: "rt_mailbox \<Rightarrow> u32 \<times> rt_mailbox" where
  "mb_fetch mb =
     (let value = msg_pool mb ! out_offset mb;
          i = (out_offset mb + 1) mod 65536;
          i = (if i \<ge> mb_size mb then 0 else i)
      in (value, mb\<lparr>out_offset := i, mb_entry := mb_entry mb - 1\<rparr>))"

text \<open>The waiting time that is left when a thread that started waiting at tick \<open>start\<close> looks again.\<close>

definition timeout_left :: "int \<Rightarrow> u32 \<Rightarrow> u32 \<Rightarrow> int" where
  "timeout_left timeout start now =
     (if timeout > 0 then max 0 (sint (word_of_int timeout - (now - start) :: u32)) else timeout)"

text \<open>
  One pass of the loop of \<open>rt_mb_send_wait\<close>: the check for room, and either the transfer or the
  wait. \<open>rt_mb_send_resume\<close> is what follows when the sender runs again: it returns the error set
  by whoever resumed it, or takes another pass with the time that is left.
\<close>

definition rt_mb_send_wait :: "nat \<Rightarrow> tid \<Rightarrow> u32 \<Rightarrow> int \<Rightarrow> rt_mailbox \<times> kern \<Rightarrow> (rt_mailbox \<times> kern) \<times> outcome" where
  "rt_mb_send_wait i t value timeout = (\<lambda>(mb, k).
     if mb_entry mb = mb_size mb
     then (if timeout = 0 then ((mb, k), Ret RT_EFULL)
           else ((mb, ipc_wait (WaitSend i) t (mb_flag mb) timeout (set_error t RT_EOK k)), Blocked))
     else let mb = mb_store value mb
          in if queues k (Wait i) \<noteq> []
             then ((mb, rt_schedule (rt_ipc_list_resume (Wait i) k)), Ret RT_EOK)
             else ((mb, k), Ret RT_EOK))"

definition rt_mb_send_resume ::
  "nat \<Rightarrow> tid \<Rightarrow> u32 \<Rightarrow> int \<Rightarrow> u32 \<Rightarrow> rt_mailbox \<times> kern \<Rightarrow> (rt_mailbox \<times> kern) \<times> outcome" where
  "rt_mb_send_resume i t value timeout start = (\<lambda>(mb, k).
     if th_error (threads k t) \<noteq> RT_EOK then ((mb, k), Ret (th_error (threads k t)))
     else let left = timeout_left timeout start (rt_tick k);
              k = (if mb_entry mb = mb_size mb then set_error t RT_EOK k else k)
          in rt_mb_send_wait i t value left (mb, k))"

definition rt_mb_send :: "nat \<Rightarrow> tid \<Rightarrow> u32 \<Rightarrow> rt_mailbox \<times> kern \<Rightarrow> (rt_mailbox \<times> kern) \<times> outcome" where
  "rt_mb_send i t value = rt_mb_send_wait i t value 0"

definition rt_mb_recv :: "nat \<Rightarrow> tid \<Rightarrow> int \<Rightarrow> rt_mailbox \<times> kern \<Rightarrow> (rt_mailbox \<times> kern) \<times> outcome \<times> u32 option" where
  "rt_mb_recv i t timeout = (\<lambda>(mb, k).
     if mb_entry mb = 0
     then (if timeout = 0 then ((mb, k), Ret RT_ETIMEOUT, None)
           else ((mb, ipc_wait (Wait i) t (mb_flag mb) timeout (set_error t RT_EOK k)), Blocked, None))
     else case mb_fetch mb of (value, mb) \<Rightarrow>
            if queues k (WaitSend i) \<noteq> []
            then ((mb, rt_schedule (rt_ipc_list_resume (WaitSend i) k)), Ret RT_EOK, Some value)
            else ((mb, k), Ret RT_EOK, Some value))"

definition rt_mb_recv_resume ::
  "nat \<Rightarrow> tid \<Rightarrow> int \<Rightarrow> u32 \<Rightarrow> rt_mailbox \<times> kern \<Rightarrow> (rt_mailbox \<times> kern) \<times> outcome \<times> u32 option" where
  "rt_mb_recv_resume i t timeout start = (\<lambda>(mb, k).
     if th_error (threads k t) \<noteq> RT_EOK then ((mb, k), Ret (th_error (threads k t)), None)
     else let left = timeout_left timeout start (rt_tick k)
          in if mb_entry mb = 0 \<and> left = 0 then ((mb, set_error t RT_ETIMEOUT k), Ret RT_ETIMEOUT, None)
             else rt_mb_recv i t left (mb, k))"

definition rt_mb_control_reset :: "nat \<Rightarrow> rt_mailbox \<times> kern \<Rightarrow> rt_mailbox \<times> kern" where
  "rt_mb_control_reset i = (\<lambda>(mb, k).
     (mb\<lparr>mb_entry := 0, in_offset := 0, out_offset := 0\<rparr>,
      rt_schedule (rt_ipc_list_resume_all (WaitSend i) (rt_ipc_list_resume_all (Wait i) k))))"

subsection \<open>The ring\<close>

definition ring_inv :: "rt_mailbox \<Rightarrow> bool" where
  "ring_inv mb \<longleftrightarrow> mb_size mb < 65536 \<and> length (msg_pool mb) = mb_size mb \<and> mb_entry mb \<le> mb_size mb \<and>
     (mb_size mb > 0 \<longrightarrow> out_offset mb < mb_size mb \<and> in_offset mb = (out_offset mb + mb_entry mb) mod mb_size mb)"

definition mails :: "rt_mailbox \<Rightarrow> u32 list" where
  "mails mb = map (\<lambda>j. msg_pool mb ! ((out_offset mb + j) mod mb_size mb)) [0..<mb_entry mb]"

text \<open>The ring as a store that refuses.\<close>

definition mb_put :: "u32 \<Rightarrow> rt_mailbox \<Rightarrow> rt_mailbox option" where
  "mb_put v mb = (if mb_entry mb = mb_size mb then None else Some (mb_store v mb))"

definition mb_get :: "rt_mailbox \<Rightarrow> (u32 \<times> rt_mailbox) option" where
  "mb_get mb = (if mb_entry mb = 0 then None else Some (mb_fetch mb))"

lemma succ_mod: "x < n \<Longrightarrow> n < 65536 \<Longrightarrow> (if (x + 1) mod 65536 \<ge> n then 0 else (x + 1) mod 65536) = (x + 1) mod (n :: nat)"
  by (cases "x + 1 = n") auto

lemma mb_store_ring:
  assumes "ring_inv mb" "mb_entry mb < mb_size mb"
  shows "ring_inv (mb_store v mb)" "mails (mb_store v mb) = mails mb @ [v]" "mb_size (mb_store v mb) = mb_size mb"
proof -
  from assms have b: "mb_size mb < 65536" "length (msg_pool mb) = mb_size mb" "out_offset mb < mb_size mb"
    and i: "in_offset mb = (out_offset mb + mb_entry mb) mod mb_size mb" by (auto simp: ring_inv_def)
  have il: "in_offset mb < mb_size mb" using assms(2) i by simp
  have e: "mb_store v mb = mb\<lparr>msg_pool := (msg_pool mb)[in_offset mb := v],
      in_offset := (in_offset mb + 1) mod mb_size mb, mb_entry := mb_entry mb + 1\<rparr>"
    unfolding mb_store_def Let_def succ_mod [OF il b(1)] using b(1) assms(2) by simp
  show "mb_size (mb_store v mb) = mb_size mb" by (simp add: e)
  show "ring_inv (mb_store v mb)" using assms b i by (auto simp: ring_inv_def e mod_Suc_eq)
  have "(msg_pool mb)[in_offset mb := v] ! ((out_offset mb + j) mod mb_size mb) =
      (if j = mb_entry mb then v else msg_pool mb ! ((out_offset mb + j) mod mb_size mb))" if "j \<le> mb_entry mb" for j
    using mod_add_inj [of j "mb_size mb" "mb_entry mb" "out_offset mb"] that assms(2) i il b(2)
    by (auto simp: nth_list_update)
  then show "mails (mb_store v mb) = mails mb @ [v]" by (simp add: mails_def e)
qed

lemma mb_fetch_ring:
  assumes "ring_inv mb" "mb_entry mb > 0"
  obtains mb' where "mb_fetch mb = (hd (mails mb), mb')" "ring_inv mb'" "mails mb' = tl (mails mb)"
    "mb_size mb' = mb_size mb" "mb_entry mb' = mb_entry mb - 1"
proof -
  from assms have b: "mb_size mb < 65536" "length (msg_pool mb) = mb_size mb" "out_offset mb < mb_size mb"
      "mb_entry mb \<le> mb_size mb"
    and i: "in_offset mb = (out_offset mb + mb_entry mb) mod mb_size mb" by (auto simp: ring_inv_def)
  define mb' where "mb' = mb\<lparr>out_offset := (out_offset mb + 1) mod mb_size mb, mb_entry := mb_entry mb - 1\<rparr>"
  have m: "mails mb = msg_pool mb ! out_offset mb # map (\<lambda>j. msg_pool mb ! ((out_offset mb + Suc j) mod mb_size mb)) [0..<mb_entry mb - 1]"
    using assms(2) b(3) by (simp add: mails_def upt_0_Cons comp_def)
  have "mb_fetch mb = (hd (mails mb), mb')"
    unfolding mb_fetch_def Let_def succ_mod [OF b(3,1)] by (simp add: mb'_def m)
  moreover have "ring_inv mb'"
  proof -
    obtain n where n: "mb_entry mb = Suc n" using assms(2) gr0_conv_Suc by auto
    have "in_offset mb = (Suc (out_offset mb) mod mb_size mb + n) mod mb_size mb"
      unfolding i n by (simp add: mod_add_left_eq)
    then show ?thesis using b by (auto simp: ring_inv_def mb'_def n)
  qed
  moreover have "mails mb' = tl (mails mb)" unfolding m by (simp add: mails_def mb'_def mod_add_left_eq)
  ultimately show ?thesis using that by (simp add: mb'_def)
qed

lemma length_mails [simp]: "length (mails mb) = mb_entry mb"
  by (simp add: mails_def)

interpretation mbox: bounded_fifo mb_put mb_get mails mb_size "\<lambda>_ _. True" ring_inv
proof
  fix q :: rt_mailbox and x assume q: "ring_inv q"
  show "length (mails q) \<ge> mb_size q \<or> \<not> True \<Longrightarrow> mb_put x q = None" using q by (simp add: mb_put_def ring_inv_def)
  show "length (mails q) \<le> mb_size q" using q by (simp add: ring_inv_def)
  show "mails q = [] \<Longrightarrow> mb_get q = None" using length_mails [of q] by (simp add: mb_get_def del: length_mails)
  show "\<exists>q'. mb_put x q = Some q' \<and> ring_inv q' \<and> mails q' = mails q @ [x] \<and> mb_size q' = mb_size q"
    if "length (mails q) < mb_size q"
    using mb_store_ring [OF q, of x] that by (simp add: mb_put_def)
next
  fix q :: rt_mailbox and x xs assume q: "ring_inv q" and c: "mails q = x # xs"
  then have "mb_entry q > 0" using length_mails [of q] by simp
  then obtain q' where "mb_fetch q = (hd (mails q), q')" "ring_inv q'" "mails q' = tl (mails q)" "mb_size q' = mb_size q"
    using mb_fetch_ring [OF q] by metis
  then show "\<exists>q'. mb_get q = Some (x, q') \<and> ring_inv q' \<and> mails q' = xs \<and> mb_size q' = mb_size q"
    using c \<open>mb_entry q > 0\<close> by (simp add: mb_get_def)
qed


subsection \<open>Sending and receiving\<close>

definition mb_inv :: "rt_mailbox \<times> kern \<Rightarrow> bool" where
  "mb_inv = (\<lambda>(mb, k). kinv k \<and> ring_inv mb)"

lemma kinv_wake: "kinv k \<Longrightarrow> waiting l \<Longrightarrow> queues k l \<noteq> [] \<Longrightarrow> kinv (rt_schedule (rt_ipc_list_resume l k))"
  using list_resume_sel(1) kinv_rt_schedule by (metis neq_Nil_conv)

lemma kinv_ipc_wait_err:
  "kinv k \<Longrightarrow> runs t k \<Longrightarrow> waiting l \<Longrightarrow> kinv (ipc_wait l t flag time (set_error t e k))"
  by (rule kinv_ipc_wait) (simp_all add: set_error_prio)

lemma mb_send_cases:
  assumes "mb_inv (mb, k)" "runs t k" "rt_mb_send_wait i t v time (mb, k) = ((mb', k'), out)"
  shows "mb_inv (mb', k')" "mb_size mb' = mb_size mb"
    and "mb_entry mb < mb_size mb \<Longrightarrow> out = Ret RT_EOK \<and> mails mb' = mails mb @ [v]"
    and "mb_entry mb = mb_size mb \<Longrightarrow> mb' = mb \<and> out = (if time = 0 then Ret RT_EFULL else Blocked)"
    and "out = Ret RT_EOK \<longleftrightarrow> mb_entry mb < mb_size mb"
proof -
  have k: "kinv k" "ring_inv mb" "mb_entry mb \<le> mb_size mb" using assms(1) by (auto simp: mb_inv_def ring_inv_def)
  have room: "mb_entry mb < mb_size mb" if "mb_entry mb \<noteq> mb_size mb" using k(3) that by simp
  show "mb_inv (mb', k')" "mb_size mb' = mb_size mb"
    using assms(2,3) k room mb_store_ring(1,3) [OF k(2)] kinv_wake [OF k(1), of "Wait i"]
      kinv_ipc_wait_err [OF k(1) assms(2)]
    by (auto simp: rt_mb_send_wait_def mb_inv_def Let_def split: if_splits)
  show "mb_entry mb < mb_size mb \<Longrightarrow> out = Ret RT_EOK \<and> mails mb' = mails mb @ [v]"
    "mb_entry mb = mb_size mb \<Longrightarrow> mb' = mb \<and> out = (if time = 0 then Ret RT_EFULL else Blocked)"
    "out = Ret RT_EOK \<longleftrightarrow> mb_entry mb < mb_size mb"
    using assms(3) k(3) mb_store_ring(2) [OF k(2)]
    by (auto simp: rt_mb_send_wait_def Let_def split: if_splits)
qed

lemma mb_recv_cases:
  assumes "mb_inv (mb, k)" "runs t k" "rt_mb_recv i t time (mb, k) = ((mb', k'), out, v)"
  shows "mb_inv (mb', k')" "mb_size mb' = mb_size mb"
    and "mails mb = x # xs \<Longrightarrow> out = Ret RT_EOK \<and> v = Some x \<and> mails mb' = xs"
    and "mails mb = [] \<Longrightarrow> mb' = mb \<and> v = None \<and> out = (if time = 0 then Ret RT_ETIMEOUT else Blocked)"
proof -
  have k: "kinv k" "ring_inv mb" using assms(1) by (auto simp: mb_inv_def)
  have "mb_inv (mb', k') \<and> mb_size mb' = mb_size mb \<and>
     (mails mb = x # xs \<longrightarrow> out = Ret RT_EOK \<and> v = Some x \<and> mails mb' = xs) \<and>
     (mails mb = [] \<longrightarrow> mb' = mb \<and> v = None \<and> out = (if time = 0 then Ret RT_ETIMEOUT else Blocked))"
  proof (cases "mb_entry mb")
    case 0
    then have "mails mb = []" by (simp add: mails_def)
    then show ?thesis using assms 0 k kinv_ipc_wait_err [OF k(1) assms(2)]
      by (auto simp: rt_mb_recv_def mb_inv_def split: if_splits)
  next
    case (Suc n)
    then have "mb_entry mb > 0" by simp
    from mb_fetch_ring [OF k(2) this] obtain m1 where m1: "mb_fetch mb = (hd (mails mb), m1)" "ring_inv m1"
      "mails m1 = tl (mails mb)" "mb_size m1 = mb_size mb" by metis
    have "mails mb \<noteq> []" using length_mails [of mb] Suc by (metis length_0_conv nat.distinct(1))
    then show ?thesis using assms(3) Suc m1 k(1) kinv_wake [OF k(1), of "WaitSend i"]
      by (auto simp: rt_mb_recv_def mb_inv_def split: if_splits)
  qed
  then show "mb_inv (mb', k')" "mb_size mb' = mb_size mb"
    "mails mb = x # xs \<Longrightarrow> out = Ret RT_EOK \<and> v = Some x \<and> mails mb' = xs"
    "mails mb = [] \<Longrightarrow> mb' = mb \<and> v = None \<and> out = (if time = 0 then Ret RT_ETIMEOUT else Blocked)" by auto
qed

subsection \<open>Many senders and receivers\<close>

text \<open>The ghost lists record the values whose send succeeded and the values received.\<close>

record mb_sys =
  ms :: "rt_mailbox \<times> kern"
  sent :: "u32 list"
  received :: "u32 list"

inductive mb_step :: "nat \<Rightarrow> mb_sys \<Rightarrow> mb_sys \<Rightarrow> bool" for i where
  send: "runs t (snd (ms s)) \<Longrightarrow> rt_mb_send_wait i t v time (ms s) = (mk, out) \<Longrightarrow>
    mb_step i s (s\<lparr>ms := mk, sent := sent s @ (if out = Ret RT_EOK then [v] else [])\<rparr>)"
| recv: "runs t (snd (ms s)) \<Longrightarrow> rt_mb_recv i t time (ms s) = (mk, out, v) \<Longrightarrow>
    mb_step i s (s\<lparr>ms := mk, received := received s @ (case v of None \<Rightarrow> [] | Some x \<Rightarrow> [x])\<rparr>)"
| env: "kinv k' \<Longrightarrow> mb_step i s (s\<lparr>ms := (fst (ms s), k')\<rparr>)"

inductive mb_reach :: "nat \<Rightarrow> mb_sys \<Rightarrow> mb_sys \<Rightarrow> bool" for i s0 where
  start: "mb_reach i s0 s0"
| step: "mb_reach i s0 s \<Longrightarrow> mb_step i s s' \<Longrightarrow> mb_reach i s0 s'"

definition mb_account :: "nat \<Rightarrow> mb_sys \<Rightarrow> bool" where
  "mb_account n s \<longleftrightarrow> mb_inv (ms s) \<and> mb_size (fst (ms s)) = n \<and> sent s = received s @ mails (fst (ms s))"

lemma mb_account_step:
  assumes "mb_account n s" "mb_step i s s'"
  shows "mb_account n s'"
  using assms(2)
proof (cases rule: mb_step.cases)
  case (send t v time mk out)
  obtain mb k mb' k' where mk: "ms s = (mb, k)" "mk = (mb', k')" by fastforce
  note c = mb_send_cases [of mb k t i v time mb' k' out]
  have le: "mb_entry mb \<le> mb_size mb" using assms(1) mk(1) by (auto simp: mb_account_def mb_inv_def ring_inv_def)
  show ?thesis using assms(1) send mk c le by (cases "mb_entry mb = mb_size mb") (auto simp: mb_account_def)
next
  case (recv t time mk out v)
  obtain mb k mb' k' where mk: "ms s = (mb, k)" "mk = (mb', k')" by fastforce
  show ?thesis using assms(1) recv mk mb_recv_cases [of mb k t i time mb' k' out v]
    by (cases "mails mb") (auto simp: mb_account_def)
next
  case (env k')
  then show ?thesis using assms(1) by (cases "ms s") (auto simp: mb_account_def mb_inv_def)
qed

lemma mb_reach_account: "mb_reach i s0 s \<Longrightarrow> mb_account n s0 \<Longrightarrow> mb_account n s"
  by (induction rule: mb_reach.induct) (auto intro: mb_account_step)

text \<open>
  C11. A mailbox delivers exactly the values whose sending succeeded, in the order in which they
  were sent, however many threads send and receive: what has been sent is what has been received
  followed by what the ring holds, which never exceeds the mailbox size; the ring's offsets stay
  inside the pool.
\<close>

theorem rt_mb_fifo:
  assumes "mb_reach i s0 s" "ms s0 = rt_mb_init i pool n flag k0" "sent s0 = []" "received s0 = []"
    "kinv k0" "queues k0 (Wait i) = []" "queues k0 (WaitSend i) = []" "length pool = n" "n < 65536"
  shows "sent s = received s @ mails (fst (ms s)) \<and> length (mails (fst (ms s))) \<le> n \<and>
    kinv (snd (ms s)) \<and> ring_inv (fst (ms s)) \<and>
    (0 < n \<longrightarrow> in_offset (fst (ms s)) < n \<and> out_offset (fst (ms s)) < n)"
proof -
  have "(queues k0)(Wait i := [], WaitSend i := []) = queues k0" using assms(6,7) by auto
  then have "mb_account n s0" using assms(2-5,8,9)
    by (auto simp: mb_account_def mb_inv_def rt_mb_init_def ring_inv_def mails_def)
  then have "mb_account n s" using mb_reach_account [OF assms(1)] by blast
  then show ?thesis by (auto simp: mb_account_def mb_inv_def ring_inv_def split: prod.splits)
qed

definition mb_demo0 :: mb_sys where
  "mb_demo0 = \<lparr>ms = rt_mb_init 7 [0, 0] 2 RT_IPC_FLAG_FIFO two_kern, sent = [], received = []\<rparr>"

definition mb_demo :: mb_sys where
  "mb_demo = mb_demo0\<lparr>ms := fst (rt_mb_send_wait 7 1 42 0 (ms mb_demo0)), sent := [42]\<rparr>"

theorem rt_mb_fifo_witness:
  "mb_reach 7 mb_demo0 mb_demo \<and> sent mb_demo = received mb_demo @ mails (fst (ms mb_demo)) \<and> kinv (snd (ms mb_demo))"
proof -
  have q: "queues two_kern (Wait 7) = []" "queues two_kern (WaitSend 7) = []" by code_simp+
  have "mb_step 7 mb_demo0 (mb_demo0\<lparr>ms := fst (rt_mb_send_wait 7 1 42 0 (ms mb_demo0)),
      sent := sent mb_demo0 @ (if Ret RT_EOK = Ret RT_EOK then [42] else [])\<rparr>)"
    using two_kern_runs q by (intro mb_step.send [where t = 1 and time = 0])
      (simp_all add: mb_demo0_def rt_mb_send_wait_def rt_mb_init_def Let_def)
  then have r: "mb_reach 7 mb_demo0 mb_demo"
    by (intro mb_reach.step [OF mb_reach.start]) (simp add: mb_demo_def mb_demo0_def)
  show ?thesis using rt_mb_fifo [OF r, of "[0, 0]" 2 RT_IPC_FLAG_FIFO two_kern] r q kinv_two_kern
    by (simp add: mb_demo0_def)
qed

end
