(* ===== verification/Rt_Mq.thy ===== *)
theory Rt_Mq
  imports Rt_Mailbox "HOL-Library.Multiset"
begin

section \<open>Message queues (\<^verbatim>\<open>rt-thread/src/ipc.c\<close>)\<close>

text \<open>
  The pool of a message queue is cut into blocks, each a link and a body. The blocks that hold
  messages form a linked list from \<open>msg_queue_head\<close> to \<open>msg_queue_tail\<close>, the others one from
  \<open>msg_queue_free\<close>. Blocks are named by their number in the pool; a null pointer is \<open>None\<close>.
  The copies are made with interrupts enabled, so a block may be in neither list: each
  operation is built from the steps that are atomic in the source, and the invariant speaks of
  the blocks in flight.
\<close>

subsection \<open>Data and initialisation\<close>

record rt_messagequeue =
  msg_size :: nat
  max_msgs :: nat
  mq_entry :: nat
  msg_queue_head :: "nat option"
  msg_queue_tail :: "nat option"
  msg_queue_free :: "nat option"
  msg_next :: "nat \<Rightarrow> nat option"
  msg_body :: "nat \<Rightarrow> u8 list"
  mq_flag :: ipc_flag

text \<open>\<^verbatim>\<open>RT_ALIGN(size, RT_ALIGN_SIZE)\<close> with an alignment of 8, and \<^verbatim>\<open>sizeof(struct rt_mq_message)\<close>.\<close>

definition RT_ALIGN8 :: "nat \<Rightarrow> nat" where
  "RT_ALIGN8 n = (n + 7) div 8 * 8"

abbreviation MQ_HEAD :: nat where "MQ_HEAD \<equiv> 4"

definition mq_free_step :: "nat \<Rightarrow> rt_messagequeue \<Rightarrow> rt_messagequeue" where
  "mq_free_step m mq = mq\<lparr>msg_next := (msg_next mq)(m := msg_queue_free mq), msg_queue_free := Some m\<rparr>"

definition rt_mq_init ::
  "nat \<Rightarrow> nat \<Rightarrow> nat \<Rightarrow> ipc_flag \<Rightarrow> kern \<Rightarrow> rt_messagequeue \<times> kern" where
  "rt_mq_init i size0 pool_size flag k =
     (let ms = RT_ALIGN8 size0 mod 65536;
          mm = pool_size div (ms + MQ_HEAD) mod 65536;
          mq = \<lparr>msg_size = ms, max_msgs = mm, mq_entry = 0, msg_queue_head = None, msg_queue_tail = None,
                msg_queue_free = None, msg_next = (\<lambda>_. None), msg_body = (\<lambda>_. replicate ms 0), mq_flag = flag\<rparr>
      in (fold mq_free_step [0..<mm] mq, k\<lparr>queues := (queues k)(Wait i := [], WaitSend i := [])\<rparr>))"

subsection \<open>Atomic steps\<close>

definition mq_alloc :: "rt_messagequeue \<Rightarrow> (nat \<times> rt_messagequeue) option" where
  "mq_alloc mq =
     (case msg_queue_free mq of None \<Rightarrow> None
      | Some m \<Rightarrow> Some (m, mq\<lparr>msg_queue_free := msg_next mq m\<rparr>))"

definition mq_fill :: "nat \<Rightarrow> u8 list \<Rightarrow> rt_messagequeue \<Rightarrow> rt_messagequeue" where
  "mq_fill m buf mq =
     mq\<lparr>msg_body := (msg_body mq)(m := buf @ drop (length buf) (msg_body mq m))\<rparr>"

definition mq_link_tail :: "nat \<Rightarrow> rt_messagequeue \<Rightarrow> rt_messagequeue" where
  "mq_link_tail m mq =
     (let nx = (case msg_queue_tail mq of None \<Rightarrow> msg_next mq | Some tl0 \<Rightarrow> (msg_next mq)(tl0 := Some m));
          hd0 = (if msg_queue_head mq = None then Some m else msg_queue_head mq)
      in mq\<lparr>msg_next := nx, msg_queue_tail := Some m, msg_queue_head := hd0, mq_entry := (mq_entry mq + 1) mod 65536\<rparr>)"

definition mq_link_head :: "nat \<Rightarrow> rt_messagequeue \<Rightarrow> rt_messagequeue" where
  "mq_link_head m mq =
     (let tl0 = (if msg_queue_tail mq = None then Some m else msg_queue_tail mq)
      in mq\<lparr>msg_next := (msg_next mq)(m := msg_queue_head mq), msg_queue_head := Some m, msg_queue_tail := tl0,
            mq_entry := (mq_entry mq + 1) mod 65536\<rparr>)"

definition mq_unlink :: "nat \<Rightarrow> rt_messagequeue \<Rightarrow> rt_messagequeue" where
  "mq_unlink m mq =
     mq\<lparr>msg_queue_head := msg_next mq m,
        msg_queue_tail := (if msg_queue_tail mq = Some m then None else msg_queue_tail mq),
        mq_entry := mq_entry mq - 1\<rparr>"

subsection \<open>Operations\<close>

text \<open>Resume the first thread waiting on \<open>l\<close>, if any, and let the scheduler choose.\<close>

definition wake_one :: "lid \<Rightarrow> kern \<Rightarrow> kern" where
  "wake_one l k = (if queues k l \<noteq> [] then rt_schedule (rt_ipc_list_resume l k) else k)"

text \<open>
  As for mailboxes, one definition is a pass up to the context switch, and another what follows
  when the thread runs again. \<open>buf\<close> is the caller's buffer, whose length is the size argument.
\<close>

definition rt_mq_send_wait ::
  "nat \<Rightarrow> tid \<Rightarrow> u8 list \<Rightarrow> int \<Rightarrow> rt_messagequeue \<times> kern \<Rightarrow> (rt_messagequeue \<times> kern) \<times> outcome" where
  "rt_mq_send_wait i t buf timeout = (\<lambda>(mq, k).
     if buf = [] then ((mq, k\<lparr>halted := True\<rparr>), Blocked)
     else if length buf > msg_size mq then ((mq, k), Ret RT_ERROR)
     else case mq_alloc mq of
            None \<Rightarrow>
              (if timeout = 0 then ((mq, k), Ret RT_EFULL)
               else ((mq, ipc_wait (WaitSend i) t (mq_flag mq) timeout (set_error t RT_EOK k)), Blocked))
          | Some (m, mq1) \<Rightarrow>
              let mq2 = mq_fill m buf (mq1\<lparr>msg_next := (msg_next mq1)(m := None)\<rparr>)
              in ((mq_link_tail m mq2, wake_one (Wait i) k), Ret RT_EOK))"

definition rt_mq_send_resume ::
  "nat \<Rightarrow> tid \<Rightarrow> u8 list \<Rightarrow> int \<Rightarrow> u32 \<Rightarrow> rt_messagequeue \<times> kern \<Rightarrow> (rt_messagequeue \<times> kern) \<times> outcome" where
  "rt_mq_send_resume i t buf timeout start = (\<lambda>(mq, k).
     if th_error (threads k t) \<noteq> RT_EOK then ((mq, k), Ret (th_error (threads k t)))
     else rt_mq_send_wait i t buf (timeout_left timeout start (rt_tick k)) (mq, k))"

definition rt_mq_send :: "nat \<Rightarrow> tid \<Rightarrow> u8 list \<Rightarrow> rt_messagequeue \<times> kern \<Rightarrow> (rt_messagequeue \<times> kern) \<times> outcome" where
  "rt_mq_send i t buf = rt_mq_send_wait i t buf 0"

definition rt_mq_urgent ::
  "nat \<Rightarrow> u8 list \<Rightarrow> rt_messagequeue \<times> kern \<Rightarrow> (rt_messagequeue \<times> kern) \<times> outcome" where
  "rt_mq_urgent i buf = (\<lambda>(mq, k).
     if buf = [] then ((mq, k\<lparr>halted := True\<rparr>), Blocked)
     else if length buf > msg_size mq then ((mq, k), Ret RT_ERROR)
     else case mq_alloc mq of
            None \<Rightarrow> ((mq, k), Ret RT_EFULL)
          | Some (m, mq1) \<Rightarrow> ((mq_link_head m (mq_fill m buf mq1), wake_one (Wait i) k), Ret RT_EOK))"

text \<open>The third result is what the caller's buffer of \<open>size0\<close> bytes receives; a null head is dereferenced only if \<open>entry\<close> lies.\<close>

definition rt_mq_recv ::
  "nat \<Rightarrow> tid \<Rightarrow> nat \<Rightarrow> int \<Rightarrow> rt_messagequeue \<times> kern \<Rightarrow> (rt_messagequeue \<times> kern) \<times> outcome \<times> u8 list" where
  "rt_mq_recv i t size0 timeout = (\<lambda>(mq, k).
     if size0 = 0 then ((mq, k\<lparr>halted := True\<rparr>), Blocked, [])
     else if mq_entry mq = 0
     then (if timeout = 0 then ((mq, k), Ret RT_ETIMEOUT, [])
           else ((mq, ipc_wait (Wait i) t (mq_flag mq) timeout (set_error t RT_EOK k)), Blocked, []))
     else case msg_queue_head mq of
            None \<Rightarrow> ((mq, k\<lparr>halted := True\<rparr>), Blocked, [])
          | Some m \<Rightarrow>
              let mq1 = mq_unlink m mq;
                  out = take (if size0 > msg_size mq then msg_size mq else size0) (msg_body mq1 m);
                  mq2 = mq_free_step m mq1
              in ((mq2, wake_one (WaitSend i) k), Ret RT_EOK, out))"

definition rt_mq_recv_resume ::
  "nat \<Rightarrow> tid \<Rightarrow> nat \<Rightarrow> int \<Rightarrow> u32 \<Rightarrow> rt_messagequeue \<times> kern \<Rightarrow> (rt_messagequeue \<times> kern) \<times> outcome \<times> u8 list" where
  "rt_mq_recv_resume i t size0 timeout start = (\<lambda>(mq, k).
     if th_error (threads k t) \<noteq> RT_EOK then ((mq, k), Ret (th_error (threads k t)), [])
     else let left = timeout_left timeout start (rt_tick k)
          in if mq_entry mq = 0 \<and> left = 0 then ((mq, set_error t RT_ETIMEOUT k), Ret RT_ETIMEOUT, [])
             else rt_mq_recv i t size0 left (mq, k))"

text \<open>The loop of the reset command returns every queued block to the free list; \<open>n\<close> bounds its passes.\<close>

fun mq_drain :: "nat \<Rightarrow> rt_messagequeue \<Rightarrow> rt_messagequeue" where
  "mq_drain 0 mq = mq"
| "mq_drain (Suc n) mq =
     (case msg_queue_head mq of
        None \<Rightarrow> mq
      | Some m \<Rightarrow>
          mq_drain n (mq_free_step m (mq\<lparr>msg_queue_head := msg_next mq m,
            msg_queue_tail := (if msg_queue_tail mq = Some m then None else msg_queue_tail mq)\<rparr>)))"

definition rt_mq_control_reset :: "nat \<Rightarrow> rt_messagequeue \<times> kern \<Rightarrow> rt_messagequeue \<times> kern" where
  "rt_mq_control_reset i = (\<lambda>(mq, k).
     ((mq_drain (max_msgs mq) mq)\<lparr>mq_entry := 0\<rparr>,
      rt_schedule (rt_ipc_list_resume_all (WaitSend i) (rt_ipc_list_resume_all (Wait i) k))))"

definition rt_mq_detach :: "nat \<Rightarrow> kern \<Rightarrow> kern" where
  "rt_mq_detach i k = rt_ipc_list_resume_all (WaitSend i) (rt_ipc_list_resume_all (Wait i) k)"

subsection \<open>Linked lists\<close>

fun chain :: "(nat \<Rightarrow> nat option) \<Rightarrow> nat option \<Rightarrow> nat list \<Rightarrow> bool" where
  "chain nx p [] \<longleftrightarrow> p = None"
| "chain nx p (x # xs) \<longleftrightarrow> p = Some x \<and> chain nx (nx x) xs"

lemma chain_upd [simp]: "m \<notin> set xs \<Longrightarrow> chain (nx(m := v)) p xs = chain nx p xs"
  by (induction xs arbitrary: p) auto

lemma chain_snoc:
  "chain nx p (xs @ [y]) \<Longrightarrow> distinct (xs @ [y, m]) \<Longrightarrow> nx m = None \<Longrightarrow> chain (nx(y := Some m)) p (xs @ [y, m])"
  by (induction xs arbitrary: p) auto

text \<open>Every block is in exactly one place: free, queued, or in flight.\<close>

definition blocks_ok :: "nat \<Rightarrow> nat list \<Rightarrow> nat list \<Rightarrow> nat list \<Rightarrow> bool" where
  "blocks_ok n fs qs fl \<longleftrightarrow> mset fs + mset qs + mset fl = mset [0..<n]"

lemma blocks_okD:
  assumes "blocks_ok n fs qs fl"
  shows "distinct (fs @ qs @ fl)" "set (fs @ qs @ fl) = {..<n}" "length fs + length qs + length fl = n"
proof -
  have e: "mset (fs @ qs @ fl) = mset [0..<n]" using assms by (simp only: blocks_ok_def mset_append add.assoc)
  show "distinct (fs @ qs @ fl)" using mset_eq_imp_distinct_iff [OF e] by simp
  show "set (fs @ qs @ fl) = {..<n}" using mset_eq_setD [OF e] by (simp only: set_upt atLeast0LessThan)
  show "length fs + length qs + length fl = n" using mset_eq_length [OF e] by simp
qed

lemma blocks_ok_in_flight:
  assumes "blocks_ok n fs qs fl" "m \<in> set fl"
  shows "m \<notin> set fs" "m \<notin> set qs" "m < n" "length qs < n"
  using blocks_okD [OF assms(1)] assms(2) by (auto simp: neq_Nil_conv) (cases fl; auto)

lemma blocks_ok_move:
  "blocks_ok n (m # fs) qs fl \<Longrightarrow> blocks_ok n fs qs (m # fl)"
  "blocks_ok n fs (m # qs) fl \<Longrightarrow> blocks_ok n fs qs (m # fl)"
  "m \<in> set fl \<Longrightarrow> blocks_ok n fs qs fl \<Longrightarrow> blocks_ok n (m # fs) qs (remove1 m fl)"
  "m \<in> set fl \<Longrightarrow> blocks_ok n fs qs fl \<Longrightarrow> blocks_ok n fs (m # qs) (remove1 m fl)"
  "m \<in> set fl \<Longrightarrow> blocks_ok n fs qs fl \<Longrightarrow> blocks_ok n fs (qs @ [m]) (remove1 m fl)"
proof -
  have r: "add_mset m (mset (remove1 m fl)) = mset fl" if "m \<in> set fl" using that by simp
  show "blocks_ok n (m # fs) qs fl \<Longrightarrow> blocks_ok n fs qs (m # fl)"
    "blocks_ok n fs (m # qs) fl \<Longrightarrow> blocks_ok n fs qs (m # fl)" by (simp_all add: blocks_ok_def)
  assume "m \<in> set fl" "blocks_ok n fs qs fl"
  then have "mset fs + mset qs + add_mset m (mset (remove1 m fl)) = mset [0..<n]"
    unfolding r [OF \<open>m \<in> set fl\<close>] by (simp only: blocks_ok_def)
  then show "blocks_ok n (m # fs) qs (remove1 m fl)" "blocks_ok n fs (m # qs) (remove1 m fl)"
    "blocks_ok n fs (qs @ [m]) (remove1 m fl)"
    by (simp_all only: blocks_ok_def mset.simps mset_append union_mset_add_mset_left union_mset_add_mset_right add_0_right)
qed

definition mq_shape :: "rt_messagequeue \<Rightarrow> nat list \<Rightarrow> nat list \<Rightarrow> nat list \<Rightarrow> bool" where
  "mq_shape mq fs qs fl \<longleftrightarrow>
     chain (msg_next mq) (msg_queue_free mq) fs \<and> chain (msg_next mq) (msg_queue_head mq) qs \<and>
     msg_queue_tail mq = (if qs = [] then None else Some (last qs)) \<and>
     blocks_ok (max_msgs mq) fs qs fl \<and> max_msgs mq < 65536 \<and>
     mq_entry mq = length qs \<and> (\<forall>m < max_msgs mq. length (msg_body mq m) = msg_size mq)"

lemma mq_shape_length: "mq_shape mq fs qs fl \<Longrightarrow> length fs + length qs + length fl = max_msgs mq"
  using blocks_okD(3) by (auto simp: mq_shape_def)

subsection \<open>The steps on the lists\<close>

lemma shape_in_flight:
  assumes "mq_shape mq fs qs fl" "m \<in> set fl"
  shows "m \<notin> set fs" "m \<notin> set qs" "m < max_msgs mq" "Suc (length qs) < 65536"
  using assms blocks_ok_in_flight [of "max_msgs mq" fs qs fl m] by (auto simp: mq_shape_def)

lemma shape_alloc:
  assumes "mq_shape mq fs qs fl" "mq_alloc mq = Some (m, mq')"
  obtains fs' where "fs = m # fs'" "mq_shape mq' fs' qs (m # fl)"
    "msg_body mq' = msg_body mq" "msg_size mq' = msg_size mq" "max_msgs mq' = max_msgs mq" "mq_flag mq' = mq_flag mq"
proof -
  from assms(2) have m: "msg_queue_free mq = Some m" "mq' = mq\<lparr>msg_queue_free := msg_next mq m\<rparr>"
    by (auto simp: mq_alloc_def split: option.splits)
  then obtain fs' where f: "fs = m # fs'" using assms(1) by (cases fs) (auto simp: mq_shape_def)
  have "mq_shape mq' fs' qs (m # fl)"
    using assms(1) m f blocks_ok_move(1) [of "max_msgs mq" m fs' qs fl] by (simp add: mq_shape_def)
  then show ?thesis using m f by (intro that [of fs']) simp_all
qed

lemma shape_alloc_None: "mq_shape mq fs qs fl \<Longrightarrow> mq_alloc mq = None \<longleftrightarrow> fs = []"
  by (cases fs) (auto simp: mq_shape_def mq_alloc_def)

lemma shape_next:
  assumes "mq_shape mq fs qs fl" "m \<in> set fl"
  shows "mq_shape (mq\<lparr>msg_next := (msg_next mq)(m := v)\<rparr>) fs qs fl"
  using assms(1) shape_in_flight(1,2) [OF assms] by (simp add: mq_shape_def)

lemma shape_fill:
  "mq_shape mq fs qs fl \<Longrightarrow> length buf \<le> msg_size mq \<Longrightarrow> mq_shape (mq_fill m buf mq) fs qs fl"
  by (simp add: mq_shape_def mq_fill_def)

lemma shape_link_tail:
  assumes "mq_shape mq fs qs fl" "m \<in> set fl" "msg_next mq m = None"
  shows "mq_shape (mq_link_tail m mq) fs (qs @ [m]) (remove1 m fl)"
proof -
  note f = shape_in_flight [OF assms(1,2)]
  have b: "blocks_ok (max_msgs mq) fs (qs @ [m]) (remove1 m fl)"
    using assms(1,2) blocks_ok_move(5) by (simp add: mq_shape_def)
  show ?thesis
  proof (cases qs rule: rev_cases)
    case Nil
    then show ?thesis using assms b f by (simp add: mq_shape_def mq_link_tail_def)
  next
    case (snoc ys y)
    have d: "distinct (fs @ (qs @ [m]) @ remove1 m fl)" using blocks_okD(1) [OF b] .
    then have "distinct (ys @ [y, m])" "y \<notin> set fs" using snoc by auto
    then have "chain ((msg_next mq)(y := Some m)) (msg_queue_head mq) (qs @ [m])"
      using assms(1,3) snoc chain_snoc [of "msg_next mq" "msg_queue_head mq" ys y m] by (simp add: mq_shape_def)
    moreover obtain h where "msg_queue_head mq = Some h" using assms(1) snoc by (cases ys) (auto simp: mq_shape_def)
    ultimately show ?thesis using assms(1) f(4) b snoc \<open>y \<notin> set fs\<close> by (simp add: mq_shape_def mq_link_tail_def)
  qed
qed

lemma shape_link_head:
  assumes "mq_shape mq fs qs fl" "m \<in> set fl"
  shows "mq_shape (mq_link_head m mq) fs (m # qs) (remove1 m fl)"
  using assms shape_in_flight [OF assms] blocks_ok_move(4) by (simp add: mq_shape_def mq_link_head_def)

lemma shape_unlink:
  assumes "mq_shape mq fs (m # qs) fl"
  shows "mq_shape (mq_unlink m mq) fs qs (m # fl)"
proof -
  have b: "blocks_ok (max_msgs mq) fs (m # qs) fl" using assms by (simp add: mq_shape_def)
  have "m \<notin> set qs" using blocks_okD(1) [OF b] by simp
  then have "last qs \<noteq> m" if "qs \<noteq> []" using last_in_set [OF that] by auto
  then show ?thesis using assms blocks_ok_move(2) [OF b] by (auto simp: mq_shape_def mq_unlink_def)
qed

lemma shape_free:
  assumes "mq_shape mq fs qs fl" "m \<in> set fl"
  shows "mq_shape (mq_free_step m mq) (m # fs) qs (remove1 m fl)"
  using assms shape_in_flight [OF assms] blocks_ok_move(3) by (simp add: mq_shape_def mq_free_step_def)

lemma step_sel [simp]:
  "msg_body (mq_link_tail m mq) = msg_body mq" "msg_size (mq_link_tail m mq) = msg_size mq"
  "max_msgs (mq_link_tail m mq) = max_msgs mq" "mq_flag (mq_link_tail m mq) = mq_flag mq"
  "msg_body (mq_link_head m mq) = msg_body mq" "msg_size (mq_link_head m mq) = msg_size mq"
  "max_msgs (mq_link_head m mq) = max_msgs mq" "mq_flag (mq_link_head m mq) = mq_flag mq"
  "msg_body (mq_unlink m mq) = msg_body mq" "msg_size (mq_unlink m mq) = msg_size mq"
  "max_msgs (mq_unlink m mq) = max_msgs mq" "mq_flag (mq_unlink m mq) = mq_flag mq"
  "msg_body (mq_free_step m mq) = msg_body mq" "msg_size (mq_free_step m mq) = msg_size mq"
  "max_msgs (mq_free_step m mq) = max_msgs mq" "mq_flag (mq_free_step m mq) = mq_flag mq"
  "msg_size (mq_fill m buf mq) = msg_size mq" "max_msgs (mq_fill m buf mq) = max_msgs mq"
  "mq_flag (mq_fill m buf mq) = mq_flag mq" "msg_next (mq_fill m buf mq) = msg_next mq"
  "msg_body (mq_fill m buf mq) m = buf @ drop (length buf) (msg_body mq m)"
  "n \<noteq> m \<Longrightarrow> msg_body (mq_fill m buf mq) n = msg_body mq n"
  by (simp_all add: mq_link_tail_def mq_link_head_def mq_unlink_def mq_free_step_def mq_fill_def Let_def)

subsection \<open>Initialisation\<close>

lemma RT_ALIGN8_bounds: "n \<le> RT_ALIGN8 n" "RT_ALIGN8 n < n + 8" "RT_ALIGN8 n mod 8 = 0"
  by (simp_all add: RT_ALIGN8_def)

lemma fold_free_step:
  assumes "msg_queue_free mq = None" "msg_next mq = (\<lambda>_. None)"
  shows "chain (msg_next (fold mq_free_step [0..<n] mq)) (msg_queue_free (fold mq_free_step [0..<n] mq)) (rev [0..<n])"
    "msg_queue_head (fold mq_free_step [0..<n] mq) = msg_queue_head mq"
    "msg_queue_tail (fold mq_free_step [0..<n] mq) = msg_queue_tail mq"
    "mq_entry (fold mq_free_step [0..<n] mq) = mq_entry mq" "max_msgs (fold mq_free_step [0..<n] mq) = max_msgs mq"
    "msg_size (fold mq_free_step [0..<n] mq) = msg_size mq" "msg_body (fold mq_free_step [0..<n] mq) = msg_body mq"
  using assms by (induction n) (simp_all add: mq_free_step_def)

lemma mq_init_shape:
  "mq_shape (fst (rt_mq_init i size0 pool_size flag k))
     (rev [0..<max_msgs (fst (rt_mq_init i size0 pool_size flag k))]) [] []"
  unfolding rt_mq_init_def Let_def fst_conv mq_shape_def
  by (simp add: fold_free_step blocks_ok_def)

subsection \<open>Contents\<close>

fun follow :: "nat \<Rightarrow> (nat \<Rightarrow> nat option) \<Rightarrow> nat option \<Rightarrow> nat list" where
  "follow 0 nx p = []"
| "follow (Suc n) nx p = (case p of None \<Rightarrow> [] | Some x \<Rightarrow> x # follow n nx (nx x))"

lemma follow_chain: "chain nx p xs \<Longrightarrow> follow (length xs) nx p = xs"
  by (induction xs arbitrary: p) auto

text \<open>The message bodies in queue order, and the invariant when no copy is under way.\<close>

definition messages :: "rt_messagequeue \<Rightarrow> u8 list list" where
  "messages mq = map (msg_body mq) (follow (mq_entry mq) (msg_next mq) (msg_queue_head mq))"

definition mq_inv :: "rt_messagequeue \<Rightarrow> bool" where
  "mq_inv mq \<longleftrightarrow> (\<exists>fs qs. mq_shape mq fs qs [])"

lemma shape_messages: "mq_shape mq fs qs fl \<Longrightarrow> messages mq = map (msg_body mq) qs"
  using follow_chain by (auto simp: mq_shape_def messages_def)

lemma mq_inv_init: "mq_inv (fst (rt_mq_init i size0 pool_size flag k))"
  unfolding mq_inv_def using mq_init_shape by blast

lemma shape_fill_messages:
  "mq_shape mq fs qs fl \<Longrightarrow> m \<in> set fl \<Longrightarrow> map (msg_body (mq_fill m buf mq)) qs = map (msg_body mq) qs"
  using shape_in_flight(2) by (auto simp: mq_fill_def)

text \<open>The effect of the two ways to queue a message and of taking one, on a queue with no other copy under way.\<close>

lemma mq_enqueue:
  assumes "mq_inv mq" "length buf \<le> msg_size mq" "mq_alloc mq = Some (m, mq1)"
  defines "b \<equiv> buf @ drop (length buf) (msg_body mq m)"
  shows "mq_inv (mq_link_tail m (mq_fill m buf (mq1\<lparr>msg_next := (msg_next mq1)(m := None)\<rparr>)))"
    "messages (mq_link_tail m (mq_fill m buf (mq1\<lparr>msg_next := (msg_next mq1)(m := None)\<rparr>))) = messages mq @ [b]"
    "mq_inv (mq_link_head m (mq_fill m buf mq1))"
    "messages (mq_link_head m (mq_fill m buf mq1)) = b # messages mq" "length b = msg_size mq"
    "length (messages mq) < max_msgs mq" "msg_size mq1 = msg_size mq" "max_msgs mq1 = max_msgs mq"
proof -
  obtain fs qs where sh: "mq_shape mq fs qs []" using assms(1) by (auto simp: mq_inv_def)
  obtain fs' where a: "fs = m # fs'" "mq_shape mq1 fs' qs [m]" "msg_body mq1 = msg_body mq"
    "msg_size mq1 = msg_size mq" "max_msgs mq1 = max_msgs mq"
    by (rule shape_alloc [OF sh assms(3)]) blast
  define mq2 where "mq2 = mq_fill m buf (mq1\<lparr>msg_next := (msg_next mq1)(m := None)\<rparr>)"
  have mqs: "m \<notin> set qs" "m < max_msgs mq" using shape_in_flight(2,3) [OF a(2)] a(5) by auto
  have s2: "mq_shape mq2 fs' qs [m]" unfolding mq2_def
    using shape_fill [OF shape_next [OF a(2)], where buf = buf and m = m] assms(2) a(4) by simp
  have t: "mq_shape (mq_link_tail m mq2) fs' (qs @ [m]) []"
    using shape_link_tail [OF s2, of m] by (simp add: mq2_def)
  have h: "mq_shape (mq_link_head m (mq_fill m buf mq1)) fs' (m # qs) []"
    using shape_link_head [OF shape_fill [OF a(2), of buf m], of m] assms(2) a(4) by simp
  have same: "map (msg_body mq2) qs = map (msg_body mq) qs" "map (msg_body (mq_fill m buf mq1)) qs = map (msg_body mq) qs"
    using mqs(1) a(3) by (auto simp: mq2_def mq_fill_def)
  show "mq_inv (mq_link_tail m (mq_fill m buf (mq1\<lparr>msg_next := (msg_next mq1)(m := None)\<rparr>)))"
    "mq_inv (mq_link_head m (mq_fill m buf mq1))" using t h by (auto simp: mq_inv_def mq2_def)
  show "messages (mq_link_tail m (mq_fill m buf (mq1\<lparr>msg_next := (msg_next mq1)(m := None)\<rparr>))) = messages mq @ [b]"
    using shape_messages [OF t] shape_messages [OF sh] same(1) a(3) by (simp add: mq2_def b_def)
  show "messages (mq_link_head m (mq_fill m buf mq1)) = b # messages mq"
    using shape_messages [OF h] shape_messages [OF sh] same(2) a(3) by (simp add: b_def)
  have "length (msg_body mq m) = msg_size mq" using sh mqs(2) by (simp add: mq_shape_def)
  then show "length b = msg_size mq" using assms(2) by (simp add: b_def)
  show "length (messages mq) < max_msgs mq"
    using mq_shape_length [OF sh] shape_messages [OF sh] a(1) by simp
  show "msg_size mq1 = msg_size mq" "max_msgs mq1 = max_msgs mq" by fact+
qed

lemma mq_dequeue:
  assumes "mq_inv mq" "mq_entry mq \<noteq> 0"
  obtains m where "msg_queue_head mq = Some m" "mq_inv (mq_free_step m (mq_unlink m mq))"
    "messages mq = msg_body mq m # messages (mq_free_step m (mq_unlink m mq))" "length (msg_body mq m) = msg_size mq"
proof -
  obtain fs qs where sh: "mq_shape mq fs qs []" using assms(1) by (auto simp: mq_inv_def)
  then obtain m qs' where q: "qs = m # qs'" using assms(2) by (cases qs) (auto simp: mq_shape_def)
  have "mq_shape (mq_free_step m (mq_unlink m mq)) (m # fs) qs' []"
    using shape_free [OF shape_unlink [OF sh [unfolded q]], of m] by simp
  note f = this
  have "m < max_msgs mq" using sh q blocks_okD(2) [of "max_msgs mq" fs qs "[]"] by (auto simp: mq_shape_def)
  show ?thesis
  proof (rule that)
    show "msg_queue_head mq = Some m" using sh q by (simp add: mq_shape_def)
    show "mq_inv (mq_free_step m (mq_unlink m mq))" using f by (auto simp: mq_inv_def)
    show "messages mq = msg_body mq m # messages (mq_free_step m (mq_unlink m mq))"
      using shape_messages [OF sh] shape_messages [OF f] q by simp
    show "length (msg_body mq m) = msg_size mq" using sh \<open>m < max_msgs mq\<close> by (simp add: mq_shape_def)
  qed
qed

lemma mq_full: "mq_inv mq \<Longrightarrow> mq_alloc mq = None \<longleftrightarrow> length (messages mq) = max_msgs mq"
proof -
  assume "mq_inv mq"
  then obtain fs qs where sh: "mq_shape mq fs qs []" by (auto simp: mq_inv_def)
  show ?thesis using shape_alloc_None [OF sh] shape_messages [OF sh] mq_shape_length [OF sh] by auto
qed

lemma mq_fits:
  assumes "mq_inv mq"
  shows "length (messages mq) \<le> max_msgs mq" "mq_entry mq = length (messages mq)"
proof -
  obtain fs qs where sh: "mq_shape mq fs qs []" using assms by (auto simp: mq_inv_def)
  show "length (messages mq) \<le> max_msgs mq" using shape_messages [OF sh] mq_shape_length [OF sh] by auto
  show "mq_entry mq = length (messages mq)" using shape_messages [OF sh] sh by (simp add: mq_shape_def)
qed

definition mq_put :: "u8 list \<Rightarrow> rt_messagequeue \<Rightarrow> rt_messagequeue option" where
  "mq_put buf mq =
     (if length buf \<noteq> msg_size mq then None
      else case mq_alloc mq of None \<Rightarrow> None
           | Some (m, mq1) \<Rightarrow> Some (mq_link_tail m (mq_fill m buf (mq1\<lparr>msg_next := (msg_next mq1)(m := None)\<rparr>))))"

definition mq_get :: "rt_messagequeue \<Rightarrow> (u8 list \<times> rt_messagequeue) option" where
  "mq_get mq =
     (if mq_entry mq = 0 then None
      else case msg_queue_head mq of None \<Rightarrow> None
           | Some m \<Rightarrow> Some (msg_body mq m, mq_free_step m (mq_unlink m mq)))"

interpretation mqueue: bounded_fifo mq_put mq_get messages max_msgs "\<lambda>mq x. length x = msg_size mq" mq_inv
proof
  fix q :: rt_messagequeue and x assume q: "mq_inv q"
  show "length (messages q) \<le> max_msgs q" using mq_fits [OF q] by simp
  show "length (messages q) \<ge> max_msgs q \<or> length x \<noteq> msg_size q \<Longrightarrow> mq_put x q = None"
  proof -
    assume "length (messages q) \<ge> max_msgs q \<or> length x \<noteq> msg_size q"
    then have "length x \<noteq> msg_size q \<or> mq_alloc q = None"
      unfolding mq_full [OF q] using mq_fits(1) [OF q] by (metis le_antisym)
    then show "mq_put x q = None" by (auto simp: mq_put_def)
  qed
  show "messages q = [] \<Longrightarrow> mq_get q = None" using mq_fits(2) [OF q] by (simp add: mq_get_def)
  show "\<exists>q'. mq_put x q = Some q' \<and> mq_inv q' \<and> messages q' = messages q @ [x] \<and> max_msgs q' = max_msgs q"
    if l: "length (messages q) < max_msgs q" "length x = msg_size q"
  proof -
    obtain m q1 where a: "mq_alloc q = Some (m, q1)" using mq_full [OF q] l(1) by (cases "mq_alloc q") auto
    have "length (msg_body q m) \<le> length x"
      using mq_enqueue(5) [OF q _ a, of x] l(2) by simp
    then show ?thesis using mq_enqueue [OF q _ a, of x] l(2) a by (simp add: mq_put_def)
  qed
next
  fix q :: rt_messagequeue and x xs assume q: "mq_inv q" and c: "messages q = x # xs"
  then have "mq_entry q \<noteq> 0" using mq_fits(2) [OF q] by simp
  from mq_dequeue [OF q this] obtain m where "msg_queue_head q = Some m" "mq_inv (mq_free_step m (mq_unlink m q))"
    "messages q = msg_body q m # messages (mq_free_step m (mq_unlink m q))" by metis
  then show "\<exists>q'. mq_get q = Some (x, q') \<and> mq_inv q' \<and> messages q' = xs \<and> max_msgs q' = max_msgs q"
    using c \<open>mq_entry q \<noteq> 0\<close> by (simp add: mq_get_def)
qed

subsection \<open>The calls\<close>

lemma kinv_wake_one: "kinv k \<Longrightarrow> waiting l \<Longrightarrow> kinv (wake_one l k)"
  using kinv_wake by (simp add: wake_one_def)

text \<open>Sending: what each outcome means.\<close>

lemma mq_send_spec:
  assumes "mq_inv mq" "kinv k" "runs t k" "buf \<noteq> []" "rt_mq_send_wait i t buf time (mq, k) = ((mq', k'), out)"
  shows "mq_inv mq' \<and> kinv k' \<and> msg_size mq' = msg_size mq \<and> max_msgs mq' = max_msgs mq \<and>
    (if length buf > msg_size mq then out = Ret RT_ERROR \<and> mq' = mq \<and> k' = k
     else if length (messages mq) = max_msgs mq
     then mq' = mq \<and> (if time = 0 then out = Ret RT_EFULL \<and> k' = k else out = Blocked)
     else out = Ret RT_EOK \<and> (\<exists>b. messages mq' = messages mq @ [b] \<and> take (length buf) b = buf \<and> length b = msg_size mq))"
proof (cases "length buf > msg_size mq")
  case True
  then show ?thesis using assms by (auto simp: rt_mq_send_wait_def)
next
  case False
  show ?thesis
  proof (cases "mq_alloc mq")
    case None
    then have full: "length (messages mq) = max_msgs mq" using mq_full [OF assms(1)] by simp
    show ?thesis using assms False None kinv_ipc_wait_err [OF assms(2,3), of "WaitSend i" "mq_flag mq" time RT_EOK]
      by (auto simp: rt_mq_send_wait_def full split: if_splits)
  next
    case (Some p)
    obtain m mq1 where p: "p = (m, mq1)" by fastforce
    have le: "length buf \<le> msg_size mq" using False by simp
    note e = mq_enqueue [OF assms(1) le Some [unfolded p]]
    have r: "mq' = mq_link_tail m (mq_fill m buf (mq1\<lparr>msg_next := (msg_next mq1)(m := None)\<rparr>))"
      "k' = wake_one (Wait i) k" "out = Ret RT_EOK"
      using assms(4,5) False Some p by (auto simp: rt_mq_send_wait_def Let_def)
    have "take (length buf) (buf @ drop (length buf) (msg_body mq m)) = buf" by simp
    then show ?thesis using e(1,2,5-8) r kinv_wake_one [OF assms(2), of "Wait i"] False by auto
  qed
qed

lemma mq_urgent_spec:
  assumes "mq_inv mq" "kinv k" "buf \<noteq> []" "rt_mq_urgent i buf (mq, k) = ((mq', k'), out)"
  shows "mq_inv mq' \<and> kinv k' \<and> msg_size mq' = msg_size mq \<and> max_msgs mq' = max_msgs mq \<and>
    (if length buf > msg_size mq then out = Ret RT_ERROR \<and> mq' = mq \<and> k' = k
     else if length (messages mq) = max_msgs mq then out = Ret RT_EFULL \<and> mq' = mq \<and> k' = k
     else out = Ret RT_EOK \<and> (\<exists>b. messages mq' = b # messages mq \<and> take (length buf) b = buf \<and> length b = msg_size mq))"
proof (cases "length buf > msg_size mq")
  case True
  then show ?thesis using assms by (auto simp: rt_mq_urgent_def)
next
  case False
  show ?thesis
  proof (cases "mq_alloc mq")
    case None
    then have full: "length (messages mq) = max_msgs mq" using mq_full [OF assms(1)] by simp
    have "mq' = mq \<and> k' = k \<and> out = Ret RT_EFULL" using assms(3,4) False None by (auto simp: rt_mq_urgent_def)
    then show ?thesis using assms(1,2) False full by simp
  next
    case (Some p)
    obtain m mq1 where p: "p = (m, mq1)" by fastforce
    have le: "length buf \<le> msg_size mq" using False by simp
    note e = mq_enqueue [OF assms(1) le Some [unfolded p]]
    have r: "mq' = mq_link_head m (mq_fill m buf mq1)" "k' = wake_one (Wait i) k" "out = Ret RT_EOK"
      using assms(3,4) False Some p by (auto simp: rt_mq_urgent_def Let_def)
    have "take (length buf) (buf @ drop (length buf) (msg_body mq m)) = buf" by simp
    then show ?thesis using e(3-8) r kinv_wake_one [OF assms(2), of "Wait i"] False by auto
  qed
qed

lemma mq_recv_spec:
  assumes "mq_inv mq" "kinv k" "runs t k" "size0 > 0" "rt_mq_recv i t size0 time (mq, k) = ((mq', k'), out, b)"
  shows "mq_inv mq' \<and> kinv k' \<and> msg_size mq' = msg_size mq \<and> max_msgs mq' = max_msgs mq \<and>
    (case messages mq of
       [] \<Rightarrow> mq' = mq \<and> b = [] \<and> (if time = 0 then out = Ret RT_ETIMEOUT \<and> k' = k else out = Blocked)
     | x # xs \<Rightarrow> out = Ret RT_EOK \<and> messages mq' = xs \<and> b = take size0 x)"
proof (cases "mq_entry mq = 0")
  case True
  then have e: "messages mq = []" using mq_fits(2) [OF assms(1)] by simp
  show ?thesis using assms True kinv_ipc_wait_err [OF assms(2,3), of "Wait i" "mq_flag mq" time RT_EOK]
    by (auto simp: rt_mq_recv_def e split: if_splits)
next
  case False
  from mq_dequeue [OF assms(1) False] obtain m where m: "msg_queue_head mq = Some m"
    "mq_inv (mq_free_step m (mq_unlink m mq))"
    "messages mq = msg_body mq m # messages (mq_free_step m (mq_unlink m mq))" "length (msg_body mq m) = msg_size mq"
    by metis
  have "mq' = mq_free_step m (mq_unlink m mq)" "k' = wake_one (WaitSend i) k" "out = Ret RT_EOK" "b = take size0 (msg_body mq m)"
    using assms(4,5) False m(1,4) by (auto simp: rt_mq_recv_def Let_def min_def)
  then show ?thesis using m kinv_wake_one [OF assms(2), of "WaitSend i"] by simp
qed


subsection \<open>Reset\<close>

lemma mq_drain_shape:
  assumes "mq_shape mq fs qs []" "length qs \<le> n"
  shows "mq_shape ((mq_drain n mq)\<lparr>mq_entry := 0\<rparr>) (rev qs @ fs) [] []"
  using assms
proof (induction n arbitrary: mq fs qs)
  case 0
  then show ?case by (simp add: mq_shape_def)
next
  case (Suc n)
  show ?case
  proof (cases qs)
    case Nil
    then show ?thesis using Suc.prems by (simp add: mq_shape_def)
  next
    case (Cons m qs')
    have e: "(mq_free_step m (mq\<lparr>msg_queue_head := msg_next mq m,
        msg_queue_tail := (if msg_queue_tail mq = Some m then None else msg_queue_tail mq)\<rparr>))\<lparr>mq_entry := mq_entry mq - 1\<rparr> =
      mq_free_step m (mq_unlink m mq)"
      by (simp add: mq_free_step_def mq_unlink_def)
    have sh: "mq_shape (mq_free_step m (mq_unlink m mq)) (m # fs) qs' []"
      using shape_free [OF shape_unlink [OF Suc.prems(1) [unfolded Cons]], of m] by simp
    have "msg_queue_head mq = Some m" using Suc.prems(1) Cons by (simp add: mq_shape_def)
    have d: "(mq_drain n (x\<lparr>mq_entry := c\<rparr>))\<lparr>mq_entry := 0\<rparr> = (mq_drain n x)\<lparr>mq_entry := 0\<rparr>" for x c
    proof (induction n arbitrary: x)
      case (Suc n)
      have "mq_free_step m (x\<lparr>mq_entry := c, msg_queue_head := h, msg_queue_tail := t\<rparr>) =
          (mq_free_step m (x\<lparr>msg_queue_head := h, msg_queue_tail := t\<rparr>))\<lparr>mq_entry := c\<rparr>" for m h t
        by (simp add: mq_free_step_def)
      then show ?case using Suc by (simp split: option.split)
    qed simp
    show ?thesis
      using Suc.IH [OF sh] Suc.prems(2) Cons \<open>msg_queue_head mq = Some m\<close> d [where c = "mq_entry mq - 1"]
      by (simp flip: e)
  qed
qed

lemma mq_reset_empty:
  assumes "mq_inv mq"
  shows "mq_inv ((mq_drain (max_msgs mq) mq)\<lparr>mq_entry := 0\<rparr>)" "messages ((mq_drain (max_msgs mq) mq)\<lparr>mq_entry := 0\<rparr>) = []"
proof -
  obtain fs qs where sh: "mq_shape mq fs qs []" using assms by (auto simp: mq_inv_def)
  have "length qs \<le> max_msgs mq" using mq_shape_length [OF sh] by simp
  from mq_drain_shape [OF sh this] show "mq_inv ((mq_drain (max_msgs mq) mq)\<lparr>mq_entry := 0\<rparr>)"
    "messages ((mq_drain (max_msgs mq) mq)\<lparr>mq_entry := 0\<rparr>) = []"
    using shape_messages by (auto simp: mq_inv_def)
qed

subsection \<open>Interleaved senders and receivers\<close>

text \<open>
  The copies into and out of a block run with interrupts enabled: between the steps of one call
  any steps of other calls may happen. The state records the blocks being filled, those being
  read (with the message each reader is to get), and the messages queued and taken so far.
\<close>

record mq_sys =
  sq :: rt_messagequeue
  filling :: "nat list"
  reading :: "(nat \<times> u8 list) list"
  queued :: "u8 list list"
  taken :: "u8 list list"

inductive mq_step :: "mq_sys \<Rightarrow> mq_sys \<Rightarrow> bool" where
  alloc: "mq_alloc (sq s) = Some (m, q1) \<Longrightarrow>
    mq_step s (s\<lparr>sq := q1\<lparr>msg_next := (msg_next q1)(m := None)\<rparr>, filling := m # filling s\<rparr>)"
| fill: "m \<in> set (filling s) \<Longrightarrow> length buf \<le> msg_size (sq s) \<Longrightarrow> mq_step s (s\<lparr>sq := mq_fill m buf (sq s)\<rparr>)"
| link: "m \<in> set (filling s) \<Longrightarrow>
    mq_step s (s\<lparr>sq := mq_link_tail m (sq s), filling := remove1 m (filling s), queued := queued s @ [msg_body (sq s) m]\<rparr>)"
| unlink: "mq_entry (sq s) \<noteq> 0 \<Longrightarrow> msg_queue_head (sq s) = Some m \<Longrightarrow>
    mq_step s (s\<lparr>sq := mq_unlink m (sq s), reading := (m, msg_body (sq s) m) # reading s,
      taken := taken s @ [msg_body (sq s) m]\<rparr>)"
| release: "(m, b) \<in> set (reading s) \<Longrightarrow>
    mq_step s (s\<lparr>sq := mq_free_step m (sq s), reading := remove1 (m, b) (reading s)\<rparr>)"

inductive mq_reach :: "mq_sys \<Rightarrow> mq_sys \<Rightarrow> bool" for s0 where
  start: "mq_reach s0 s0"
| step: "mq_reach s0 s \<Longrightarrow> mq_step s s' \<Longrightarrow> mq_reach s0 s'"

definition mq_good :: "mq_sys \<Rightarrow> bool" where
  "mq_good s \<longleftrightarrow> (\<exists>fs qs. mq_shape (sq s) fs qs (filling s @ map fst (reading s)) \<and>
     queued s = taken s @ map (msg_body (sq s)) qs) \<and>
     (\<forall>m \<in> set (filling s). msg_next (sq s) m = None) \<and>
     (\<forall>(m, b) \<in> set (reading s). msg_body (sq s) m = b)"

lemma mq_goodI:
  assumes "mq_shape (sq s) fs qs (filling s @ map fst (reading s))" "queued s = taken s @ map (msg_body (sq s)) qs"
    "\<And>m. m \<in> set (filling s) \<Longrightarrow> msg_next (sq s) m = None"
    "\<And>m b. (m, b) \<in> set (reading s) \<Longrightarrow> msg_body (sq s) m = b"
  shows "mq_good s"
  using assms unfolding mq_good_def by blast

lemma shape_perm: "mset fl = mset fl' \<Longrightarrow> mq_shape mq fs qs fl \<Longrightarrow> mq_shape mq fs qs fl'"
  by (simp add: mq_shape_def blocks_ok_def)

lemma shape_distinct:
  assumes "mq_shape mq fs qs fl"
  shows "distinct fl" "\<And>m. m \<in> set fl \<Longrightarrow> m \<notin> set fs \<and> m \<notin> set qs" "distinct qs"
  using blocks_okD(1) [of "max_msgs mq" fs qs fl] assms by (auto simp: mq_shape_def)

lemma mq_good_alloc:
  assumes "mq_good s" "mq_alloc (sq s) = Some (m, q1)"
  shows "mq_good (s\<lparr>sq := q1\<lparr>msg_next := (msg_next q1)(m := None)\<rparr>, filling := m # filling s\<rparr>)"
proof -
  obtain fs qs where sh: "mq_shape (sq s) fs qs (filling s @ map fst (reading s))"
    and qd: "queued s = taken s @ map (msg_body (sq s)) qs" using assms(1) by (auto simp: mq_good_def)
  obtain fs' where a: "mq_shape q1 fs' qs (m # filling s @ map fst (reading s))" "msg_body q1 = msg_body (sq s)"
    by (rule shape_alloc [OF sh assms(2)]) blast
  have nx: "msg_next q1 = msg_next (sq s)" using assms(2) by (auto simp: mq_alloc_def split: option.splits)
  have "mq_shape (q1\<lparr>msg_next := (msg_next q1)(m := None)\<rparr>) fs' qs (m # filling s @ map fst (reading s))"
    using shape_next [OF a(1), of m] by simp
  then show ?thesis using assms(1) qd a(2) nx by (auto simp: mq_good_def)
qed

lemma mq_good_fill:
  assumes "mq_good s" "m \<in> set (filling s)" "length buf \<le> msg_size (sq s)"
  shows "mq_good (s\<lparr>sq := mq_fill m buf (sq s)\<rparr>)"
proof -
  obtain fs qs where sh: "mq_shape (sq s) fs qs (filling s @ map fst (reading s))"
    and qd: "queued s = taken s @ map (msg_body (sq s)) qs" using assms(1) by (auto simp: mq_good_def)
  have "m \<notin> set qs" using shape_distinct(2) [OF sh, of m] assms(2) by simp
  moreover have "m \<noteq> n" if "(n, b) \<in> set (reading s)" for n b
    using shape_distinct(1) [OF sh] assms(2) that by (force simp: image_iff)
  moreover have "msg_next (sq s) n = None" if "n \<in> set (filling s)" for n using assms(1) that by (auto simp: mq_good_def)
  moreover have "msg_body (sq s) n = c" if "(n, c) \<in> set (reading s)" for n c using assms(1) that by (auto simp: mq_good_def)
  ultimately show ?thesis using shape_fill [OF sh assms(3), of m] qd
    by (intro mq_goodI [of _ fs qs]) (auto simp: mq_fill_def)
qed

lemma mq_good_link:
  assumes "mq_good s" "m \<in> set (filling s)"
  shows "mq_good (s\<lparr>sq := mq_link_tail m (sq s), filling := remove1 m (filling s), queued := queued s @ [msg_body (sq s) m]\<rparr>)"
proof -
  obtain fs qs where sh: "mq_shape (sq s) fs qs (filling s @ map fst (reading s))"
    and qd: "queued s = taken s @ map (msg_body (sq s)) qs" using assms(1) by (auto simp: mq_good_def)
  have nx: "msg_next (sq s) m = None" "\<forall>n \<in> set (filling s). msg_next (sq s) n = None"
    using assms by (auto simp: mq_good_def)
  have l: "mq_shape (mq_link_tail m (sq s)) fs (qs @ [m]) (remove1 m (filling s) @ map fst (reading s))"
    using shape_link_tail [OF sh _ nx(1)] assms(2) by (simp add: remove1_append)
  have "msg_next (mq_link_tail m (sq s)) n = None" if "n \<in> set (filling s)" for n
  proof -
    have "n \<notin> set qs" using shape_distinct(2) [OF sh, of n] that by simp
    then have "msg_queue_tail (sq s) \<noteq> Some n" using sh last_in_set [of qs] by (auto simp: mq_shape_def)
    then show ?thesis using nx(2) that by (auto simp: mq_link_tail_def Let_def split: option.split)
  qed
  moreover have "msg_body (sq s) n = b" if "(n, b) \<in> set (reading s)" for n b using assms(1) that by (auto simp: mq_good_def)
  ultimately show ?thesis using l qd set_remove1_subset [of m "filling s"] by (intro mq_goodI [of _ fs "qs @ [m]"]) auto
qed

lemma mq_good_unlink:
  assumes "mq_good s" "mq_entry (sq s) \<noteq> 0" "msg_queue_head (sq s) = Some m"
  shows "mq_good (s\<lparr>sq := mq_unlink m (sq s), reading := (m, msg_body (sq s) m) # reading s,
      taken := taken s @ [msg_body (sq s) m]\<rparr>)"
proof -
  obtain fs qs where sh: "mq_shape (sq s) fs qs (filling s @ map fst (reading s))"
    and qd: "queued s = taken s @ map (msg_body (sq s)) qs" using assms(1) by (auto simp: mq_good_def)
  obtain qs' where q: "qs = m # qs'" using sh assms(2,3) by (cases qs) (auto simp: mq_shape_def)
  have "mq_shape (mq_unlink m (sq s)) fs qs' (filling s @ m # map fst (reading s))"
    using shape_unlink [OF sh [unfolded q]] by (rule shape_perm [rotated]) simp
  moreover have "msg_next (mq_unlink m (sq s)) = msg_next (sq s)" by (simp add: mq_unlink_def)
  ultimately show ?thesis using assms(1) qd q by (auto simp: mq_good_def)
qed

lemma mq_good_release:
  assumes "mq_good s" "(m, b) \<in> set (reading s)"
  shows "mq_good (s\<lparr>sq := mq_free_step m (sq s), reading := remove1 (m, b) (reading s)\<rparr>)"
proof -
  obtain fs qs where sh: "mq_shape (sq s) fs qs (filling s @ map fst (reading s))"
    and qd: "queued s = taken s @ map (msg_body (sq s)) qs" using assms(1) by (auto simp: mq_good_def)
  have mr: "m \<in> set (map fst (reading s))" using assms(2) by force
  then have mf: "m \<notin> set (filling s)" using shape_distinct(1) [OF sh] by auto
  have "mset (map fst (remove1 (m, b) (reading s))) = mset (remove1 m (map fst (reading s)))"
    using assms(2) by (simp add: image_mset_Diff)
  then have "mq_shape (mq_free_step m (sq s)) (m # fs) qs (filling s @ map fst (remove1 (m, b) (reading s)))"
    using shape_free [OF sh, of m] mr mf by (auto intro: shape_perm [rotated] simp: remove1_append)
  moreover have "msg_next (mq_free_step m (sq s)) n = msg_next (sq s) n" if "n \<in> set (filling s)" for n
    using that mf by (auto simp: mq_free_step_def)
  moreover have "msg_next (sq s) n = None" if "n \<in> set (filling s)" for n using assms(1) that by (auto simp: mq_good_def)
  moreover have "msg_body (sq s) n = c" if "(n, c) \<in> set (reading s)" for n c using assms(1) that by (auto simp: mq_good_def)
  ultimately show ?thesis using qd set_remove1_subset [of "(m, b)" "reading s"] by (intro mq_goodI [of _ "m # fs" qs]) auto
qed

lemma mq_good_step: "mq_step s s' \<Longrightarrow> mq_good s \<Longrightarrow> mq_good s'"
  by (induction rule: mq_step.induct)
    (auto intro: mq_good_alloc mq_good_fill mq_good_link mq_good_unlink mq_good_release)

lemma mq_reach_good: "mq_reach s0 s \<Longrightarrow> mq_good s0 \<Longrightarrow> mq_good s"
  by (induction rule: mq_reach.induct) (auto intro: mq_good_step)


text \<open>
  C9. However the steps of concurrent senders and receivers interleave, every block of the pool is
  in exactly one place: free, queued, being filled or being read. Messages are taken in the order
  they were queued, none lost or repeated, and the block a receiver copies from holds the message
  it took until the receiver gives the block back, although the copy runs with interrupts enabled.
\<close>

theorem rt_mq_concurrent:
  assumes "mq_reach s0 s" "sq s0 = fst (rt_mq_init i size0 pool_size flag k0)" "filling s0 = []" "reading s0 = []"
    "queued s0 = []" "taken s0 = []"
  shows "\<exists>fs qs. mset fs + mset qs + mset (filling s) + mset (map fst (reading s)) = mset [0..<max_msgs (sq s)] \<and>
    chain (msg_next (sq s)) (msg_queue_free (sq s)) fs \<and> chain (msg_next (sq s)) (msg_queue_head (sq s)) qs \<and>
    mq_entry (sq s) = length qs \<and> queued s = taken s @ map (msg_body (sq s)) qs \<and>
    (\<forall>(m, b) \<in> set (reading s). msg_body (sq s) m = b)"
proof -
  have "mq_good s0" using assms(2-6) mq_init_shape [of i size0 pool_size flag k0]
    by (intro mq_goodI [of _ "rev [0..<max_msgs (sq s0)]" "[]"]) simp_all
  from mq_reach_good [OF assms(1) this] show ?thesis
    unfolding mq_good_def mq_shape_def blocks_ok_def by (auto simp only: mset_append add.assoc)
qed

definition mq_demo_q :: rt_messagequeue where
  "mq_demo_q = fst (rt_mq_init 7 8 24 RT_IPC_FLAG_FIFO two_kern)"

lemma mq_demo_q_facts: "msg_size mq_demo_q = 8" "max_msgs mq_demo_q = 2" "msg_queue_free mq_demo_q = Some 1"
  "messages mq_demo_q = []"
  by (simp_all add: mq_demo_q_def rt_mq_init_def RT_ALIGN8_def mq_free_step_def upt_rec messages_def)

definition mq_demo0 :: mq_sys where
  "mq_demo0 = \<lparr>sq = mq_demo_q, filling = [], reading = [], queued = [], taken = []\<rparr>"

definition mq_demo1 :: mq_sys where
  "mq_demo1 = (case mq_alloc (sq mq_demo0) of Some (m, q1) \<Rightarrow>
     mq_demo0\<lparr>sq := q1\<lparr>msg_next := (msg_next q1)(m := None)\<rparr>, filling := [m]\<rparr> | None \<Rightarrow> mq_demo0)"

theorem rt_mq_concurrent_witness:
  "mq_reach mq_demo0 mq_demo1 \<and> filling mq_demo1 = [1] \<and>
   (\<exists>fs qs. mset fs + mset qs + {#1#} = mset [0..<2] \<and> queued mq_demo1 = taken mq_demo1 @ map (msg_body (sq mq_demo1)) qs)"
proof -
  have a: "mq_alloc (sq mq_demo0) = Some (1, mq_demo_q\<lparr>msg_queue_free := msg_next mq_demo_q 1\<rparr>)"
    by (simp add: mq_demo0_def mq_alloc_def mq_demo_q_facts)
  have r: "mq_reach mq_demo0 mq_demo1"
    using mq_reach.step [OF mq_reach.start mq_step.alloc [OF a]] a by (simp add: mq_demo1_def mq_demo0_def)
  have f: "filling mq_demo1 = [1]" "reading mq_demo1 = []" "max_msgs (sq mq_demo1) = 2"
    using a mq_demo_q_facts by (simp_all add: mq_demo1_def mq_demo0_def)
  from rt_mq_concurrent [OF r, of 7 8 24 RT_IPC_FLAG_FIFO two_kern] r f show ?thesis
    by (auto simp: mq_demo0_def mq_demo_q_def)
qed

text \<open>
  A message queue is a bounded double-ended sequence of messages to its callers: a message
  that is too long is refused, a full queue makes \<open>rt_mq_send\<close> and \<open>rt_mq_urgent\<close> return
  \<open>RT_EFULL\<close>, and otherwise an ordinary message goes to the end and an urgent one to the front,
  filling a block of the aligned message size.
\<close>

theorem rt_mq_send_urgent:
  assumes "mq_inv mq" "kinv k" "runs t k" "buf \<noteq> []"
    and snd0: "rt_mq_send i t buf (mq, k) = ((mq1, k1), out1)"
    and urg: "rt_mq_urgent i buf (mq, k) = ((mq2, k2), out2)"
  shows "mq_inv mq1 \<and> kinv k1 \<and> mq_inv mq2 \<and> kinv k2 \<and> out1 = out2 \<and>
    (if length buf > msg_size mq then out1 = Ret RT_ERROR \<and> mq1 = mq \<and> mq2 = mq
     else if length (messages mq) = max_msgs mq then out1 = Ret RT_EFULL \<and> mq1 = mq \<and> mq2 = mq
     else out1 = Ret RT_EOK \<and>
       (\<exists>b. messages mq1 = messages mq @ [b] \<and> take (length buf) b = buf) \<and>
       (\<exists>b. messages mq2 = b # messages mq \<and> take (length buf) b = buf))"
  using mq_send_spec [OF assms(1-4) snd0 [unfolded rt_mq_send_def]] mq_urgent_spec [OF assms(1,2,4) urg]
  by (auto split: if_splits)

theorem rt_mq_send_urgent_witness:
  "mq_inv (fst (fst (rt_mq_send 7 1 [1, 2] (mq_demo_q, two_kern)))) \<and>
   snd (rt_mq_send 7 1 [1, 2] (mq_demo_q, two_kern)) = Ret RT_EOK"
proof -
  have i: "mq_inv mq_demo_q" unfolding mq_demo_q_def by (rule mq_inv_init)
  note f = mq_demo_q_facts
  obtain mq1 k1 o1 mq2 k2 o2 where s: "rt_mq_send 7 1 [1, 2] (mq_demo_q, two_kern) = ((mq1, k1), o1)"
    "rt_mq_urgent 7 [1, 2] (mq_demo_q, two_kern) = ((mq2, k2), o2)" by (metis prod.exhaust)
  from rt_mq_send_urgent [OF i kinv_two_kern _ _ s] two_kern_runs f s show ?thesis by auto
qed

text \<open>
  Receiving from a message queue takes the oldest message, copies as much of it as the caller
  has room for and frees its block; on an empty queue it returns \<open>RT_ETIMEOUT\<close> or sleeps.
\<close>

theorem rt_mq_recv_oldest:
  assumes "mq_inv mq" "kinv k" "runs t k" "size0 > 0" "rt_mq_recv i t size0 time (mq, k) = ((mq', k'), out, b)"
  shows "mq_inv mq' \<and> kinv k' \<and>
    (case messages mq of
       [] \<Rightarrow> mq' = mq \<and> b = [] \<and> (if time = 0 then out = Ret RT_ETIMEOUT else out = Blocked)
     | x # xs \<Rightarrow> out = Ret RT_EOK \<and> messages mq' = xs \<and> b = take size0 x)"
  using mq_recv_spec [OF assms] by (auto split: list.splits)

theorem rt_mq_recv_oldest_witness:
  "mq_inv (fst (fst (rt_mq_recv 7 1 8 0 (mq_demo_q, two_kern)))) \<and>
   fst (snd (rt_mq_recv 7 1 8 0 (mq_demo_q, two_kern))) = Ret RT_ETIMEOUT"
proof -
  have i: "mq_inv mq_demo_q" unfolding mq_demo_q_def by (rule mq_inv_init)
  note f = mq_demo_q_facts
  obtain mq1 k1 o1 b where s: "rt_mq_recv 7 1 8 0 (mq_demo_q, two_kern) = ((mq1, k1), o1, b)" by (metis prod.exhaust)
  from rt_mq_recv_oldest [OF i kinv_two_kern _ _ s] two_kern_runs f s show ?thesis by auto
qed

text \<open>
  The blocks that \<open>rt_mq_init\<close> cuts from the pool do not overrun it: with aligned message size
  and header, the last block ends inside \<open>pool_size\<close>, every block holds a message of the size asked
  for, and all of them start on the free list.
\<close>

theorem rt_mq_init_geometry:
  assumes "size0 < 65528" "pool_size < 65536"
  shows "max_msgs (fst (rt_mq_init i size0 pool_size flag k)) *
        (msg_size (fst (rt_mq_init i size0 pool_size flag k)) + MQ_HEAD) \<le> pool_size \<and>
     size0 \<le> msg_size (fst (rt_mq_init i size0 pool_size flag k)) \<and>
     msg_size (fst (rt_mq_init i size0 pool_size flag k)) < size0 + 8 \<and>
     mq_inv (fst (rt_mq_init i size0 pool_size flag k)) \<and> messages (fst (rt_mq_init i size0 pool_size flag k)) = []"
proof -
  let ?q = "fst (rt_mq_init i size0 pool_size flag k)"
  have ms: "msg_size ?q = RT_ALIGN8 size0"
    using assms(1) RT_ALIGN8_bounds(2) [of size0] by (simp add: rt_mq_init_def Let_def fold_free_step)
  have "pool_size div (RT_ALIGN8 size0 + MQ_HEAD) < 65536" using le_less_trans [OF div_le_dividend assms(2)] .
  then have mm: "max_msgs ?q = pool_size div (RT_ALIGN8 size0 + MQ_HEAD)"
    using assms RT_ALIGN8_bounds(2) [of size0] by (simp add: rt_mq_init_def Let_def fold_free_step)
  have "mq_inv ?q" by (rule mq_inv_init)
  moreover have "messages ?q = []" using shape_messages [OF mq_init_shape] by simp
  ultimately show ?thesis using RT_ALIGN8_bounds(1,2) [of size0] unfolding ms mm by (simp add: div_times_less_eq_dividend)
qed

theorem rt_mq_init_geometry_witness:
  "max_msgs (fst (rt_mq_init 0 4 160 RT_IPC_FLAG_FIFO boot)) *
     (msg_size (fst (rt_mq_init 0 4 160 RT_IPC_FLAG_FIFO boot)) + MQ_HEAD) \<le> 160"
  using rt_mq_init_geometry [of 4 160 0 RT_IPC_FLAG_FIFO boot] by simp

end
