(* ===== verification/Rt_Mem.thy ===== *)
theory Rt_Mem
  imports Prelude
begin

section \<open>The system heap (\<^verbatim>\<open>rt-thread/src/mem.c\<close>)\<close>

text \<open>
  The small-memory allocator behind \<open>rt_malloc\<close>: a doubly linked list of blocks laid out in address
  order, each a 16-byte header and its data, with a pointer to the lowest free block. Headers are
  named by their offset from \<open>heap_ptr\<close>; pointers are absolute addresses with 0 for null. All
  quantities are 32-bit unsigned: offsets are kept as naturals and the places where the source
  may wrap are written with \<open>sub32\<close> and \<open>mod 2 ^ 32\<close>. Every operation holds the heap semaphore
  from its first access to its last, so each is one step. The result \<open>None\<close> means that an
  assertion fails, that a loop does not end, or that a pointer into the first header is freed
  (whose header would lie outside the heap); the lemmas show that neither happens to a client
  that frees what it was given.
\<close>

subsection \<open>Data\<close>

record heap_mem =
  magic :: nat
  used :: bool
  nxt :: nat
  prv :: nat

record mem_heap =
  heap_ptr :: nat
  heap_end :: nat
  lfree :: nat
  mem_size_aligned :: nat
  used_mem :: nat
  max_mem :: nat
  hdr :: "nat \<Rightarrow> heap_mem"
  bytes :: "nat \<Rightarrow> u8"

abbreviation HEAP_MAGIC :: nat where "HEAP_MAGIC \<equiv> 0x1ea0"

text \<open>\<^verbatim>\<open>sizeof(struct heap_mem)\<close> and \<^verbatim>\<open>MIN_SIZE\<close> are 12; both round up to 16.\<close>

abbreviation SIZEOF_STRUCT_MEM :: nat where "SIZEOF_STRUCT_MEM \<equiv> 16"
abbreviation MIN_SIZE :: nat where "MIN_SIZE \<equiv> 12"
abbreviation MIN_SIZE_ALIGNED :: nat where "MIN_SIZE_ALIGNED \<equiv> 16"

definition sub32 :: "nat \<Rightarrow> nat \<Rightarrow> nat" where
  "sub32 a b = (a + 2 ^ 32 - b) mod 2 ^ 32"

definition align32 :: "nat \<Rightarrow> nat" where
  "align32 n = (n + 7) mod 2 ^ 32 div 8 * 8"

subsection \<open>Operations\<close>

text \<open>Merge a free block with a free successor that is not the end marker, and with a free predecessor.\<close>

definition plug_forward :: "nat \<Rightarrow> mem_heap \<Rightarrow> mem_heap" where
  "plug_forward mem s =
     (let nmem = nxt (hdr s mem)
      in if mem \<noteq> nmem \<and> \<not> used (hdr s nmem) \<and> nmem \<noteq> heap_end s
         then let lf = (if lfree s = nmem then mem else lfree s);
                  h = (hdr s)(mem := (hdr s mem)\<lparr>nxt := nxt (hdr s nmem)\<rparr>);
                  h = h(nxt (h nmem) := (h (nxt (h nmem)))\<lparr>prv := mem\<rparr>)
              in s\<lparr>lfree := lf, hdr := h\<rparr>
         else s)"

definition plug_backward :: "nat \<Rightarrow> mem_heap \<Rightarrow> mem_heap" where
  "plug_backward mem s =
     (let pmem = prv (hdr s mem)
      in if pmem \<noteq> mem \<and> \<not> used (hdr s pmem)
         then let lf = (if lfree s = mem then pmem else lfree s);
                  h = (hdr s)(pmem := (hdr s pmem)\<lparr>nxt := nxt (hdr s mem)\<rparr>);
                  h = h(nxt (h mem) := (h (nxt (h mem)))\<lparr>prv := pmem\<rparr>)
              in s\<lparr>lfree := lf, hdr := h\<rparr>
         else s)"

definition plug_holes :: "nat \<Rightarrow> mem_heap \<Rightarrow> mem_heap option" where
  "plug_holes mem s =
     (if \<not> (mem < heap_end s \<and> \<not> used (hdr s mem)) then None
      else Some (plug_backward mem (plug_forward mem s)))"

text \<open>\<open>None\<close> when the area is too small for the two headers: the heap then stays unset.\<close>

definition rt_system_heap_init :: "nat \<Rightarrow> nat \<Rightarrow> (nat \<Rightarrow> u8) \<Rightarrow> mem_heap option" where
  "rt_system_heap_init begin_addr end_addr m =
     (let begin_align = align32 begin_addr;
          end_align = end_addr div 8 * 8
      in if end_align > 2 * SIZEOF_STRUCT_MEM \<and> end_align - 2 * SIZEOF_STRUCT_MEM \<ge> begin_align
         then let sz = end_align - begin_align - 2 * SIZEOF_STRUCT_MEM;
                  e = sz + SIZEOF_STRUCT_MEM;
                  h = (\<lambda>_. \<lparr>magic = 0, used = False, nxt = 0, prv = 0\<rparr>)
                        (0 := \<lparr>magic = HEAP_MAGIC, used = False, nxt = e, prv = 0\<rparr>,
                         e := \<lparr>magic = HEAP_MAGIC, used = True, nxt = e, prv = e\<rparr>)
              in Some \<lparr>heap_ptr = begin_align, heap_end = e, lfree = 0, mem_size_aligned = sz,
                       used_mem = 0, max_mem = 0, hdr = h, bytes = m\<rparr>
         else None)"

text \<open>The search for a block; \<open>Some None\<close> when the loop runs out of blocks, \<open>None\<close> when the fuel is used up.\<close>

fun find_fit :: "nat \<Rightarrow> nat \<Rightarrow> nat \<Rightarrow> mem_heap \<Rightarrow> nat option option" where
  "find_fit 0 sz ptr s = None"
| "find_fit (Suc n) sz ptr s =
     (if ptr < sub32 (mem_size_aligned s) sz
      then (if \<not> used (hdr s ptr) \<and> sub32 (nxt (hdr s ptr)) (ptr + SIZEOF_STRUCT_MEM) \<ge> sz
            then Some (Some ptr)
            else find_fit n sz (nxt (hdr s ptr)) s)
      else Some None)"

definition count_used :: "nat \<Rightarrow> mem_heap \<Rightarrow> mem_heap" where
  "count_used n s = s\<lparr>used_mem := used_mem s + n, max_mem := max (max_mem s) (used_mem s + n)\<rparr>"

text \<open>Take the block at \<open>ptr\<close>, splitting off what is left when it can hold a block of its own.\<close>

definition take_block :: "nat \<Rightarrow> nat \<Rightarrow> mem_heap \<Rightarrow> mem_heap" where
  "take_block sz ptr s =
     (let mem = hdr s ptr
      in if sub32 (nxt mem) (ptr + SIZEOF_STRUCT_MEM) \<ge> sz + SIZEOF_STRUCT_MEM + MIN_SIZE_ALIGNED
         then let ptr2 = ptr + SIZEOF_STRUCT_MEM + sz;
                  h = (hdr s)(ptr2 := \<lparr>magic = HEAP_MAGIC, used = False, nxt = nxt mem, prv = ptr\<rparr>);
                  h = h(ptr := mem\<lparr>nxt := ptr2, used := True, magic := HEAP_MAGIC\<rparr>);
                  h = (if nxt mem \<noteq> mem_size_aligned s + SIZEOF_STRUCT_MEM
                       then h(nxt mem := (h (nxt mem))\<lparr>prv := ptr2\<rparr>) else h)
              in count_used (sz + SIZEOF_STRUCT_MEM) (s\<lparr>hdr := h\<rparr>)
         else count_used (nxt mem - ptr) (s\<lparr>hdr := (hdr s)(ptr := mem\<lparr>used := True, magic := HEAP_MAGIC\<rparr>)\<rparr>))"

fun next_free :: "nat \<Rightarrow> nat \<Rightarrow> mem_heap \<Rightarrow> nat option" where
  "next_free 0 p s = None"
| "next_free (Suc n) p s =
     (if used (hdr s p) \<and> p \<noteq> heap_end s then next_free n (nxt (hdr s p)) s else Some p)"

text \<open>The fuel of both loops is one more than the size of the heap, which no chain of blocks exceeds.\<close>

definition rt_malloc :: "nat \<Rightarrow> mem_heap \<Rightarrow> (mem_heap \<times> nat) option" where
  "rt_malloc sz s =
     (if sz = 0 then Some (s, 0)
      else let sz = align32 sz
           in if sz > mem_size_aligned s then Some (s, 0)
              else let sz = (if sz < MIN_SIZE_ALIGNED then MIN_SIZE_ALIGNED else sz)
                   in do { r \<leftarrow> find_fit (Suc (heap_end s)) sz (lfree s) s;
                           case r of
                             None \<Rightarrow> Some (s, 0)
                           | Some ptr \<Rightarrow>
                               let s' = take_block sz ptr s
                               in do { lf \<leftarrow> (if ptr = lfree s then next_free (Suc (heap_end s)) ptr s' else Some (lfree s'));
                                       if ptr + SIZEOF_STRUCT_MEM + sz \<le> heap_end s \<and>
                                          (heap_ptr s + ptr + SIZEOF_STRUCT_MEM) mod 8 = 0 \<and> (heap_ptr s + ptr) mod 8 = 0
                                       then Some (s'\<lparr>lfree := lf\<rparr>, heap_ptr s + ptr + SIZEOF_STRUCT_MEM)
                                       else None } })"

definition rt_free :: "nat \<Rightarrow> mem_heap \<Rightarrow> mem_heap option" where
  "rt_free rmem s =
     (if rmem = 0 then Some s
      else if \<not> (rmem mod 8 = 0 \<and> heap_ptr s + SIZEOF_STRUCT_MEM \<le> rmem \<and> rmem < heap_ptr s + heap_end s) then None
      else let mem = rmem - heap_ptr s - SIZEOF_STRUCT_MEM
           in if \<not> (used (hdr s mem) \<and> magic (hdr s mem) = HEAP_MAGIC) then None
              else let s = s\<lparr>hdr := (hdr s)(mem := (hdr s mem)\<lparr>used := False, magic := HEAP_MAGIC\<rparr>)\<rparr>;
                       s = (if mem < lfree s then s\<lparr>lfree := mem\<rparr> else s);
                       s = s\<lparr>used_mem := used_mem s - (nxt (hdr s mem) - mem)\<rparr>
                   in plug_holes mem s)"

definition memcpy :: "nat \<Rightarrow> nat \<Rightarrow> nat \<Rightarrow> mem_heap \<Rightarrow> mem_heap" where
  "memcpy dst src n s = s\<lparr>bytes := (\<lambda>a. if dst \<le> a \<and> a < dst + n then bytes s (src + (a - dst)) else bytes s a)\<rparr>"

definition rt_realloc :: "nat \<Rightarrow> nat \<Rightarrow> mem_heap \<Rightarrow> (mem_heap \<times> nat) option" where
  "rt_realloc rmem newsize s =
     (let newsize = align32 newsize
      in if newsize > mem_size_aligned s then Some (s, 0)
         else if newsize = 0 then do { s \<leftarrow> rt_free rmem s; Some (s, 0) }
         else if rmem = 0 then rt_malloc newsize s
         else if rmem < heap_ptr s \<or> rmem \<ge> heap_ptr s + heap_end s then Some (s, rmem)
         else if rmem < heap_ptr s + SIZEOF_STRUCT_MEM then None
         else let ptr = rmem - heap_ptr s - SIZEOF_STRUCT_MEM;
                  mem = hdr s ptr;
                  sz = sub32 (nxt mem) (ptr + SIZEOF_STRUCT_MEM)
              in if sz = newsize then Some (s, rmem)
                 else if newsize + SIZEOF_STRUCT_MEM + MIN_SIZE < sz
                 then let ptr2 = ptr + SIZEOF_STRUCT_MEM + newsize;
                          h = (hdr s)(ptr2 := \<lparr>magic = HEAP_MAGIC, used = False, nxt = nxt mem, prv = ptr\<rparr>);
                          h = h(ptr := mem\<lparr>nxt := ptr2\<rparr>);
                          h = (if nxt mem \<noteq> mem_size_aligned s + SIZEOF_STRUCT_MEM
                               then h(nxt mem := (h (nxt mem))\<lparr>prv := ptr2\<rparr>) else h);
                          s = s\<lparr>used_mem := used_mem s - (sz - newsize), hdr := h,
                                lfree := (if ptr2 < lfree s then ptr2 else lfree s)\<rparr>
                      in do { s \<leftarrow> plug_holes ptr2 s; Some (s, rmem) }
                 else do { (s, nmem) \<leftarrow> rt_malloc newsize s;
                           if nmem = 0 then Some (s, 0)
                           else do { s \<leftarrow> rt_free rmem (memcpy nmem rmem (if sz < newsize then sz else newsize) s);
                                     Some (s, nmem) } })"

definition rt_calloc :: "nat \<Rightarrow> nat \<Rightarrow> mem_heap \<Rightarrow> (mem_heap \<times> nat) option" where
  "rt_calloc count sz s =
     do { (s, p) \<leftarrow> rt_malloc (count * sz mod 2 ^ 32) s;
          if p = 0 then Some (s, p)
          else Some (s\<lparr>bytes := (\<lambda>a. if p \<le> a \<and> a < p + count * sz mod 2 ^ 32 then 0 else bytes s a)\<rparr>, p) }"

definition rt_memory_info :: "mem_heap \<Rightarrow> nat \<times> nat \<times> nat" where
  "rt_memory_info s = (mem_size_aligned s, used_mem s, max_mem s)"

subsection \<open>Chains of blocks\<close>

text \<open>\<open>seg h p a bs e\<close>: the blocks \<open>bs\<close> fill the heap from \<open>a\<close> to \<open>e\<close>; \<open>p\<close> is the block before \<open>a\<close>.\<close>

fun seg :: "(nat \<Rightarrow> heap_mem) \<Rightarrow> nat \<Rightarrow> nat \<Rightarrow> nat list \<Rightarrow> nat \<Rightarrow> bool" where
  "seg h p a [] e \<longleftrightarrow> a = e"
| "seg h p a (b # bs) e \<longleftrightarrow>
     b = a \<and> prv (h a) = p \<and> a + 24 \<le> nxt (h a) \<and> 8 dvd nxt (h a) \<and> seg h a (nxt (h a)) bs e"

lemma seg_app: "seg h p a (xs @ ys) e \<longleftrightarrow> (\<exists>m. seg h p a xs m \<and> seg h (last (p # xs)) m ys e)"
  by (induction xs arbitrary: p a) auto

lemma seg_mid:
  "seg h p a (xs @ b # ys) e \<longleftrightarrow>
     seg h p a xs b \<and> prv (h b) = last (p # xs) \<and> b + 24 \<le> nxt (h b) \<and> 8 dvd nxt (h b) \<and> seg h b (nxt (h b)) ys e"
  by (auto simp: seg_app)

lemma seg_le: "seg h p a bs e \<Longrightarrow> a \<le> e"
  by (induction bs arbitrary: p a) fastforce+

lemma seg_bounds:
  assumes "seg h p a bs e" "b \<in> set bs"
  shows "a \<le> b" "b + 24 \<le> nxt (h b)" "nxt (h b) \<le> e" "8 dvd nxt (h b)"
  using assms by (induction bs arbitrary: p a) (fastforce dest: seg_le)+

lemma seg_sorted: "seg h p a bs e \<Longrightarrow> sorted_wrt (\<lambda>b c. nxt (h b) \<le> c) bs"
  by (induction bs arbitrary: p a) (auto dest: seg_bounds)

lemma seg_distinct: "seg h p a bs e \<Longrightarrow> distinct bs"
proof (induction bs arbitrary: p a)
  case (Cons b bs)
  then show ?case using seg_bounds(1) [of h b "nxt (h b)" bs e b] by auto
qed simp

lemma seg_dvd: "seg h p a bs e \<Longrightarrow> 8 dvd a \<Longrightarrow> b \<in> set bs \<Longrightarrow> 8 dvd b"
  by (induction bs arbitrary: p a) auto

lemma seg_length: "seg h p a bs e \<Longrightarrow> length bs + a \<le> e"
  by (induction bs arbitrary: p a) fastforce+

lemma seg_cong:
  "(\<And>b. b \<in> set bs \<Longrightarrow> nxt (h' b) = nxt (h b) \<and> prv (h' b) = prv (h b)) \<Longrightarrow> seg h' p a bs e = seg h p a bs e"
  by (induction bs arbitrary: p a) auto

lemma seg_repoint:
  assumes "seg h c m bs e"
    "\<And>d. d \<in> set bs \<Longrightarrow> nxt (h' d) = nxt (h d) \<and> prv (h' d) = (if d = m then c' else prv (h d))"
  shows "seg h' c' m bs e"
proof (cases bs)
  case (Cons b bs')
  have "b < d" if "d \<in> set bs'" for d
    using that assms(1) seg_bounds(1) [of h b "nxt (h b)" bs' e d] Cons by auto
  then have "seg h' b (nxt (h b)) bs' e = seg h b (nxt (h b)) bs' e"
    using assms Cons by (intro seg_cong) fastforce
  then show ?thesis using assms Cons by auto
qed (use assms in simp)

lemma seg_around:
  assumes "seg h p a (xs @ b # ys) e" "d \<in> set xs \<or> d \<in> set ys"
  shows "d \<in> set xs \<Longrightarrow> d < b \<and> d \<notin> set ys" "d \<in> set ys \<Longrightarrow> b < d \<and> nxt (h b) \<le> d \<and> d \<notin> set xs"
  using assms seg_bounds [of h p a xs b d] seg_bounds [of h b "nxt (h b)" ys e d] by (auto simp: seg_mid)

lemma seg_insert_block:
  assumes s: "seg h p a (xs @ b # ys) e" and c: "b + 24 \<le> c" "c + 24 \<le> nxt (h b)" "8 dvd c"
    and h': "nxt (h' b) = c" "prv (h' b) = prv (h b)" "nxt (h' c) = nxt (h b)" "prv (h' c) = b"
      "\<And>d. d \<in> set xs \<Longrightarrow> nxt (h' d) = nxt (h d) \<and> prv (h' d) = prv (h d)"
      "\<And>d. d \<in> set ys \<Longrightarrow> nxt (h' d) = nxt (h d) \<and> prv (h' d) = (if d = nxt (h b) then c else prv (h d))"
  shows "seg h' p a (xs @ b # c # ys) e"
proof -
  have "seg h' p a xs b" using s h'(5) seg_cong [of xs h' h p a b] by (simp add: seg_mid)
  moreover have "seg h b (nxt (h b)) ys e" using s by (simp add: seg_mid)
  then have "seg h' c (nxt (h b)) ys e" by (rule seg_repoint [OF _ h'(6)])
  moreover have "prv (h b) = last (p # xs)" "8 dvd nxt (h b)" using s by (simp_all add: seg_mid)
  ultimately show ?thesis using c h'(1-4) unfolding seg_mid seg.simps by simp
qed

lemma seg_merge_block:
  assumes s: "seg h p a (xs @ b # c # ys) e"
    and h': "nxt (h' b) = nxt (h c)" "prv (h' b) = prv (h b)"
      "\<And>d. d \<in> set xs \<Longrightarrow> nxt (h' d) = nxt (h d) \<and> prv (h' d) = prv (h d)"
      "\<And>d. d \<in> set ys \<Longrightarrow> nxt (h' d) = nxt (h d) \<and> prv (h' d) = (if d = nxt (h c) then b else prv (h d))"
  shows "seg h' p a (xs @ b # ys) e"
proof -
  have "seg h' p a xs b" using s h'(3) seg_cong [of xs h' h p a b] by (simp add: seg_mid)
  moreover have "seg h c (nxt (h c)) ys e" using s by (auto simp: seg_mid)
  then have "seg h' b (nxt (h c)) ys e" by (rule seg_repoint [OF _ h'(4)])
  moreover have "b + 24 \<le> nxt (h c)" "8 dvd nxt (h c)" using s by (auto simp: seg_mid)
  moreover have "prv (h b) = last (p # xs)" using s by (simp add: seg_mid)
  ultimately show ?thesis using h'(1,2) unfolding seg_mid seg.simps by simp
qed

text \<open>The chain as an executable walk.\<close>

fun walk :: "nat \<Rightarrow> (nat \<Rightarrow> heap_mem) \<Rightarrow> nat \<Rightarrow> nat \<Rightarrow> nat list" where
  "walk 0 h a e = []"
| "walk (Suc n) h a e = (if a = e then [] else a # walk n h (nxt (h a)) e)"

lemma seg_walk: "seg h p a bs e \<Longrightarrow> length bs \<le> n \<Longrightarrow> walk n h a e = bs"
proof (induction bs arbitrary: p a n)
  case (Cons b bs)
  then show ?case using seg_le [of h a "nxt (h a)" bs e] by (cases n) auto
next
  case Nil
  then show ?case by (cases n) simp_all
qed

definition blocks :: "mem_heap \<Rightarrow> nat list" where
  "blocks s = walk (heap_end s) (hdr s) 0 (heap_end s)"

lemma seg_blocks: "seg (hdr s) 0 0 bs (heap_end s) \<Longrightarrow> blocks s = bs"
  using seg_length [of "hdr s" 0 0 bs "heap_end s"] by (auto simp: blocks_def intro: seg_walk)

subsection \<open>Invariant\<close>

definition usum :: "(nat \<Rightarrow> heap_mem) \<Rightarrow> nat list \<Rightarrow> nat" where
  "usum h bs = sum_list (map (\<lambda>b. if used (h b) then nxt (h b) - b else 0) bs)"

definition first_free :: "(nat \<Rightarrow> heap_mem) \<Rightarrow> nat list \<Rightarrow> nat \<Rightarrow> nat" where
  "first_free h bs e = (case filter (\<lambda>b. \<not> used (h b)) bs of [] \<Rightarrow> e | b # _ \<Rightarrow> b)"

definition coalesced :: "(nat \<Rightarrow> heap_mem) \<Rightarrow> nat list \<Rightarrow> bool" where
  "coalesced h bs \<longleftrightarrow> successively (\<lambda>b c. used (h b) \<or> used (h c)) bs"

definition in_use :: "(nat \<Rightarrow> heap_mem) \<Rightarrow> nat list \<Rightarrow> (nat \<times> nat) list" where
  "in_use h bs = map (\<lambda>b. (b, nxt (h b))) (filter (\<lambda>b. used (h b)) bs)"

definition core :: "mem_heap \<Rightarrow> nat list \<Rightarrow> bool" where
  "core s bs \<longleftrightarrow> seg (hdr s) 0 0 bs (heap_end s) \<and> bs \<noteq> [] \<and>
     (\<forall>b \<in> set bs. magic (hdr s b) = HEAP_MAGIC) \<and> used (hdr s (heap_end s)) \<and>
     heap_end s = mem_size_aligned s + SIZEOF_STRUCT_MEM \<and> 16 \<le> mem_size_aligned s \<and>
     8 dvd heap_ptr s \<and> 0 < heap_ptr s \<and> heap_ptr s + heap_end s < 2 ^ 32 \<and>
     used_mem s = usum (hdr s) bs \<and> used_mem s \<le> max_mem s"

definition heap_ok :: "mem_heap \<Rightarrow> nat list \<Rightarrow> bool" where
  "heap_ok s bs \<longleftrightarrow> core s bs \<and> lfree s = first_free (hdr s) bs (heap_end s) \<and> coalesced (hdr s) bs"

lemma coreD:
  assumes "core s bs"
  shows "seg (hdr s) 0 0 bs (heap_end s)" "bs \<noteq> []" "b \<in> set bs \<Longrightarrow> magic (hdr s b) = HEAP_MAGIC"
    "used (hdr s (heap_end s))" "heap_end s = mem_size_aligned s + SIZEOF_STRUCT_MEM" "16 \<le> mem_size_aligned s"
    "8 dvd heap_ptr s" "0 < heap_ptr s" "heap_ptr s + heap_end s < 2 ^ 32"
    "used_mem s = usum (hdr s) bs" "used_mem s \<le> max_mem s"
  using assms by (auto simp: core_def)

lemma core_upd [simp]: "core (s\<lparr>lfree := x\<rparr>) bs = core s bs" "core (s\<lparr>bytes := m\<rparr>) bs = core s bs"
  by (simp_all add: core_def)

lemma first_free_simps [simp]:
  "first_free h [] e = e"
  "first_free h (b # bs) e = (if used (h b) then first_free h bs e else b)"
  by (simp_all add: first_free_def)

lemma first_free_app: "first_free h (xs @ ys) e = first_free h xs (first_free h ys e)"
  by (induction xs) auto

lemma first_free_cong: "(\<And>b. b \<in> set bs \<Longrightarrow> used (h' b) = used (h b)) \<Longrightarrow> first_free h' bs e = first_free h bs e"
  by (induction bs) auto

lemma first_free_cases: "first_free h bs e = e \<or> first_free h bs e \<in> set bs"
  by (induction bs) auto

lemma first_free_some:
  assumes "b \<in> set bs" "\<not> used (h b)"
  shows "first_free h bs e \<in> set bs" "first_free h bs e = first_free h bs e'"
  using assms by (induction bs) auto

lemma first_free_all_used: "(\<forall>b \<in> set bs. used (h b)) \<Longrightarrow> first_free h bs e = e"
  by (induction bs) auto

lemma usum_simps [simp]:
  "usum h [] = 0" "usum h (b # bs) = (if used (h b) then nxt (h b) - b else 0) + usum h bs"
  "usum h (xs @ ys) = usum h xs + usum h ys"
  by (simp_all add: usum_def)

lemma usum_cong:
  "(\<And>b. b \<in> set bs \<Longrightarrow> used (h' b) = used (h b) \<and> (used (h b) \<longrightarrow> nxt (h' b) = nxt (h b))) \<Longrightarrow> usum h' bs = usum h bs"
  by (induction bs) auto

lemma in_use_simps [simp]:
  "in_use h [] = []" "in_use h (b # bs) = (if used (h b) then [(b, nxt (h b))] else []) @ in_use h bs"
  "in_use h (xs @ ys) = in_use h xs @ in_use h ys"
  by (simp_all add: in_use_def)

lemma in_use_cong:
  "(\<And>b. b \<in> set bs \<Longrightarrow> used (h' b) = used (h b) \<and> (used (h b) \<longrightarrow> nxt (h' b) = nxt (h b))) \<Longrightarrow> in_use h' bs = in_use h bs"
  by (induction bs) auto

lemma coalesced_simps [simp]:
  "coalesced h []" "coalesced h [b]"
  "coalesced h (b # c # bs) \<longleftrightarrow> (used (h b) \<or> used (h c)) \<and> coalesced h (c # bs)"
  by (simp_all add: coalesced_def)

lemma coalesced_tl: "coalesced h (b # bs) \<Longrightarrow> coalesced h bs"
  by (cases bs) auto

lemma coalesced_app:
  "coalesced h (xs @ ys) \<longleftrightarrow> coalesced h xs \<and> coalesced h ys \<and> (xs = [] \<or> ys = [] \<or> used (h (last xs)) \<or> used (h (hd ys)))"
  by (auto simp: coalesced_def successively_append_iff)

lemma coalesced_cong: "(\<And>b. b \<in> set bs \<Longrightarrow> used (h' b) = used (h b)) \<Longrightarrow> coalesced h' bs = coalesced h bs"
  unfolding coalesced_def by (rule successively_cong) auto

text \<open>What an operation leaves alone.\<close>

definition same_heap :: "mem_heap \<Rightarrow> mem_heap \<Rightarrow> bool" where
  "same_heap s s' \<longleftrightarrow> heap_ptr s' = heap_ptr s \<and> heap_end s' = heap_end s \<and> mem_size_aligned s' = mem_size_aligned s"

subsection \<open>Merging\<close>

lemma plug_forward_hdr:
  assumes "seg (hdr s) 0 0 (xs @ b # c # ys) (heap_end s)" "\<not> used (hdr s c)"
  shows "nxt (hdr (plug_forward b s) d) = (if d = b then nxt (hdr s c) else nxt (hdr s d))"
    "prv (hdr (plug_forward b s) d) = (if d = nxt (hdr s c) then b else prv (hdr s d))"
    "used (hdr (plug_forward b s) d) = used (hdr s d)" "magic (hdr (plug_forward b s) d) = magic (hdr s d)"
    "lfree (plug_forward b s) = (if lfree s = c then b else lfree s)"
    "used_mem (plug_forward b s) = used_mem s" "max_mem (plug_forward b s) = max_mem s"
    "bytes (plug_forward b s) = bytes s" "same_heap s (plug_forward b s)"
proof -
  have c: "nxt (hdr s b) = c" "b < c" "c < nxt (hdr s c)" "c < heap_end s"
    using assms(1) seg_bounds [of "hdr s" b "nxt (hdr s b)" "c # ys" "heap_end s" c] by (auto simp: seg_mid)
  then have "plug_forward b s = s\<lparr>lfree := (if lfree s = c then b else lfree s),
      hdr := (hdr s)(b := (hdr s b)\<lparr>nxt := nxt (hdr s c)\<rparr>, nxt (hdr s c) := (hdr s (nxt (hdr s c)))\<lparr>prv := b\<rparr>)\<rparr>"
    using assms(2) by (simp add: plug_forward_def Let_def)
  then show "nxt (hdr (plug_forward b s) d) = (if d = b then nxt (hdr s c) else nxt (hdr s d))"
    "prv (hdr (plug_forward b s) d) = (if d = nxt (hdr s c) then b else prv (hdr s d))"
    "used (hdr (plug_forward b s) d) = used (hdr s d)" "magic (hdr (plug_forward b s) d) = magic (hdr s d)"
    "lfree (plug_forward b s) = (if lfree s = c then b else lfree s)"
    "used_mem (plug_forward b s) = used_mem s" "max_mem (plug_forward b s) = max_mem s"
    "bytes (plug_forward b s) = bytes s" "same_heap s (plug_forward b s)"
    using c by (auto simp: same_heap_def)
qed

lemma plug_forward_merge:
  assumes "core s (xs @ b # c # ys)" "\<not> used (hdr s b)" "\<not> used (hdr s c)"
    "lfree s = first_free (hdr s) (xs @ b # c # ys) (heap_end s)"
  shows "core (plug_forward b s) (xs @ b # ys)"
    "lfree (plug_forward b s) = first_free (hdr s) (xs @ b # ys) (heap_end s)"
    "in_use (hdr (plug_forward b s)) (xs @ b # ys) = in_use (hdr s) (xs @ b # c # ys)"
proof -
  note sg = coreD(1) [OF assms(1)]
  note f = plug_forward_hdr [OF sg assms(3)]
  have out: "d \<noteq> b" "d \<noteq> c" if "d \<in> set xs \<or> d \<in> set ys" for d
    using seg_distinct [OF sg] that by auto
  have nc: "d < nxt (hdr s c)" if "d \<in> set xs" for d
    using seg_bounds(3) [of "hdr s" 0 0 xs b d] seg_bounds(2) [of "hdr s" 0 0 xs b d] that sg by (auto simp: seg_mid)
  have "seg (hdr (plug_forward b s)) 0 0 (xs @ b # ys) (heap_end s)"
  proof (rule seg_merge_block [OF sg])
    show "nxt (hdr (plug_forward b s) b) = nxt (hdr s c)" by (simp add: f(1))
    show "prv (hdr (plug_forward b s) b) = prv (hdr s b)" using sg by (auto simp: f(2) seg_mid)
    show "nxt (hdr (plug_forward b s) d) = nxt (hdr s d) \<and> prv (hdr (plug_forward b s) d) = prv (hdr s d)"
      if "d \<in> set xs" for d using out [of d] nc [of d] that by (simp add: f(1,2))
    show "nxt (hdr (plug_forward b s) d) = nxt (hdr s d) \<and>
        prv (hdr (plug_forward b s) d) = (if d = nxt (hdr s c) then b else prv (hdr s d))"
      if "d \<in> set ys" for d using out [of d] that by (simp add: f(1,2))
  qed
  moreover have "usum (hdr (plug_forward b s)) (xs @ b # ys) = usum (hdr s) (xs @ b # c # ys)"
    using f(1,3) out assms(2,3) usum_cong [of xs "hdr (plug_forward b s)" "hdr s"] usum_cong [of ys "hdr (plug_forward b s)" "hdr s"]
    by simp
  ultimately show "core (plug_forward b s) (xs @ b # ys)"
    using assms(1) f by (auto simp: core_def same_heap_def)
  show "in_use (hdr (plug_forward b s)) (xs @ b # ys) = in_use (hdr s) (xs @ b # c # ys)"
    using f(1,3) out assms(2,3) in_use_cong [of xs "hdr (plug_forward b s)" "hdr s"] in_use_cong [of ys "hdr (plug_forward b s)" "hdr s"]
    by simp
  have "first_free (hdr s) xs b \<noteq> c" using first_free_cases [of "hdr s" xs b] out sg by (auto simp: seg_mid)
  then show "lfree (plug_forward b s) = first_free (hdr s) (xs @ b # ys) (heap_end s)"
    using f(5) assms(2,4) by (simp add: first_free_app)
qed

lemma plug_forward_id:
  assumes "core s (xs @ b # ys)" "ys = [] \<or> used (hdr s (hd ys))"
  shows "plug_forward b s = s"
  using assms by (cases ys) (auto simp: plug_forward_def core_def seg_mid Let_def)

lemma plug_backward_id:
  assumes "core s (xs @ b # ys)" "xs = [] \<or> used (hdr s (last xs))"
  shows "plug_backward b s = s"
  using assms by (cases "xs = []") (auto simp: plug_backward_def core_def seg_mid Let_def)

lemma plug_backward_forward:
  assumes "core s (xs @ a # b # ys)" "\<not> used (hdr s a)" "\<not> used (hdr s b)"
    "lfree s = first_free (hdr s) (xs @ a # b # ys) (heap_end s)"
  shows "plug_backward b s = plug_forward a s"
proof -
  note sg = coreD(1) [OF assms(1)]
  have ab: "nxt (hdr s a) = b" "prv (hdr s b) = a" "a < b" "b < heap_end s"
    using sg seg_bounds(2,3) [of "hdr s" 0 0 "xs @ a # b # ys" "heap_end s" b] by (auto simp: seg_mid)
  have "first_free (hdr s) xs a \<noteq> b" using first_free_cases [of "hdr s" xs a] seg_distinct [OF sg] by auto
  then have "lfree s \<noteq> b" using assms(2,4) by (simp add: first_free_app)
  then show ?thesis using ab assms(2,3) by (auto simp: plug_backward_def plug_forward_def Let_def)
qed

lemma plug_holes_ok:
  assumes "core s (xs @ b # ys)" "\<not> used (hdr s b)" "lfree s = first_free (hdr s) (xs @ b # ys) (heap_end s)"
    "coalesced (hdr s) xs" "coalesced (hdr s) ys"
  obtains s' bs' where "plug_holes b s = Some s'" "heap_ok s' bs'" "in_use (hdr s') bs' = in_use (hdr s) (xs @ b # ys)"
    "same_heap s s'" "bytes s' = bytes s" "max_mem s' = max_mem s"
proof -
  define s1 where "s1 = plug_forward b s"
  obtain ys1 where 1: "core s1 (xs @ b # ys1)" "lfree s1 = first_free (hdr s) (xs @ b # ys1) (heap_end s)"
    "in_use (hdr s1) (xs @ b # ys1) = in_use (hdr s) (xs @ b # ys)" "\<And>d. used (hdr s1 d) = used (hdr s d)"
    "coalesced (hdr s) (b # ys1)" "same_heap s s1" "bytes s1 = bytes s" "max_mem s1 = max_mem s"
  proof (cases "ys = [] \<or> used (hdr s (hd ys))")
    case True
    then have "s1 = s" using plug_forward_id assms(1) by (simp add: s1_def)
    moreover have "coalesced (hdr s) (b # ys)" using True assms(5) by (cases ys) auto
    ultimately show ?thesis using that [of ys] assms by (simp add: same_heap_def)
  next
    case False
    then obtain c zs where ys: "ys = c # zs" and c: "\<not> used (hdr s c)" by (cases ys) auto
    note m = plug_forward_merge [OF assms(1) [unfolded ys] assms(2) c assms(3) [unfolded ys], folded s1_def ys]
    have "seg (hdr s) 0 0 (xs @ b # c # zs) (heap_end s)" using coreD(1) [OF assms(1)] ys by simp
    note f = plug_forward_hdr [OF this c, folded s1_def]
    have "coalesced (hdr s) (b # zs)" using assms(5) c unfolding ys by (cases zs) auto
    then show ?thesis using that [of zs] m f by simp
  qed
  define s2 where "s2 = plug_backward b s1"
  have b: "b < heap_end s" using seg_bounds(2,3) [OF coreD(1) [OF assms(1)], of b] by simp
  have p: "plug_holes b s = Some s2" using b assms(2) by (simp add: plug_holes_def s2_def s1_def)
  have e: "heap_end s1 = heap_end s" using 1(6) by (simp add: same_heap_def)
  have ff: "lfree s1 = first_free (hdr s1) (xs @ b # ys1) (heap_end s1)"
    using 1(2,4) e first_free_cong [of "xs @ b # ys1" "hdr s1" "hdr s"] by simp
  have co: "coalesced (hdr s1) xs" "coalesced (hdr s1) (b # ys1)"
    using assms(4) 1(4,5) coalesced_cong [of xs "hdr s1" "hdr s"] coalesced_cong [of "b # ys1" "hdr s1" "hdr s"] by simp_all
  show thesis
  proof (cases "xs = [] \<or> used (hdr s1 (last xs))")
    case True
    then have "s2 = s1" using plug_backward_id 1(1) by (simp add: s2_def)
    moreover have "heap_ok s1 (xs @ b # ys1)"
      using 1(1) ff co True unfolding heap_ok_def coalesced_app by auto
    ultimately show thesis using that [OF p] 1 by simp
  next
    case False
    then obtain zs a where xs: "xs = zs @ [a]" and a: "\<not> used (hdr s1 a)" by (cases xs rule: rev_cases) auto
    have nb: "\<not> used (hdr s1 b)" using assms(2) 1(4) by simp
    have c1: "core s1 (zs @ a # b # ys1)" "lfree s1 = first_free (hdr s1) (zs @ a # b # ys1) (heap_end s1)"
      using 1(1) ff xs by simp_all
    have s2: "s2 = plug_forward a s1" unfolding s2_def by (rule plug_backward_forward [OF c1(1) a nb c1(2)])
    note m = plug_forward_merge [OF c1(1) a nb c1(2), folded s2]
    have "seg (hdr s1) 0 0 (zs @ a # b # ys1) (heap_end s1)" using coreD(1) [OF c1(1)] .
    note f = plug_forward_hdr [OF this nb, folded s2]
    have "coalesced (hdr s1) (zs @ a # ys1)"
      using co a nb unfolding xs coalesced_app by (cases ys1) auto
    then have "heap_ok s2 (zs @ a # ys1)"
      using m(1,2) f(3,9) coalesced_cong [of "zs @ a # ys1" "hdr s2" "hdr s1"] first_free_cong [of "zs @ a # ys1" "hdr s2" "hdr s1"]
      by (simp add: heap_ok_def same_heap_def)
    then show thesis using that [OF p, of "zs @ a # ys1"] m(3) 1(3,6-8) f(7-9) xs by (simp add: same_heap_def)
  qed
qed

subsection \<open>Freeing\<close>

lemma rt_free_ok:
  assumes ok: "heap_ok s (xs @ b # ys)" and u: "used (hdr s b)"
  obtains s' bs' where "rt_free (heap_ptr s + b + SIZEOF_STRUCT_MEM) s = Some s'" "heap_ok s' bs'"
    "in_use (hdr s') bs' = in_use (hdr s) xs @ in_use (hdr s) ys" "same_heap s s'" "bytes s' = bytes s"
    "max_mem s' = max_mem s"
proof -
  have c: "core s (xs @ b # ys)" "lfree s = first_free (hdr s) (xs @ b # ys) (heap_end s)" "coalesced (hdr s) (xs @ b # ys)"
    using ok by (simp_all add: heap_ok_def)
  note sg = coreD(1) [OF c(1)] and d = seg_distinct [OF coreD(1) [OF c(1)]]
  define s1 where "s1 = s\<lparr>hdr := (hdr s)(b := (hdr s b)\<lparr>used := False, magic := HEAP_MAGIC\<rparr>),
    lfree := (if b < lfree s then b else lfree s), used_mem := used_mem s - (nxt (hdr s b) - b)\<rparr>"
  have h1: "nxt (hdr s1 e) = nxt (hdr s e)" "prv (hdr s1 e) = prv (hdr s e)"
    "magic (hdr s1 e) = (if e = b then HEAP_MAGIC else magic (hdr s e))" "used (hdr s1 e) \<longleftrightarrow> e \<noteq> b \<and> used (hdr s e)" for e
    by (auto simp: s1_def)
  have s1 [simp]: "heap_end s1 = heap_end s" "heap_ptr s1 = heap_ptr s" "mem_size_aligned s1 = mem_size_aligned s"
    "max_mem s1 = max_mem s" "bytes s1 = bytes s" by (simp_all add: s1_def)
  have bb: "b + 24 \<le> nxt (hdr s b)" "nxt (hdr s b) \<le> heap_end s" "8 dvd b"
    using seg_bounds [OF sg, of b] seg_dvd [OF sg, of b] by simp_all
  have cg: "usum (hdr s1) zs = usum (hdr s) zs" "in_use (hdr s1) zs = in_use (hdr s) zs"
    "first_free (hdr s1) zs e = first_free (hdr s) zs e" "coalesced (hdr s1) zs = coalesced (hdr s) zs" if "b \<notin> set zs" for zs e
    using that h1 by (auto intro!: usum_cong in_use_cong first_free_cong coalesced_cong)
  have "seg (hdr s1) 0 0 (xs @ b # ys) (heap_end s)" using sg seg_cong [of "xs @ b # ys" "hdr s1" "hdr s"] h1 by simp
  moreover have "used_mem s1 = usum (hdr s1) (xs @ b # ys)"
    using coreD(10) [OF c(1)] d u h1 cg by (simp add: s1_def)
  ultimately have c1: "core s1 (xs @ b # ys)"
    using c(1) h1 bb by (auto simp: core_def s1_def)
  have ff: "lfree s1 = first_free (hdr s1) (xs @ b # ys) (heap_end s1)"
  proof -
    have lt: "e < b" if "e \<in> set xs" for e
      using seg_around(1) [OF sg, of e] that by simp
    have gt: "b < first_free (hdr s) ys (heap_end s)"
      using first_free_cases [of "hdr s" ys "heap_end s"] seg_around(2) [OF sg] bb by fastforce
    show ?thesis
    proof (cases "\<forall>e \<in> set xs. used (hdr s e)")
      case True
      then have "first_free (hdr s) xs e = e" for e by (rule first_free_all_used)
      then show ?thesis using c(2) u d h1 cg gt by (simp add: s1_def first_free_app)
    next
      case False
      then obtain e where e: "e \<in> set xs" "\<not> used (hdr s e)" by blast
      note f = first_free_some [where h = "hdr s" and b = e and bs = xs and e = "first_free (hdr s) ys (heap_end s)", OF e]
      have "lfree s < b" using lt [OF f(1)] c(2) u by (simp add: first_free_app)
      then show ?thesis using c(2) u d h1 cg f(2) [of b] by (simp add: s1_def first_free_app)
    qed
  qed
  have co: "coalesced (hdr s1) xs" "coalesced (hdr s1) ys" using c(3) d cg coalesced_tl [of "hdr s" b ys] by (auto simp: coalesced_app)
  have "\<not> used (hdr s1 b)" by (simp add: h1)
  from plug_holes_ok [OF c1 this ff co] obtain s' bs' where
    r: "plug_holes b s1 = Some s'" "heap_ok s' bs'" "in_use (hdr s') bs' = in_use (hdr s1) (xs @ b # ys)"
      "same_heap s1 s'" "bytes s' = bytes s1" "max_mem s' = max_mem s1" by blast
  have "rt_free (heap_ptr s + b + SIZEOF_STRUCT_MEM) s = Some s'"
    using r(1) u bb coreD(3,7,8) [OF c(1)] unfolding s1_def by (cases "b < lfree s") (simp_all add: rt_free_def Let_def)
  then show thesis using that r(2-) d cg h1 by (simp add: same_heap_def)
qed

subsection \<open>Allocating\<close>

lemma sub32_eq:
  assumes "b \<le> a" "a < 2 ^ 32"
  shows "sub32 a b = a - b"
proof -
  have "a + 2 ^ 32 - b = a - b + 2 ^ 32" using assms(1) by simp
  then show ?thesis using assms(2) by (simp only: sub32_def mod_add_self2) simp
qed

text \<open>The blocks the search accepts; the last condition is the bound of its loop.\<close>

definition fits :: "mem_heap \<Rightarrow> nat \<Rightarrow> nat \<Rightarrow> bool" where
  "fits s sz b \<longleftrightarrow> \<not> used (hdr s b) \<and> b + SIZEOF_STRUCT_MEM + sz \<le> nxt (hdr s b) \<and> b + SIZEOF_STRUCT_MEM + sz < heap_end s"

lemma find_fit_eq:
  assumes "seg (hdr s) p a bs (heap_end s)" "heap_end s = mem_size_aligned s + SIZEOF_STRUCT_MEM" "heap_end s < 2 ^ 32"
    "sz \<le> mem_size_aligned s" "length bs < n"
  shows "find_fit n sz a s = Some (List.find (fits s sz) bs)"
  using assms(1,5)
proof (induction bs arbitrary: p a n)
  case Nil
  then obtain m where "n = Suc m" by (cases n) auto
  moreover have "\<not> a < mem_size_aligned s - sz" using Nil assms(2) by simp
  ultimately show ?case using assms(2-4) by (simp add: sub32_eq)
next
  case (Cons b bs)
  then obtain m where n: "n = Suc m" "length bs < m" by (cases n) auto
  have b: "b = a" "a + 24 \<le> nxt (hdr s a)" "seg (hdr s) a (nxt (hdr s a)) bs (heap_end s)" using Cons.prems by auto
  have e: "nxt (hdr s a) \<le> heap_end s" using seg_le [OF b(3)] .
  have sub: "sub32 (mem_size_aligned s) sz = mem_size_aligned s - sz"
    "sub32 (nxt (hdr s a)) (a + SIZEOF_STRUCT_MEM) = nxt (hdr s a) - a - SIZEOF_STRUCT_MEM"
    using assms(2-4) b(2) e by (simp_all add: sub32_eq)
  show ?case
  proof (cases "a < mem_size_aligned s - sz")
    case True
    then have "a + SIZEOF_STRUCT_MEM + sz < heap_end s" using assms(2) by simp
    moreover have "sz \<le> nxt (hdr s a) - a - SIZEOF_STRUCT_MEM \<longleftrightarrow> a + SIZEOF_STRUCT_MEM + sz \<le> nxt (hdr s a)"
      using b(2) by linarith
    ultimately show ?thesis using True n b(1) sub Cons.IH [OF b(3) n(2)] by (auto simp: fits_def)
  next
    case False
    have "\<not> fits s sz d" if "d \<in> set (b # bs)" for d
      using seg_bounds(1) [OF Cons.prems(1) that] False assms(2,4) by (auto simp: fits_def)
    then have "List.find (fits s sz) (b # bs) = None" by (auto simp: find_None_iff simp del: find.simps)
    then show ?thesis using False n sub by (simp del: List.find.simps)
  qed
qed

lemma next_free_eq:
  assumes "seg (hdr s) p a bs (heap_end s)" "used (hdr s (heap_end s))" "length bs < n"
  shows "next_free n a s = Some (first_free (hdr s) bs (heap_end s))"
  using assms(1,3)
proof (induction bs arbitrary: p a n)
  case Nil
  then show ?case by (cases n) auto
next
  case (Cons b bs)
  then obtain m where n: "n = Suc m" "length bs < m" by (cases n) auto
  have b: "b = a" "a + 24 \<le> nxt (hdr s a)" "seg (hdr s) a (nxt (hdr s a)) bs (heap_end s)" using Cons.prems by auto
  then have "a \<noteq> heap_end s" using seg_le [OF b(3)] by simp
  then show ?case using n b(1) Cons.IH [OF b(3) n(2)] by simp
qed

text \<open>Splitting the block \<open>b\<close> at \<open>c2\<close>: the first part is in use afterwards, the second is free.\<close>

definition split_at :: "nat \<Rightarrow> nat \<Rightarrow> mem_heap \<Rightarrow> mem_heap \<Rightarrow> bool" where
  "split_at b c2 s s' \<longleftrightarrow> same_heap s s' \<and> (\<forall>d.
     nxt (hdr s' d) = (if d = b then c2 else if d = c2 then nxt (hdr s b) else nxt (hdr s d)) \<and>
     prv (hdr s' d) = (if d = c2 then b else if d = nxt (hdr s b) \<and> d \<noteq> heap_end s then c2 else prv (hdr s d)) \<and>
     used (hdr s' d) = (d = b \<or> d \<noteq> c2 \<and> used (hdr s d)) \<and>
     magic (hdr s' d) = (if d = b \<or> d = c2 then HEAP_MAGIC else magic (hdr s d)))"

lemma split_at_ok:
  assumes c: "core s (xs @ b # ys)" and sp: "split_at b c2 s s'"
    and c2: "b + 24 \<le> c2" "c2 + 24 \<le> nxt (hdr s b)" "8 dvd c2"
    and um: "used_mem s' + (if used (hdr s b) then nxt (hdr s b) - b else 0) = used_mem s + (c2 - b)" "used_mem s' \<le> max_mem s'"
  shows "core s' (xs @ b # c2 # ys)"
    "in_use (hdr s') (xs @ b # c2 # ys) = in_use (hdr s) xs @ (b, c2) # in_use (hdr s) ys"
    "c2 \<notin> set xs" "c2 \<notin> set ys"
proof -
  note sg = coreD(1) [OF c]
  define n where "n = nxt (hdr s b)"
  have h: "nxt (hdr s' d) = (if d = b then c2 else if d = c2 then n else nxt (hdr s d))"
    "prv (hdr s' d) = (if d = c2 then b else if d = n \<and> d \<noteq> heap_end s then c2 else prv (hdr s d))"
    "used (hdr s' d) = (d = b \<or> d \<noteq> c2 \<and> used (hdr s d))"
    "magic (hdr s' d) = (if d = b \<or> d = c2 then HEAP_MAGIC else magic (hdr s d))" for d
    using sp unfolding split_at_def n_def by blast+
  have lim: "n \<le> heap_end s" "c2 + 24 \<le> n" using seg_bounds(3) [OF sg, of b] c2 by (simp_all add: n_def)
  have out: "d \<noteq> b" "d \<noteq> c2" "d \<in> set xs \<Longrightarrow> d < b" "d \<noteq> heap_end s" if "d \<in> set xs \<or> d \<in> set ys" for d
    using that seg_around [OF sg, of d] seg_bounds(2,3) [OF sg, of d] lim c2 unfolding n_def by auto
  then show "c2 \<notin> set xs" "c2 \<notin> set ys" by blast+
  have "seg (hdr s') 0 0 (xs @ b # c2 # ys) (heap_end s)"
  proof (rule seg_insert_block [OF sg c2])
    show "nxt (hdr s' b) = c2" "nxt (hdr s' c2) = nxt (hdr s b)" "prv (hdr s' c2) = b" "prv (hdr s' b) = prv (hdr s b)"
      using lim c2 by (auto simp: h n_def [symmetric])
    show "nxt (hdr s' d) = nxt (hdr s d) \<and> prv (hdr s' d) = prv (hdr s d)" if "d \<in> set xs" for d
      using out [of d] lim c2 that by (simp add: h)
    show "nxt (hdr s' d) = nxt (hdr s d) \<and> prv (hdr s' d) = (if d = nxt (hdr s b) then c2 else prv (hdr s d))" if "d \<in> set ys" for d
      using out [of d] that by (auto simp: h n_def [symmetric])
  qed
  moreover have cg: "usum (hdr s') zs = usum (hdr s) zs" "in_use (hdr s') zs = in_use (hdr s) zs"
    if "set zs \<subseteq> set xs \<or> set zs \<subseteq> set ys" for zs
    using that out h by (auto intro!: usum_cong in_use_cong)
  moreover have "used_mem s' = usum (hdr s') (xs @ b # c2 # ys)"
    using um(1) coreD(10) [OF c] cg [of xs] cg [of ys] c2 h(3) [of b] h(3) [of c2] h(1) [of b] by simp
  moreover have "same_heap s s'" using sp by (simp add: split_at_def)
  ultimately show "core s' (xs @ b # c2 # ys)"
    using c um(2) h(3,4) lim c2 by (auto simp: core_def same_heap_def)
  show "in_use (hdr s') (xs @ b # c2 # ys) = in_use (hdr s) xs @ (b, c2) # in_use (hdr s) ys"
    using cg [of xs] cg [of ys] h c2 by simp
qed

lemma take_block_split:
  assumes c: "core s (xs @ b # ys)" and u: "\<not> used (hdr s b)"
    and sz: "8 dvd sz" "16 \<le> sz" "b + SIZEOF_STRUCT_MEM + sz + 32 \<le> nxt (hdr s b)"
  shows "core (take_block sz b s) (xs @ b # (b + SIZEOF_STRUCT_MEM + sz) # ys)"
    "used (hdr (take_block sz b s) d) = (d = b \<or> d \<noteq> b + SIZEOF_STRUCT_MEM + sz \<and> used (hdr s d))"
    "in_use (hdr (take_block sz b s)) (xs @ b # (b + SIZEOF_STRUCT_MEM + sz) # ys) =
       in_use (hdr s) xs @ (b, b + SIZEOF_STRUCT_MEM + sz) # in_use (hdr s) ys"
proof -
  note sg = coreD(1) [OF c]
  define c2 s' where defs: "c2 = b + SIZEOF_STRUCT_MEM + sz" "s' = take_block sz b s"
  have bb: "nxt (hdr s b) \<le> heap_end s" "8 dvd b" using seg_bounds(3) [OF sg, of b] seg_dvd [OF sg, of b] by simp_all
  have lim: "c2 + 32 \<le> nxt (hdr s b)" "b < c2" "nxt (hdr s b) < 2 ^ 32" "heap_end s = mem_size_aligned s + SIZEOF_STRUCT_MEM"
    using sz(3) bb coreD(5,9) [OF c] by (auto simp: defs)
  have "sub32 (nxt (hdr s b)) (b + SIZEOF_STRUCT_MEM) \<ge> sz + SIZEOF_STRUCT_MEM + MIN_SIZE_ALIGNED"
    using lim by (simp add: sub32_eq defs(1))
  then have s': "s' = count_used (sz + SIZEOF_STRUCT_MEM) (s\<lparr>hdr := (let h = (hdr s)
      (c2 := \<lparr>magic = HEAP_MAGIC, used = False, nxt = nxt (hdr s b), prv = b\<rparr>, b := (hdr s b)\<lparr>nxt := c2, used := True, magic := HEAP_MAGIC\<rparr>)
      in if nxt (hdr s b) \<noteq> heap_end s then h(nxt (hdr s b) := (h (nxt (hdr s b)))\<lparr>prv := c2\<rparr>) else h)\<rparr>)"
    using lim by (simp add: take_block_def Let_def defs)
  have sp: "split_at b c2 s s'" using lim by (auto simp: split_at_def same_heap_def s' count_used_def Let_def)
  have "used_mem s' = used_mem s + (c2 - b)" "used_mem s' \<le> max_mem s'" by (auto simp: s' count_used_def defs(1))
  then have t: "core s' (xs @ b # c2 # ys)" "in_use (hdr s') (xs @ b # c2 # ys) = in_use (hdr s) xs @ (b, c2) # in_use (hdr s) ys"
    using split_at_ok [OF c sp] u lim bb sz by (auto simp: defs(1))
  then show "core (take_block sz b s) (xs @ b # (b + SIZEOF_STRUCT_MEM + sz) # ys)"
    "in_use (hdr (take_block sz b s)) (xs @ b # (b + SIZEOF_STRUCT_MEM + sz) # ys) =
       in_use (hdr s) xs @ (b, b + SIZEOF_STRUCT_MEM + sz) # in_use (hdr s) ys" by (simp_all add: defs)
  show "used (hdr (take_block sz b s) d) = (d = b \<or> d \<noteq> b + SIZEOF_STRUCT_MEM + sz \<and> used (hdr s d))"
    using sp by (auto simp: split_at_def defs)
qed

lemma take_block_whole:
  assumes c: "core s (xs @ b # ys)" and u: "\<not> used (hdr s b)"
    and sz: "b + SIZEOF_STRUCT_MEM + sz \<le> nxt (hdr s b)" "nxt (hdr s b) < b + SIZEOF_STRUCT_MEM + sz + 32"
  shows "core (take_block sz b s) (xs @ b # ys)"
    "used (hdr (take_block sz b s) d) = (d = b \<or> used (hdr s d))"
    "in_use (hdr (take_block sz b s)) (xs @ b # ys) = in_use (hdr s) xs @ (b, nxt (hdr s b)) # in_use (hdr s) ys"
    "lfree (take_block sz b s) = lfree s" "bytes (take_block sz b s) = bytes s" "same_heap s (take_block sz b s)"
proof -
  note sg = coreD(1) [OF c] and d = seg_distinct [OF coreD(1) [OF c]]
  define s' where "s' = take_block sz b s"
  have bb: "nxt (hdr s b) \<le> heap_end s" "b + 24 \<le> nxt (hdr s b)" using seg_bounds [OF sg, of b] by simp_all
  have "\<not> sub32 (nxt (hdr s b)) (b + SIZEOF_STRUCT_MEM) \<ge> sz + SIZEOF_STRUCT_MEM + MIN_SIZE_ALIGNED"
    using bb sz coreD(9) [OF c] by (simp add: sub32_eq)
  then have s': "s' = count_used (nxt (hdr s b) - b) (s\<lparr>hdr := (hdr s)(b := (hdr s b)\<lparr>used := True, magic := HEAP_MAGIC\<rparr>)\<rparr>)"
    by (simp add: take_block_def Let_def s'_def)
  have h: "nxt (hdr s' d) = nxt (hdr s d)" "prv (hdr s' d) = prv (hdr s d)" "used (hdr s' d) = (d = b \<or> used (hdr s d))"
    "magic (hdr s' d) = (if d = b then HEAP_MAGIC else magic (hdr s d))" for d
    by (auto simp: s' count_used_def)
  have st: "lfree s' = lfree s" "bytes s' = bytes s" "same_heap s s'" "used_mem s' = used_mem s + (nxt (hdr s b) - b)"
    "used_mem s' \<le> max_mem s'" by (auto simp: s' count_used_def same_heap_def)
  have cg: "usum (hdr s') zs = usum (hdr s) zs" "in_use (hdr s') zs = in_use (hdr s) zs" if "b \<notin> set zs" for zs
    using that h by (auto intro!: usum_cong in_use_cong)
  have "seg (hdr s') 0 0 (xs @ b # ys) (heap_end s)" using sg seg_cong [of "xs @ b # ys" "hdr s'" "hdr s"] h by simp
  then show "core (take_block sz b s) (xs @ b # ys)"
    using c u h st d cg unfolding s'_def [symmetric] by (auto simp: core_def same_heap_def)
  show "used (hdr (take_block sz b s) d) = (d = b \<or> used (hdr s d))"
    "lfree (take_block sz b s) = lfree s" "bytes (take_block sz b s) = bytes s" "same_heap s (take_block sz b s)"
    using h st unfolding s'_def by simp_all
  show "in_use (hdr (take_block sz b s)) (xs @ b # ys) = in_use (hdr s) xs @ (b, nxt (hdr s b)) # in_use (hdr s) ys"
    using cg d h unfolding s'_def [symmetric] by simp
qed

lemma take_block_ok:
  assumes ok: "heap_ok s (xs @ b # ys)" and u: "\<not> used (hdr s b)"
    and sz: "8 dvd sz" "16 \<le> sz" "b + SIZEOF_STRUCT_MEM + sz \<le> nxt (hdr s b)"
  obtains zs n where "core (take_block sz b s) (xs @ b # zs)" "coalesced (hdr (take_block sz b s)) (xs @ b # zs)"
    "used (hdr (take_block sz b s) b)" "\<And>d. d \<in> set xs \<Longrightarrow> used (hdr (take_block sz b s) d) = used (hdr s d)"
    "in_use (hdr (take_block sz b s)) (xs @ b # zs) = in_use (hdr s) xs @ (b, n) # in_use (hdr s) ys"
    "b + SIZEOF_STRUCT_MEM + sz \<le> n" "n \<le> nxt (hdr s b)"
proof -
  define s' where "s' = take_block sz b s"
  have c: "core s (xs @ b # ys)" and co: "coalesced (hdr s) (xs @ b # ys)" using ok by (simp_all add: heap_ok_def)
  note sg = coreD(1) [OF c]
  have d: "b \<notin> set xs" "b \<notin> set ys" using seg_distinct [OF sg] by auto
  have b: "coalesced (hdr s) (b # ys)" and co': "coalesced (hdr s) xs" "coalesced (hdr s) ys"
    using co coalesced_tl [of "hdr s" b ys] by (auto simp: coalesced_app)
  have ys: "ys = [] \<or> used (hdr s (hd ys))" using b u by (cases ys) auto
  show thesis
  proof (cases "b + SIZEOF_STRUCT_MEM + sz + 32 \<le> nxt (hdr s b)")
    case True
    let ?c = "b + SIZEOF_STRUCT_MEM + sz"
    note t = take_block_split [OF c u sz(1,2) True, folded s'_def]
    have out: "?c \<notin> set xs" "?c \<notin> set ys"
      using seg_around [OF sg, of ?c] True by auto
    have "coalesced (hdr s') zs = coalesced (hdr s) zs" if "b \<notin> set zs" "?c \<notin> set zs" for zs
      by (rule coalesced_cong) (use that in \<open>auto simp: t(2)\<close>)
    moreover have "ys = [] \<or> used (hdr s' (hd ys))" using ys out(2) by (cases ys) (auto simp: t(2))
    ultimately have "coalesced (hdr s') xs" "coalesced (hdr s') ys" "ys = [] \<or> used (hdr s' (hd ys))"
      using co' d out by simp_all
    then have "coalesced (hdr s') (xs @ b # ?c # ys)" using t(2) [of b] by (cases ys) (auto simp: coalesced_app)
    then show ?thesis using that [of "?c # ys" ?c] t d out True unfolding s'_def [symmetric] by auto
  next
    case False
    then have "nxt (hdr s b) < b + SIZEOF_STRUCT_MEM + sz + 32" by simp
    note t = take_block_whole [OF c u sz(3) this, folded s'_def]
    have "coalesced (hdr s') zs = coalesced (hdr s) zs" if "b \<notin> set zs" for zs
      by (rule coalesced_cong) (use that in \<open>auto simp: t(2)\<close>)
    then have "coalesced (hdr s') xs" "coalesced (hdr s') ys" using co' d by simp_all
    then have "coalesced (hdr s') (xs @ b # ys)" using t(2) [of b] by (cases ys) (auto simp: coalesced_app)
    then show ?thesis using that [of ys "nxt (hdr s b)"] t d sz(3) unfolding s'_def [symmetric] by auto
  qed
qed

lemma first_free_split:
  assumes "seg h p a bs e"
  obtains us vs p' where "bs = us @ vs" "\<forall>b \<in> set us. used (h b)" "seg h p' (first_free h bs e) vs e"
  using assms
proof (induction bs arbitrary: p a thesis)
  case Nil
  then show ?case by (auto intro: Nil(1) [of "[]" "[]"])
next
  case (Cons b bs)
  show ?case
  proof (cases "used (h b)")
    case True
    have "seg h b (nxt (h b)) bs e" using Cons.prems(2) by auto
    from Cons.IH [OF _ this] obtain us vs p' where
      "bs = us @ vs" "\<forall>b \<in> set us. used (h b)" "seg h p' (first_free h bs e) vs e" by blast
    then show ?thesis using True by (intro Cons.prems(1) [of "b # us" vs p']) auto
  next
    case False
    then show ?thesis using Cons.prems by (intro Cons.prems(1) [of "[]" "b # bs" p]) auto
  qed
qed

lemma find_app: "List.find P (xs @ ys) = (case List.find P xs of None \<Rightarrow> List.find P ys | Some x \<Rightarrow> Some x)"
  by (induction xs) auto

lemma find_fit_lfree:
  assumes "heap_ok s bs" "sz \<le> mem_size_aligned s"
  shows "find_fit (Suc (heap_end s)) sz (lfree s) s = Some (List.find (fits s sz) bs)"
proof -
  have c: "core s bs" "lfree s = first_free (hdr s) bs (heap_end s)" using assms(1) by (simp_all add: heap_ok_def)
  obtain us vs p' where v: "bs = us @ vs" "\<forall>b \<in> set us. used (hdr s b)" "seg (hdr s) p' (lfree s) vs (heap_end s)"
    using first_free_split [OF coreD(1) [OF c(1)]] c(2) by metis
  have "length vs < Suc (heap_end s)" using seg_length [OF v(3)] by simp
  then have "find_fit (Suc (heap_end s)) sz (lfree s) s = Some (List.find (fits s sz) vs)"
    using find_fit_eq [OF v(3)] assms(2) coreD(5,9) [OF c(1)] by simp
  moreover have "List.find (fits s sz) us = None" using v(2) by (auto simp: find_None_iff fits_def)
  ultimately show ?thesis by (simp add: v(1) find_app)
qed

definition malloc_size :: "nat \<Rightarrow> nat" where
  "malloc_size n = max MIN_SIZE_ALIGNED (align32 n)"

lemma align32_dvd: "8 dvd align32 n" by (simp add: align32_def)

lemma malloc_size_facts: "8 dvd malloc_size n" "16 \<le> malloc_size n" "align32 n \<le> malloc_size n"
  using align32_dvd [of n] by (auto simp: malloc_size_def max_def)

lemma rt_malloc_eq:
  assumes "n \<noteq> 0" "align32 n \<le> mem_size_aligned s"
  shows "rt_malloc n s =
    do { r \<leftarrow> find_fit (Suc (heap_end s)) (malloc_size n) (lfree s) s;
         case r of
           None \<Rightarrow> Some (s, 0)
         | Some ptr \<Rightarrow>
             let s' = take_block (malloc_size n) ptr s
             in do { lf \<leftarrow> (if ptr = lfree s then next_free (Suc (heap_end s)) ptr s' else Some (lfree s'));
                     if ptr + SIZEOF_STRUCT_MEM + malloc_size n \<le> heap_end s \<and>
                        (heap_ptr s + ptr + SIZEOF_STRUCT_MEM) mod 8 = 0 \<and> (heap_ptr s + ptr) mod 8 = 0
                     then Some (s'\<lparr>lfree := lf\<rparr>, heap_ptr s + ptr + SIZEOF_STRUCT_MEM)
                     else None } }"
proof -
  have m: "(if align32 n < MIN_SIZE_ALIGNED then MIN_SIZE_ALIGNED else align32 n) = malloc_size n"
    by (simp add: malloc_size_def max_def)
  show ?thesis using assms unfolding rt_malloc_def Let_def m by simp
qed

lemma rt_malloc_fail:
  assumes "heap_ok s bs" "n = 0 \<or> align32 n > mem_size_aligned s \<or> (\<forall>b \<in> set bs. \<not> fits s (malloc_size n) b)"
  shows "rt_malloc n s = Some (s, 0)"
proof (cases "n = 0 \<or> align32 n > mem_size_aligned s")
  case False
  then have "malloc_size n \<le> mem_size_aligned s"
    using assms(1) by (auto simp: malloc_size_def heap_ok_def core_def)
  moreover have "List.find (fits s (malloc_size n)) bs = None" using assms(2) False by (auto simp: find_None_iff)
  ultimately have "find_fit (Suc (heap_end s)) (malloc_size n) (lfree s) s = Some None"
    using find_fit_lfree [OF assms(1)] by simp
  then show ?thesis using False by (simp add: rt_malloc_eq del: find_fit.simps)
qed (auto simp: rt_malloc_def Let_def)

lemma rt_malloc_ok:
  assumes ok: "heap_ok s bs" and n: "n \<noteq> 0" "align32 n \<le> mem_size_aligned s" and ex: "\<exists>b \<in> set bs. fits s (malloc_size n) b"
  obtains s' bs' xs b ys m where "rt_malloc n s = Some (s', heap_ptr s + b + SIZEOF_STRUCT_MEM)" "heap_ok s' bs'"
    "bs = xs @ b # ys" "\<not> used (hdr s b)" "in_use (hdr s') bs' = in_use (hdr s) xs @ (b, m) # in_use (hdr s) ys"
    "b + SIZEOF_STRUCT_MEM + malloc_size n \<le> m" "m \<le> nxt (hdr s b)" "same_heap s s'" "bytes s' = bytes s"
proof -
  have c: "core s bs" "lfree s = first_free (hdr s) bs (heap_end s)" using ok by (simp_all add: heap_ok_def)
  have sz: "malloc_size n \<le> mem_size_aligned s" using n(2) coreD(6) [OF c(1)] by (simp add: malloc_size_def)
  have "List.find (fits s (malloc_size n)) bs \<noteq> None" using ex by (auto simp: find_None_iff)
  then obtain b where b: "List.find (fits s (malloc_size n)) bs = Some b" by blast
  then have fb: "b \<in> set bs" "fits s (malloc_size n) b" by (auto simp: find_Some_iff)
  then obtain xs ys where bs: "bs = xs @ b # ys" by (auto dest: split_list)
  have u: "\<not> used (hdr s b)" and fit: "b + SIZEOF_STRUCT_MEM + malloc_size n \<le> nxt (hdr s b)" using fb(2) by (simp_all add: fits_def)
  define s1 where "s1 = take_block (malloc_size n) b s"
  obtain zs m where t: "core s1 (xs @ b # zs)" "coalesced (hdr s1) (xs @ b # zs)" "used (hdr s1 b)"
    "\<And>d. d \<in> set xs \<Longrightarrow> used (hdr s1 d) = used (hdr s d)"
    "in_use (hdr s1) (xs @ b # zs) = in_use (hdr s) xs @ (b, m) # in_use (hdr s) ys"
    "b + SIZEOF_STRUCT_MEM + malloc_size n \<le> m" "m \<le> nxt (hdr s b)"
    using take_block_ok [OF ok [unfolded bs] u malloc_size_facts(1,2) fit, folded s1_def] by blast
  have st: "lfree s1 = lfree s" "bytes s1 = bytes s" "same_heap s s1"
    by (auto simp: s1_def take_block_def count_used_def same_heap_def Let_def)
  then have e: "heap_end s1 = heap_end s" by (simp add: same_heap_def)
  define lf where "lf = first_free (hdr s1) (xs @ b # zs) (heap_end s1)"
  have lf: "(if b = lfree s then next_free (Suc (heap_end s)) b s1 else Some (lfree s1)) = Some lf"
  proof (cases "\<forall>d \<in> set xs. used (hdr s d)")
    case True
    then have "lfree s = b" using c(2) u first_free_all_used [of xs "hdr s"] by (simp add: bs first_free_app)
    moreover have sg: "seg (hdr s1) (last (0 # xs)) b (b # zs) (heap_end s1)"
      using coreD(1) [OF t(1)] by (simp add: seg_mid)
    moreover have "first_free (hdr s1) xs d = d" for d using True t(4) by (intro first_free_all_used) auto
    ultimately show ?thesis
      using next_free_eq [OF sg coreD(4) [OF t(1)], of "Suc (heap_end s)"] seg_length [OF sg] e
      by (simp add: lf_def first_free_app del: next_free.simps)
  next
    case False
    then obtain d where d: "d \<in> set xs" "\<not> used (hdr s d)" by blast
    note f = first_free_some [where h = "hdr s" and b = d and bs = xs, OF d]
    have "lfree s = first_free (hdr s) xs b" using c(2) f(2) u by (simp add: bs first_free_app)
    moreover have "lfree s \<noteq> b" using calculation f(1) [of b] seg_distinct [OF coreD(1) [OF c(1)]] by (auto simp: bs)
    moreover have "lf = first_free (hdr s) xs b"
      unfolding lf_def first_free_app using first_free_cong [of xs "hdr s1" "hdr s"] t(4) f(2) by metis
    ultimately show ?thesis using st by simp
  qed
  have "b + SIZEOF_STRUCT_MEM + malloc_size n \<le> heap_end s"
    using fit seg_bounds(3) [OF coreD(1) [OF c(1)] fb(1)] by simp
  moreover have "8 dvd b" using seg_dvd [OF coreD(1) [OF c(1)] _ fb(1)] by simp
  then have "(heap_ptr s + b) mod 8 = 0" "(heap_ptr s + b + SIZEOF_STRUCT_MEM) mod 8 = 0"
    using coreD(7) [OF c(1)] by (auto simp flip: dvd_eq_mod_eq_0)
  ultimately have r: "rt_malloc n s = Some (s1\<lparr>lfree := lf\<rparr>, heap_ptr s + b + SIZEOF_STRUCT_MEM)"
    unfolding rt_malloc_eq [OF n] find_fit_lfree [OF ok sz] b by (simp only: Option.bind.simps option.case Let_def s1_def [symmetric] lf) simp
  have "heap_ok (s1\<lparr>lfree := lf\<rparr>) (xs @ b # zs)" using t(1,2) by (simp add: heap_ok_def lf_def)
  then show thesis using that [OF r _ bs u] t st by (simp add: same_heap_def)
qed

subsection \<open>Reallocating\<close>

lemma heap_ok_bytes [simp]: "heap_ok (s\<lparr>bytes := m\<rparr>) bs = heap_ok s bs"
  by (simp add: heap_ok_def)

lemma realloc_shrink:
  assumes ok: "heap_ok s (xs @ b # ys)" and u: "used (hdr s b)"
    and sz: "8 dvd sz" "8 \<le> sz" "sz \<le> mem_size_aligned s" "sz + SIZEOF_STRUCT_MEM + MIN_SIZE < nxt (hdr s b) - b - SIZEOF_STRUCT_MEM"
    and n: "align32 n = sz"
  obtains s' bs' where "rt_realloc (heap_ptr s + b + SIZEOF_STRUCT_MEM) n s = Some (s', heap_ptr s + b + SIZEOF_STRUCT_MEM)"
    "heap_ok s' bs'" "in_use (hdr s') bs' = in_use (hdr s) xs @ (b, b + SIZEOF_STRUCT_MEM + sz) # in_use (hdr s) ys"
    "same_heap s s'" "bytes s' = bytes s"
proof -
  have c: "core s (xs @ b # ys)" "lfree s = first_free (hdr s) (xs @ b # ys) (heap_end s)" "coalesced (hdr s) (xs @ b # ys)"
    using ok by (simp_all add: heap_ok_def)
  note sg = coreD(1) [OF c(1)] and dis = seg_distinct [OF coreD(1) [OF c(1)]]
  define c2 where "c2 = b + SIZEOF_STRUCT_MEM + sz"
  define old where "old = nxt (hdr s b) - b - SIZEOF_STRUCT_MEM"
  have bb: "nxt (hdr s b) \<le> heap_end s" "8 dvd b" using seg_bounds(3) [OF sg, of b] seg_dvd [OF sg, of b] by simp_all
  have lim: "c2 + 28 < nxt (hdr s b)" "b < c2" "nxt (hdr s b) < 2 ^ 32" "heap_end s = mem_size_aligned s + SIZEOF_STRUCT_MEM"
    using sz(4) bb coreD(5,9) [OF c(1)] by (auto simp: c2_def)
  define s1 where "s1 = s\<lparr>used_mem := used_mem s - (old - sz), hdr := (let h = (hdr s)
      (c2 := \<lparr>magic = HEAP_MAGIC, used = False, nxt = nxt (hdr s b), prv = b\<rparr>, b := (hdr s b)\<lparr>nxt := c2\<rparr>)
      in if nxt (hdr s b) \<noteq> mem_size_aligned s + SIZEOF_STRUCT_MEM then h(nxt (hdr s b) := (h (nxt (hdr s b)))\<lparr>prv := c2\<rparr>) else h),
      lfree := (if c2 < lfree s then c2 else lfree s)\<rparr>"
  have mg: "magic (hdr s b) = HEAP_MAGIC" using coreD(3) [OF c(1)] by simp
  have sp: "split_at b c2 s s1" using lim u mg by (auto simp: split_at_def same_heap_def s1_def Let_def)
  have ge: "nxt (hdr s b) - b \<le> used_mem s" using coreD(10) [OF c(1)] u by simp
  have old: "old = nxt (hdr s b) - b - SIZEOF_STRUCT_MEM" "sz < old" "c2 - b = sz + SIZEOF_STRUCT_MEM"
    using lim by (auto simp: old_def c2_def)
  have um: "used_mem s1 = used_mem s - (old - sz)" "max_mem s1 = max_mem s" by (simp_all add: s1_def)
  have eq: "used_mem s1 + (if used (hdr s b) then nxt (hdr s b) - b else 0) = used_mem s + (c2 - b)"
    using um old ge u lim by simp
  have le: "used_mem s1 \<le> max_mem s1" using um coreD(11) [OF c(1)] by simp
  have d8: "8 dvd c2" using sz(1) bb(2) by (simp add: c2_def)
  have t: "core s1 (xs @ b # c2 # ys)" "in_use (hdr s1) (xs @ b # c2 # ys) = in_use (hdr s) xs @ (b, c2) # in_use (hdr s) ys"
    "c2 \<notin> set xs" "c2 \<notin> set ys"
    using split_at_ok [OF c(1) sp _ _ d8 eq le] lim sz(2) by (auto simp: c2_def)
  have us: "used (hdr s1 d) = (d = b \<or> d \<noteq> c2 \<and> used (hdr s d))" for d using sp by (simp add: split_at_def)
  have e1: "heap_end s1 = heap_end s" "lfree s1 = (if c2 < lfree s then c2 else lfree s)" by (simp_all add: s1_def)
  have cg: "first_free (hdr s1) zs e = first_free (hdr s) zs e" "coalesced (hdr s1) zs = coalesced (hdr s) zs"
    if "c2 \<notin> set zs" "b \<notin> set zs" for zs e
    using that us by (auto intro!: first_free_cong coalesced_cong)
  have ff: "lfree s1 = first_free (hdr s1) ((xs @ [b]) @ c2 # ys) (heap_end s1)"
  proof -
    have lt: "d < b" if "d \<in> set xs" for d using seg_around(1) [OF sg, of d] that by simp
    have gt: "c2 < first_free (hdr s) ys (heap_end s)"
      using first_free_cases [of "hdr s" ys "heap_end s"] seg_around(2) [OF sg] lim bb by fastforce
    show ?thesis
    proof (cases "\<forall>d \<in> set xs. used (hdr s d)")
      case True
      then have "first_free (hdr s) xs d = d" for d by (rule first_free_all_used)
      then show ?thesis using c(2) u dis us cg t(3) gt lim(2) e1 by (simp add: first_free_app)
    next
      case False
      then obtain d where d: "d \<in> set xs" "\<not> used (hdr s d)" by blast
      note f = first_free_some [where h = "hdr s" and b = d and bs = xs, OF d]
      have l: "lfree s = first_free (hdr s) xs c2" using c(2) u f(2) by (simp add: first_free_app)
      moreover have "lfree s < b" using lt [OF f(1) [of c2]] l by simp
      moreover have "first_free (hdr s1) ((xs @ [b]) @ c2 # ys) (heap_end s1) = first_free (hdr s) xs c2"
        using us cg(1) [of xs] t(3) dis lim by (simp add: first_free_app)
      ultimately show ?thesis using lim e1 by simp
    qed
  qed
  have ys: "coalesced (hdr s1) ys" using c(3) cg(2) [of ys] t(4) dis coalesced_tl [of "hdr s" b ys] by (simp add: coalesced_app)
  have "coalesced (hdr s) xs" using c(3) by (simp add: coalesced_app)
  then have xs: "coalesced (hdr s1) (xs @ [b])" using cg(2) [of xs] t(3) dis us by (simp add: coalesced_app)
  have "\<not> used (hdr s1 c2)" using us lim by simp
  from plug_holes_ok [of s1 "xs @ [b]" c2 ys, simplified append_assoc append_Cons append_Nil, OF t(1) this _ xs ys]
  obtain s' bs' where r: "plug_holes c2 s1 = Some s'" "heap_ok s' bs'" "in_use (hdr s') bs' = in_use (hdr s1) (xs @ b # c2 # ys)"
    "same_heap s1 s'" "bytes s' = bytes s1" using ff by (metis append_assoc append_Cons append_Nil)
  have sub: "sub32 (nxt (hdr s b)) (b + SIZEOF_STRUCT_MEM) = old" using lim by (simp add: sub32_eq old_def)
  have ptr: "heap_ptr s + b + SIZEOF_STRUCT_MEM - heap_ptr s - SIZEOF_STRUCT_MEM = b" by simp
  have guards: "\<not> sz > mem_size_aligned s" "sz \<noteq> 0" "heap_ptr s + b + SIZEOF_STRUCT_MEM \<noteq> 0" "old \<noteq> sz"
    "\<not> (heap_ptr s + b + SIZEOF_STRUCT_MEM < heap_ptr s \<or> heap_ptr s + b + SIZEOF_STRUCT_MEM \<ge> heap_ptr s + heap_end s)"
    "\<not> heap_ptr s + b + SIZEOF_STRUCT_MEM < heap_ptr s + SIZEOF_STRUCT_MEM" "sz + SIZEOF_STRUCT_MEM + MIN_SIZE < old"
    using sz(2,3) lim bb(1) by (auto simp: old_def c2_def)
  have "rt_realloc (heap_ptr s + b + SIZEOF_STRUCT_MEM) n s =
      do { s' \<leftarrow> plug_holes c2 s1; Some (s', heap_ptr s + b + SIZEOF_STRUCT_MEM) }"
    unfolding rt_realloc_def Let_def ptr n sub if_not_P [OF guards(1)] if_not_P [OF guards(2)] if_not_P [OF guards(3)]
      if_not_P [OF guards(4)] if_not_P [OF guards(5)] if_not_P [OF guards(6)] if_P [OF guards(7)] s1_def c2_def ..
  then have "rt_realloc (heap_ptr s + b + SIZEOF_STRUCT_MEM) n s = Some (s', heap_ptr s + b + SIZEOF_STRUCT_MEM)"
    using r(1) by simp
  then show thesis using that r(2-) t(2) by (simp add: same_heap_def s1_def c2_def)
qed

end
