(* ===== verification/Rt_Heap.thy ===== *)
theory Rt_Heap
  imports Rt_Mem
begin

section \<open>The system heap: contract (\<^verbatim>\<open>rt-thread/src/mem.c\<close>)\<close>

text \<open>
  What \<open>rt_malloc\<close>, \<open>rt_free\<close> and \<open>rt_realloc\<close> promise their callers, in terms of the set of
  blocks handed out, derived from the invariant of the block chain; and the states reachable from
  \<open>rt_system_heap_init\<close> by any sequence of correct calls.
\<close>

subsection \<open>The heap as its clients see it\<close>

definition heap_inv :: "mem_heap \<Rightarrow> bool" where
  "heap_inv s \<longleftrightarrow> heap_ok s (blocks s)"

text \<open>The blocks handed out: address and usable size.\<close>

definition client :: "mem_heap \<Rightarrow> nat \<times> nat \<Rightarrow> nat \<times> nat" where
  "client s = (\<lambda>(b, n). (heap_ptr s + b + SIZEOF_STRUCT_MEM, n - b - SIZEOF_STRUCT_MEM))"

definition allocated :: "mem_heap \<Rightarrow> (nat \<times> nat) set" where
  "allocated s = client s ` set (in_use (hdr s) (blocks s))"

lemma heap_ok_core: "heap_ok s bs \<Longrightarrow> core s bs"
  by (simp add: heap_ok_def)

lemma heap_ok_blocks: "heap_ok s bs \<Longrightarrow> blocks s = bs"
  by (rule seg_blocks [OF coreD(1) [OF heap_ok_core]])

lemma heap_ok_inv: "heap_ok s bs \<Longrightarrow> heap_inv s"
  by (simp add: heap_inv_def heap_ok_blocks)

lemma heap_ok_allocated: "heap_ok s bs \<Longrightarrow> allocated s = client s ` set (in_use (hdr s) bs)"
  by (simp add: allocated_def heap_ok_blocks)

lemma in_use_iff: "(b, n) \<in> set (in_use h bs) \<longleftrightarrow> b \<in> set bs \<and> used (h b) \<and> n = nxt (h b)"
  by (auto simp: in_use_def)

lemma client_same: "same_heap s s' \<Longrightarrow> client s' = client s"
  by (simp add: client_def same_heap_def)

lemma allocatedE:
  assumes "heap_inv s" "(p, m) \<in> allocated s"
  obtains xs b ys where "heap_ok s (xs @ b # ys)" "used (hdr s b)" "p = heap_ptr s + b + SIZEOF_STRUCT_MEM"
    "m = nxt (hdr s b) - b - SIZEOF_STRUCT_MEM" "blocks s = xs @ b # ys"
proof -
  from assms(2) obtain b where "b \<in> set (blocks s)" "used (hdr s b)" "p = heap_ptr s + b + SIZEOF_STRUCT_MEM"
    "m = nxt (hdr s b) - b - SIZEOF_STRUCT_MEM" by (auto simp: allocated_def client_def in_use_iff)
  moreover from this(1) obtain xs ys where "blocks s = xs @ b # ys" by (auto dest: split_list)
  ultimately show thesis using that assms(1) by (auto simp: heap_inv_def)
qed

lemma allocated_bounds:
  assumes "heap_inv s" "(p, m) \<in> allocated s"
  shows "heap_ptr s + SIZEOF_STRUCT_MEM \<le> p" "p + m \<le> heap_ptr s + heap_end s" "8 \<le> m" "8 dvd p" "8 dvd m"
proof -
  obtain xs b ys where o: "heap_ok s (xs @ b # ys)" "p = heap_ptr s + b + SIZEOF_STRUCT_MEM" "m = nxt (hdr s b) - b - SIZEOF_STRUCT_MEM"
    using allocatedE [OF assms] by metis
  then have c: "core s (xs @ b # ys)" by (simp add: heap_ok_def)
  note sg = coreD(1) [OF c]
  have "b + 24 \<le> nxt (hdr s b)" "nxt (hdr s b) \<le> heap_end s" "8 dvd b" "8 dvd nxt (hdr s b)"
    using seg_bounds [OF sg, of b] seg_dvd [OF sg, of b] by simp_all
  then show "heap_ptr s + SIZEOF_STRUCT_MEM \<le> p" "p + m \<le> heap_ptr s + heap_end s" "8 \<le> m" "8 dvd p" "8 dvd m"
    using o coreD(7) [OF c] by (auto intro!: dvd_diff_nat)
qed

lemma allocated_disjoint:
  assumes "heap_inv s" "(p, m) \<in> allocated s" "(q, l) \<in> allocated s" "p < q"
  shows "p + m + SIZEOF_STRUCT_MEM \<le> q"
proof -
  obtain b c where b: "b \<in> set (blocks s)" "p = heap_ptr s + b + SIZEOF_STRUCT_MEM" "m = nxt (hdr s b) - b - SIZEOF_STRUCT_MEM"
    and c: "c \<in> set (blocks s)" "q = heap_ptr s + c + SIZEOF_STRUCT_MEM"
    using assms(2,3) by (auto simp: allocated_def client_def in_use_iff)
  have sg: "seg (hdr s) 0 0 (blocks s) (heap_end s)" using coreD(1) [OF heap_ok_core] assms(1) by (simp add: heap_inv_def)
  from b(1) obtain xs ys where x: "blocks s = xs @ b # ys" by (auto dest: split_list)
  have "b < c" using b c assms(4) by simp
  then have "c \<in> set ys" using c(1) x seg_around(1) [of "hdr s" 0 0 xs b ys "heap_end s" c] sg by auto
  then have "nxt (hdr s b) \<le> c" using seg_around(2) [of "hdr s" 0 0 xs b ys "heap_end s" c] sg x by auto
  moreover have "b + 24 \<le> nxt (hdr s b)" using seg_bounds(2) [OF sg b(1)] .
  ultimately show ?thesis using b c by simp
qed

lemma allocated_unique:
  assumes "heap_inv s" "(p, m) \<in> allocated s" "(p, l) \<in> allocated s"
  shows "m = l"
  using assms by (auto simp: allocated_def client_def in_use_iff)

lemma align32_ge:
  assumes "n \<le> 2 ^ 32 - 8"
  shows "n \<le> align32 n" "align32 n = 0 \<longleftrightarrow> n = 0"
proof -
  have "(n + 7) mod 2 ^ 32 = n + 7" using assms by simp
  then have a: "align32 n = (n + 7) div 8 * 8" by (simp only: align32_def)
  show "n \<le> align32 n" "align32 n = 0 \<longleftrightarrow> n = 0" unfolding a by presburger+
qed

lemma malloc_spec:
  assumes "heap_inv s"
  obtains (fail) "rt_malloc n s = Some (s, 0)" "n = 0 \<or> align32 n > mem_size_aligned s \<or> (\<forall>b \<in> set (blocks s). \<not> fits s (malloc_size n) b)"
  | (success) s' p m where "rt_malloc n s = Some (s', p)" "p \<noteq> 0" "heap_inv s'" "allocated s' = insert (p, m) (allocated s)"
      "p \<notin> fst ` allocated s" "align32 n \<le> m" "same_heap s s'" "bytes s' = bytes s" "n \<noteq> 0"
proof (cases "n = 0 \<or> align32 n > mem_size_aligned s \<or> (\<forall>b \<in> set (blocks s). \<not> fits s (malloc_size n) b)")
  case True
  then show thesis using fail rt_malloc_fail [OF assms [unfolded heap_inv_def]] by blast
next
  case False
  have ok: "heap_ok s (blocks s)" using assms by (simp add: heap_inv_def)
  obtain s' bs' xs b ys m where r: "rt_malloc n s = Some (s', heap_ptr s + b + SIZEOF_STRUCT_MEM)" "heap_ok s' bs'"
    "blocks s = xs @ b # ys" "\<not> used (hdr s b)" "in_use (hdr s') bs' = in_use (hdr s) xs @ (b, m) # in_use (hdr s) ys"
    "b + SIZEOF_STRUCT_MEM + malloc_size n \<le> m" "same_heap s s'" "bytes s' = bytes s"
    using rt_malloc_ok [OF ok, of n] False by (metis not_le)
  have "in_use (hdr s) (blocks s) = in_use (hdr s) xs @ in_use (hdr s) ys" using r(3,4) by simp
  then have "allocated s' = insert (client s (b, m)) (allocated s)"
    using heap_ok_allocated [OF r(2)] r(5) client_same [OF r(7)] by (simp add: allocated_def image_Un)
  moreover have "heap_ptr s + b + SIZEOF_STRUCT_MEM \<notin> fst ` allocated s"
    using r(3,4) by (auto simp: allocated_def client_def in_use_iff)
  ultimately show thesis
    using success [OF r(1) _ heap_ok_inv [OF r(2)]] malloc_size_facts(3) [of n] r False by (simp add: client_def)
qed

lemma free_spec:
  assumes "heap_inv s" "(p, m) \<in> allocated s"
  obtains s' where "rt_free p s = Some s'" "heap_inv s'" "allocated s' = allocated s - {(p, m)}" "same_heap s s'" "bytes s' = bytes s"
proof -
  obtain xs b ys where o: "heap_ok s (xs @ b # ys)" "used (hdr s b)" "p = heap_ptr s + b + SIZEOF_STRUCT_MEM"
    "m = nxt (hdr s b) - b - SIZEOF_STRUCT_MEM" "blocks s = xs @ b # ys" using allocatedE [OF assms] by blast
  obtain s' bs' where r: "rt_free p s = Some s'" "heap_ok s' bs'" "in_use (hdr s') bs' = in_use (hdr s) xs @ in_use (hdr s) ys"
    "same_heap s s'" "bytes s' = bytes s" using rt_free_ok [OF o(1,2)] o(3) by metis
  have "b \<notin> set xs" "b \<notin> set ys"
    using seg_distinct [OF coreD(1), of s "xs @ b # ys"] o(1) by (auto simp: heap_ok_def)
  then have "(p, m) \<notin> client s ` set (in_use (hdr s) xs @ in_use (hdr s) ys)"
    by (auto simp: client_def in_use_iff o(3))
  moreover have "allocated s = insert (p, m) (client s ` set (in_use (hdr s) xs @ in_use (hdr s) ys))"
    using o by (auto simp: allocated_def client_def)
  ultimately have "allocated s' = allocated s - {(p, m)}"
    using heap_ok_allocated [OF r(2)] r(3) client_same [OF r(4)] by simp
  then show thesis using that r heap_ok_inv by blast
qed

lemma heap_inv_bytes [simp]: "heap_inv (s\<lparr>bytes := m\<rparr>) = heap_inv s" "allocated (s\<lparr>bytes := m\<rparr>) = allocated s"
  by (simp_all add: heap_inv_def blocks_def allocated_def client_def)

definition resized :: "mem_heap \<Rightarrow> nat \<Rightarrow> nat \<Rightarrow> nat \<Rightarrow> mem_heap \<Rightarrow> nat \<Rightarrow> bool" where
  "resized s p m n s' q \<longleftrightarrow> (\<exists>m' \<ge> n. allocated s' = insert (q, m') (allocated s - {(p, m)}) \<and>
     (\<forall>i < min m n. bytes s' (q + i) = bytes s (p + i)))"

lemma realloc_expand:
  assumes inv: "heap_inv s" "(p, m) \<in> allocated s" and n: "n \<le> 2 ^ 32 - 8" "n \<noteq> 0" "align32 n \<le> mem_size_aligned s"
    and sz: "align32 n \<noteq> m" "\<not> align32 n + SIZEOF_STRUCT_MEM + MIN_SIZE < m"
  obtains (fail) "rt_realloc p n s = Some (s, 0)"
  | (success) s' q where "rt_realloc p n s = Some (s', q)" "q \<noteq> 0" "heap_inv s'" "resized s p m n s' q" "same_heap s s'"
proof -
  obtain xs b ys where o: "heap_ok s (xs @ b # ys)" "p = heap_ptr s + b + SIZEOF_STRUCT_MEM"
    "m = nxt (hdr s b) - b - SIZEOF_STRUCT_MEM" using allocatedE [OF inv] by metis
  note c = heap_ok_core [OF o(1)] and pb = allocated_bounds [OF inv] and al = align32_ge [OF n(1)]
  have nb: "nxt (hdr s b) \<le> heap_end s" "b + 24 \<le> nxt (hdr s b)" using seg_bounds [OF coreD(1) [OF c], of b] by simp_all
  have sub: "sub32 (nxt (hdr s b)) (b + SIZEOF_STRUCT_MEM) = m" using nb coreD(9) [OF c] o(3) by (simp add: sub32_eq)
  have ptr: "p - heap_ptr s - SIZEOF_STRUCT_MEM = b" using o(2) by simp
  have g: "\<not> align32 n > mem_size_aligned s" "align32 n \<noteq> 0" "p \<noteq> 0"
    "\<not> (p < heap_ptr s \<or> p \<ge> heap_ptr s + heap_end s)" "\<not> p < heap_ptr s + SIZEOF_STRUCT_MEM"
    using al n(2,3) pb by auto
  have eq: "rt_realloc p n s = do { (s1, q) \<leftarrow> rt_malloc (align32 n) s;
      if q = 0 then Some (s1, 0)
      else do { s2 \<leftarrow> rt_free p (memcpy q p (if m < align32 n then m else align32 n) s1); Some (s2, q) } }"
    unfolding rt_realloc_def Let_def ptr sub if_not_P [OF g(1)] if_not_P [OF g(2)] if_not_P [OF g(3)] if_not_P [OF g(4)]
      if_not_P [OF g(5)] if_not_P [OF sz(1) [symmetric]] if_not_P [OF sz(2)] ..
  have id: "align32 (align32 n) = align32 n" using n(3) coreD(5,9) [OF c] al by (simp add: align32_def)
  show thesis using inv(1)
  proof (cases rule: malloc_spec [where n = "align32 n"])
    case fail
    then show thesis using that(1) eq by simp
  next
    case (success s1 q l)
    define s2 where "s2 = memcpy q p (if m < align32 n then m else align32 n) s1"
    have s2: "heap_inv s2" "(p, m) \<in> allocated s2" "same_heap s s2" "allocated s2 = insert (q, l) (allocated s)"
      using success inv(2) by (simp_all add: s2_def memcpy_def same_heap_def)
    obtain s' where r: "rt_free p s2 = Some s'" "heap_inv s'" "allocated s' = allocated s2 - {(p, m)}" "same_heap s2 s'" "bytes s' = bytes s2"
      using free_spec [OF s2(1,2)] by blast
    have "q \<noteq> p" using success(5) inv(2) by force
    then have "allocated s' = insert (q, l) (allocated s - {(p, m)})" using r(3) s2(4) by auto
    moreover have "bytes s' (q + i) = bytes s (p + i)" if "i < min m n" for i
      using that r(5) success(8) al(1) by (auto simp: s2_def memcpy_def)
    ultimately have "resized s p m n s' q" using success(6) al(1) id by (auto simp: resized_def intro!: exI [of _ l])
    moreover have "rt_realloc p n s = Some (s', q)" using eq success(1,2) r(1) by (simp add: s2_def)
    ultimately show thesis using that(2) success(2) r(2,4) s2(3) by (auto simp: same_heap_def)
  qed
qed

lemma realloc_spec:
  assumes inv: "heap_inv s" "(p, m) \<in> allocated s" and n: "n \<le> 2 ^ 32 - 8"
  obtains (free) s' where "n = 0" "rt_realloc p n s = Some (s', 0)" "heap_inv s'" "allocated s' = allocated s - {(p, m)}" "same_heap s s'"
  | (fail) "n \<noteq> 0" "rt_realloc p n s = Some (s, 0)"
  | (success) s' q where "n \<noteq> 0" "rt_realloc p n s = Some (s', q)" "q \<noteq> 0" "heap_inv s'" "resized s p m n s' q" "same_heap s s'"
proof -
  note al = align32_ge [OF n] and pb = allocated_bounds [OF inv]
  consider "n = 0" | "n \<noteq> 0" "align32 n > mem_size_aligned s" | "n \<noteq> 0" "align32 n \<le> mem_size_aligned s" "align32 n = m"
    | "n \<noteq> 0" "align32 n \<le> mem_size_aligned s" "align32 n + SIZEOF_STRUCT_MEM + MIN_SIZE < m"
    | "n \<noteq> 0" "align32 n \<le> mem_size_aligned s" "align32 n \<noteq> m" "\<not> align32 n + SIZEOF_STRUCT_MEM + MIN_SIZE < m"
    by linarith
  then show thesis
  proof cases
    case 1
    obtain s' where "rt_free p s = Some s'" "heap_inv s'" "allocated s' = allocated s - {(p, m)}" "same_heap s s'"
      using free_spec [OF inv] by blast
    moreover have "align32 n = 0" using 1 al by simp
    ultimately show thesis using free 1 by (simp add: rt_realloc_def)
  next
    case 2
    then show thesis using fail by (simp add: rt_realloc_def)
  next
    case 3
    obtain xs b ys where o: "heap_ok s (xs @ b # ys)" "p = heap_ptr s + b + SIZEOF_STRUCT_MEM"
      "m = nxt (hdr s b) - b - SIZEOF_STRUCT_MEM" using allocatedE [OF inv] by metis
    note c = heap_ok_core [OF o(1)]
    have "nxt (hdr s b) \<le> heap_end s" "b + 24 \<le> nxt (hdr s b)" using seg_bounds [OF coreD(1) [OF c], of b] by simp_all
    then have "sub32 (nxt (hdr s b)) (b + SIZEOF_STRUCT_MEM) = m" using coreD(9) [OF c] o(3) by (simp add: sub32_eq)
    then have "rt_realloc p n s = Some (s, p)" using 3 o(2) pb by (simp add: rt_realloc_def Let_def)
    moreover have "resized s p m n s p" using 3 al(1) inv(2) by (auto simp: resized_def)
    ultimately show thesis using success 3(1) inv pb coreD(8) [OF c] by (simp add: same_heap_def)
  next
    case 4
    obtain xs b ys where o: "heap_ok s (xs @ b # ys)" "used (hdr s b)" "p = heap_ptr s + b + SIZEOF_STRUCT_MEM"
      "m = nxt (hdr s b) - b - SIZEOF_STRUCT_MEM" "blocks s = xs @ b # ys" using allocatedE [OF inv] by blast
    have "8 \<le> align32 n" using align32_dvd [of n] al 4(1) by (auto dest: dvd_imp_le)
    moreover have "align32 n + SIZEOF_STRUCT_MEM + MIN_SIZE < nxt (hdr s b) - b - SIZEOF_STRUCT_MEM"
      using 4(3) o(4) by simp
    ultimately obtain s' bs' where r: "rt_realloc p n s = Some (s', p)" "heap_ok s' bs'"
      "in_use (hdr s') bs' = in_use (hdr s) xs @ (b, b + SIZEOF_STRUCT_MEM + align32 n) # in_use (hdr s) ys"
      "same_heap s s'" "bytes s' = bytes s"
      using realloc_shrink [OF o(1,2) align32_dvd _ 4(2) _ refl] o(3) by metis
    have "b \<notin> set xs" "b \<notin> set ys" using seg_distinct [OF coreD(1) [OF heap_ok_core [OF o(1)]]] by auto
    then have "(p, m) \<notin> client s ` set (in_use (hdr s) xs @ in_use (hdr s) ys)"
      by (auto simp: client_def in_use_iff o(3))
    moreover have "allocated s = insert (p, m) (client s ` set (in_use (hdr s) xs @ in_use (hdr s) ys))"
      using o by (auto simp: allocated_def client_def)
    moreover have "allocated s' = insert (p, align32 n) (client s ` set (in_use (hdr s) xs @ in_use (hdr s) ys))"
    proof -
      have "client s (b, b + SIZEOF_STRUCT_MEM + align32 n) = (p, align32 n)" using o(3) by (simp add: client_def)
      then show ?thesis using heap_ok_allocated [OF r(2)] r(3) client_same [OF r(4)] by simp
    qed
    ultimately have "resized s p m n s' p" using al(1) r(5) by (auto simp: resized_def)
    then show thesis using success 4(1) r(1,4) heap_ok_inv [OF r(2)] pb by simp
  next
    case 5
    then show thesis using realloc_expand [OF inv n 5(1,2,3,4)] fail success by metis
  qed
qed

subsection \<open>Initialisation and reachable heaps\<close>

lemma heap_init_ok:
  assumes "rt_system_heap_init a e m = Some s" "0 < a" "a \<le> 2 ^ 32 - 8" "e < 2 ^ 32" "16 \<le> mem_size_aligned s"
  shows "heap_inv s" "allocated s = {}"
proof -
  define size where "size = e div 8 * 8 - align32 a - 32"
  have al: "a \<le> align32 a" "8 dvd align32 a" using align32_ge(1) [OF assms(3)] align32_dvd by blast+
  have g: "e div 8 * 8 > 32" "e div 8 * 8 - 32 \<ge> align32 a" using assms(1) by (auto simp: rt_system_heap_init_def Let_def split: if_splits)
  have s: "s = \<lparr>heap_ptr = align32 a, heap_end = size + 16, lfree = 0, mem_size_aligned = size, used_mem = 0, max_mem = 0,
      hdr = (\<lambda>_. \<lparr>magic = 0, used = False, nxt = 0, prv = 0\<rparr>)(0 := \<lparr>magic = HEAP_MAGIC, used = False, nxt = size + 16, prv = 0\<rparr>,
        size + 16 := \<lparr>magic = HEAP_MAGIC, used = True, nxt = size + 16, prv = size + 16\<rparr>), bytes = m\<rparr>"
    using assms(1) by (simp add: rt_system_heap_init_def Let_def size_def split: if_splits)
  have "16 \<le> size" using assms(5) by (simp add: s)
  moreover have "8 dvd size" unfolding size_def using al(2) by (intro dvd_diff_nat) auto
  moreover have "align32 a + size + 32 = e div 8 * 8" using g by (simp add: size_def)
  then have "align32 a + size + 16 < 2 ^ 32" using assms(4) by linarith
  ultimately have ok: "heap_ok s [0]" using al assms(2) by (simp add: heap_ok_def core_def s)
  then show "heap_inv s" by (rule heap_ok_inv)
  show "allocated s = {}" using heap_ok_allocated [OF ok] by (simp add: s)
qed

text \<open>
  A correct client: requests that do not overflow when rounded up, frees and reallocations of
  blocks it holds, and stores into them.
\<close>

inductive heap_step :: "mem_heap \<Rightarrow> mem_heap \<Rightarrow> bool" where
  malloc: "rt_malloc n s = Some (s', p) \<Longrightarrow> heap_step s s'"
| calloc: "rt_calloc c n s = Some (s', p) \<Longrightarrow> heap_step s s'"
| free: "(p, m) \<in> allocated s \<Longrightarrow> rt_free p s = Some s' \<Longrightarrow> heap_step s s'"
| realloc: "(p, m) \<in> allocated s \<Longrightarrow> n \<le> 2 ^ 32 - 8 \<Longrightarrow> rt_realloc p n s = Some (s', q) \<Longrightarrow> heap_step s s'"
| store: "(p, m) \<in> allocated s \<Longrightarrow> p \<le> a \<Longrightarrow> a < p + m \<Longrightarrow> heap_step s (s\<lparr>bytes := (bytes s)(a := v)\<rparr>)"

inductive heap_reach :: "mem_heap \<Rightarrow> mem_heap \<Rightarrow> bool" for s0 where
  init: "heap_reach s0 s0"
| step: "heap_reach s0 s \<Longrightarrow> heap_step s s' \<Longrightarrow> heap_reach s0 s'"

lemma malloc_inv:
  assumes "heap_inv s" "rt_malloc n s = Some (s', p)"
  shows "heap_inv s'"
  using assms(1) by (cases rule: malloc_spec [where n = n]) (use assms in auto)

lemma heap_step_inv:
  assumes "heap_step s s'" "heap_inv s"
  shows "heap_inv s'"
  using assms
proof (cases rule: heap_step.cases)
  case (malloc n p)
  then show ?thesis using malloc_inv assms(2) by blast
next
  case (calloc c n p)
  then obtain s1 q where "rt_malloc (c * n mod 2 ^ 32) s = Some (s1, q)" "\<exists>f. s' = s1 \<or> s' = s1\<lparr>bytes := f\<rparr>"
    by (auto simp: rt_calloc_def bind_eq_Some_conv split: if_splits)
  then show ?thesis using malloc_inv assms(2) by auto
next
  case (free p m)
  then show ?thesis using free_spec [OF assms(2), of p m] by auto
next
  case (realloc p m n q)
  from assms(2) realloc(1,2) show ?thesis
    by (cases rule: realloc_spec) (use realloc(3) assms(2) in auto)
next
  case (store p m a v)
  then show ?thesis using assms(2) by simp
qed

lemma heap_reach_inv: "heap_reach s0 s \<Longrightarrow> heap_inv s0 \<Longrightarrow> heap_inv s"
  by (induction rule: heap_reach.induct) (auto intro: heap_step_inv)

lemma usum_in_use:
  assumes "distinct bs"
  shows "usum h bs = (\<Sum>(b, n) \<in> set (in_use h bs). n - b)"
proof -
  have "usum h bs = (\<Sum>b\<leftarrow>filter (\<lambda>b. used (h b)) bs. nxt (h b) - b)" by (induction bs) auto
  also have "\<dots> = (\<Sum>(b, n)\<leftarrow>in_use h bs. n - b)" by (simp add: in_use_def comp_def)
  also have "\<dots> = (\<Sum>(b, n) \<in> set (in_use h bs). n - b)"
    using assms by (intro sum_list_distinct_conv_sum_set) (auto simp: in_use_def distinct_map inj_on_def)
  finally show ?thesis .
qed

lemma used_mem_allocated:
  assumes "heap_inv s"
  shows "used_mem s = (\<Sum>(p, m) \<in> allocated s. m + SIZEOF_STRUCT_MEM)"
proof -
  have c: "core s (blocks s)" using assms by (simp add: heap_inv_def heap_ok_def)
  note sg = coreD(1) [OF c]
  have inj: "inj_on (client s) (set (in_use (hdr s) (blocks s)))" by (auto simp: inj_on_def client_def in_use_iff)
  have "(\<Sum>(p, m) \<in> allocated s. m + SIZEOF_STRUCT_MEM) =
      (\<Sum>x \<in> set (in_use (hdr s) (blocks s)). case client s x of (p, m) \<Rightarrow> m + SIZEOF_STRUCT_MEM)"
    unfolding allocated_def by (simp add: sum.reindex [OF inj] comp_def)
  also have "\<dots> = (\<Sum>(b, n) \<in> set (in_use (hdr s) (blocks s)). n - b)"
    using seg_bounds(2) [OF sg] by (intro sum.cong) (fastforce simp: client_def in_use_iff)+
  also have "\<dots> = used_mem s" using usum_in_use [OF seg_distinct [OF sg]] coreD(10) [OF c] by simp
  finally show ?thesis by simp
qed

lemma all_free_one_block:
  assumes "heap_inv s" "allocated s = {}"
  shows "blocks s = [0]" "lfree s = 0"
proof -
  have ok: "heap_ok s (blocks s)" using assms(1) by (simp add: heap_inv_def)
  have f: "\<not> used (hdr s b)" if "b \<in> set (blocks s)" for b using assms(2) that in_use_iff [of b "nxt (hdr s b)" "hdr s" "blocks s"] by (auto simp: allocated_def)
  obtain b bs where b: "blocks s = b # bs" using coreD(2) [OF heap_ok_core [OF ok]] by (cases "blocks s") auto
  have "bs = []" using ok f b by (cases bs) (auto simp: heap_ok_def)
  moreover have "b = 0" using coreD(1) [OF heap_ok_core [OF ok]] b by simp
  ultimately show "blocks s = [0]" "lfree s = 0" using b ok f by (auto simp: heap_ok_def)
qed

subsection \<open>Correctness of the heap\<close>

lemma disjoint_pairs:
  assumes "heap_inv s" "(p, m) \<in> allocated s" "(q, l) \<in> allocated s" "(p, m) \<noteq> (q, l)"
  shows "p + m + SIZEOF_STRUCT_MEM \<le> q \<or> q + l + SIZEOF_STRUCT_MEM \<le> p"
proof (cases "p = q")
  case True
  then show ?thesis using allocated_unique assms by blast
next
  case False
  then show ?thesis using allocated_disjoint [OF assms(1)] assms(2,3) by (meson linorder_neqE_nat)
qed

text \<open>
  C12. From initialisation on, whatever its clients allocate, resize, free and store, the blocks
  handed out are 8-byte aligned, lie inside the heap area and are separated by at least a header;
  the usage statistic is exactly what they occupy; every request returns (no assertion fails and
  no loop runs on); and once everything is freed the heap is a single block again.
\<close>

theorem heap_reachable_ok:
  assumes "rt_system_heap_init a e m = Some s0" "0 < a" "a \<le> 2 ^ 32 - 8" "e < 2 ^ 32" "16 \<le> mem_size_aligned s0"
    "heap_reach s0 s"
  shows "(\<forall>(p, m) \<in> allocated s. 8 dvd p \<and> heap_ptr s + SIZEOF_STRUCT_MEM \<le> p \<and> p + m \<le> heap_ptr s + heap_end s) \<and>
    (\<forall>x \<in> allocated s. \<forall>y \<in> allocated s. x \<noteq> y \<longrightarrow>
       fst x + snd x + SIZEOF_STRUCT_MEM \<le> fst y \<or> fst y + snd y + SIZEOF_STRUCT_MEM \<le> fst x) \<and>
    used_mem s = (\<Sum>(p, m) \<in> allocated s. m + SIZEOF_STRUCT_MEM) \<and>
    (\<forall>n. rt_malloc n s \<noteq> None) \<and> (\<forall>(p, m) \<in> allocated s. rt_free p s \<noteq> None) \<and>
    (allocated s = {} \<longrightarrow> blocks s = [0] \<and> lfree s = 0)"
proof -
  have inv: "heap_inv s" using heap_reach_inv [OF assms(6)] heap_init_ok [OF assms(1-5)] by simp
  have "\<forall>n. rt_malloc n s \<noteq> None"
  proof
    fix n show "rt_malloc n s \<noteq> None" using inv by (cases rule: malloc_spec [where n = n]) auto
  qed
  moreover have "\<forall>(p, m) \<in> allocated s. rt_free p s \<noteq> None" using free_spec [OF inv] by (metis (mono_tags, lifting) case_prodI2 option.discI)
  moreover have "\<forall>x \<in> allocated s. \<forall>y \<in> allocated s. x \<noteq> y \<longrightarrow>
      fst x + snd x + SIZEOF_STRUCT_MEM \<le> fst y \<or> fst y + snd y + SIZEOF_STRUCT_MEM \<le> fst x"
    using disjoint_pairs [OF inv] by (metis prod.collapse)
  moreover have "\<forall>(p, m) \<in> allocated s. 8 dvd p \<and> heap_ptr s + SIZEOF_STRUCT_MEM \<le> p \<and> p + m \<le> heap_ptr s + heap_end s"
    using allocated_bounds [OF inv] by auto
  ultimately show ?thesis using used_mem_allocated [OF inv] all_free_one_block [OF inv] by (intro conjI impI) auto
qed

definition heap_demo :: mem_heap where
  "heap_demo = the (rt_system_heap_init 0x1003 0x1100 (\<lambda>_. 0))"

definition heap_demo1 :: mem_heap where
  "heap_demo1 = fst (the (rt_malloc 20 heap_demo))"

lemma heap_demo_init: "rt_system_heap_init 0x1003 0x1100 (\<lambda>_. 0) = Some heap_demo"
  and heap_demo_sel: "mem_size_aligned heap_demo = 216" "heap_end heap_demo = 232" "heap_ptr heap_demo = 0x1008"
    "used (hdr heap_demo 0) = False" "nxt (hdr heap_demo 0) = 232"
  by (simp_all add: heap_demo_def rt_system_heap_init_def align32_def Let_def)

lemma heap_demo_inv: "heap_inv heap_demo" "allocated heap_demo = {}"
  using heap_init_ok [OF heap_demo_init] heap_demo_sel(1) by simp_all

lemma heap_demo1_malloc: "rt_malloc 20 heap_demo = Some (heap_demo1, 0x1018)"
proof -
  have b: "blocks heap_demo = [0]" using all_free_one_block [OF heap_demo_inv] by simp
  then have ok: "heap_ok heap_demo [0]" using heap_demo_inv(1) by (simp add: heap_inv_def)
  have a: "align32 20 = 24" by (simp add: align32_def)
  obtain s' xs b ys where "rt_malloc 20 heap_demo = Some (s', heap_ptr heap_demo + b + SIZEOF_STRUCT_MEM)" "[0] = xs @ b # ys"
  proof (rule rt_malloc_ok [OF ok, of 20])
    show "\<exists>b \<in> set [0]. fits heap_demo (malloc_size 20) b" by (simp add: a fits_def malloc_size_def heap_demo_sel)
  qed (simp_all add: a heap_demo_sel)
  then show ?thesis by (cases xs) (simp_all add: heap_demo1_def heap_demo_sel)
qed

lemma heap_demo1_inv: "heap_inv heap_demo1"
  using malloc_inv [OF heap_demo_inv(1) heap_demo1_malloc] .

lemma heap_demo1_allocated: "\<exists>m. allocated heap_demo1 = {(0x1018, m)}"
  using heap_demo_inv(1)
  by (cases rule: malloc_spec [where n = 20]) (use heap_demo1_malloc heap_demo_inv(2) in auto)

theorem heap_reachable_ok_witness:
  "heap_reach heap_demo heap_demo1 \<and> used_mem heap_demo1 = (\<Sum>(p, m) \<in> allocated heap_demo1. m + SIZEOF_STRUCT_MEM)"
proof -
  have r: "heap_reach heap_demo heap_demo1"
    using heap_reach.step [OF heap_reach.init heap_step.malloc [OF heap_demo1_malloc]] .
  show ?thesis using heap_reachable_ok [OF heap_demo_init _ _ _ _ r] heap_demo_sel(1) r by simp
qed

text \<open>
  C13. \<open>rt_malloc\<close> serves a request for \<open>n\<close> bytes (that does not overflow when rounded up) with a
  new block of at least \<open>n\<close> bytes and changes nothing else, or returns null and changes nothing;
  it returns null only for \<open>n = 0\<close> or when every free block is too small, or is the last block and
  would be filled exactly.
\<close>

theorem rt_malloc_correct:
  assumes "heap_inv s" "n \<le> 2 ^ 32 - 8"
  shows "\<exists>s' p. rt_malloc n s = Some (s', p) \<and> heap_inv s' \<and> bytes s' = bytes s \<and>
    (if p = 0
     then s' = s \<and> (n = 0 \<or> (\<forall>b \<in> set (blocks s). \<not> used (hdr s b) \<longrightarrow>
            nxt (hdr s b) < b + SIZEOF_STRUCT_MEM + max 16 (align32 n) \<or>
            nxt (hdr s b) = heap_end s \<and> nxt (hdr s b) = b + SIZEOF_STRUCT_MEM + max 16 (align32 n)))
     else \<exists>m \<ge> n. allocated s' = insert (p, m) (allocated s) \<and> p \<notin> fst ` allocated s)"
  using assms(1)
proof (cases rule: malloc_spec [where n = n])
  case fail
  have c: "core s (blocks s)" using assms(1) by (simp add: heap_inv_def heap_ok_def)
  have small: "nxt (hdr s b) < b + SIZEOF_STRUCT_MEM + max 16 (align32 n) \<or>
      nxt (hdr s b) = heap_end s \<and> nxt (hdr s b) = b + SIZEOF_STRUCT_MEM + max 16 (align32 n)"
    if "n \<noteq> 0" "b \<in> set (blocks s)" "\<not> used (hdr s b)" for b
  proof -
    have "nxt (hdr s b) \<le> heap_end s" using seg_bounds(3) [OF coreD(1) [OF c] that(2)] .
    moreover have "heap_end s = mem_size_aligned s + SIZEOF_STRUCT_MEM" using coreD(5) [OF c] .
    ultimately show ?thesis using fail(2) that by (auto simp: fits_def malloc_size_def)
  qed
  then show ?thesis using fail(1) assms(1) by auto
next
  case (success s' p m)
  have "n \<le> m" using success(6) align32_ge(1) [OF assms(2)] by simp
  then show ?thesis using success by auto
qed

theorem rt_malloc_correct_witness:
  "\<exists>m \<ge> 20. allocated heap_demo1 = {(0x1018, m)}"
  using rt_malloc_correct [OF heap_demo_inv(1), of 20] heap_demo1_malloc heap_demo_inv(2) by simp

lemma plug_holes_used: "plug_holes b s = Some s' \<Longrightarrow> used (hdr s' d) = used (hdr s d)"
  by (auto simp: plug_holes_def plug_forward_def plug_backward_def Let_def split: if_splits)

text \<open>
  C14. Freeing a block that was handed out succeeds, takes back exactly that block, restores the
  invariant (no two free blocks stay adjacent), leaves all contents alone, and makes a second
  free of the same pointer fail the allocator's assertion.
\<close>

theorem rt_free_correct:
  assumes "heap_inv s" "(p, m) \<in> allocated s"
  shows "\<exists>s'. rt_free p s = Some s' \<and> heap_inv s' \<and> coalesced (hdr s') (blocks s') \<and> allocated s' = allocated s - {(p, m)} \<and>
    bytes s' = bytes s \<and> rt_free p s' = None"
proof -
  obtain s' where r: "rt_free p s = Some s'" "heap_inv s'" "allocated s' = allocated s - {(p, m)}" "same_heap s s'" "bytes s' = bytes s"
    using free_spec [OF assms] by blast
  have p: "heap_ptr s + SIZEOF_STRUCT_MEM \<le> p" using allocated_bounds(1) [OF assms] .
  have "\<not> used (hdr s' (p - heap_ptr s - SIZEOF_STRUCT_MEM))"
    using r(1) p by (auto simp: rt_free_def Let_def split: if_splits dest!: plug_holes_used [where d = "p - heap_ptr s - SIZEOF_STRUCT_MEM"])
  then have "rt_free p s' = None" using r(4) p by (simp add: rt_free_def Let_def same_heap_def)
  then show ?thesis using r by (auto simp: heap_inv_def heap_ok_def)
qed

theorem rt_free_correct_witness:
  "\<exists>s'. rt_free 0x1018 heap_demo1 = Some s' \<and> allocated s' = {} \<and> rt_free 0x1018 s' = None"
proof -
  obtain m where m: "allocated heap_demo1 = {(0x1018, m)}" using heap_demo1_allocated by blast
  then have "(0x1018, m) \<in> allocated heap_demo1" by simp
  from rt_free_correct [OF heap_demo1_inv this] m show ?thesis by auto
qed

text \<open>
  A size that rounds up past \<open>2 ^ 32\<close> is not refused: the rounded size wraps to zero and a
  request for nearly four gigabytes is answered like a request for one byte.
\<close>

theorem rt_malloc_overflow:
  assumes "heap_inv s" "2 ^ 32 - 8 < n" "n < 2 ^ 32"
  shows "rt_malloc n s = rt_malloc 1 s"
proof -
  have "(n + 7) mod 2 ^ 32 = n + 7 - 2 ^ 32" using assms(2,3) by (simp add: le_mod_geq)
  moreover have "n + 7 - 2 ^ 32 < 7" using assms(3) by linarith
  ultimately have z: "align32 n = 0" by (simp only: align32_def) simp
  have o: "align32 (Suc 0) = 8" by (simp add: align32_def)
  have "8 \<le> mem_size_aligned s" using assms(1) by (simp add: heap_inv_def heap_ok_def core_def)
  then show ?thesis using assms(2) by (simp add: rt_malloc_def Let_def z o del: find_fit.simps next_free.simps)
qed

theorem rt_malloc_overflow_witness:
  "rt_malloc 0xffffffff heap_demo = rt_malloc 1 heap_demo"
  using rt_malloc_overflow [OF heap_demo_inv(1)] by simp

text \<open>
  C15. \<open>rt_realloc\<close> of a block that was handed out always returns; size 0 frees the block; otherwise
  it returns null and leaves the block and the heap alone, or returns a block of the new size that
  holds the old contents as far as they fit, in place of the old one and of no other.
\<close>

theorem rt_realloc_correct:
  assumes "heap_inv s" "(p, m) \<in> allocated s" "n \<le> 2 ^ 32 - 8"
  shows "\<exists>s' q. rt_realloc p n s = Some (s', q) \<and> heap_inv s' \<and>
    (if n = 0 then q = 0 \<and> allocated s' = allocated s - {(p, m)}
     else if q = 0 then s' = s
     else \<exists>m' \<ge> n. allocated s' = insert (q, m') (allocated s - {(p, m)}) \<and>
            (\<forall>i < min m n. bytes s' (q + i) = bytes s (p + i)))"
  using assms
proof (cases rule: realloc_spec)
  case (success s' q)
  then show ?thesis by (auto simp: resized_def)
qed (use assms(1) in auto)

theorem rt_realloc_correct_witness:
  "\<exists>m s' q. (0x1018, m) \<in> allocated heap_demo1 \<and> rt_realloc 0x1018 64 heap_demo1 = Some (s', q) \<and> heap_inv s'"
proof -
  obtain m where m: "allocated heap_demo1 = {(0x1018, m)}" using heap_demo1_allocated by blast
  from rt_realloc_correct [OF heap_demo1_inv, of "0x1018" m 64] m show ?thesis by auto
qed

end
