(* ===== verification/Rt_Ringbuffer.thy ===== *)
theory Rt_Ringbuffer
  imports Fifo
begin

section \<open>Ring buffers (\<^verbatim>\<open>rt-thread/components/drivers/src/ringbuffer.c\<close>)\<close>

text \<open>
  The byte ring with mirror bits that pipes and device drivers use: equal indices mean empty in the
  same mirror and full in different ones. A pool of bytes is a list; \<open>~\<close> on a one-bit field is
  negation. The lemmas show that the block and the character operations act on a bounded queue
  of bytes, and where the overwriting variants keep or lose data.
\<close>

subsection \<open>Data and operations\<close>

record rt_ringbuffer =
  buffer_ptr :: "u8 list"
  read_mirror :: bool
  read_index :: nat
  write_mirror :: bool
  write_index :: nat
  buffer_size :: nat

datatype rt_ringbuffer_state = RT_RINGBUFFER_EMPTY | RT_RINGBUFFER_FULL | RT_RINGBUFFER_HALFFULL

definition rt_ringbuffer_status :: "rt_ringbuffer \<Rightarrow> rt_ringbuffer_state" where
  "rt_ringbuffer_status rb =
     (if read_index rb = write_index rb
      then if read_mirror rb = write_mirror rb then RT_RINGBUFFER_EMPTY else RT_RINGBUFFER_FULL
      else RT_RINGBUFFER_HALFFULL)"

text \<open>\<open>None\<close>: the assertion on the size fails. The size is aligned down to 8.\<close>

definition rt_ringbuffer_init :: "u8 list \<Rightarrow> int \<Rightarrow> rt_ringbuffer option" where
  "rt_ringbuffer_init pool sz =
     (if sz > 0 then Some \<lparr>buffer_ptr = pool, read_mirror = False, read_index = 0, write_mirror = False, write_index = 0,
        buffer_size = nat sz div 8 * 8\<rparr> else None)"

definition rt_ringbuffer_data_len :: "rt_ringbuffer \<Rightarrow> nat" where
  "rt_ringbuffer_data_len rb =
     (case rt_ringbuffer_status rb of
        RT_RINGBUFFER_EMPTY \<Rightarrow> 0
      | RT_RINGBUFFER_FULL \<Rightarrow> buffer_size rb
      | RT_RINGBUFFER_HALFFULL \<Rightarrow>
          if write_index rb > read_index rb then write_index rb - read_index rb
          else buffer_size rb - (read_index rb - write_index rb))"

definition rt_ringbuffer_space_len :: "rt_ringbuffer \<Rightarrow> nat" where
  "rt_ringbuffer_space_len rb = buffer_size rb - rt_ringbuffer_data_len rb"

text \<open>\<^verbatim>\<open>memcpy(&buf[i], xs, length of xs)\<close>.\<close>

definition blit :: "nat \<Rightarrow> u8 list \<Rightarrow> u8 list \<Rightarrow> u8 list" where
  "blit i xs buf = take i buf @ xs @ drop (i + length xs) buf"

definition rt_ringbuffer_put :: "u8 list \<Rightarrow> rt_ringbuffer \<Rightarrow> nat \<times> rt_ringbuffer" where
  "rt_ringbuffer_put ptr rb =
     (let sz = rt_ringbuffer_space_len rb
      in if sz = 0 then (0, rb)
         else let len = (if sz < length ptr then sz else length ptr);
                  xs = take len ptr;
                  gap = buffer_size rb - write_index rb
              in if gap > len
                 then (len, rb\<lparr>buffer_ptr := blit (write_index rb) xs (buffer_ptr rb), write_index := write_index rb + len\<rparr>)
                 else (len, rb\<lparr>buffer_ptr := blit 0 (drop gap xs) (blit (write_index rb) (take gap xs) (buffer_ptr rb)),
                             write_mirror := \<not> write_mirror rb, write_index := len - gap\<rparr>))"

definition rt_ringbuffer_put_force :: "u8 list \<Rightarrow> rt_ringbuffer \<Rightarrow> nat \<times> rt_ringbuffer" where
  "rt_ringbuffer_put_force ptr rb =
     (let space_length = rt_ringbuffer_space_len rb;
          xs = (if length ptr > buffer_size rb then drop (length ptr - buffer_size rb) ptr else ptr);
          len = length xs;
          gap = buffer_size rb - write_index rb
      in if gap > len
         then let rb = rb\<lparr>buffer_ptr := blit (write_index rb) xs (buffer_ptr rb), write_index := write_index rb + len\<rparr>
              in (len, if len > space_length then rb\<lparr>read_index := write_index rb\<rparr> else rb)
         else let rb = rb\<lparr>buffer_ptr := blit 0 (drop gap xs) (blit (write_index rb) (take gap xs) (buffer_ptr rb)),
                          write_mirror := \<not> write_mirror rb, write_index := len - gap\<rparr>
              in (len, if len > space_length then rb\<lparr>read_mirror := \<not> read_mirror rb, read_index := write_index rb\<rparr> else rb))"

definition rt_ringbuffer_get :: "nat \<Rightarrow> rt_ringbuffer \<Rightarrow> u8 list \<times> rt_ringbuffer" where
  "rt_ringbuffer_get n rb =
     (let sz = rt_ringbuffer_data_len rb
      in if sz = 0 then ([], rb)
         else let len = (if sz < n then sz else n);
                  gap = buffer_size rb - read_index rb
              in if gap > len
                 then (take len (drop (read_index rb) (buffer_ptr rb)), rb\<lparr>read_index := read_index rb + len\<rparr>)
                 else (take gap (drop (read_index rb) (buffer_ptr rb)) @ take (len - gap) (buffer_ptr rb),
                       rb\<lparr>read_mirror := \<not> read_mirror rb, read_index := len - gap\<rparr>))"

definition rt_ringbuffer_putchar :: "u8 \<Rightarrow> rt_ringbuffer \<Rightarrow> nat \<times> rt_ringbuffer" where
  "rt_ringbuffer_putchar ch rb =
     (if rt_ringbuffer_space_len rb = 0 then (0, rb)
      else let rb = rb\<lparr>buffer_ptr := (buffer_ptr rb)[write_index rb := ch]\<rparr>
           in (1, if write_index rb + 1 = buffer_size rb then rb\<lparr>write_mirror := \<not> write_mirror rb, write_index := 0\<rparr>
                  else rb\<lparr>write_index := write_index rb + 1\<rparr>))"

definition rt_ringbuffer_putchar_force :: "u8 \<Rightarrow> rt_ringbuffer \<Rightarrow> nat \<times> rt_ringbuffer" where
  "rt_ringbuffer_putchar_force ch rb =
     (let old_state = rt_ringbuffer_status rb;
          rb = rb\<lparr>buffer_ptr := (buffer_ptr rb)[write_index rb := ch]\<rparr>
      in (1, if write_index rb + 1 = buffer_size rb
             then let rb = rb\<lparr>write_mirror := \<not> write_mirror rb, write_index := 0\<rparr>
                  in if old_state = RT_RINGBUFFER_FULL
                     then rb\<lparr>read_mirror := \<not> read_mirror rb, read_index := write_index rb\<rparr> else rb
             else let rb = rb\<lparr>write_index := write_index rb + 1\<rparr>
                  in if old_state = RT_RINGBUFFER_FULL then rb\<lparr>read_index := write_index rb\<rparr> else rb))"

definition rt_ringbuffer_getchar :: "rt_ringbuffer \<Rightarrow> (u8 \<times> rt_ringbuffer) option" where
  "rt_ringbuffer_getchar rb =
     (if rt_ringbuffer_data_len rb = 0 then None
      else Some (buffer_ptr rb ! read_index rb,
                 if read_index rb + 1 = buffer_size rb then rb\<lparr>read_mirror := \<not> read_mirror rb, read_index := 0\<rparr>
                 else rb\<lparr>read_index := read_index rb + 1\<rparr>))"

definition rt_ringbuffer_reset :: "rt_ringbuffer \<Rightarrow> rt_ringbuffer" where
  "rt_ringbuffer_reset rb = rb\<lparr>read_mirror := False, read_index := 0, write_mirror := False, write_index := 0\<rparr>"

subsection \<open>The ring as a list of bytes\<close>

text \<open>\<open>rb_rep rb d\<close>: the ring is well formed and holds \<open>d\<close> bytes.\<close>

definition rb_rep :: "rt_ringbuffer \<Rightarrow> nat \<Rightarrow> bool" where
  "rb_rep rb d \<longleftrightarrow> 0 < buffer_size rb \<and> buffer_size rb < 32768 \<and> buffer_size rb \<le> length (buffer_ptr rb) \<and>
     read_index rb < buffer_size rb \<and> d \<le> buffer_size rb \<and> write_index rb = (read_index rb + d) mod buffer_size rb \<and>
     (read_mirror rb \<noteq> write_mirror rb \<longleftrightarrow> read_index rb + d \<ge> buffer_size rb)"

definition rb_inv :: "rt_ringbuffer \<Rightarrow> bool" where
  "rb_inv rb \<longleftrightarrow> rb_rep rb (rt_ringbuffer_data_len rb)"

definition ring_at :: "rt_ringbuffer \<Rightarrow> nat \<Rightarrow> u8" where
  "ring_at rb i = buffer_ptr rb ! (i mod buffer_size rb)"

definition ring_bytes :: "rt_ringbuffer \<Rightarrow> u8 list" where
  "ring_bytes rb = map (\<lambda>j. ring_at rb (read_index rb + j)) [0..<rt_ringbuffer_data_len rb]"

lemma mod_once: "x < 2 * (n :: nat) \<Longrightarrow> x mod n = (if x < n then x else x - n)"
  by (simp add: mod_if)

lemma rb_rep_len:
  assumes "rb_rep rb d"
  shows "rt_ringbuffer_data_len rb = d"
proof -
  have d: "read_index rb + d < 2 * buffer_size rb" "read_index rb < buffer_size rb" "d \<le> buffer_size rb"
    using assms by (auto simp: rb_rep_def)
  have w: "write_index rb = (if read_index rb + d < buffer_size rb then read_index rb + d else read_index rb + d - buffer_size rb)"
    using assms mod_once [OF d(1)] by (simp add: rb_rep_def)
  have m: "read_mirror rb \<noteq> write_mirror rb \<longleftrightarrow> read_index rb + d \<ge> buffer_size rb" using assms by (simp add: rb_rep_def)
  show ?thesis using d w m by (auto simp: rt_ringbuffer_data_len_def rt_ringbuffer_status_def)
qed

lemma rb_repI: "rb_rep rb d \<Longrightarrow> rb_inv rb"
  by (simp add: rb_inv_def rb_rep_len)

lemma ring_bytes_rep: "rb_rep rb d \<Longrightarrow> ring_bytes rb = map (\<lambda>j. ring_at rb (read_index rb + j)) [0..<d]"
  by (simp add: ring_bytes_def rb_rep_len)

lemma length_ring_bytes: "length (ring_bytes rb) = rt_ringbuffer_data_len rb"
  by (simp add: ring_bytes_def)

subsection \<open>Writing a block\<close>

definition ring_write :: "nat \<Rightarrow> nat \<Rightarrow> u8 list \<Rightarrow> u8 list \<Rightarrow> u8 list" where
  "ring_write n w xs buf = (if n - w > length xs then blit w xs buf else blit 0 (drop (n - w) xs) (blit w (take (n - w) xs) buf))"

lemma length_blit: "i + length xs \<le> length buf \<Longrightarrow> length (blit i xs buf) = length buf"
  by (simp add: blit_def)

lemma nth_blit:
  assumes "i + length xs \<le> length buf" "k < length buf"
  shows "blit i xs buf ! k = (if i \<le> k \<and> k < i + length xs then xs ! (k - i) else buf ! k)"
  using assms by (auto simp: blit_def nth_append min_def)

lemma ring_write_nth:
  assumes "w < n" "n \<le> length buf" "length xs \<le> n" "i < n"
  shows "length (ring_write n w xs buf) = length buf"
    "ring_write n w xs buf ! ((w + i) mod n) = (if i < length xs then xs ! i else buf ! ((w + i) mod n))"
proof -
  have m: "(w + i) mod n = (if w + i < n then w + i else w + i - n)" using assms mod_once [of "w + i" n] by simp
  show "length (ring_write n w xs buf) = length buf" using assms by (simp add: ring_write_def length_blit)
  show "ring_write n w xs buf ! ((w + i) mod n) = (if i < length xs then xs ! i else buf ! ((w + i) mod n))"
    unfolding m using assms by (auto simp: ring_write_def nth_blit length_blit)
qed

text \<open>After a block is written behind \<open>d\<close> bytes, position \<open>j\<close> from the read index holds this.\<close>

lemma ring_at_write:
  assumes r: "rb_rep rb d" and j: "j < buffer_size rb" and xs: "length xs \<le> buffer_size rb"
    and b: "buffer_ptr rb' = ring_write (buffer_size rb) (write_index rb) xs (buffer_ptr rb)" "buffer_size rb' = buffer_size rb"
  shows "ring_at rb' (write_index rb + j) = (if j < length xs then xs ! j else ring_at rb (read_index rb + (d + j)))"
proof -
  have w: "write_index rb < buffer_size rb" "write_index rb = (read_index rb + d) mod buffer_size rb"
    using r by (auto simp: rb_rep_def)
  have "(read_index rb + (d + j)) mod buffer_size rb = (write_index rb + j) mod buffer_size rb"
    unfolding w(2) by (simp add: mod_add_left_eq add.assoc)
  then show ?thesis using ring_write_nth(2) [OF w(1) _ xs j, of "buffer_ptr rb"] b r by (auto simp: ring_at_def rb_rep_def)
qed

lemma ring_at_cong: "(i mod buffer_size rb) = (j mod buffer_size rb) \<Longrightarrow> ring_at rb i = ring_at rb j"
  by (simp add: ring_at_def)

lemma ring_at_turn: "ring_at rb (i + buffer_size rb) = ring_at rb i"
  by (simp add: ring_at_def)

text \<open>The same by the distance \<open>k\<close> from the old read index: bytes survive until the block reaches round to them.\<close>

lemma ring_at_after:
  assumes r: "rb_rep rb d" and xs: "length xs \<le> buffer_size rb"
    and b: "buffer_ptr rb' = ring_write (buffer_size rb) (write_index rb) xs (buffer_ptr rb)" "buffer_size rb' = buffer_size rb"
    and k: "k < d + length xs" "d + length xs \<le> k + buffer_size rb"
  shows "ring_at rb' (read_index rb + k) = (if k < d then ring_at rb (read_index rb + k) else xs ! (k - d))"
proof -
  define n where "n = buffer_size rb"
  have w: "write_index rb = (read_index rb + d) mod n" "d \<le> n" using r by (auto simp: rb_rep_def n_def)
  have sh: "ring_at rb' (write_index rb + j) = ring_at rb' (read_index rb + d + j)" for j
    by (rule ring_at_cong) (simp add: w(1) b(2) n_def mod_add_left_eq)
  show ?thesis
  proof (cases "k < d")
    case True
    then have e: "read_index rb + d + (k + n - d) = read_index rb + k + n" "d + (k + n - d) = k + n" using w(2) by simp_all
    have "ring_at rb' (read_index rb + k) = ring_at rb' (read_index rb + d + (k + n - d))"
      unfolding e(1) using ring_at_turn [of rb'] b(2) by (simp add: n_def)
    also have "\<dots> = ring_at rb (read_index rb + (d + (k + n - d)))"
    proof -
      have "k + n - d < n" "\<not> k + n - d < length xs" using True w(2) k(2) by (auto simp: n_def)
      then show ?thesis using ring_at_write [OF r _ xs b(1,2), of "k + n - d"] unfolding sh n_def by simp
    qed
    also have "\<dots> = ring_at rb (read_index rb + (k + n))" unfolding e(2) ..
    also have "\<dots> = ring_at rb (read_index rb + k)" using ring_at_turn [of rb] by (simp add: n_def add.assoc [symmetric])
    finally show ?thesis using True by simp
  next
    case False
    then have "k - d < buffer_size rb" "k - d < length xs" using k xs by auto
    then show ?thesis using ring_at_write [OF r _ xs b(1,2), of "k - d"] False unfolding sh by simp
  qed
qed

lemma write_index_once:
  assumes "rb_rep rb d"
  shows "write_index rb = (if read_index rb + d < buffer_size rb then read_index rb + d else read_index rb + d - buffer_size rb)"
    "write_index rb < buffer_size rb"
  using assms mod_once [of "read_index rb + d" "buffer_size rb"] by (auto simp: rb_rep_def)

lemma write_rep:
  assumes r: "rb_rep rb d" and xs: "d + length xs \<le> buffer_size rb"
    and b: "buffer_ptr rb' = ring_write (buffer_size rb) (write_index rb) xs (buffer_ptr rb)" "buffer_size rb' = buffer_size rb"
      "read_index rb' = read_index rb" "read_mirror rb' = read_mirror rb"
      "write_index rb' = (write_index rb + length xs) mod buffer_size rb"
      "write_mirror rb' = (write_mirror rb \<noteq> (write_index rb + length xs \<ge> buffer_size rb))"
  shows "rb_rep rb' (d + length xs)" "ring_bytes rb' = ring_bytes rb @ xs"
proof -
  define n where "n = buffer_size rb"
  have w: "write_index rb < n" "write_index rb = (read_index rb + d) mod n" "n \<le> length (buffer_ptr rb)" "read_index rb < n" "d \<le> n"
    "read_mirror rb \<noteq> write_mirror rb \<longleftrightarrow> read_index rb + d \<ge> n" using r by (auto simp: rb_rep_def n_def)
  note w2 = write_index_once(1) [OF r, folded n_def]
  have "(write_index rb + length xs) mod n = (read_index rb + (d + length xs)) mod n"
    unfolding w(2) by (simp add: mod_add_left_eq add.assoc)
  moreover have "(read_mirror rb \<noteq> write_mirror rb') \<longleftrightarrow> read_index rb + (d + length xs) \<ge> n"
    using b(6) w w2 xs by (auto simp: n_def [symmetric])
  moreover have "n \<le> length (buffer_ptr rb')" using b(1) ring_write_nth(1) [OF w(1,3)] w xs by (simp add: n_def)
  ultimately show rep: "rb_rep rb' (d + length xs)" using r b xs by (simp add: rb_rep_def n_def)
  have at: "ring_at rb' (read_index rb + j) = (if j < d then ring_at rb (read_index rb + j) else xs ! (j - d))"
    if "j < d + length xs" for j
    using ring_at_after [OF r _ b(1,2) that] xs by simp
  show "ring_bytes rb' = ring_bytes rb @ xs"
    by (rule nth_equalityI) (auto simp: ring_bytes_rep [OF rep] ring_bytes_rep [OF r] nth_append b(3) at simp del: upt_Suc)
qed

text \<open>Overwriting: the read index follows the write index and the ring is full, so it holds the newest bytes.\<close>

lemma force_rep:
  assumes r: "rb_rep rb d" and xs: "length xs \<le> buffer_size rb" "d + length xs \<ge> buffer_size rb"
    and b: "buffer_ptr rb' = ring_write (buffer_size rb) (write_index rb) xs (buffer_ptr rb)" "buffer_size rb' = buffer_size rb"
      "read_index rb' = write_index rb'" "read_mirror rb' \<noteq> write_mirror rb'"
      "write_index rb' = (write_index rb + length xs) mod buffer_size rb"
  shows "rb_rep rb' (buffer_size rb)"
    "ring_bytes rb' = drop (d + length xs - buffer_size rb) (ring_bytes rb @ xs)"
proof -
  define n where "n = buffer_size rb"
  have w: "write_index rb < n" "write_index rb = (read_index rb + d) mod n" "n \<le> length (buffer_ptr rb)" "0 < n" "n < 32768" "d \<le> n"
    using r by (auto simp: rb_rep_def n_def)
  have "n \<le> length (buffer_ptr rb')" using b(1) ring_write_nth(1) [OF w(1,3)] w xs by (simp add: n_def)
  then show rep: "rb_rep rb' (buffer_size rb)" using w b by (simp add: rb_rep_def n_def)
  have at: "ring_at rb' (read_index rb' + j) =
      (if d + length xs - n + j < d then ring_at rb (read_index rb + (d + length xs - n + j)) else xs ! (d + length xs - n + j - d))"
    if "j < n" for j
  proof -
    have "read_index rb + (d + length xs - n + j) + n = read_index rb + (d + length xs + j)" using xs(2) by (simp add: n_def)
    then have "ring_at rb' (read_index rb + (d + length xs - n + j)) = ring_at rb' (read_index rb + (d + length xs + j))"
      using ring_at_turn [of rb' "read_index rb + (d + length xs - n + j)"] b(2) by (simp add: n_def)
    also have "\<dots> = ring_at rb' (read_index rb' + j)"
      by (rule ring_at_cong) (simp add: b(2,3,5) w(2) n_def mod_simps ac_simps)
    finally show ?thesis using ring_at_after [OF r xs(1) b(1,2), of "d + length xs - n + j"] that xs by (simp add: n_def)
  qed
  show "ring_bytes rb' = drop (d + length xs - buffer_size rb) (ring_bytes rb @ xs)"
    by (rule nth_equalityI)
      (use xs w(6) in \<open>auto simp: ring_bytes_rep [OF rep] ring_bytes_rep [OF r] nth_append at [unfolded n_def] n_def simp del: upt_Suc drop_append\<close>)
qed

subsection \<open>What each operation does to the bytes held\<close>

lemma rb_invD: "rb_inv rb \<Longrightarrow> rb_rep rb (length (ring_bytes rb))"
  by (simp add: rb_inv_def length_ring_bytes)

lemma ring_bytes_fit: "rb_inv rb \<Longrightarrow> length (ring_bytes rb) \<le> buffer_size rb"
  using rb_invD by (auto simp: rb_rep_def)

lemma wrap_index:
  assumes "w < n" "l \<le> (n :: nat)"
  shows "(w + l) mod n = (if n - w > l then w + l else l - (n - w))"
  using assms mod_once [of "w + l" n] by auto

lemma put_spec:
  assumes "rb_inv rb"
  shows "case rt_ringbuffer_put ptr rb of (k, rb') \<Rightarrow>
    k = min (length ptr) (buffer_size rb - length (ring_bytes rb)) \<and> rb_inv rb' \<and>
    ring_bytes rb' = ring_bytes rb @ take k ptr \<and> buffer_size rb' = buffer_size rb"
proof -
  define d where "d = length (ring_bytes rb)"
  define n where "n = buffer_size rb"
  define xs where "xs = take (n - d) ptr"
  have r: "rb_rep rb d" and dn: "d \<le> n" using rb_invD [OF assms] ring_bytes_fit [OF assms] by (simp_all add: d_def n_def)
  have sp: "rt_ringbuffer_space_len rb = n - d" by (simp add: rt_ringbuffer_space_len_def n_def d_def length_ring_bytes)
  have len: "(if n - d < length ptr then n - d else length ptr) = length xs" "take (length xs) ptr = xs"
    "length xs = min (length ptr) (n - d)" by (auto simp: xs_def min_def)
  show ?thesis
  proof (cases "n - d = 0")
    case True
    then show ?thesis using assms by (simp add: rt_ringbuffer_put_def sp n_def d_def)
  next
    case False
    define rb' where "rb' = snd (rt_ringbuffer_put ptr rb)"
    have "write_index rb < n" using write_index_once(2) [OF r] by (simp add: n_def)
    then have ix: "(write_index rb + length xs) mod n = (if n - write_index rb > length xs then write_index rb + length xs
        else length xs - (n - write_index rb))" by (rule wrap_index) (use dn in \<open>simp add: len\<close>)
    have e: "rt_ringbuffer_put ptr rb = (length xs, rb')" "rb' = (if n - write_index rb > length xs
         then rb\<lparr>buffer_ptr := blit (write_index rb) xs (buffer_ptr rb), write_index := write_index rb + length xs\<rparr>
         else rb\<lparr>buffer_ptr := blit 0 (drop (n - write_index rb) xs) (blit (write_index rb) (take (n - write_index rb) xs) (buffer_ptr rb)),
               write_mirror := \<not> write_mirror rb, write_index := length xs - (n - write_index rb)\<rparr>)"
      using False unfolding rb'_def rt_ringbuffer_put_def sp n_def [symmetric] by (auto simp: Let_def len(1,2))
    have f: "buffer_ptr rb' = ring_write n (write_index rb) xs (buffer_ptr rb)" "buffer_size rb' = n"
      "read_index rb' = read_index rb" "read_mirror rb' = read_mirror rb" "write_index rb' = (write_index rb + length xs) mod n"
      "write_mirror rb' = (write_mirror rb \<noteq> (write_index rb + length xs \<ge> n))"
      unfolding ix ring_write_def using \<open>write_index rb < n\<close> by (auto simp: e(2) n_def)
    have "d + length xs \<le> n" using dn len(3) by simp
    then show ?thesis using write_rep [OF r _ f [unfolded n_def]] len f(2) by (simp add: e(1) n_def d_def rb_repI)
  qed
qed

lemma drop_rep:
  assumes r: "rb_rep rb d" and l: "l \<le> d"
    and b: "buffer_ptr rb' = buffer_ptr rb" "buffer_size rb' = buffer_size rb" "write_index rb' = write_index rb"
      "write_mirror rb' = write_mirror rb" "read_index rb' = (read_index rb + l) mod buffer_size rb"
      "read_mirror rb' = (read_mirror rb \<noteq> (read_index rb + l \<ge> buffer_size rb))"
  shows "rb_rep rb' (d - l)" "ring_bytes rb' = drop l (ring_bytes rb)"
proof -
  define n where "n = buffer_size rb"
  have w: "write_index rb = (read_index rb + d) mod n" "read_index rb < n" "d \<le> n"
    "read_mirror rb \<noteq> write_mirror rb \<longleftrightarrow> read_index rb + d \<ge> n" using r by (auto simp: rb_rep_def n_def)
  have ri: "read_index rb' = (if read_index rb + l < n then read_index rb + l else read_index rb + l - n)"
    using b(5) mod_once [of "read_index rb + l" n] w l by (simp add: n_def)
  have "(read_index rb' + (d - l)) mod n = (read_index rb + d) mod n"
    using mod_add_left_eq [of "read_index rb + l" n "d - l"] b(5) l by (simp add: n_def)
  moreover have "(read_mirror rb' \<noteq> write_mirror rb) \<longleftrightarrow> read_index rb' + (d - l) \<ge> n"
    using b(6) w ri l by (auto simp: n_def [symmetric])
  moreover have "d - l \<le> n" using w(3) by simp
  ultimately show rep: "rb_rep rb' (d - l)" using r b l w by (simp add: rb_rep_def n_def)
  have at: "ring_at rb' (read_index rb' + j) = ring_at rb (read_index rb + (l + j))" for j
    by (simp add: ring_at_def b mod_add_left_eq add.assoc)
  show "ring_bytes rb' = drop l (ring_bytes rb)"
    by (rule nth_equalityI) (auto simp: ring_bytes_rep [OF rep] ring_bytes_rep [OF r] at simp del: upt_Suc)
qed

lemma take_ring_bytes:
  assumes r: "rb_rep rb d" and l: "l \<le> d"
  shows "take l (ring_bytes rb) = (if buffer_size rb - read_index rb > l then take l (drop (read_index rb) (buffer_ptr rb))
     else take (buffer_size rb - read_index rb) (drop (read_index rb) (buffer_ptr rb)) @
       take (l - (buffer_size rb - read_index rb)) (buffer_ptr rb))" (is "?L = ?R")
proof (rule nth_equalityI)
  define n where "n = buffer_size rb"
  have w: "read_index rb < n" "d \<le> n" "n \<le> length (buffer_ptr rb)" using r by (auto simp: rb_rep_def n_def)
  show len: "length ?L = length ?R" using w l by (simp add: ring_bytes_rep [OF r] n_def)
  show "?L ! j = ?R ! j" if "j < length ?L" for j
  proof -
    have j: "j < l" using that by simp
    have "(read_index rb + j) mod n = (if read_index rb + j < n then read_index rb + j else read_index rb + j - n)"
      using mod_once [of "read_index rb + j" n] w l j by simp
    then show ?thesis using j w l unfolding n_def
      by (auto simp: ring_bytes_rep [OF r] ring_at_def nth_append add.commute)
  qed
qed

lemma get_spec:
  assumes "rb_inv rb"
  shows "case rt_ringbuffer_get m rb of (ys, rb') \<Rightarrow>
    ys = take m (ring_bytes rb) \<and> rb_inv rb' \<and> ring_bytes rb' = drop m (ring_bytes rb) \<and> buffer_size rb' = buffer_size rb"
proof -
  define d where "d = length (ring_bytes rb)"
  define l where "l = min m d"
  have r: "rb_rep rb d" using rb_invD [OF assms] by (simp add: d_def)
  have dl: "rt_ringbuffer_data_len rb = d" by (simp add: d_def length_ring_bytes)
  have len: "(if d < m then d else m) = l" "take m (ring_bytes rb) = take l (ring_bytes rb)"
    "drop m (ring_bytes rb) = drop l (ring_bytes rb)" by (auto simp: l_def d_def min_def)
  show ?thesis
  proof (cases "d = 0")
    case True
    then show ?thesis using assms by (simp add: rt_ringbuffer_get_def dl d_def)
  next
    case False
    define rb' where "rb' = snd (rt_ringbuffer_get m rb)"
    have w: "read_index rb < buffer_size rb" "l \<le> d" "d \<le> buffer_size rb" using r by (auto simp: rb_rep_def l_def)
    have ix: "(read_index rb + l) mod buffer_size rb = (if buffer_size rb - read_index rb > l then read_index rb + l
        else l - (buffer_size rb - read_index rb))" by (rule wrap_index) (use w in simp_all)
    have e: "rt_ringbuffer_get m rb = (take l (ring_bytes rb), rb')" "rb' = (if buffer_size rb - read_index rb > l
         then rb\<lparr>read_index := read_index rb + l\<rparr>
         else rb\<lparr>read_mirror := \<not> read_mirror rb, read_index := l - (buffer_size rb - read_index rb)\<rparr>)"
      using False unfolding rb'_def rt_ringbuffer_get_def dl by (auto simp: Let_def len take_ring_bytes [OF r w(2)])
    have f: "buffer_ptr rb' = buffer_ptr rb" "buffer_size rb' = buffer_size rb" "write_index rb' = write_index rb"
      "write_mirror rb' = write_mirror rb" "read_index rb' = (read_index rb + l) mod buffer_size rb"
      "read_mirror rb' = (read_mirror rb \<noteq> (read_index rb + l \<ge> buffer_size rb))"
      unfolding ix using w by (auto simp: e(2))
    show ?thesis using drop_rep [OF r w(2) f] f(2) by (simp add: e(1) len rb_repI)
  qed
qed

lemma put_force_spec:
  fixes ptr :: "u8 list"
  assumes "rb_inv rb"
  defines "bs \<equiv> ring_bytes rb @ ptr"
  shows "case rt_ringbuffer_put_force ptr rb of (k, rb') \<Rightarrow>
    k = min (length ptr) (buffer_size rb) \<and> rb_inv rb' \<and> buffer_size rb' = buffer_size rb \<and>
    ring_bytes rb' = (if read_mirror rb = write_mirror rb \<and> ring_bytes rb \<noteq> [] \<and> length bs > buffer_size rb then []
       else drop (length bs - buffer_size rb) bs)"
proof -
  define d where "d = length (ring_bytes rb)"
  define n where "n = buffer_size rb"
  define w where "w = write_index rb"
  define xs where "xs = drop (length ptr - n) ptr"
  define rb' where "rb' = snd (rt_ringbuffer_put_force ptr rb)"
  have r: "rb_rep rb d" and dn: "d \<le> n" using rb_invD [OF assms(1)] ring_bytes_fit [OF assms(1)] by (simp_all add: d_def n_def)
  have sp: "rt_ringbuffer_space_len rb = n - d" by (simp add: rt_ringbuffer_space_len_def n_def d_def length_ring_bytes)
  have xs: "(if length ptr > n then drop (length ptr - n) ptr else ptr) = xs" "length xs = min (length ptr) n" "length xs \<le> n"
    by (auto simp: xs_def)
  have w: "w < n" using write_index_once(2) [OF r] by (simp add: n_def w_def)
  then have ix: "(w + length xs) mod n = (if n - w > length xs then w + length xs else length xs - (n - w))"
    using xs(3) by (rule wrap_index)
  have e: "rt_ringbuffer_put_force ptr rb = (length xs, rb')"
    "buffer_ptr rb' = ring_write n w xs (buffer_ptr rb)" "buffer_size rb' = n" "write_index rb' = (w + length xs) mod n"
    "write_mirror rb' = (write_mirror rb \<noteq> (w + length xs \<ge> n))"
    "read_index rb' = (if length xs > n - d then (w + length xs) mod n else read_index rb)"
    "read_mirror rb' = (read_mirror rb \<noteq> (length xs > n - d \<and> w + length xs \<ge> n))"
    unfolding ix ring_write_def using w unfolding rb'_def rt_ringbuffer_put_force_def sp n_def [symmetric] w_def [symmetric] xs(1)
    by (auto simp: Let_def n_def w_def)
  have full: "length bs - n = length ptr - (n - d)" "length bs > n \<longleftrightarrow> length ptr > n - d"
    using dn by (auto simp: bs_def d_def n_def)
  have goal: "rb_inv rb' \<and> ring_bytes rb' = (if read_mirror rb = write_mirror rb \<and> ring_bytes rb \<noteq> [] \<and> length bs > n then []
       else drop (length bs - n) bs)"
  proof (cases "length xs > n - d")
    case False
    then have le: "d + length xs \<le> n" using dn by simp
    have rep: "rb_rep rb' (d + length xs)" "ring_bytes rb' = ring_bytes rb @ xs"
      using write_rep [OF r, of xs rb'] e False le by (simp_all add: n_def w_def)
    have "length bs > n \<Longrightarrow> d = 0" using le xs(2) dn full(2) by auto
    then have "ring_bytes rb @ xs = drop (length bs - n) bs" "\<not> (ring_bytes rb \<noteq> [] \<and> length bs > n)"
      using le xs by (cases "length bs > n"; auto simp: bs_def d_def xs_def)+
    then show ?thesis using rep by (auto simp: rb_repI)
  next
    case True
    then have big: "length bs > n" "ring_bytes rb \<noteq> []" using full(2) xs(2,3) dn by (auto simp: d_def)
    have mir: "read_mirror rb \<noteq> write_mirror rb \<longleftrightarrow> read_index rb + d \<ge> n" using r by (simp add: rb_rep_def n_def)
    have turn: "w + length xs \<ge> n" if "read_mirror rb = write_mirror rb"
      using that mir write_index_once(1) [OF r] True by (simp add: n_def w_def split: if_splits)
    show ?thesis
    proof (cases "read_mirror rb = write_mirror rb")
      case eq: True
      have "read_mirror rb' = write_mirror rb'" "read_index rb' = write_index rb'" using e eq True turn by auto
      moreover have "n \<le> length (buffer_ptr rb)" "0 < n" "n < 32768" using r by (auto simp: rb_rep_def n_def)
      ultimately have "rb_rep rb' 0" using e(2-4) ring_write_nth(1) [OF w _ xs(3) w] by (simp add: rb_rep_def not_le)
      then show ?thesis using big eq ring_bytes_rep [of rb' 0] by (simp add: rb_repI)
    next
      case neq: False
      have m: "read_mirror rb' \<noteq> write_mirror rb'" "read_index rb' = write_index rb'" using e neq True by auto
      have "rb_rep rb' n" "ring_bytes rb' = drop (d + length xs - n) (ring_bytes rb @ xs)"
        using force_rep [OF r xs(3) [unfolded n_def], of rb'] True dn e(2-4) m by (auto simp: n_def w_def)
      moreover have "drop (d + length xs - n) (ring_bytes rb @ xs) = drop (length bs - n) bs"
        using dn by (cases "length ptr > n"; simp add: bs_def d_def xs_def)
      ultimately show ?thesis using neq by (simp add: rb_repI)
    qed
  qed
  then show ?thesis using e(1,3) xs(2) unfolding n_def by simp
qed

subsection \<open>One character at a time\<close>

lemma blit_one: "i < length buf \<Longrightarrow> blit i [c] buf = buf[i := c]"
  by (simp add: blit_def upd_conv_take_nth_drop)

lemma putchar_put:
  assumes "rb_inv rb"
  shows "rt_ringbuffer_putchar ch rb = rt_ringbuffer_put [ch] rb"
proof -
  note r = rb_invD [OF assms]
  have w: "write_index rb < buffer_size rb" "buffer_size rb \<le> length (buffer_ptr rb)"
    using write_index_once(2) [OF r] r by (auto simp: rb_rep_def)
  then show ?thesis
    by (cases "write_index rb + 1 = buffer_size rb")
      (auto simp: rt_ringbuffer_putchar_def rt_ringbuffer_put_def Let_def blit_one blit_def [of 0 "[]"])
qed

lemma getchar_get:
  assumes "rb_inv rb"
  shows "rt_ringbuffer_getchar rb = (case rt_ringbuffer_get 1 rb of (c # _, rb') \<Rightarrow> Some (c, rb') | ([], _) \<Rightarrow> None)"
proof -
  have w: "read_index rb < buffer_size rb" "buffer_size rb \<le> length (buffer_ptr rb)"
    using rb_invD [OF assms] by (auto simp: rb_rep_def)
  then have "take (Suc 0) (drop (read_index rb) (buffer_ptr rb)) = [buffer_ptr rb ! read_index rb]"
    by (simp add: take_Suc_conv_app_nth hd_drop_conv_nth take_Suc)
  moreover have "buffer_size rb - read_index rb = Suc 0 \<longleftrightarrow> read_index rb + 1 = buffer_size rb" using w by auto
  ultimately show ?thesis using w
    by (cases "read_index rb + 1 = buffer_size rb")
      (auto simp: rt_ringbuffer_getchar_def rt_ringbuffer_get_def Let_def)
qed

lemma putchar_force_spec:
  assumes "rb_inv rb"
  shows "case rt_ringbuffer_putchar_force ch rb of (k, rb') \<Rightarrow>
    k = 1 \<and> rb_inv rb' \<and> buffer_size rb' = buffer_size rb \<and>
    ring_bytes rb' = (if length (ring_bytes rb) = buffer_size rb then tl (ring_bytes rb) else ring_bytes rb) @ [ch]"
proof -
  note r = rb_invD [OF assms]
  have w: "write_index rb < buffer_size rb" "buffer_size rb \<le> length (buffer_ptr rb)"
    using write_index_once(2) [OF r] r by (auto simp: rb_rep_def)
  have full: "rt_ringbuffer_status rb = RT_RINGBUFFER_FULL \<longleftrightarrow> length (ring_bytes rb) = buffer_size rb"
    "rt_ringbuffer_status rb = RT_RINGBUFFER_FULL \<Longrightarrow> read_mirror rb \<noteq> write_mirror rb"
    using r write_index_once(1) [OF r] by (auto simp: rt_ringbuffer_status_def rb_rep_def split: if_splits)
  have "rt_ringbuffer_putchar_force ch rb = rt_ringbuffer_put_force [ch] rb"
    using w full(1) ring_bytes_fit [OF assms] length_ring_bytes [of rb]
    by (cases "write_index rb + 1 = buffer_size rb")
      (auto simp: rt_ringbuffer_putchar_force_def rt_ringbuffer_put_force_def rt_ringbuffer_space_len_def Let_def blit_one blit_def [of 0 "[]"])
  then show ?thesis using put_force_spec [OF assms, of "[ch]"] full ring_bytes_fit [OF assms] w
    by (auto split: prod.splits simp: drop_Suc)
qed

subsection \<open>The ring as a bounded queue\<close>

definition rb_putchar :: "u8 \<Rightarrow> rt_ringbuffer \<Rightarrow> rt_ringbuffer option" where
  "rb_putchar ch rb = (case rt_ringbuffer_putchar ch rb of (k, rb') \<Rightarrow> if k = 0 then None else Some rb')"

interpretation rbq: bounded_fifo rb_putchar rt_ringbuffer_getchar ring_bytes buffer_size "\<lambda>_ _. True" rb_inv
proof unfold_locales
  fix rb :: rt_ringbuffer and ch c cs
  assume inv: "rb_inv rb"
  note p = put_spec [OF inv, of "[ch]", folded putchar_put [OF inv]]
    and g = get_spec [OF inv, of 1] getchar_get [OF inv]
  show "length (ring_bytes rb) \<le> buffer_size rb" using inv by (rule ring_bytes_fit)
  { assume "buffer_size rb \<le> length (ring_bytes rb) \<or> \<not> True"
    then show "rb_putchar ch rb = None" using p by (auto simp: rb_putchar_def split: prod.splits) }
  { assume "length (ring_bytes rb) < buffer_size rb"
    then show "\<exists>rb'. rb_putchar ch rb = Some rb' \<and> rb_inv rb' \<and> ring_bytes rb' = ring_bytes rb @ [ch] \<and> buffer_size rb' = buffer_size rb"
      using p by (auto simp: rb_putchar_def split: prod.splits) }
  { assume "ring_bytes rb = []"
    then show "rt_ringbuffer_getchar rb = None" using g by (auto split: prod.splits) }
  { assume "ring_bytes rb = c # cs"
    then show "\<exists>rb'. rt_ringbuffer_getchar rb = Some (c, rb') \<and> rb_inv rb' \<and> ring_bytes rb' = cs \<and> buffer_size rb' = buffer_size rb"
      using g by (auto split: prod.splits) }
qed

text \<open>A run of the four plain operations: the bytes accepted, the bytes delivered, the ring left.\<close>

datatype rb_op = RPut "u8 list" | RPutchar u8 | RGet nat | RGetchar

fun rb_exec :: "rb_op \<Rightarrow> rt_ringbuffer \<Rightarrow> u8 list \<times> u8 list \<times> rt_ringbuffer" where
  "rb_exec (RPut ptr) rb = (case rt_ringbuffer_put ptr rb of (k, rb') \<Rightarrow> (take k ptr, [], rb'))"
| "rb_exec (RPutchar ch) rb = (case rt_ringbuffer_putchar ch rb of (k, rb') \<Rightarrow> (take k [ch], [], rb'))"
| "rb_exec (RGet n) rb = (case rt_ringbuffer_get n rb of (ys, rb') \<Rightarrow> ([], ys, rb'))"
| "rb_exec RGetchar rb = (case rt_ringbuffer_getchar rb of None \<Rightarrow> ([], [], rb) | Some (c, rb') \<Rightarrow> ([], [c], rb'))"

fun rb_run :: "rb_op list \<Rightarrow> rt_ringbuffer \<Rightarrow> u8 list \<times> u8 list \<times> rt_ringbuffer" where
  "rb_run [] rb = ([], [], rb)"
| "rb_run (op # ops) rb = (case rb_exec op rb of (a, d, rb') \<Rightarrow> (case rb_run ops rb' of (as, ds, rb'') \<Rightarrow> (a @ as, d @ ds, rb'')))"

lemma rb_exec_order:
  assumes inv: "rb_inv rb" and e: "rb_exec op rb = (a, d, rb')"
  shows "rb_inv rb' \<and> buffer_size rb' = buffer_size rb \<and> ring_bytes rb @ a = d @ ring_bytes rb'"
proof (cases op)
  case (RPut ptr)
  then show ?thesis using put_spec [OF inv, of ptr] e by (auto split: prod.splits)
next
  case (RPutchar ch)
  then show ?thesis using put_spec [OF inv, of "[ch]"] e by (auto simp: putchar_put [OF inv] split: prod.splits)
next
  case (RGet n)
  then show ?thesis using get_spec [OF inv, of n] e by (auto split: prod.splits)
next
  case RGetchar
  show ?thesis
  proof (cases "ring_bytes rb")
    case Nil
    then show ?thesis using rbq.get_empty [OF inv] inv e RGetchar by simp
  next
    case (Cons c cs)
    then show ?thesis using rbq.get_oldest [OF inv Cons] e RGetchar by auto
  qed
qed

lemma rb_run_order:
  "rb_inv rb \<Longrightarrow> rb_run ops rb = (a, d, rb') \<Longrightarrow>
     rb_inv rb' \<and> buffer_size rb' = buffer_size rb \<and> ring_bytes rb @ a = d @ ring_bytes rb'"
proof (induction ops arbitrary: rb a d)
  case (Cons op ops)
  obtain a1 d1 rb1 where 1: "rb_exec op rb = (a1, d1, rb1)" by (cases "rb_exec op rb") auto
  obtain a2 d2 where 2: "rb_run ops rb1 = (a2, d2, rb')" "a = a1 @ a2" "d = d1 @ d2"
    using Cons.prems(2) 1 by (auto split: prod.splits)
  note s = rb_exec_order [OF Cons.prems(1) 1]
  then show ?case using Cons.IH [OF _ 2(1)] 2 by (metis append.assoc)
qed simp

lemma init_rep: "rt_ringbuffer_init pool sz = Some rb \<Longrightarrow> 8 \<le> sz \<Longrightarrow> sz < 32768 \<Longrightarrow> nat sz \<le> length pool \<Longrightarrow>
    rb_rep rb 0 \<and> buffer_size rb = nat sz div 8 * 8"
  using div_times_less_eq_dividend [of "nat sz" 8] by (auto simp: rt_ringbuffer_init_def rb_rep_def simp del: div_times_less_eq_dividend split: if_splits)

definition demo_rb :: rt_ringbuffer where
  "demo_rb = the (rt_ringbuffer_init (replicate 9 0) 9)"

text \<open>
  C21. A ring set up over a pool of at least 8 bytes hands its bytes over in order: in every
  interleaving of block and character puts and gets, what was delivered is a prefix of what was
  accepted, the rest is what the ring still holds, at most its size rounded down to a multiple of
  8 bytes; a block put accepts exactly what fits, and a block get returns exactly what is there up
  to the number asked for.
\<close>

theorem rt_ringbuffer_fifo:
  assumes "rt_ringbuffer_init pool sz = Some rb" "8 \<le> sz" "sz < 32768" "nat sz \<le> length pool"
    and "rb_run ops rb = (acc, del, rb')"
  shows "acc = del @ ring_bytes rb' \<and> length (ring_bytes rb') \<le> nat sz div 8 * 8 \<and>
    rt_ringbuffer_data_len rb' + rt_ringbuffer_space_len rb' = nat sz div 8 * 8 \<and>
    fst (rt_ringbuffer_put ptr rb') = min (length ptr) (rt_ringbuffer_space_len rb') \<and>
    fst (rt_ringbuffer_get n rb') = take n (ring_bytes rb')"
proof -
  have i: "rb_rep rb 0" "buffer_size rb = nat sz div 8 * 8" using init_rep [OF assms(1-4)] by simp_all
  note r = rb_run_order [OF rb_repI [OF i(1)] assms(5)]
  show ?thesis
    using r i ring_bytes_rep [OF i(1)] ring_bytes_fit [of rb'] length_ring_bytes [of rb'] put_spec [of rb' ptr] get_spec [of rb' n]
    by (auto simp: rt_ringbuffer_space_len_def split: prod.splits)
qed

theorem rt_ringbuffer_fifo_witness:
  "rb_run [RPut [1, 2, 3, 4, 5], RGet 3, RPut [6, 7, 8, 9], RPutchar 10, RPutchar 11, RPutchar 12, RGetchar] demo_rb =
     ([1, 2, 3, 4, 5, 6, 7, 8, 9, 10, 11], [1, 2, 3, 4],
      snd (snd (rb_run [RPut [1, 2, 3, 4, 5], RGet 3, RPut [6, 7, 8, 9], RPutchar 10, RPutchar 11, RPutchar 12, RGetchar] demo_rb))) \<and>
   [1, 2, 3, 4, 5, 6, 7, 8, 9, 10, 11] = [1, 2, 3, 4] @
     ring_bytes (snd (snd (rb_run [RPut [1, 2, 3, 4, 5], RGet 3, RPut [6, 7, 8, 9], RPutchar 10, RPutchar 11, RPutchar 12, RGetchar] demo_rb)))"
proof -
  have e: "rb_run [RPut [1, 2, 3, 4, 5], RGet 3, RPut [6, 7, 8, 9], RPutchar 10, RPutchar 11, RPutchar 12, RGetchar] demo_rb =
     ([1, 2, 3, 4, 5, 6, 7, 8, 9, 10, 11], [1, 2, 3, 4],
      snd (snd (rb_run [RPut [1, 2, 3, 4, 5], RGet 3, RPut [6, 7, 8, 9], RPutchar 10, RPutchar 11, RPutchar 12, RGetchar] demo_rb)))"
    by code_simp
  have "rt_ringbuffer_init (replicate 9 0) 9 = Some demo_rb" by code_simp
  from rt_ringbuffer_fifo [OF this _ _ _ e] show ?thesis using e by simp
qed

text \<open>
  The overwriting puts. A block put with force is meant to keep the newest bytes, and does
  so unless the ring, not empty and in one mirror, is overrun: then both mirror bits flip, the ring
  reads as empty, and every byte in it is lost, the new ones included. The character put with
  force always drops exactly the oldest byte of a full ring.
\<close>

theorem rt_ringbuffer_force:
  assumes "rb_inv rb"
  shows "ring_bytes (snd (rt_ringbuffer_put_force ptr rb)) =
      (if read_mirror rb = write_mirror rb \<and> ring_bytes rb \<noteq> [] \<and> length (ring_bytes rb @ ptr) > buffer_size rb then []
       else drop (length (ring_bytes rb @ ptr) - buffer_size rb) (ring_bytes rb @ ptr)) \<and>
    fst (rt_ringbuffer_put_force ptr rb) = min (length ptr) (buffer_size rb) \<and>
    rb_inv (snd (rt_ringbuffer_put_force ptr rb)) \<and>
    ring_bytes (snd (rt_ringbuffer_putchar_force ch rb)) =
      (if length (ring_bytes rb) = buffer_size rb then tl (ring_bytes rb) else ring_bytes rb) @ [ch] \<and>
    rb_inv (snd (rt_ringbuffer_putchar_force ch rb))"
  using put_force_spec [OF assms, of ptr] putchar_force_spec [OF assms, of ch] by (auto split: prod.splits)

theorem rt_ringbuffer_force_witness:
  "ring_bytes (snd (rt_ringbuffer_put_force [2, 3, 4, 5, 6, 7, 8, 9] (snd (rt_ringbuffer_put [1] demo_rb)))) = [] \<and>
   ring_bytes (snd (rt_ringbuffer_put [1] demo_rb)) = [1]"
proof -
  have i: "rb_inv (snd (rt_ringbuffer_put [1] demo_rb))" by code_simp
  have "read_mirror (snd (rt_ringbuffer_put [1] demo_rb)) = write_mirror (snd (rt_ringbuffer_put [1] demo_rb))"
    "ring_bytes (snd (rt_ringbuffer_put [1] demo_rb)) = [1]" "buffer_size (snd (rt_ringbuffer_put [1] demo_rb)) = 8" by code_simp+
  then show ?thesis using rt_ringbuffer_force [OF i, of "[2, 3, 4, 5, 6, 7, 8, 9]" 0] by simp
qed

end
