(* ===== verification/C_Float.thy ===== *)
theory C_Float
  imports Prelude "HOL-Library.Log_Nat"
begin

section \<open>C floating point\<close>

text \<open>
  The PWM code computes its counts with \<^verbatim>\<open>float\<close> and \<^verbatim>\<open>double\<close>. A finite binary floating-point number
  is the rational it denotes, and an operation is the exact operation followed by rounding to
  the precision of the type (24 or 53 bits) to nearest, ties to even. Exponent range and
  infinities are left out: no quantity of this code comes near their limits.
\<close>

definition rne :: "rat \<Rightarrow> int" where
  "rne q = (let f = \<lfloor>q\<rfloor>; r = q - of_int f
            in if r < 1 / 2 then f else if r > 1 / 2 then f + 1 else if even f then f else f + 1)"

text \<open>The number of bits of the integer part, negative for small numbers; exact down to \<open>2 ^ -200\<close>.\<close>

definition fexp :: "rat \<Rightarrow> int" where
  "fexp x = int (floorlog 2 (nat \<lfloor>\<bar>x\<bar> * 2 ^ 200\<rfloor>)) - 200"

definition fl :: "nat \<Rightarrow> rat \<Rightarrow> rat" where
  "fl p x = (let t = int p - fexp x in of_int (rne (x * 2 powi t)) / 2 powi t)"

text \<open>Conversion to \<^verbatim>\<open>unsigned long\<close> truncates; out of range it is undefined.\<close>

definition to_ulong :: "rat \<Rightarrow> nat option" where
  "to_ulong x = (if x \<le> - 1 \<or> x \<ge> 2 ^ 32 then None else Some (nat \<lfloor>x\<rfloor>))"

subsection \<open>Rounding error\<close>

lemma rne_error: "\<bar>of_int (rne q) - q\<bar> \<le> 1 / 2"
proof -
  have "0 \<le> q - of_int \<lfloor>q\<rfloor>" "q - of_int \<lfloor>q\<rfloor> < 1" using floor_correct [of q] by linarith+
  then show ?thesis by (auto simp: rne_def Let_def abs_le_iff)
qed

lemma rne_of_int [simp]: "rne (of_int i) = i"
  by (simp add: rne_def)

lemma fexp_le:
  assumes "\<bar>x\<bar> < 2 ^ n"
  shows "fexp x \<le> int n"
proof -
  let ?m = "nat \<lfloor>\<bar>x\<bar> * 2 ^ 200\<rfloor>"
  have "\<bar>x\<bar> * 2 ^ 200 < 2 ^ (n + 200)" using assms by (simp add: power_add)
  then have "\<lfloor>\<bar>x\<bar> * 2 ^ 200\<rfloor> < 2 ^ (n + 200)" by (simp add: floor_less_iff)
  then have "?m < 2 ^ (n + 200)" by (simp add: nat_less_iff)
  then have "floorlog 2 ?m \<le> n + 200" by (rule floorlog_leI) simp_all
  then show ?thesis by (simp add: fexp_def)
qed

lemma fl_error:
  assumes "\<bar>x\<bar> < 2 ^ n" "n \<le> p"
  shows "\<bar>fl p x - x\<bar> \<le> 1 / (2 * 2 ^ (p - n))"
proof -
  define t where "t = int p - fexp x"
  have t: "int (p - n) \<le> t" using fexp_le [OF assms(1)] assms(2) by (simp add: t_def of_nat_diff)
  have pos: "(2 :: rat) powi t > 0" by simp
  have "fl p x - x = (of_int (rne (x * 2 powi t)) - x * 2 powi t) / 2 powi t"
    using pos by (simp add: fl_def t_def [symmetric] Let_def diff_divide_distrib)
  then have "\<bar>fl p x - x\<bar> = \<bar>of_int (rne (x * 2 powi t)) - x * 2 powi t\<bar> / 2 powi t" by simp
  also have "\<dots> \<le> (1 / 2) / 2 powi t" by (rule divide_right_mono [OF rne_error]) simp
  also have "\<dots> \<le> (1 / 2) / 2 ^ (p - n)"
  proof (rule divide_left_mono)
    show "(2 :: rat) ^ (p - n) \<le> 2 powi t" using power_int_increasing [OF t, of "2 :: rat"] by simp
  qed simp_all
  finally show ?thesis by simp
qed

lemma fl_bounds:
  assumes "\<bar>x\<bar> < 2 ^ n" "n \<le> p"
  shows "x - 1 / (2 * 2 ^ (p - n)) \<le> fl p x" "fl p x \<le> x + 1 / (2 * 2 ^ (p - n))"
  using fl_error [OF assms] unfolding abs_le_iff by linarith+

lemma fl_exact:
  assumes "\<bar>i\<bar> < 2 ^ p"
  shows "fl p (of_int i) = of_int i"
proof -
  define t where "t = int p - fexp (of_int i)"
  have "\<bar>of_int i :: rat\<bar> < 2 ^ p" using assms by (metis of_int_abs of_int_less_iff of_int_numeral of_int_power)
  then have "0 \<le> t" using fexp_le [of "of_int i" p] by (simp add: t_def)
  then obtain k where k: "t = int k" by (metis nonneg_int_cases)
  have "of_int i * 2 powi t = (of_int (i * 2 ^ k) :: rat)" by (simp add: k)
  then have "rne (of_int i * 2 powi t) = i * 2 ^ k" by (simp only: rne_of_int)
  then show ?thesis by (simp add: fl_def t_def [symmetric] Let_def k)
qed

end
