(* ===== verification/Ls1c_Pwm.thy ===== *)
theory Ls1c_Pwm
  imports Ls1c_Gpio Ls1c_Clock C_Float
begin

section \<open>PWM and timers (\<^verbatim>\<open>libraries/ls1c_pwm.c\<close>, \<^verbatim>\<open>libraries/ls1c_timer.c\<close>, \<^verbatim>\<open>drivers/drv_pwm.c\<close>)\<close>

text \<open>
  The four PWM channels of the LS1C, which also serve as timers, and the users of channel 0 that
  drive the back light of the display. A null pointer as argument makes every operation return at
  once; the model has the pointers to objects only. \<open>None\<close> is an undefined conversion or a division
  by zero in the clock tree.
\<close>

subsection \<open>Registers and data\<close>

abbreviation LS1C_PWM_CNTR :: u32 where "LS1C_PWM_CNTR \<equiv> 0x0"
abbreviation LS1C_PWM_HRC :: u32 where "LS1C_PWM_HRC \<equiv> 0x4"
abbreviation LS1C_PWM_LRC :: u32 where "LS1C_PWM_LRC \<equiv> 0x8"
abbreviation LS1C_PWM_CTRL :: u32 where "LS1C_PWM_CTRL \<equiv> 0xC"
abbreviation LS1C_REG_BASE_PWM0 :: u32 where "LS1C_REG_BASE_PWM0 \<equiv> 0xbfe5c000"
abbreviation LS1C_REG_BASE_PWM1 :: u32 where "LS1C_REG_BASE_PWM1 \<equiv> 0xbfe5c010"
abbreviation LS1C_REG_BASE_PWM2 :: u32 where "LS1C_REG_BASE_PWM2 \<equiv> 0xbfe5c020"
abbreviation LS1C_REG_BASE_PWM3 :: u32 where "LS1C_REG_BASE_PWM3 \<equiv> 0xbfe5c030"
abbreviation PWM_MAX_PERIOD :: nat where "PWM_MAX_PERIOD \<equiv> 0xFFFFFF"

datatype pwm_mode = PWM_MODE_NORMAL | PWM_MODE_PULSE

record pwm_info_t =
  gpio :: u32
  mode :: pwm_mode
  duty :: rat
  period_ns :: u32

subsection \<open>PWM operations\<close>

definition pwm_get_reg_base :: "u32 \<Rightarrow> u32" where
  "pwm_get_reg_base g =
     (if g = 6 \<or> g = 4 then LS1C_REG_BASE_PWM0
      else if g = 92 \<or> g = 5 then LS1C_REG_BASE_PWM1
      else if g = 52 \<or> g = 46 then LS1C_REG_BASE_PWM2
      else if g = 47 \<or> g = 53 then LS1C_REG_BASE_PWM3
      else 0)"

definition pwm_disable :: "pwm_info_t \<Rightarrow> bus \<Rightarrow> bus" where
  "pwm_disable info s = reg_write_32 0 (pwm_get_reg_base (gpio info) + LS1C_PWM_CTRL) s"

text \<open>Bit 0 enables the counter, bit 4 selects a single pulse; the other bits are written as 0.\<close>

definition pwm_enable :: "pwm_info_t \<Rightarrow> bus \<Rightarrow> bus" where
  "pwm_enable info s =
     (let base = pwm_get_reg_base (gpio info);
          s = reg_write_32 0 (base + LS1C_PWM_CNTR) s;
          ctrl = push_bit 0 1;
          ctrl = (if mode info = PWM_MODE_PULSE then ctrl OR push_bit 4 1 else ctrl AND NOT (push_bit 4 1))
      in reg_write_32 ctrl (base + LS1C_PWM_CTRL) s)"

definition pwm_remap :: "u32 \<Rightarrow> bus \<Rightarrow> bus" where
  "pwm_remap g s =
     (if g = 6 \<or> g = 92 then s
      else if g = 4 \<or> g = 5 then pin_set_remap g PIN_REMAP_THIRD s
      else if g = 52 \<or> g = 46 \<or> g = 47 \<or> g = 53 then pin_set_remap g PIN_REMAP_FOURTH s
      else s)"

text \<open>The counts: \<open>period\<close> is computed in \<^verbatim>\<open>double\<close>, \<open>tmp\<close> in \<^verbatim>\<open>float\<close>.\<close>

definition pwm_counts :: "u32 \<Rightarrow> u32 \<Rightarrow> rat \<Rightarrow> (nat \<times> nat) option" where
  "pwm_counts clk ns d =
     do { p \<leftarrow> to_ulong (fl 53 (fl 53 (of_nat (unat clk) * of_nat (unat ns)) / 1000000000));
          let period = (if p > PWM_MAX_PERIOD then PWM_MAX_PERIOD else p)
          in do { tmp \<leftarrow> to_ulong (fl 24 (of_nat period - fl 24 (of_nat period * d))); Some (tmp, period) } }"

definition pwm_init :: "pwm_info_t \<Rightarrow> bus \<Rightarrow> bus option" where
  "pwm_init info s =
     (let g = gpio info;
          s = pwm_remap g (pin_set_purpose g PIN_PURPOSE_OTHER s)
      in do { pwm_clk \<leftarrow> clk_get_apb_rate s;
              (tmp, period) \<leftarrow> pwm_counts pwm_clk (period_ns info) (duty info);
              let base = pwm_get_reg_base g;
                  s = reg_write_32 (of_nat tmp - 1) (base + LS1C_PWM_HRC) s;
                  s = reg_write_32 (of_nat period - 1) (base + LS1C_PWM_LRC) s
              in Some (pwm_enable info s) })"

text \<open>The back light: \<open>pwminit\<close> of the display controller and \<open>pwminit_user\<close> of the camera thread.\<close>

definition backlight_info :: "rat \<Rightarrow> pwm_info_t" where
  "backlight_info d = \<lparr>gpio = 6, mode = PWM_MODE_NORMAL, duty = fl 24 d, period_ns = 5 * 1000 * 1000\<rparr>"

definition pwminit :: "bus \<Rightarrow> bus option" where
  "pwminit s = do { s \<leftarrow> pwm_init (backlight_info (85 / 100)) s; Some (pwm_enable (backlight_info (85 / 100)) s) }"

definition pwminit_user_regs :: "int \<Rightarrow> bus \<Rightarrow> bus option" where
  "pwminit_user_regs l s =
     (let info = backlight_info (if l = 1 then 85 / 100 else 0)
      in do { s \<leftarrow> pwm_init info s; Some (pwm_enable info s) })"

subsection \<open>Timers\<close>

datatype ls1c_timer_t = TIMER_PWM0 | TIMER_PWM1 | TIMER_PWM2 | TIMER_PWM3

record timer_info_t =
  tmr :: ls1c_timer_t
  time_ns :: u32
  time_h_ns :: u32

fun timer_get_reg_base :: "ls1c_timer_t \<Rightarrow> u32" where
  "timer_get_reg_base TIMER_PWM0 = LS1C_REG_BASE_PWM0"
| "timer_get_reg_base TIMER_PWM1 = LS1C_REG_BASE_PWM1"
| "timer_get_reg_base TIMER_PWM2 = LS1C_REG_BASE_PWM2"
| "timer_get_reg_base TIMER_PWM3 = LS1C_REG_BASE_PWM3"

definition timer_count :: "u32 \<Rightarrow> u32 \<Rightarrow> u32" where
  "timer_count timer_clk ns = (timer_clk div 1000000) * (ns div 1000)"

definition min32 :: "u32 \<Rightarrow> u32 \<Rightarrow> u32" where
  "min32 a b = (if a > b then b else a)"

text \<open>The post-decrement of the source changes the count after it has been written.\<close>

definition timer_init :: "timer_info_t \<Rightarrow> bus \<Rightarrow> bus option" where
  "timer_init info s =
     do { timer_clk \<leftarrow> clk_get_apb_rate s;
          let tmp = min32 (timer_count timer_clk (time_ns info)) 0xffffff;
              ctrl = push_bit 11 1 OR push_bit 5 1 OR push_bit 4 1 OR push_bit 3 1 OR push_bit 0 1;
              base = timer_get_reg_base (tmr info);
              s = reg_write_32 0 (base + LS1C_PWM_HRC) s;
              s = reg_write_32 tmp (base + LS1C_PWM_LRC) s;
              s = reg_write_32 0 (base + LS1C_PWM_CNTR) s
          in Some (reg_write_32 ctrl (base + LS1C_PWM_CTRL) s) }"

definition timer_is_time_out :: "timer_info_t \<Rightarrow> bus \<Rightarrow> bool" where
  "timer_is_time_out info s =
     (let ctrl = reg_read_32 (timer_get_reg_base (tmr info) + LS1C_PWM_CTRL) s in ctrl AND push_bit 6 1 \<noteq> 0)"

definition timer_stop :: "timer_info_t \<Rightarrow> bus \<Rightarrow> bus" where
  "timer_stop info s = reg_write_32 0 (timer_get_reg_base (tmr info) + LS1C_PWM_CTRL) s"

definition timer_get_time_ns :: "timer_info_t \<Rightarrow> bus \<Rightarrow> u32 option" where
  "timer_get_time_ns info s =
     (let cntr = reg_read_32 (timer_get_reg_base (tmr info) + LS1C_PWM_CNTR) s
      in do { timer_clk \<leftarrow> clk_get_apb_rate s; cdiv (cntr * 1000) (timer_clk div 1000000) })"

text \<open>A bit of the control register is set and cleared again.\<close>

definition timer_pulse_ctrl :: "nat \<Rightarrow> timer_info_t \<Rightarrow> bus \<Rightarrow> bus" where
  "timer_pulse_ctrl b info s =
     (let a = timer_get_reg_base (tmr info) + LS1C_PWM_CTRL;
          ctrl = reg_read_32 a s OR push_bit b 1;
          s = reg_write_32 ctrl a s;
          ctrl = ctrl AND NOT (push_bit b 1)
      in reg_write_32 ctrl a s)"

definition timer_int_clr :: "timer_info_t \<Rightarrow> bus \<Rightarrow> bus" where
  "timer_int_clr = timer_pulse_ctrl 6"

definition timer_cnt_clr :: "timer_info_t \<Rightarrow> bus \<Rightarrow> bus" where
  "timer_cnt_clr = timer_pulse_ctrl 7"

definition timer_int_init :: "timer_info_t \<Rightarrow> u32 \<Rightarrow> u32 \<Rightarrow> bus \<Rightarrow> bus option" where
  "timer_int_init info hrc lrc s =
     do { timer_clk \<leftarrow> clk_get_apb_rate s;
          let l_value = min32 (timer_count timer_clk (time_ns info)) 0xffffff;
              h_value = min32 (timer_count timer_clk (time_h_ns info)) l_value;
              ctrl = push_bit 11 lrc OR push_bit 10 hrc OR push_bit 5 1 OR push_bit 4 1 OR push_bit 3 1 OR push_bit 0 1;
              base = timer_get_reg_base (tmr info);
              s = reg_write_32 0 (base + LS1C_PWM_HRC) s;
              s = reg_write_32 l_value (base + LS1C_PWM_LRC) s;
              s = reg_write_32 h_value (base + LS1C_PWM_HRC) s;
              s = reg_write_32 0 (base + LS1C_PWM_CNTR) s
          in Some (reg_write_32 ctrl (base + LS1C_PWM_CTRL) s) }"

subsection \<open>The driver\<close>

record rt_ls1c_pwm =
  pwm_period :: "u32 list"
  pwm_pulse :: "u32 list"

record rt_pwm_configuration =
  channel :: nat
  cfg_period :: u32
  cfg_pulse :: u32

datatype pwm_cmd = PWM_CMD_ENABLE | PWM_CMD_DISABLE | PWM_CMD_SET | PWM_CMD_GET | PWM_CMD_OTHER

definition pwm_set :: "rt_pwm_configuration \<Rightarrow> rt_ls1c_pwm \<Rightarrow> rt_err \<times> rt_ls1c_pwm" where
  "pwm_set c d =
     (if channel c > 3 then (RT_EIO, d)
      else (RT_EOK, d\<lparr>pwm_period := (pwm_period d)[channel c := cfg_period c], pwm_pulse := (pwm_pulse d)[channel c := cfg_pulse c]\<rparr>))"

definition pwm_get :: "rt_pwm_configuration \<Rightarrow> rt_ls1c_pwm \<Rightarrow> rt_err \<times> rt_pwm_configuration" where
  "pwm_get c d =
     (if channel c > 3 then (RT_EIO, c)
      else (RT_EOK, c\<lparr>cfg_period := pwm_period d ! channel c, cfg_pulse := pwm_pulse d ! channel c\<rparr>))"

text \<open>\<open>None\<close> for an unknown channel: the GPIO then stays uninitialised.\<close>

definition channel_gpio :: "nat \<Rightarrow> u32 option" where
  "channel_gpio n = (if n = 0 then Some 6 else if n = 1 then Some 92 else if n = 2 then Some 52 else if n = 3 then Some 47 else None)"

text \<open>A period of 0 divides by zero in \<^verbatim>\<open>float\<close>; the result is not a number and its conversion undefined.\<close>

definition pwm_config_info :: "rt_pwm_configuration \<Rightarrow> pwm_info_t option" where
  "pwm_config_info c =
     do { g \<leftarrow> channel_gpio (channel c);
          if cfg_period c = 0 then None
          else Some \<lparr>gpio = g, mode = PWM_MODE_NORMAL,
                     duty = fl 24 (fl 24 (of_nat (unat (cfg_pulse c))) / fl 24 (of_nat (unat (cfg_period c)))), period_ns = cfg_period c\<rparr> }"

definition pwm_control :: "pwm_cmd \<Rightarrow> rt_pwm_configuration \<Rightarrow> rt_ls1c_pwm \<Rightarrow> bus \<Rightarrow>
    (rt_err \<times> rt_pwm_configuration \<times> rt_ls1c_pwm \<times> bus) option" where
  "pwm_control cmd c d s =
     (case cmd of
        PWM_CMD_ENABLE \<Rightarrow> do { info \<leftarrow> pwm_config_info c; s \<leftarrow> pwm_init info s; Some (RT_EOK, c, d, pwm_enable info s) }
      | PWM_CMD_DISABLE \<Rightarrow> do { info \<leftarrow> pwm_config_info c; s \<leftarrow> pwm_init info s; Some (RT_EOK, c, d, pwm_disable info s) }
      | PWM_CMD_SET \<Rightarrow> (case pwm_set c d of (e, d') \<Rightarrow> Some (e, c, d', s))
      | PWM_CMD_GET \<Rightarrow> (case pwm_get c d of (e, c') \<Rightarrow> Some (e, c', d, s))
      | PWM_CMD_OTHER \<Rightarrow> Some (RT_EOK, c, d, s))"

subsection \<open>The counts\<close>

lemma period_exact:
  assumes "N < 2 ^ 53" "N div 1000000000 < 2 ^ 24"
  shows "to_ulong (fl 53 (fl 53 (of_nat N) / 1000000000)) = Some (N div 1000000000)"
proof -
  define q r where "q = N div 1000000000" and "r = N mod 1000000000"
  define x :: rat where "x = of_nat N / 1000000000"
  have N: "N = q * 1000000000 + r" "r < 1000000000" by (simp_all add: q_def r_def)
  have x: "x = of_nat q + of_nat r / 1000000000" by (simp add: x_def N(1) add_divide_distrib)
  have "\<bar>int N\<bar> < 2 ^ 53" using assms(1) by (metis abs_of_nat of_nat_less_iff of_nat_numeral of_nat_power)
  from fl_exact [OF this] have y: "fl 53 (of_nat N) = of_nat N" by simp
  have q24: "q < 2 ^ 24" "real_of_nat q < 2 ^ 24" using assms(2) by (simp_all add: q_def)
  have fr: "0 \<le> (of_nat r :: rat) / 1000000000" "(of_nat r :: rat) / 1000000000 \<le> 1 - 1 / 1000000000"
    "r \<noteq> 0 \<Longrightarrow> 1 / 1000000000 \<le> (of_nat r :: rat) / 1000000000" using N(2) by (auto simp: field_simps)
  have "x < 2 ^ 24"
  proof -
    have "(of_nat q :: rat) \<le> 2 ^ 24 - 1" using q24(1) by (simp flip: of_nat_Suc)
    then show ?thesis using fr(2) x by simp
  qed
  then have err: "x - 1 / 1073741824 \<le> fl 53 x" "fl 53 x \<le> x + 1 / 1073741824"
    using fl_bounds [of x 24 53] fr(1) x by simp_all
  have "of_nat q \<le> fl 53 x \<and> fl 53 x < of_nat q + 1"
  proof (cases "r = 0")
    case True
    have "\<bar>int q\<bar> < 2 ^ 53" using q24(1) by simp
    from fl_exact [OF this] show ?thesis using True x by simp
  next
    case False
    then show ?thesis using err fr unfolding x by linarith
  qed
  then have "\<lfloor>fl 53 x\<rfloor> = int q" "fl 53 x > - 1" "fl 53 x < 2 ^ 32"
    using q24(1) by (auto simp: floor_eq_iff intro: less_le_trans)
  then show ?thesis by (simp add: to_ulong_def y x_def [symmetric] q_def)
qed

lemma pwm_counts_ok:
  fixes clk ns :: u32 and d :: rat
  defines "P \<equiv> unat clk * unat ns div 1000000000"
  assumes "unat clk * unat ns < 2 ^ 53" "P < 2 ^ 24" "0 \<le> d" "d \<le> 1"
  shows "\<exists>tmp. pwm_counts clk ns d = Some (tmp, P) \<and> \<bar>of_nat tmp - (1 - d) * of_nat P\<bar> < 2 \<and> (d = 0 \<longrightarrow> tmp = P)"
proof -
  define a where "a = fl 24 (of_nat P * d)"
  define b where "b = fl 24 (of_nat P - a)"
  have p: "to_ulong (fl 53 (fl 53 (of_nat (unat clk) * of_nat (unat ns)) / 1000000000)) = Some P"
    using period_exact [of "unat clk * unat ns"] assms(2,3) by (simp add: P_def)
  have m: "(if P > PWM_MAX_PERIOD then PWM_MAX_PERIOD else P) = P" using assms(3) by simp
  have P1: "(of_nat P :: rat) \<le> 2 ^ 24 - 1" using assms(3) by (simp flip: of_nat_Suc)
  have pd: "0 \<le> of_nat P * d" "of_nat P * d \<le> of_nat P" using assms(4,5) by (auto simp: mult_left_le)
  have "\<bar>of_nat P * d\<bar> < 2 ^ 24" using pd P1 by linarith
  from fl_bounds [OF this order_refl] have a: "of_nat P * d - 1 / 2 \<le> a" "a \<le> of_nat P * d + 1 / 2" by (simp_all add: a_def)
  have "\<bar>of_nat P - a\<bar> < 2 ^ 24" using a pd P1 by linarith
  from fl_bounds [OF this order_refl] have b: "of_nat P - a - 1 / 2 \<le> b" "b \<le> of_nat P - a + 1 / 2" by (simp_all add: b_def)
  have b1: "- 1 \<le> b" "b \<le> 2 ^ 24 + 1" using a b pd P1 by linarith+
  then have b2: "b < 2 ^ 32" by simp
  have "b \<noteq> - 1 \<and> (d = 0 \<longrightarrow> b = of_nat P)"
  proof -
    have ex: "fl 24 (of_nat P) = of_nat P" using fl_exact [of "int P" 24] assms(3) by simp
    have z: "fl 24 0 = 0" using fl_exact [of 0 24] by simp
    show ?thesis
    proof (cases "d = 1")
      case True
      then show ?thesis by (simp add: b_def a_def ex z)
    next
      case False
      then have "d < 1" using assms(5) by simp
      then have "P = 0 \<or> of_nat P * d < of_nat P" using mult_strict_left_mono [of d 1 "of_nat P"] by (cases "P = 0") simp_all
      then have "b \<noteq> - 1"
      proof
        assume "P = 0"
        then have "b = 0" by (simp add: b_def a_def z)
        then show ?thesis by simp
      next
        assume "of_nat P * d < of_nat P"
        then show ?thesis using a b by linarith
      qed
      then show ?thesis by (simp add: b_def a_def ex z)
    qed
  qed
  then have t: "to_ulong b = Some (nat \<lfloor>b\<rfloor>)" using b1(1) b2 by (simp add: to_ulong_def)
  have "\<bar>of_nat (nat \<lfloor>b\<rfloor>) - b\<bar> < 1" using b1 \<open>b \<noteq> - 1 \<and> _\<close> floor_correct [of b] by (cases "0 \<le> b") (auto simp: abs_less_iff)
  moreover have "(1 - d) * of_nat P = of_nat P - of_nat P * d" by (simp add: algebra_simps)
  ultimately have "\<bar>of_nat (nat \<lfloor>b\<rfloor>) - (1 - d) * of_nat P\<bar> < 2" using a b by linarith
  then show ?thesis unfolding pwm_counts_def p bind.bind_lunit m Let_def
    using t \<open>b \<noteq> - 1 \<and> _\<close> by (simp add: m a_def [symmetric] b_def [symmetric] del: unsigned_of_nat)
qed

subsection \<open>Registers\<close>

text \<open>The pin registers lie below the peripherals, so programming pins leaves those alone.\<close>

lemma pin_frame:
  assumes "unat g < 128" "0xbfd01300 \<le> a"
  shows "rd32 a (pin_set_purpose g p s) = rd32 a s" "rd32 a (pin_set_remap g r s) = rd32 a s"
proof -
  have "a \<noteq> LS1C_GPIO_CFG0 + 4 * GPIO_GET_PORT g" using assms(2) by (rule_tac port_cases [OF assms(1)]) auto
  then show "rd32 a (pin_set_purpose g p s) = rd32 a s" using pin_set_purpose_bit [OF assms(1)] by (intro bit_eqI) simp
  have "a \<notin> mux_reg g ` {0, 1, 2, 3, 4}" using assms(2) by (rule_tac port_cases [OF assms(1)]) (auto simp: mux_reg_def)
  then show "rd32 a (pin_set_remap g r s) = rd32 a s" using pin_set_remap_bit [OF assms(1)] by (intro bit_eqI) simp
qed

lemma apb_rate_cong:
  "rd32 LS1C_START_FREQ s' = rd32 LS1C_START_FREQ s \<Longrightarrow> rd32 LS1C_CLK_DIV_PARAM s' = rd32 LS1C_CLK_DIV_PARAM s \<Longrightarrow>
    clk_get_apb_rate s' = clk_get_apb_rate s"
  by (simp add: clk_get_apb_rate_def clk_get_ddr_rate_def clk_get_cpu_rate_def clk_get_pll_rate_def reg_read_32_def)

definition pwm_gpio :: "u32 \<Rightarrow> bool" where
  "pwm_gpio g \<longleftrightarrow> g \<in> {6, 4, 92, 5, 52, 46, 47, 53}"

lemma pwm_pins_frame:
  assumes "pwm_gpio g" "0xbfd01300 \<le> a"
  shows "rd32 a (pwm_remap g (pin_set_purpose g p s)) = rd32 a s"
proof -
  have "unat g < 128" using assms(1) by (auto simp: pwm_gpio_def)
  then show ?thesis using assms(2) by (simp add: pwm_remap_def pin_frame)
qed

lemma pwm_base_cases:
  assumes "pwm_gpio g"
  shows "pwm_get_reg_base g \<in> {LS1C_REG_BASE_PWM0, LS1C_REG_BASE_PWM1, LS1C_REG_BASE_PWM2, LS1C_REG_BASE_PWM3}"
  using assms by (auto simp: pwm_gpio_def pwm_get_reg_base_def)

lemma pwm_init_regs:
  assumes "pwm_gpio (gpio info)" "clk_get_apb_rate s = Some clk" "pwm_counts clk (period_ns info) (duty info) = Some (tmp, P)"
  defines "base \<equiv> pwm_get_reg_base (gpio info)"
  shows "\<exists>s'. pwm_init info s = Some s' \<and> rd32 (base + LS1C_PWM_HRC) s' = of_nat tmp - 1 \<and> rd32 (base + LS1C_PWM_LRC) s' = of_nat P - 1 \<and>
    rd32 (base + LS1C_PWM_CNTR) s' = 0 \<and> rd32 (base + LS1C_PWM_CTRL) s' = (if mode info = PWM_MODE_PULSE then 0x11 else 1) \<and>
    clk_get_apb_rate s' = Some clk"
proof -
  define s1 where "s1 = pwm_remap (gpio info) (pin_set_purpose (gpio info) PIN_PURPOSE_OTHER s)"
  have c1: "clk_get_apb_rate s1 = Some clk"
    using apb_rate_cong [of s1 s] pwm_pins_frame [OF assms(1)] assms(2) by (simp add: s1_def)
  define s2 where "s2 = pwm_enable info (reg_write_32 (of_nat P - 1) (base + LS1C_PWM_LRC) (reg_write_32 (of_nat tmp - 1) (base + LS1C_PWM_HRC) s1))"
  have i: "pwm_init info s = Some s2"
    using assms(3) c1 by (simp add: pwm_init_def Let_def s1_def [symmetric] s2_def base_def)
  have b: "base \<in> {LS1C_REG_BASE_PWM0, LS1C_REG_BASE_PWM1, LS1C_REG_BASE_PWM2, LS1C_REG_BASE_PWM3}"
    using pwm_base_cases [OF assms(1)] by (simp add: base_def)
  have r: "rd32 a s2 = (if a = base + LS1C_PWM_CTRL then (if mode info = PWM_MODE_PULSE then 0x11 else 1) else if a = base + LS1C_PWM_CNTR then 0
      else if a = base + LS1C_PWM_LRC then of_nat P - 1 else if a = base + LS1C_PWM_HRC then of_nat tmp - 1 else rd32 a s1)" for a
    using b by (auto simp: s2_def pwm_enable_def base_def [symmetric] reg_write_32_def Let_def bus_simps)
  have "clk_get_apb_rate s2 = Some clk" using apb_rate_cong [of s2 s1] c1 b by (auto simp: r)
  then show ?thesis using i b by (auto simp: r)
qed

text \<open>
  Programming a PWM channel: the low register gets the period in APB clock cycles, rounded
  down, less one; the high register the part of it during which the output is low, less one,
  within two cycles of the exact value in spite of the two roundings in \<^verbatim>\<open>float\<close>; the counter starts
  from zero and is enabled. A duty of 0 gives equal registers.
\<close>

theorem pwm_init_correct:
  assumes "pwm_gpio (gpio info)" "clk_get_apb_rate s = Some clk" "0 \<le> duty info" "duty info \<le> 1"
    and "unat clk * unat (period_ns info) < 2 ^ 53" "unat clk * unat (period_ns info) div 1000000000 < 2 ^ 24"
  shows "\<exists>s' tmp. pwm_init info s = Some s' \<and>
    rd32 (pwm_get_reg_base (gpio info) + LS1C_PWM_LRC) s' = of_nat (unat clk * unat (period_ns info) div 1000000000) - 1 \<and>
    rd32 (pwm_get_reg_base (gpio info) + LS1C_PWM_HRC) s' = of_nat tmp - 1 \<and>
    \<bar>of_nat tmp - (1 - duty info) * of_nat (unat clk * unat (period_ns info) div 1000000000)\<bar> < 2 \<and>
    (duty info = 0 \<longrightarrow> tmp = unat clk * unat (period_ns info) div 1000000000) \<and>
    rd32 (pwm_get_reg_base (gpio info) + LS1C_PWM_CNTR) s' = 0 \<and> bit (rd32 (pwm_get_reg_base (gpio info) + LS1C_PWM_CTRL) s') 0"
proof -
  obtain tmp where t: "pwm_counts clk (period_ns info) (duty info) = Some (tmp, unat clk * unat (period_ns info) div 1000000000)"
      "\<bar>of_nat tmp - (1 - duty info) * of_nat (unat clk * unat (period_ns info) div 1000000000)\<bar> < 2"
      "duty info = 0 \<longrightarrow> tmp = unat clk * unat (period_ns info) div 1000000000"
    using pwm_counts_ok [OF assms(5,6,3,4)] by blast
  obtain s' where s': "pwm_init info s = Some s'" "rd32 (pwm_get_reg_base (gpio info) + LS1C_PWM_HRC) s' = of_nat tmp - 1"
      "rd32 (pwm_get_reg_base (gpio info) + LS1C_PWM_LRC) s' = of_nat (unat clk * unat (period_ns info) div 1000000000) - 1"
      "rd32 (pwm_get_reg_base (gpio info) + LS1C_PWM_CNTR) s' = 0"
      "rd32 (pwm_get_reg_base (gpio info) + LS1C_PWM_CTRL) s' = (if mode info = PWM_MODE_PULSE then 0x11 else 1)"
    using pwm_init_regs [OF assms(1,2) t(1)] by blast
  have "bit (if mode info = PWM_MODE_PULSE then 0x11 else 1 :: u32) 0" by simp
  then show ?thesis using s' t(2,3) by (intro exI [of _ s'] exI [of _ tmp]) (simp only: simp_thms)
qed

definition demo_info :: pwm_info_t where
  "demo_info = \<lparr>gpio = 6, mode = PWM_MODE_NORMAL, duty = 1 / 4, period_ns = 5000000\<rparr>"

theorem pwm_init_correct_witness:
  "\<exists>s' tmp. pwm_init demo_info bus0 = Some s' \<and> rd32 (0xbfe5c000 + LS1C_PWM_LRC) s' = 59999 \<and>
     rd32 (0xbfe5c000 + LS1C_PWM_HRC) s' = of_nat tmp - 1 \<and> \<bar>of_nat tmp - (45000 :: rat)\<bar> < 2"
proof -
  have c: "clk_get_apb_rate bus0 = Some 12000000" by code_simp
  have "pwm_gpio (gpio demo_info)" "pwm_get_reg_base (gpio demo_info) = 0xbfe5c000" by (simp_all add: demo_info_def pwm_gpio_def pwm_get_reg_base_def)
  with pwm_init_correct [OF _ c, of demo_info] show ?thesis by (auto simp: demo_info_def)
qed

lemma pwm_enable_frame:
  "a \<noteq> pwm_get_reg_base (gpio info) + LS1C_PWM_CTRL \<Longrightarrow> a \<noteq> pwm_get_reg_base (gpio info) + LS1C_PWM_CNTR \<Longrightarrow>
    rd32 a (pwm_enable info s) = rd32 a s"
  by (auto simp: pwm_enable_def Let_def reg_write_32_def bus_simps)

lemma duty_085: "85 / 100 - 1 / 33554432 \<le> fl 24 (85 / 100)" "fl 24 (85 / 100) \<le> 85 / 100 + 1 / 33554432"
  using fl_bounds [of "85 / 100" 0 24] by simp_all

text \<open>
  The back light. At an APB clock of up to 800 MHz, switching it on leaves the output low for
  15 percent of the 5 ms period, within three cycles; switching it off programs a low time equal to
  the whole period.
\<close>

theorem backlight_levels:
  assumes "clk_get_apb_rate s = Some clk" "unat clk \<le> 800000000"
  defines "P \<equiv> unat clk * 5000000 div 1000000000"
  shows "(\<exists>s' tmp. pwminit_user_regs 1 s = Some s' \<and> rd32 0xbfe5c008 s' = of_nat P - 1 \<and> rd32 0xbfe5c004 s' = of_nat tmp - 1 \<and>
      \<bar>of_nat tmp - (15 / 100 :: rat) * of_nat P\<bar> < 3) \<and>
    (\<exists>s'. pwminit_user_regs 0 s = Some s' \<and> rd32 0xbfe5c008 s' = of_nat P - 1 \<and> rd32 0xbfe5c004 s' = of_nat P - 1)"
proof -
  have g: "pwm_gpio (gpio (backlight_info d))" "pwm_get_reg_base (gpio (backlight_info d)) = LS1C_REG_BASE_PWM0"
    "period_ns (backlight_info d) = 5000000" "duty (backlight_info d) = fl 24 d" for d
    by (simp_all add: backlight_info_def pwm_gpio_def pwm_get_reg_base_def)
  have n: "unat clk * unat (5000000 :: u32) = unat clk * 5000000" by simp
  have b: "unat clk * unat (5000000 :: u32) < 2 ^ 53" "unat clk * unat (5000000 :: u32) div 1000000000 < 2 ^ 24"
    unfolding n using assms(2) by simp_all
  have init: "\<exists>s1 tmp. pwm_init (backlight_info d) s = Some s1 \<and> rd32 0xbfe5c008 s1 = of_nat P - 1 \<and> rd32 0xbfe5c004 s1 = of_nat tmp - 1 \<and>
      \<bar>of_nat tmp - (1 - fl 24 d) * of_nat P\<bar> < 2 \<and> (fl 24 d = 0 \<longrightarrow> tmp = P)" if d: "0 \<le> fl 24 d" "fl 24 d \<le> 1" for d
  proof -
    obtain tmp where t: "pwm_counts clk 5000000 (fl 24 d) = Some (tmp, P)" "\<bar>of_nat tmp - (1 - fl 24 d) * of_nat P\<bar> < 2"
        "fl 24 d = 0 \<longrightarrow> tmp = P"
      using pwm_counts_ok [OF b d] unfolding n P_def by blast
    then show ?thesis using pwm_init_regs [OF g(1) assms(1), of d tmp P] unfolding g by auto
  qed
  have en: "rd32 0xbfe5c008 (pwm_enable (backlight_info d) s1) = rd32 0xbfe5c008 s1"
    "rd32 0xbfe5c004 (pwm_enable (backlight_info d) s1) = rd32 0xbfe5c004 s1" for d s1
    by (simp_all add: pwm_enable_frame g)
  have z: "fl 24 0 = 0" using fl_exact [of 0 24] by simp
  obtain s1 tmp where on: "pwm_init (backlight_info (85 / 100)) s = Some s1" "rd32 0xbfe5c008 s1 = of_nat P - 1"
      "rd32 0xbfe5c004 s1 = of_nat tmp - 1" "\<bar>of_nat tmp - (1 - fl 24 (85 / 100)) * of_nat P\<bar> < (2 :: rat)"
    using init [of "85 / 100"] duty_085 by auto
  have "P < 2 ^ 24" using b(2) by (simp add: P_def)
  then have "(of_nat P :: rat) < 2 ^ 24" by (metis of_nat_less_iff of_nat_numeral of_nat_power)
  moreover have "\<bar>fl 24 (85 / 100) - 85 / 100\<bar> \<le> 1 / 33554432" using duty_085 by linarith
  ultimately have "\<bar>fl 24 (85 / 100) - 85 / 100\<bar> * of_nat P \<le> (1 / 33554432) * 2 ^ 24" by (intro mult_mono) simp_all
  then have "\<bar>(fl 24 (85 / 100) - 85 / 100) * of_nat P\<bar> \<le> 1 / 2" by (simp add: abs_mult)
  moreover have "(1 - fl 24 (85 / 100)) * of_nat P = (15 / 100 :: rat) * of_nat P - (fl 24 (85 / 100) - 85 / 100) * of_nat P"
    by (simp add: algebra_simps)
  ultimately have "\<bar>of_nat tmp - (15 / 100 :: rat) * of_nat P\<bar> < 3" using on(4) by linarith
  moreover obtain s2 where "pwm_init (backlight_info 0) s = Some s2" "rd32 0xbfe5c008 s2 = of_nat P - 1" "rd32 0xbfe5c004 s2 = of_nat P - 1"
    using init [of 0] z by auto
  ultimately show ?thesis using on(1-3) by (auto simp: pwminit_user_regs_def Let_def en)
qed

theorem backlight_levels_witness:
  "\<exists>s'. pwminit_user_regs 0 bus0 = Some s' \<and> rd32 0xbfe5c008 s' = 59999 \<and> rd32 0xbfe5c004 s' = 59999"
proof -
  have "clk_get_apb_rate bus0 = Some 12000000" by code_simp
  from backlight_levels [OF this] show ?thesis by simp
qed

text \<open>
  The timers. \<open>timer_init\<close> programs the time in APB clock cycles, counted in whole microseconds
  and megahertz and capped at the 24 bits of the counter, as long as the product fits 32 bits.
  Reading the time back multiplies the counter by 1000 in 32 bits: the result is right up to a
  count of 4294967, a quarter of the range of the counter, and wraps beyond.
\<close>

theorem timer_counts:
  assumes "clk_get_apb_rate s = Some clk" "1000000 \<le> unat clk"
    and "(unat clk div 1000000) * (unat (time_ns info) div 1000) < 2 ^ 32"
  defines "base \<equiv> timer_get_reg_base (tmr info)" and "mhz \<equiv> unat clk div 1000000"
  shows "(\<exists>s'. timer_init info s = Some s' \<and>
      unat (rd32 (base + LS1C_PWM_LRC) s') = min (mhz * (unat (time_ns info) div 1000)) 0xffffff \<and> rd32 (base + LS1C_PWM_HRC) s' = 0) \<and>
    (\<exists>t. timer_get_time_ns info s = Some t \<and> unat t = (unat (rd32 base s) * 1000) mod 2 ^ 32 div mhz \<and>
      (unat (rd32 base s) \<le> 4294967 \<longrightarrow> unat t = unat (rd32 base s) * 1000 div mhz))"
proof -
  have m: "unat (clk div 1000000) = mhz" by (simp add: mhz_def unat_div)
  have c: "unat (timer_count clk (time_ns info)) = mhz * (unat (time_ns info) div 1000)"
    using assms(3) by (simp add: timer_count_def unat_mult32 unat_div mhz_def)
  have mn: "unat (min32 (timer_count clk (time_ns info)) 0xffffff) = min (mhz * (unat (time_ns info) div 1000)) 0xffffff"
    using c by (auto simp: min32_def min_def word_less_nat_alt)
  have b: "base \<in> {LS1C_REG_BASE_PWM0, LS1C_REG_BASE_PWM1, LS1C_REG_BASE_PWM2, LS1C_REG_BASE_PWM3}"
    by (cases "tmr info") (auto simp: base_def)
  define s' where "s' = reg_write_32 (push_bit 11 1 OR push_bit 5 1 OR push_bit 4 1 OR push_bit 3 1 OR push_bit 0 1) (base + LS1C_PWM_CTRL)
      (reg_write_32 0 (base + LS1C_PWM_CNTR) (reg_write_32 (min32 (timer_count clk (time_ns info)) 0xffffff) (base + LS1C_PWM_LRC)
      (reg_write_32 0 (base + LS1C_PWM_HRC) s)))"
  have "timer_init info s = Some s'" by (simp add: timer_init_def assms(1) s'_def base_def Let_def)
  moreover have "rd32 (base + LS1C_PWM_LRC) s' = min32 (timer_count clk (time_ns info)) 0xffffff" "rd32 (base + LS1C_PWM_HRC) s' = 0"
    using b unfolding s'_def reg_write_32_def by (auto simp: bus_simps)
  moreover have nz: "clk div 1000000 \<noteq> 0" using m assms(2) by (auto simp: mhz_def simp flip: unat_eq_zero)
  then have "timer_get_time_ns info s = Some (rd32 base s * 1000 div (clk div 1000000))"
    by (simp add: timer_get_time_ns_def assms(1) base_def reg_read_32_def cdiv_def)
  moreover have "unat (rd32 base s * 1000 div (clk div 1000000)) = (unat (rd32 base s) * 1000) mod 2 ^ 32 div mhz"
    unfolding unat_div m by (simp add: unat_word_ariths mhz_def)
  ultimately show ?thesis using mn by auto
qed

theorem timer_counts_witness:
  "\<exists>s'. timer_init \<lparr>tmr = TIMER_PWM1, time_ns = 1000000, time_h_ns = 0\<rparr> bus0 = Some s' \<and> unat (rd32 (0xbfe5c010 + LS1C_PWM_LRC) s') = 12000"
proof -
  have "clk_get_apb_rate bus0 = Some 12000000" by code_simp
  from timer_counts [OF this, of "\<lparr>tmr = TIMER_PWM1, time_ns = 1000000, time_h_ns = 0\<rparr>"] show ?thesis by auto
qed

end
