(* ===== verification/App_Text.thy ===== *)
theory App_Text
  imports Prelude "HOL-Library.Sublist"
begin

section \<open>Byte buffers of the applications\<close>

text \<open>
  The application threads look for words in character buffers of fixed size and copy characters
  between them with plain loops. A buffer is a \<open>string\<close> of its full size; an access outside it,
  which C leaves undefined, is \<open>None\<close>. The lemmas give the result of a search and of a copy,
  and when neither leaves its buffer.
\<close>

subsection \<open>Accesses\<close>

definition rdc :: "string \<Rightarrow> nat \<Rightarrow> char option" where
  "rdc b i = (if i < length b then Some (b ! i) else None)"

text \<open>\<^verbatim>\<open>b[i] == p[0] && b[i+1] == p[1] && ...\<close>: the comparison stops at the first difference.\<close>

fun match_at :: "string \<Rightarrow> nat \<Rightarrow> string \<Rightarrow> bool option" where
  "match_at b i [] = Some True"
| "match_at b i (c # cs) = (case rdc b i of None \<Rightarrow> None | Some x \<Rightarrow> if x = c then match_at b (Suc i) cs else Some False)"

text \<open>\<^verbatim>\<open>for (k = ...) f[k] = d[k]\<close>, from place \<open>k\<close> on.\<close>

fun copy_field :: "nat \<Rightarrow> string \<Rightarrow> string \<Rightarrow> string option" where
  "copy_field k [] f = Some f"
| "copy_field k (c # d) f = (if k < length f then copy_field (Suc k) d (f[k := c]) else None)"

subsection \<open>Their results\<close>

lemma match_at_True: "match_at b i p = Some True \<longleftrightarrow> p = [] \<or> i < length b \<and> prefix p (drop i b)"
proof (induction p arbitrary: i)
  case (Cons c cs)
  show ?case
  proof (cases "i < length b")
    case True
    then have "drop i b = b ! i # drop (Suc i) b" by (simp add: Cons_nth_drop_Suc)
    then show ?thesis using Cons.IH [of "Suc i"] True by (cases "cs = []"; cases "Suc i < length b") (auto simp: rdc_def)
  qed (simp add: rdc_def)
qed simp

lemma match_at_None: "match_at b i p = None \<longleftrightarrow> strict_prefix (drop i b) p"
proof (induction p arbitrary: i)
  case (Cons c cs)
  show ?case
  proof (cases "i < length b")
    case True
    then have "drop i b = b ! i # drop (Suc i) b" by (simp add: Cons_nth_drop_Suc)
    then show ?thesis using Cons.IH [of "Suc i"] True by (auto simp: rdc_def strict_prefix_def)
  qed (simp add: rdc_def)
qed (simp add: strict_prefix_def)

text \<open>A comparison for a word without the terminator never looks past a terminator.\<close>

lemma match_at_terminated:
  assumes "n < length b" "b ! n = CHR 0x00" "i \<le> n" "CHR 0x00 \<notin> set p"
  shows "match_at b i p = Some (p = [] \<or> prefix p (drop i (take n b)))"
  using assms(3,4)
proof (induction p arbitrary: i)
  case (Cons c cs)
  show ?case
  proof (cases "i = n")
    case True
    then show ?thesis using assms(1,2) Cons.prems by (auto simp: rdc_def)
  next
    case False
    then have "drop i (take n b) = b ! i # drop (Suc i) (take n b)"
      using Cons.prems assms(1) by (simp add: Cons_nth_drop_Suc [symmetric])
    then show ?thesis using Cons.IH [of "Suc i"] False Cons.prems assms(1) by (cases "cs = []") (auto simp: rdc_def)
  qed
qed simp

lemma copy_field_eq:
  "copy_field k d f = (if k + length d \<le> length f \<or> d = [] then Some (take k f @ d @ drop (k + length d) f) else None)"
proof (induction d arbitrary: k f)
  case (Cons c d)
  show ?case
  proof (cases "k < length f")
    case True
    then have "f[k := c] = take k f @ c # drop (Suc k) f" by (simp add: upd_conv_take_nth_drop)
    then show ?thesis using Cons.IH [of "Suc k" "f[k := c]"] True by (auto simp: add.commute)
  qed simp
qed simp

lemma copy_field_0: "length d \<le> length f \<Longrightarrow> copy_field 0 d f = Some (d @ drop (length d) f)"
  by (simp add: copy_field_eq)

end
