(* ===== verification/App_Calendar.thy ===== *)
theory App_Calendar
  imports App_Text
begin

section \<open>The calendar page (\<^verbatim>\<open>applications/thread.c\<close>, \<^verbatim>\<open>applications/test.h\<close>)\<close>

text \<open>
  \<open>thread2_entry\<close> fetches the page with the users' appointments and copies its table cells into the
  global \<open>user_date_t\<close>, five cells to a user. The web client is not part of the repository's own
  code: what its calls return are parameters. \<open>None\<close> is an access outside \<open>buffer\<close>, \<open>date1\<close> or the
  user table. The lemmas relate the scan to a function that lists the cells of a page.
\<close>

subsection \<open>Data\<close>

record user_date =
  ud_id :: string
  ud_name :: string
  ud_psw :: string
  ud_event :: string
  ud_address :: string
  ud_event_time :: string
  ud_importent :: string

record user_date_length =
  name_len :: nat
  event_len :: nat
  address_len :: nat
  event_time_len :: nat
  importent_len :: nat

type_synonym user_tables = "user_date list \<times> user_date_length list"

subsection \<open>The scan of one block of the page\<close>

text \<open>
  The inner loop from \<open>buffer[p]\<close> on, with the characters already in \<open>date1\<close>: 20 places, so the
  8-bit counter \<open>i\<close> does not wrap before the array is overrun.
\<close>

function td_text :: "string \<Rightarrow> nat \<Rightarrow> string \<Rightarrow> string option" where
  "td_text buffer p date1 =
     (if p < length buffer
      then if buffer ! p \<noteq> CHR ''<''
           then if length date1 < 20 then td_text buffer (Suc p) (date1 @ [buffer ! p]) else None
           else Some date1
      else None)"
  by pat_completeness auto
termination by (relation "measure (\<lambda>(buffer, p, _). length buffer - p)") auto

declare td_text.simps [simp del]

text \<open>The copying loop of one column: it leaves the index of the last character in the length field.\<close>

definition store_field :: "(user_date \<Rightarrow> string) \<Rightarrow> (string \<Rightarrow> user_date \<Rightarrow> user_date) \<Rightarrow>
    (nat \<Rightarrow> user_date_length \<Rightarrow> user_date_length) \<Rightarrow> string \<Rightarrow> nat \<Rightarrow> user_tables \<Rightarrow> user_tables option" where
  "store_field fld upd set_len date1 u t =
     (case t of (ud, ul) \<Rightarrow>
        if u < length ud
        then do { f \<leftarrow> copy_field 0 date1 (fld (ud ! u));
                  Some (ud[u := upd f (ud ! u)], ul[u := set_len (length date1 - 1) (ul ! u)]) }
        else None)"

text \<open>\<open>j\<close> is the column to come, 1 to 5, and \<open>user_num\<close> (8 bits) the row.\<close>

record scan =
  scan_j :: nat
  scan_user_num :: nat
  scan_tables :: user_tables

definition store_cell :: "string \<Rightarrow> scan \<Rightarrow> scan option" where
  "store_cell d s =
     (let u = scan_user_num s; t = scan_tables s
      in if scan_j s = 1 then do { t' \<leftarrow> store_field ud_name (\<lambda>f r. r\<lparr>ud_name := f\<rparr>) (\<lambda>k l. l\<lparr>name_len := k\<rparr>) d u t; Some (s\<lparr>scan_tables := t', scan_j := 2\<rparr>) }
         else if scan_j s = 2 then do { t' \<leftarrow> store_field ud_event (\<lambda>f r. r\<lparr>ud_event := f\<rparr>) (\<lambda>k l. l\<lparr>event_len := k\<rparr>) d u t; Some (s\<lparr>scan_tables := t', scan_j := 3\<rparr>) }
         else if scan_j s = 3 then do { t' \<leftarrow> store_field ud_address (\<lambda>f r. r\<lparr>ud_address := f\<rparr>) (\<lambda>k l. l\<lparr>address_len := k\<rparr>) d u t; Some (s\<lparr>scan_tables := t', scan_j := 4\<rparr>) }
         else if scan_j s = 4 then do { t' \<leftarrow> store_field ud_event_time (\<lambda>f r. r\<lparr>ud_event_time := f\<rparr>) (\<lambda>k l. l\<lparr>event_time_len := k\<rparr>) d u t; Some (s\<lparr>scan_tables := t', scan_j := 5\<rparr>) }
         else if scan_j s = 5
         then do { t' \<leftarrow> store_field ud_importent (\<lambda>f r. r\<lparr>ud_importent := f\<rparr>) (\<lambda>k l. l\<lparr>importent_len := k\<rparr>) d u t; Some (s\<lparr>scan_tables := t', scan_j := 1, scan_user_num := (u + 1) mod 256\<rparr>) }
         else Some s)"

definition scan_at :: "string \<Rightarrow> nat \<Rightarrow> scan \<Rightarrow> scan option" where
  "scan_at buffer index s =
     do { m \<leftarrow> match_at buffer index ''<td>'';
          if \<not> m then Some s
          else do { date1 \<leftarrow> td_text buffer (index + 4) [];
                    c \<leftarrow> rdc buffer (index + 4);
                    if c \<noteq> CHR ''<'' then store_cell date1 s else Some s } }"

text \<open>\<open>n\<close> positions are left from \<open>index\<close> on.\<close>

fun scan_loop :: "string \<Rightarrow> nat \<Rightarrow> nat \<Rightarrow> scan \<Rightarrow> scan option" where
  "scan_loop buffer index 0 s = Some s"
| "scan_loop buffer index (Suc n) s = do { s' \<leftarrow> scan_at buffer index s; scan_loop buffer (Suc index) n s' }"

definition scan_block :: "string \<Rightarrow> nat \<Rightarrow> user_tables \<Rightarrow> scan option" where
  "scan_block buffer bytes_read t = scan_loop buffer 0 bytes_read \<lparr>scan_j = 1, scan_user_num = 0, scan_tables = t\<rparr>"

text \<open>What the loops after the scan print of one user, each field up to its length.\<close>

definition user_fields :: "user_date \<Rightarrow> user_date_length \<Rightarrow> string \<times> string \<times> string \<times> string \<times> string" where
  "user_fields r l = (take (name_len l + 1) (ud_name r), take (event_len l + 1) (ud_event r), take (address_len l + 1) (ud_address r),
     take (event_time_len l + 1) (ud_event_time r), take (importent_len l + 1) (ud_importent r))"

subsection \<open>The thread\<close>

datatype mail = Mail_buffer | Mail_user_date | Mail_user_date_len | Mail_over

record calendar =
  tables :: user_tables
  mails :: "mail list"
  user_date_flag :: bool
  opened :: "string list"
  closed :: "string list"

text \<open>
  \<open>reads\<close> lists what \<open>webclient_read\<close> returns, with \<open>buffer\<close> as it is left after the call; at the end of
  the list the client has no more data and returns a value that is not positive.
\<close>

fun read_chunked :: "(int \<times> string) list \<Rightarrow> calendar \<Rightarrow> calendar" where
  "read_chunked [] c = c"
| "read_chunked ((bytes_read, buffer) # reads) c =
     (if bytes_read \<le> 0 then c else read_chunked reads (c\<lparr>mails := mails c @ [Mail_buffer]\<rparr>))"

fun read_plain :: "int \<Rightarrow> int \<Rightarrow> (int \<times> string) list \<Rightarrow> calendar \<Rightarrow> calendar option" where
  "read_plain content_length content_pos [] c = Some c"
| "read_plain content_length content_pos ((bytes_read, buffer) # reads) c =
     (if bytes_read \<le> 0 then Some c
      else do { s \<leftarrow> scan_block buffer (nat bytes_read) (tables c);
                let c = c\<lparr>tables := scan_tables s, mails := mails c @ [Mail_user_date, Mail_user_date_len, Mail_over],
                          user_date_flag := True\<rparr>;
                    content_pos = content_pos + bytes_read
                in if content_pos < content_length then read_plain content_length content_pos reads c else Some c })"

text \<open>
  The parameters are the results of the calls: whether \<open>web_strdup\<close>, \<open>web_malloc\<close> and
  \<open>webclient_session_create\<close> return an object, the response status, and the content length.
\<close>

definition thread2_entry :: "bool \<Rightarrow> bool \<Rightarrow> bool \<Rightarrow> int \<Rightarrow> int \<Rightarrow> (int \<times> string) list \<Rightarrow> calendar \<Rightarrow> calendar option" where
  "thread2_entry uri_ok buffer_ok session_ok resp_status content_length reads c =
     (let c = c\<lparr>opened := opened c @ (if uri_ok then [''URI''] else []) @ (if buffer_ok then [''buffer''] else [])\<rparr>;
          exit = (\<lambda>session c. c\<lparr>closed := closed c @ (if session then [''session''] else []) @
                    (if buffer_ok then [''buffer''] else []) @ (if uri_ok then [''URI''] else [])\<rparr>)
      in if \<not> buffer_ok then Some (exit False c)
         else if \<not> session_ok then Some (exit False c)
         else let c = c\<lparr>opened := opened c @ [''session'']\<rparr>
              in if resp_status \<noteq> 200 then Some (exit True c)
                 else if content_length < 0 then Some (exit True (read_chunked reads c))
                 else do { c \<leftarrow> read_plain content_length 0 reads c; Some (exit True c) })"

subsection \<open>The cells of a page\<close>

definition is_td :: "string \<Rightarrow> bool" where
  "is_td s \<longleftrightarrow> prefix ''<td>'' s"

fun cells :: "string \<Rightarrow> string list" where
  "cells [] = []"
| "cells (x # xs) = (if is_td (x # xs) then [takeWhile (\<lambda>c. c \<noteq> CHR ''<'') (drop 3 xs)] else []) @ cells xs"

text \<open>Every cell is closed inside the page and holds at most 20 characters.\<close>

fun cells_ok :: "string \<Rightarrow> bool" where
  "cells_ok [] = True"
| "cells_ok (x # xs) = ((is_td (x # xs) \<longrightarrow> CHR ''<'' \<in> set (drop 3 xs) \<and>
      length (takeWhile (\<lambda>c. c \<noteq> CHR ''<'') (drop 3 xs)) \<le> 20) \<and> cells_ok xs)"

fun store_cells :: "string list \<Rightarrow> scan \<Rightarrow> scan option" where
  "store_cells [] s = Some s"
| "store_cells (d # ds) s = do { s' \<leftarrow> store_cell d s; store_cells ds s' }"

lemma td_text_eq:
  "length acc \<le> 20 \<Longrightarrow> td_text b p acc =
     (let w = takeWhile (\<lambda>c. c \<noteq> CHR ''<'') (drop p b)
      in if CHR ''<'' \<in> set (drop p b) \<and> length acc + length w \<le> 20 then Some (acc @ w) else None)"
proof (induction b p acc rule: td_text.induct)
  case (1 b p acc)
  show ?case
  proof (cases "p < length b")
    case True
    then have "drop p b = b ! p # drop (Suc p) b" by (simp add: Cons_nth_drop_Suc)
    then show ?thesis using 1 True by (subst td_text.simps) (auto simp: Let_def)
  qed (simp add: td_text.simps Let_def)
qed

lemma match_td:
  assumes "n \<le> length b" "i < n" "b ! (n - 1) = CHR ''>''"
  shows "match_at b i ''<td>'' = Some (is_td (drop i (take n b)))"
proof -
  define x where "x = drop i (take n b)"
  have d: "drop i b = x @ drop n b" using assms(1,2) drop_append [of i "take n b" "drop n b"] by (simp add: x_def)
  have l: "CHR ''>'' \<in> set x" "x \<noteq> []" using assms by (auto simp: x_def in_set_conv_nth intro!: exI [of _ "n - 1 - i"])
  have "\<not> strict_prefix (drop i b) ''<td>''" using l by (auto simp: d strict_prefix_def prefix_Cons append_eq_Cons_conv)
  moreover have "prefix ''<td>'' (x @ drop n b) \<longleftrightarrow> prefix ''<td>'' x"
    using l by (auto simp: prefix_append Cons_eq_append_conv append_eq_Cons_conv)
  moreover have "i < length b" using assms by simp
  ultimately show ?thesis using match_at_True [of b i "''<td>''"] match_at_None [of b i "''<td>''"]
    by (cases "match_at b i ''<td>''") (auto simp: d is_td_def x_def [symmetric])
qed

lemma scan_loop_cells:
  assumes "n \<le> length b" "n = 0 \<or> b ! (n - 1) = CHR ''>''"
  shows "cells_ok (drop i (take n b)) \<Longrightarrow> i \<le> n \<Longrightarrow>
    scan_loop b i (n - i) s = store_cells (filter (\<lambda>d. d \<noteq> []) (cells (drop i (take n b)))) s"
proof (induction "n - i" arbitrary: i s)
  case (Suc k)
  define xs where "xs = drop (Suc i) (take n b)"
  have i: "i < n" "i < length b" "n - i = Suc (n - Suc i)" "k = n - Suc i" "Suc i \<le> n" using Suc.hyps(2) assms(1) by auto
  have dx: "drop i (take n b) = b ! i # xs" using i by (simp add: xs_def Cons_nth_drop_Suc [symmetric])
  have IH: "scan_loop b (Suc i) (n - Suc i) = store_cells (filter (\<lambda>d. d \<noteq> []) (cells xs))"
    by (rule ext) (use Suc.hyps(1) [OF i(4) _ i(5)] Suc.prems(1) in \<open>simp add: dx xs_def\<close>)
  have m: "match_at b i ''<td>'' = Some (is_td (b ! i # xs))" using match_td [of n b i] assms i(1) by (auto simp: dx)
  show ?case
  proof (cases "is_td (b ! i # xs)")
    case False
    then show ?thesis using m IH by (simp add: i(3) dx scan_at_def)
  next
    case True
    define w where "w = takeWhile (\<lambda>c. c \<noteq> CHR ''<'') (drop 3 xs)"
    have c: "CHR ''<'' \<in> set (drop 3 xs)" "length w \<le> 20" using Suc.prems(1) True by (simp_all add: dx w_def)
    have d3: "drop 3 xs = drop (i + 4) (take n b)" by (simp add: xs_def add.commute)
    have "i + 4 < n" using c(1) by (cases "i + 4 < n") (simp_all add: d3)
    then have split: "drop (i + 4) b = drop 3 xs @ drop n b"
      using drop_append [of "i + 4" "take n b" "drop n b"] assms(1) by (simp add: d3)
    have t: "td_text b (i + 4) [] = Some w" using c by (simp add: td_text_eq Let_def split w_def)
    have "i + 4 < length b" using c(1) split by (metis append_is_Nil_conv drop_all empty_iff linorder_not_le list.set(1))
    moreover have "b ! (i + 4) = hd (drop 3 xs)" using split c(1) \<open>i + 4 < length b\<close>
      by (metis empty_iff hd_append2 hd_drop_conv_nth list.set(1))
    ultimately have r: "\<exists>x. rdc b (i + 4) = Some x \<and> (x \<noteq> CHR ''<'' \<longleftrightarrow> w \<noteq> [])"
      using c(1) by (cases "drop 3 xs") (auto simp: rdc_def w_def)
    then show ?thesis using m t IH True by (auto simp: i(3) dx scan_at_def w_def [symmetric] split: option.splits)
  qed
qed simp

subsection \<open>A page that holds a table\<close>

text \<open>Some text, then each cell with the text up to the next one, which begins with the \<open><\<close> that closes the cell.\<close>

definition page :: "string \<Rightarrow> (string \<times> string) list \<Rightarrow> string" where
  "page h cs = h @ concat (map (\<lambda>(c, r). ''<td>'' @ c @ CHR ''<'' # r) cs)"

lemma cells_no_open: "CHR ''<'' \<notin> set c \<Longrightarrow> cells (c @ r) = cells r"
  by (induction c) (auto simp: is_td_def)

lemma cells_ok_no_open: "CHR ''<'' \<notin> set c \<Longrightarrow> cells_ok (c @ r) = cells_ok r"
  by (induction c) (auto simp: is_td_def)

text \<open>Text without a cell can be skipped: it cannot end inside the next \<open><td>\<close>.\<close>

lemma cells_skip:
  assumes "cells a = []" "r = [] \<or> hd r = CHR ''<''"
  shows "cells (a @ r) = cells r \<and> (cells_ok (a @ r) \<longleftrightarrow> cells_ok r)"
  using assms(1)
proof (induction a)
  case (Cons x a)
  have n: "\<not> is_td (x # a)" and ca: "cells a = []" using Cons.prems by (auto split: if_splits)
  have "\<not> is_td (x # a @ r)"
    using n assms(2) by (cases r; cases a) (auto simp: is_td_def prefix_append prefix_Cons Cons_eq_append_conv append_eq_Cons_conv)
  then show ?case using Cons.IH [OF ca] by simp
qed simp

lemma page_Cons: "page h ((c, r) # cs) = h @ ''<td>'' @ c @ page (CHR ''<'' # r) cs"
  by (simp add: page_def)

lemma cells_page:
  assumes "\<forall>(c, r) \<in> set cs. CHR ''<'' \<notin> set c \<and> length c \<le> 20 \<and> cells (CHR ''<'' # r) = []" "cells h = []"
  shows "cells (page h cs) = map fst cs \<and> cells_ok (page h cs)"
  using assms
proof (induction cs arbitrary: h)
  case Nil
  then show ?case using cells_skip [of h "[]"] by (simp add: page_def)
next
  case (Cons cr cs)
  obtain c r where cr: "cr = (c, r)" by (cases cr)
  have c: "CHR ''<'' \<notin> set c" "length c \<le> 20" "cells (CHR ''<'' # r) = []" using Cons.prems(1) cr by auto
  define p where "p = page (CHR ''<'' # r) cs"
  have p: "p = CHR ''<'' # tl p" by (simp add: p_def page_def)
  have IH: "cells p = map fst cs" "cells_ok p" using Cons.IH [of "CHR ''<'' # r"] Cons.prems(1) c(3) by (simp_all add: p_def)
  have "takeWhile (\<lambda>c. c \<noteq> CHR ''<'') (c @ p) = c" using c(1) by (subst p, subst takeWhile_append2) auto
  moreover have "cells (c @ p) = map fst cs" "cells_ok (c @ p)" using IH c(1) cells_no_open cells_ok_no_open by simp_all
  moreover have "CHR ''<'' \<in> set p" by (subst p) simp
  ultimately have "cells (''<td>'' @ c @ p) = c # map fst cs \<and> cells_ok (''<td>'' @ c @ p)" using c(2) by (simp add: is_td_def)
  then show ?case using cells_skip [OF Cons.prems(2), of "''<td>'' @ c @ p"] by (simp add: cr page_Cons p_def)
qed

subsection \<open>Rows of five cells\<close>

type_synonym row = "string \<times> string \<times> string \<times> string \<times> string"

definition row_cells :: "row \<Rightarrow> string list" where
  "row_cells r = (case r of (a, b, c, d, e) \<Rightarrow> [a, b, c, d, e])"

definition wf_user :: "user_date \<Rightarrow> bool" where
  "wf_user r \<longleftrightarrow> length (ud_name r) = 20 \<and> length (ud_event r) = 50 \<and> length (ud_address r) = 20 \<and>
     length (ud_event_time r) = 20 \<and> length (ud_importent r) = 20"

definition wf_tables :: "user_tables \<Rightarrow> bool" where
  "wf_tables t \<longleftrightarrow> length (fst t) = 10 \<and> length (snd t) = 10 \<and> (\<forall>r \<in> set (fst t). wf_user r)"

definition cell_ok :: "string \<Rightarrow> bool" where
  "cell_ok d \<longleftrightarrow> d \<noteq> [] \<and> length d \<le> 20 \<and> CHR ''<'' \<notin> set d"

lemma row_stored:
  assumes t: "wf_tables t" and u: "u < 10" and r: "\<forall>d \<in> set (row_cells r). cell_ok d"
  shows "\<exists>t'. store_cells (row_cells r @ ds) \<lparr>scan_j = 1, scan_user_num = u, scan_tables = t\<rparr> =
      store_cells ds \<lparr>scan_j = 1, scan_user_num = Suc u, scan_tables = t'\<rparr> \<and> wf_tables t' \<and>
    user_fields (fst t' ! u) (snd t' ! u) = r \<and> (\<forall>i. i \<noteq> u \<longrightarrow> fst t' ! i = fst t ! i \<and> snd t' ! i = snd t ! i)"
proof -
  obtain a b c d e where re: "r = (a, b, c, d, e)" by (cases r) auto
  obtain ud ul where tu: "t = (ud, ul)" by (cases t)
  define x where "x = ud ! u"
  have lens: "length ud = 10" "length ul = 10" "wf_user x" using t u by (auto simp: wf_tables_def tu x_def)
  have ok: "cell_ok a" "cell_ok b" "cell_ok c" "cell_ok d" "cell_ok e" using r by (auto simp: re row_cells_def)
  define x' where "x' = x\<lparr>ud_name := a @ drop (length a) (ud_name x), ud_event := b @ drop (length b) (ud_event x),
      ud_address := c @ drop (length c) (ud_address x), ud_event_time := d @ drop (length d) (ud_event_time x),
      ud_importent := e @ drop (length e) (ud_importent x)\<rparr>"
  define l' where "l' = (ul ! u)\<lparr>name_len := length a - 1, event_len := length b - 1, address_len := length c - 1,
      event_time_len := length d - 1, importent_len := length e - 1\<rparr>"
  have st: "store_cells (row_cells r @ ds) \<lparr>scan_j = 1, scan_user_num = u, scan_tables = t\<rparr> =
      store_cells ds \<lparr>scan_j = 1, scan_user_num = Suc u, scan_tables = (ud[u := x'], ul[u := l'])\<rparr>"
    using lens ok u by (simp add: row_cells_def re tu store_cell_def store_field_def copy_field_0 wf_user_def cell_ok_def x_def [symmetric]
        x'_def l'_def Let_def)
  have "wf_user x'" using lens(3) ok by (auto simp: wf_user_def x'_def cell_ok_def)
  then have wf: "wf_tables (ud[u := x'], ul[u := l'])" using t by (auto simp: wf_tables_def tu dest!: set_update_subset_insert [THEN subsetD])
  have "user_fields x' l' = r" using ok by (auto simp: user_fields_def x'_def l'_def re cell_ok_def)
  then show ?thesis using st wf lens u by (intro exI [of _ "(ud[u := x'], ul[u := l'])"]) (auto simp: tu)
qed

lemma rows_stored:
  assumes "wf_tables t" "u + length rs \<le> 10" "\<forall>r \<in> set rs. \<forall>d \<in> set (row_cells r). cell_ok d"
  shows "\<exists>t'. store_cells (concat (map row_cells rs)) \<lparr>scan_j = 1, scan_user_num = u, scan_tables = t\<rparr> =
      Some \<lparr>scan_j = 1, scan_user_num = u + length rs, scan_tables = t'\<rparr> \<and> wf_tables t' \<and>
    (\<forall>i < length rs. user_fields (fst t' ! (u + i)) (snd t' ! (u + i)) = rs ! i) \<and>
    (\<forall>i. i < u \<or> i \<ge> u + length rs \<longrightarrow> fst t' ! i = fst t ! i \<and> snd t' ! i = snd t ! i)"
  using assms
proof (induction rs arbitrary: u t)
  case (Cons r rs)
  obtain t1 where t1: "store_cells (row_cells r @ concat (map row_cells rs)) \<lparr>scan_j = 1, scan_user_num = u, scan_tables = t\<rparr> =
      store_cells (concat (map row_cells rs)) \<lparr>scan_j = 1, scan_user_num = Suc u, scan_tables = t1\<rparr>" "wf_tables t1"
      "user_fields (fst t1 ! u) (snd t1 ! u) = r" "\<forall>i. i \<noteq> u \<longrightarrow> fst t1 ! i = fst t ! i \<and> snd t1 ! i = snd t ! i"
    using row_stored [OF Cons.prems(1), of u r "concat (map row_cells rs)"] Cons.prems by auto
  obtain t' where t': "store_cells (concat (map row_cells rs)) \<lparr>scan_j = 1, scan_user_num = Suc u, scan_tables = t1\<rparr> =
      Some \<lparr>scan_j = 1, scan_user_num = Suc u + length rs, scan_tables = t'\<rparr>" "wf_tables t'"
      "\<forall>i < length rs. user_fields (fst t' ! (Suc u + i)) (snd t' ! (Suc u + i)) = rs ! i"
      "\<forall>i. i < Suc u \<or> i \<ge> Suc u + length rs \<longrightarrow> fst t' ! i = fst t1 ! i \<and> snd t' ! i = snd t1 ! i"
    using Cons.IH [OF t1(2), of "Suc u"] Cons.prems by auto
  have "user_fields (fst t' ! (u + i)) (snd t' ! (u + i)) = (r # rs) ! i" if "i < Suc (length rs)" for i
    using t1(3) t'(3,4) that by (cases i) auto
  then show ?case using t1 t' by (intro exI [of _ t']) auto
qed simp

subsection \<open>What the thread leaves in the tables\<close>

text \<open>The page as a table: for each row its cells, each with the text that follows it.\<close>

definition table_ok :: "string \<Rightarrow> (string \<times> string) list \<Rightarrow> row list \<Rightarrow> bool" where
  "table_ok h cs rows \<longleftrightarrow> map fst cs = concat (map row_cells rows) \<and> cells h = [] \<and>
     (\<forall>(c, r) \<in> set cs. cell_ok c \<and> cells (CHR ''<'' # r) = []) \<and> last (page h cs) = CHR ''>''"

lemma scan_block_table:
  assumes "table_ok h cs rows" "length rows \<le> 10" "wf_tables t" "buffer = page h cs @ old"
  shows "\<exists>t'. scan_block buffer (length (page h cs)) t = Some \<lparr>scan_j = 1, scan_user_num = length rows, scan_tables = t'\<rparr> \<and>
    wf_tables t' \<and> (\<forall>i < length rows. user_fields (fst t' ! i) (snd t' ! i) = rows ! i) \<and>
    (\<forall>i \<ge> length rows. fst t' ! i = fst t ! i \<and> snd t' ! i = snd t ! i)"
proof -
  define p where "p = page h cs"
  have c: "cells p = concat (map row_cells rows)" "cells_ok p"
    using cells_page [of cs h] assms(1) by (auto simp: table_ok_def p_def cell_ok_def)
  have ok: "\<forall>d \<in> set (concat (map row_cells rows)). cell_ok d"
  proof -
    have t: "map fst cs = concat (map row_cells rows)" "\<forall>(c, r) \<in> set cs. cell_ok c \<and> cells (CHR ''<'' # r) = []"
      using assms(1) unfolding table_ok_def by blast+
    show ?thesis unfolding t(1) [symmetric] using t(2) by fastforce
  qed
  then have f: "filter (\<lambda>d. d \<noteq> []) (cells p) = concat (map row_cells rows)" unfolding c(1) by (intro filter_True) (auto simp: cell_ok_def)
  have l: "length p \<le> length buffer" "take (length p) buffer = p" by (simp_all add: assms(4) p_def)
  have "length p = 0 \<or> buffer ! (length p - 1) = CHR ''>''"
    using assms(1) by (cases "p = []") (auto simp: assms(4) table_ok_def p_def [symmetric] last_conv_nth nth_append)
  from scan_loop_cells [OF l(1) this, of 0] c(2) f l(2)
  have "scan_block buffer (length p) t = store_cells (concat (map row_cells rows)) \<lparr>scan_j = 1, scan_user_num = 0, scan_tables = t\<rparr>"
    by (simp add: scan_block_def)
  then show ?thesis using rows_stored [OF assms(3), of 0 rows] assms(2) ok by (auto simp: p_def)
qed

definition demo_user :: user_date where
  "demo_user = \<lparr>ud_id = replicate 2 CHR 0x00, ud_name = replicate 20 CHR 0x00, ud_psw = replicate 20 CHR 0x00,
     ud_event = replicate 50 CHR 0x00, ud_address = replicate 20 CHR 0x00, ud_event_time = replicate 20 CHR 0x00,
     ud_importent = replicate 20 CHR 0x00\<rparr>"

definition demo_calendar :: calendar where
  "demo_calendar = \<lparr>tables = (replicate 10 demo_user, replicate 10 \<lparr>name_len = 0, event_len = 0, address_len = 0,
     event_time_len = 0, importent_len = 0\<rparr>), mails = [], user_date_flag = False, opened = [], closed = []\<rparr>"

definition demo_cells :: "(string \<times> string) list" where
  "demo_cells = [(''zwl'', ''/td>''), (''meeting'', ''/td>''), (''lab'', ''/td>''), (''9:00'', ''/td>''), (''yes'', ''/td></tr>'')]"

text \<open>
  C1. A calendar page that arrives in one read comes out as it went in: when it holds up to ten
  rows of five cells, each of 1 to 20 characters, with any other markup around them, then the
  thread leaves exactly the rows in the first entries of the tables, touches no other entry,
  sends the three mails that announce it, sets the flag, and releases everything it opened.
\<close>

theorem calendar_roundtrip:
  assumes "table_ok h cs rows" "length rows \<le> 10" "wf_tables (tables c)" "0 < length (page h cs)"
    and "content_length = int (length (page h cs))" "closed c = []" "opened c = []"
  shows "\<exists>c'. thread2_entry uri_ok True True 200 content_length [(content_length, page h cs @ old)] c = Some c' \<and>
    wf_tables (tables c') \<and>
    (\<forall>i < length rows. user_fields (fst (tables c') ! i) (snd (tables c') ! i) = rows ! i) \<and>
    (\<forall>i \<ge> length rows. fst (tables c') ! i = fst (tables c) ! i \<and> snd (tables c') ! i = snd (tables c) ! i) \<and>
    mails c' = mails c @ [Mail_user_date, Mail_user_date_len, Mail_over] \<and> user_date_flag c' \<and>
    set (opened c') = set (closed c')"
proof -
  obtain t' where t': "scan_block (page h cs @ old) (length (page h cs)) (tables c) =
      Some \<lparr>scan_j = 1, scan_user_num = length rows, scan_tables = t'\<rparr>" "wf_tables t'"
      "\<forall>i < length rows. user_fields (fst t' ! i) (snd t' ! i) = rows ! i"
      "\<forall>i \<ge> length rows. fst t' ! i = fst (tables c) ! i \<and> snd t' ! i = snd (tables c) ! i"
    using scan_block_table [OF assms(1-3) refl] by blast
  then show ?thesis using assms(4-7) by (auto simp: thread2_entry_def Let_def)
qed

theorem calendar_roundtrip_witness:
  "\<exists>c'. thread2_entry True True True 200 (int (length (page ''<tr>'' demo_cells))) [(int (length (page ''<tr>'' demo_cells)),
      page ''<tr>'' demo_cells @ ''<td>'')] demo_calendar = Some c' \<and>
    user_fields (fst (tables c') ! 0) (snd (tables c') ! 0) = (''zwl'', ''meeting'', ''lab'', ''9:00'', ''yes'')"
proof -
  have t: "table_ok ''<tr>'' demo_cells [(''zwl'', ''meeting'', ''lab'', ''9:00'', ''yes'')]" by code_simp
  have "wf_tables (tables demo_calendar)" by code_simp
  moreover have "closed demo_calendar = []" "opened demo_calendar = []" by (simp_all add: demo_calendar_def)
  moreover have "0 < length (page ''<tr>'' demo_cells)" by (simp add: page_def)
  ultimately show ?thesis using calendar_roundtrip [OF t, of demo_calendar _ True "''<td>''"] by fastforce
qed

text \<open>
  A page longer than one read is not put together: the row count starts again at each block,
  so the rows of the second block replace those of the first from entry 0 on; only the rows of the
  first that lie beyond the number of rows in the second survive.
\<close>

theorem calendar_second_block:
  assumes "table_ok h1 cs1 rows1" "table_ok h2 cs2 rows2" "length rows1 \<le> 10" "length rows2 \<le> 10" "wf_tables (tables c)"
    and "n1 = int (length (page h1 cs1))" "n2 = int (length (page h2 cs2))" "0 < n1" "0 < n2"
  shows "\<exists>c'. thread2_entry uri_ok True True 200 (n1 + n2) [(n1, page h1 cs1 @ old1), (n2, page h2 cs2 @ old2)] c = Some c' \<and>
    (\<forall>i < length rows2. user_fields (fst (tables c') ! i) (snd (tables c') ! i) = rows2 ! i) \<and>
    (\<forall>i. length rows2 \<le> i \<and> i < length rows1 \<longrightarrow> user_fields (fst (tables c') ! i) (snd (tables c') ! i) = rows1 ! i)"
proof -
  obtain t1 where t1: "scan_block (page h1 cs1 @ old1) (length (page h1 cs1)) (tables c) =
      Some \<lparr>scan_j = 1, scan_user_num = length rows1, scan_tables = t1\<rparr>" "wf_tables t1"
      "\<forall>i < length rows1. user_fields (fst t1 ! i) (snd t1 ! i) = rows1 ! i"
    using scan_block_table [OF assms(1,3,5) refl] by blast
  obtain t2 where t2: "scan_block (page h2 cs2 @ old2) (length (page h2 cs2)) t1 =
      Some \<lparr>scan_j = 1, scan_user_num = length rows2, scan_tables = t2\<rparr>"
      "\<forall>i < length rows2. user_fields (fst t2 ! i) (snd t2 ! i) = rows2 ! i"
      "\<forall>i \<ge> length rows2. fst t2 ! i = fst t1 ! i \<and> snd t2 ! i = snd t1 ! i"
    using scan_block_table [OF assms(2,4) t1(2) refl] by blast
  then show ?thesis using t1 assms(6-9) by (auto simp: thread2_entry_def Let_def)
qed

theorem calendar_second_block_witness:
  "\<exists>c'. thread2_entry True True True 200 (int (length (page [] demo_cells)) + 4)
     [(int (length (page [] demo_cells)), page [] demo_cells @ []), (4, page ''<br>'' [] @ [])] demo_calendar = Some c' \<and>
   user_fields (fst (tables c') ! 0) (snd (tables c') ! 0) = (''zwl'', ''meeting'', ''lab'', ''9:00'', ''yes'')"
proof -
  have t: "table_ok [] demo_cells [(''zwl'', ''meeting'', ''lab'', ''9:00'', ''yes'')]" "table_ok ''<br>'' [] []" by code_simp+
  have "wf_tables (tables demo_calendar)" by code_simp
  from calendar_second_block [OF t _ _ this refl, of 4 True "[]" "[]"] show ?thesis by (fastforce simp: page_def demo_cells_def)
qed

text \<open>
  C38. What the scan does not check. A cell of more than 20 characters is copied past the end of
  \<open>date1\<close>, a cell that the block does not close is read past the end of \<open>buffer\<close>, and an eleventh
  row is stored past the end of the user table; an empty cell is skipped, so that the later
  cells of its row move one column to the left.
\<close>

theorem calendar_unchecked:
  assumes "match_at buffer index ''<td>'' = Some True"
  defines "w \<equiv> takeWhile (\<lambda>c. c \<noteq> CHR ''<'') (drop (index + 4) buffer)"
  shows "(20 < length w \<or> CHR ''<'' \<notin> set (drop (index + 4) buffer) \<longrightarrow> scan_at buffer index s = None) \<and>
    (CHR ''<'' \<in> set (drop (index + 4) buffer) \<and> 0 < length w \<and> scan_j s \<in> {1..5} \<and>
       length (fst (scan_tables s)) \<le> scan_user_num s \<longrightarrow> scan_at buffer index s = None) \<and>
    (CHR ''<'' \<in> set (drop (index + 4) buffer) \<and> w = [] \<longrightarrow> scan_at buffer index s = Some s)"
proof -
  have m: "scan_at buffer index s = do { date1 \<leftarrow> td_text buffer (index + 4) []; c \<leftarrow> rdc buffer (index + 4);
      if c \<noteq> CHR ''<'' then store_cell date1 s else Some s }" using assms(1) by (simp add: scan_at_def del: match_at.simps)
  have r: "rdc buffer (index + 4) = Some (hd (drop (index + 4) buffer))" "hd (drop (index + 4) buffer) = CHR ''<'' \<longleftrightarrow> w = []"
    if "CHR ''<'' \<in> set (drop (index + 4) buffer)"
  proof -
    have ne: "drop (index + 4) buffer \<noteq> []" using that by auto
    then have "index + 4 < length buffer" by simp
    then show "rdc buffer (index + 4) = Some (hd (drop (index + 4) buffer))" by (simp add: rdc_def hd_drop_conv_nth)
    show "hd (drop (index + 4) buffer) = CHR ''<'' \<longleftrightarrow> w = []"
      unfolding w_def using ne by (cases "drop (index + 4) buffer") (simp_all only: list.sel takeWhile.simps, auto)
  qed
  have "store_cell w s = None" if "scan_j s \<in> {1..5}" "length (fst (scan_tables s)) \<le> scan_user_num s"
  proof -
    have "scan_j s \<in> {1, 2, 3, 4, 5}" using that(1) by auto
    then show ?thesis using that(2) by (auto simp: store_cell_def store_field_def Let_def split: prod.splits)
  qed
  then show ?thesis unfolding m using r by (auto simp: td_text_eq Let_def w_def [symmetric] split: option.splits)
qed

theorem calendar_unchecked_witness:
  "scan_at ''<td>a text of more than twenty characters</td>'' 0 \<lparr>scan_j = 1, scan_user_num = 0, scan_tables = tables demo_calendar\<rparr> = None"
proof -
  have "match_at ''<td>a text of more than twenty characters</td>'' 0 ''<td>'' = Some True" by code_simp
  note u = calendar_unchecked [OF this, of "\<lparr>scan_j = 1, scan_user_num = 0, scan_tables = tables demo_calendar\<rparr>", THEN conjunct1]
  have "20 < length (takeWhile (\<lambda>c. c \<noteq> CHR ''<'') (drop (0 + 4) ''<td>a text of more than twenty characters</td>''))" by code_simp
  with u show ?thesis by blast
qed

end
