(* ===== verification/App_Esp32.thy ===== *)
theory App_Esp32
  imports App_Calendar
begin

section \<open>Commands of the phone application (\<^verbatim>\<open>applications/test_esp32.c\<close>)\<close>

text \<open>
  The thread behind the serial line of the ESP32 module answers the phone application: it looks
  for command words in each block it receives and collects a JSON text, which it mails to a
  second thread once the line is quiet. The record holds the buffers, the counters and the
  shared flags, and logs what the thread writes to the two serial lines (the text and the number
  of characters asked for), its waiting times and its mails. \<open>None\<close> is an access outside a buffer or the user table.
\<close>

subsection \<open>State\<close>

datatype line = Uart9 | Uart3

datatype esp_act = Write line string nat | Delay nat | Mail_app_buffer | Mail_json_over

record esp32_app =
  uart_rx_buffer :: string
  app_buffer :: string
  json_length :: nat
  user_num :: nat
  user_date_t :: "user_date list"
  face :: nat
  user_quan_flag :: nat
  len :: nat
  readstate :: bool
  acts :: "esp_act list"

definition act :: "esp_act list \<Rightarrow> esp32_app \<Rightarrow> esp32_app" where
  "act as s = s\<lparr>acts := acts s @ as\<rparr>"

subsection \<open>The commands at position \<open>i\<close>\<close>

definition cmd_state :: "nat \<Rightarrow> esp32_app \<Rightarrow> esp32_app option" where
  "cmd_state i s =
     do { m \<leftarrow> match_at (uart_rx_buffer s) i ''State'';
          Some (if m then act [Delay 5, Delay 5,
            Write Uart9 ''{\"wlanState\":\"success\",'' 24, Delay 5, Write Uart9 ''\"wlanErr\":\"\",'' 14, Delay 5,
            Write Uart9 ''\"netState\":\"true\",'' 19, Delay 5, Write Uart9 ''\"ip\":\"192.168.1.1\",'' 20, Delay 5,
            Write Uart9 ''\"mac\":\"FF-FF-FF-FF-FF-FF\",'' 27, Delay 5, Write Uart9 ''\"lastSync\":\"2020-10-01 13:48\",'' 31, Delay 5,
            Write Uart9 ''\"UserNum\":\"3'' 13, Delay 5, Delay 5, Write Uart9 ''\"}'' 3, Delay 5, Write Uart9 '''' 1] s else s) }"

text \<open>The loop over the users: \<open>k\<close> counts down, and the outer index \<open>i\<close> goes up with each user.\<close>

fun list_users :: "nat \<Rightarrow> nat \<Rightarrow> esp32_app \<Rightarrow> (nat \<times> esp32_app) option" where
  "list_users 0 i s = Some (i, s)"
| "list_users (Suc k) i s =
     (let u = user_num s - Suc k
      in if u < length (user_date_t s)
         then let r = user_date_t s ! u
              in list_users k (i + 1) (act [Delay 5, Write Uart9 ''{\"id\":\"'' 8, Delay 5, Write Uart9 (ud_id r) 2, Delay 5,
                   Write Uart9 ''\",\"account\":\"'' 14, Delay 5, Write Uart9 (ud_name r) 20, Delay 5, Write Uart9 ''\",\"psw\":\"'' 10, Delay 5,
                   Write Uart9 (ud_psw r) 20, Delay 5, Write Uart9 ''\",\"pswSign\":\"True\"'' 19, Delay 5,
                   if k = 0 then Write Uart9 ''}'' 2 else Write Uart9 ''},'' 3] s)
         else None)"

definition cmd_get :: "nat \<Rightarrow> esp32_app \<Rightarrow> (nat \<times> esp32_app) option" where
  "cmd_get i s =
     do { m \<leftarrow> match_at (uart_rx_buffer s) i ''get'';
          if \<not> m then Some (i, s)
          else do { c \<leftarrow> rdc (uart_rx_buffer s) (i + 7);
                    if c = CHR ''N'' then do { num \<leftarrow> rdc (uart_rx_buffer s) (i + 8); Some (i, act [Write Uart9 ''3'' 2] s) }
                    else if c = CHR ''.'' then Some (i, s)
                    else do { (i, s) \<leftarrow> list_users (user_num s) i (act [Write Uart9 ''['' 3, Delay 5] s);
                              Some (i, act [Delay 5, Write Uart9 '']'' 2] s) } } }"

definition cmd_add :: "nat \<Rightarrow> esp32_app \<Rightarrow> esp32_app option" where
  "cmd_add i s =
     do { m \<leftarrow> match_at (uart_rx_buffer s) i ''add'';
          if \<not> m then Some s
          else if 2 < length (user_date_t s)
          then do { id3 \<leftarrow> copy_field 0 (''3'' @ [CHR 0x00]) (ud_id (user_date_t s ! 2));
                    name3 \<leftarrow> copy_field 0 (''zwl'' @ [CHR 0x00]) (ud_name (user_date_t s ! 2));
                    psw3 \<leftarrow> copy_field 0 (''12345687'' @ [CHR 0x00]) (ud_psw (user_date_t s ! 2));
                    Some (s\<lparr>user_date_t := (user_date_t s)[2 := (user_date_t s ! 2)\<lparr>ud_id := id3, ud_name := name3, ud_psw := psw3\<rparr>],
                            user_num := user_num s + 1\<rparr>) }
          else None }"

definition cmd_face :: "nat \<Rightarrow> esp32_app \<Rightarrow> esp32_app option" where
  "cmd_face i s =
     do { m \<leftarrow> match_at (uart_rx_buffer s) i ''face'';
          Some (if m \<and> face s = 1 then (act [Write Uart9 ''1'' 2] s)\<lparr>face := 0\<rparr> else s) }"

definition cmd_sign :: "bool \<Rightarrow> nat \<Rightarrow> esp32_app \<Rightarrow> esp32_app option" where
  "cmd_sign openmv_d i s =
     do { m \<leftarrow> match_at (uart_rx_buffer s) i ''sign'';
          if \<not> m then Some s
          else let s = s\<lparr>user_quan_flag := user_quan_flag s + 1\<rparr>;
                   nums = user_quan_flag s;
                   s = (if nums = 1 \<and> openmv_d then act [Write Uart3 ''1'' 2] s else s);
                   s = (if nums = 2 \<and> openmv_d then act [Write Uart3 ''2'' 2] s else s)
               in Some (if nums = 3
                        then let s = s\<lparr>user_quan_flag := 0\<rparr> in if openmv_d then act [Write Uart3 ''3'' 2] s else s
                        else s) }"

text \<open>\<^verbatim>\<open>for (k = 0; k < rx_length; k++) app_buffer[length+k] = uart_rx_buffer[j++]\<close>, \<open>n\<close> characters to go.\<close>

fun json_copy :: "nat \<Rightarrow> nat \<Rightarrow> nat \<Rightarrow> string \<Rightarrow> string \<Rightarrow> string option" where
  "json_copy 0 p j src dst = Some dst"
| "json_copy (Suc n) p j src dst =
     do { c \<leftarrow> rdc src j; if p < length dst then json_copy n (Suc p) (Suc j) src (dst[p := c]) else None }"

definition cmd_json :: "nat \<Rightarrow> nat \<Rightarrow> esp32_app \<Rightarrow> esp32_app option" where
  "cmd_json rx_length i s =
     do { m \<leftarrow> (if readstate s then Some True else match_at (uart_rx_buffer s) i ''{\"'');
          if \<not> m then Some s
          else do { b \<leftarrow> json_copy rx_length (len s) i (uart_rx_buffer s) (app_buffer s);
                    Some ((act [Delay 5] s)\<lparr>readstate := True, app_buffer := b, len := len s + 1\<rparr>) } }"

subsection \<open>The thread\<close>

definition esp32_at :: "bool \<Rightarrow> nat \<Rightarrow> nat \<Rightarrow> esp32_app \<Rightarrow> (nat \<times> esp32_app) option" where
  "esp32_at openmv_d rx_length i s =
     do { s \<leftarrow> cmd_state i (act [Delay 5] s);
          (i, s) \<leftarrow> cmd_get i s;
          s \<leftarrow> cmd_add i s;
          s \<leftarrow> cmd_face i s;
          s \<leftarrow> cmd_sign openmv_d i s;
          s \<leftarrow> cmd_json rx_length i s;
          Some (i, s) }"

text \<open>Each turn raises the index by at least one, so \<open>rx_length\<close> turns are enough; that is the fuel.\<close>

fun esp32_loop :: "nat \<Rightarrow> bool \<Rightarrow> nat \<Rightarrow> nat \<Rightarrow> esp32_app \<Rightarrow> esp32_app option" where
  "esp32_loop 0 openmv_d rx_length i s = Some s"
| "esp32_loop (Suc n) openmv_d rx_length i s =
     (if i < rx_length
      then do { (i, s) \<leftarrow> esp32_at openmv_d rx_length i s; esp32_loop n openmv_d rx_length (Suc i) s }
      else Some s)"

text \<open>One turn: \<open>Inl\<close> is the time-out, \<open>Inr (size, dev)\<close> a message, as for the camera.\<close>

definition esp32_turn :: "bool \<Rightarrow> unit + nat \<times> (nat \<Rightarrow> string) \<Rightarrow> esp32_app \<Rightarrow> esp32_app option" where
  "esp32_turn openmv_d ev s =
     (case ev of
        Inl _ \<Rightarrow>
          let s = (if readstate s then act [Mail_app_buffer, Mail_json_over] (s\<lparr>json_length := len s\<rparr>) else s)
          in Some (s\<lparr>len := 0, readstate := False\<rparr>)
      | Inr (sz, dev) \<Rightarrow>
          let n = (if length (uart_rx_buffer s) - 1 > sz then sz else length (uart_rx_buffer s) - 1);
              d = dev n;
              rx_length = length d
          in do { b \<leftarrow> copy_field 0 d (uart_rx_buffer s);
                  if rx_length < length b
                  then esp32_loop rx_length openmv_d rx_length 0 (s\<lparr>uart_rx_buffer := b[rx_length := CHR 0x00]\<rparr>)
                  else None })"

subsection \<open>The commands on a terminated block\<close>

definition wf_esp :: "esp32_app \<Rightarrow> bool" where
  "wf_esp s \<longleftrightarrow> length (uart_rx_buffer s) = 128 \<and> length (app_buffer s) = 128 \<and> length (user_date_t s) = 10 \<and>
     length (ud_id (user_date_t s ! 2)) = 2 \<and> length (ud_name (user_date_t s ! 2)) = 20 \<and> length (ud_psw (user_date_t s ! 2)) = 20 \<and>
     user_quan_flag s < 3"

text \<open>\<open>block s n d\<close>: the receive buffer holds the block \<open>d\<close> of \<open>n\<close> characters and its terminator.\<close>

definition block :: "esp32_app \<Rightarrow> nat \<Rightarrow> string \<Rightarrow> bool" where
  "block s n d \<longleftrightarrow> wf_esp s \<and> n < 128 \<and> uart_rx_buffer s ! n = CHR 0x00 \<and> take n (uart_rx_buffer s) = d"

lemma block_match:
  assumes "block s n d" "i < n" "CHR 0x00 \<notin> set p" "p \<noteq> []"
  shows "match_at (uart_rx_buffer s) i p = Some (prefix p (drop i d))"
  using match_at_terminated [of n "uart_rx_buffer s" i p] assms by (auto simp: block_def wf_esp_def)

definition same_esp :: "esp32_app \<Rightarrow> esp32_app \<Rightarrow> bool" where
  "same_esp s s' \<longleftrightarrow> uart_rx_buffer s' = uart_rx_buffer s \<and> app_buffer s' = app_buffer s \<and> len s' = len s \<and> readstate s' = readstate s"

lemma block_same: "block s n d \<Longrightarrow> same_esp s s' \<Longrightarrow> wf_esp s' \<Longrightarrow> block s' n d"
  by (simp add: block_def same_esp_def)

lemma act_sel [simp]:
  "uart_rx_buffer (act as s) = uart_rx_buffer s" "app_buffer (act as s) = app_buffer s" "len (act as s) = len s"
  "readstate (act as s) = readstate s" "user_date_t (act as s) = user_date_t s" "user_num (act as s) = user_num s"
  "user_quan_flag (act as s) = user_quan_flag s" "face (act as s) = face s" "acts (act as s) = acts s @ as"
  "json_length (act as s) = json_length s"
  by (simp_all add: act_def)

text \<open>Everything but the JSON copy, at a position where \<open>get\<close> does not stand: what the flags and counters become.\<close>

definition digits :: "nat \<Rightarrow> nat \<Rightarrow> string list" where
  "digits q k = map (\<lambda>j. [''123'' ! (j mod 3)]) [q..<q + k]"

definition writes :: "line \<Rightarrow> esp32_app \<Rightarrow> string list" where
  "writes l s = List.map_filter (\<lambda>a. case a of Write l' t _ \<Rightarrow> if l' = l then Some t else None | _ \<Rightarrow> None) (acts s)"

lemma writes_upd [simp]:
  "writes l (act as s) = writes l s @ List.map_filter (\<lambda>a. case a of Write l' t _ \<Rightarrow> if l' = l then Some t else None | _ \<Rightarrow> None) as"
  "writes l (s\<lparr>face := x\<rparr>) = writes l s" "writes l (s\<lparr>user_quan_flag := y\<rparr>) = writes l s"
  "writes l (s\<lparr>user_date_t := z, user_num := y\<rparr>) = writes l s"
  "writes l (s\<lparr>readstate := r, app_buffer := b, len := y\<rparr>) = writes l s"
  by (simp_all add: writes_def map_filter_def act_def)

lemma cmd_state_ok:
  assumes "block s n d" "i < n"
  shows "\<exists>s'. cmd_state i s = Some s' \<and> same_esp s s' \<and> wf_esp s' \<and> user_num s' = user_num s \<and> face s' = face s \<and>
    user_quan_flag s' = user_quan_flag s \<and> writes Uart3 s' = writes Uart3 s"
  using assms block_match [OF assms, of "''State''"]
  by (simp add: cmd_state_def same_esp_def block_def wf_esp_def map_filter_def del: match_at.simps)

lemma cmd_add_ok:
  assumes "block s n d" "i < n"
  shows "\<exists>s'. cmd_add i s = Some s' \<and> same_esp s s' \<and> wf_esp s' \<and> face s' = face s \<and> user_quan_flag s' = user_quan_flag s \<and>
    user_num s' = user_num s + (if prefix ''add'' (drop i d) then 1 else 0) \<and> writes Uart3 s' = writes Uart3 s"
proof -
  define r where "r = user_date_t s ! 2"
  have w: "length (user_date_t s) = 10" "length (ud_id r) = 2" "length (ud_name r) = 20" "length (ud_psw r) = 20" "wf_esp s"
    using assms(1) by (auto simp: block_def wf_esp_def r_def)
  show ?thesis
    using block_match [OF assms, of "''add''"] w
    by (simp add: cmd_add_def same_esp_def wf_esp_def copy_field_0 r_def [symmetric] del: match_at.simps copy_field.simps)
qed

lemma cmd_face_ok:
  assumes "block s n d" "i < n"
  shows "\<exists>s'. cmd_face i s = Some s' \<and> same_esp s s' \<and> wf_esp s' \<and> user_num s' = user_num s \<and>
    face s' = (if prefix ''face'' (drop i d) \<and> face s = 1 then 0 else face s) \<and>
    user_quan_flag s' = user_quan_flag s \<and> writes Uart3 s' = writes Uart3 s"
  using assms block_match [OF assms, of "''face''"]
  by (simp add: cmd_face_def same_esp_def block_def wf_esp_def map_filter_def del: match_at.simps)

lemma cmd_sign_ok:
  assumes "block s n d" "i < n"
  shows "\<exists>s'. cmd_sign True i s = Some s' \<and> same_esp s s' \<and> wf_esp s' \<and> user_num s' = user_num s \<and> face s' = face s \<and>
    user_quan_flag s' = (user_quan_flag s + (if prefix ''sign'' (drop i d) then 1 else 0)) mod 3 \<and>
    writes Uart3 s' = writes Uart3 s @ digits (user_quan_flag s) (if prefix ''sign'' (drop i d) then 1 else 0)"
proof -
  have q: "user_quan_flag s = 0 \<or> user_quan_flag s = 1 \<or> user_quan_flag s = 2" using assms(1) by (auto simp: block_def wf_esp_def)
  then show ?thesis
    using assms(1) block_match [OF assms, of "''sign''"]
    by (elim disjE) (simp_all add: cmd_sign_def same_esp_def block_def wf_esp_def map_filter_def digits_def Let_def del: match_at.simps)
qed

lemma digits_add: "digits q (a + b) = digits q a @ digits ((q + a) mod 3) b"
proof -
  have "(\<lambda>j. [''123'' ! (j mod 3)]) \<circ> (\<lambda>j. j + a) = (\<lambda>j. [''123'' ! ((j + a) mod 3)])" for a :: nat by auto
  have "map (\<lambda>j. [''123'' ! (j mod 3)]) [m..<m + b] = map (\<lambda>j. [''123'' ! (j mod 3)]) [m mod 3..<m mod 3 + b]" for m :: nat
    by (rule nth_equalityI) (auto simp: mod_add_left_eq)
  from this [of "q + a"] show ?thesis by (simp add: digits_def add.assoc [symmetric] upt_add_eq_append [of q "q + a"])
qed

text \<open>Up to the JSON part, one position does this.\<close>

definition step_to :: "string \<Rightarrow> nat \<Rightarrow> esp32_app \<Rightarrow> esp32_app \<Rightarrow> bool" where
  "step_to d i s s' \<longleftrightarrow> user_num s' = user_num s + (if prefix ''add'' (drop i d) then 1 else 0) \<and>
     face s' = (if prefix ''face'' (drop i d) \<and> face s = 1 then 0 else face s) \<and>
     user_quan_flag s' = (user_quan_flag s + (if prefix ''sign'' (drop i d) then 1 else 0)) mod 3 \<and>
     writes Uart3 s' = writes Uart3 s @ digits (user_quan_flag s) (if prefix ''sign'' (drop i d) then 1 else 0)"

lemma esp32_at_json:
  assumes "block s n d" "i < n" "\<not> prefix ''get'' (drop i d)"
  shows "\<exists>s'. esp32_at True n i s = do { s \<leftarrow> cmd_json n i s'; Some (i, s) } \<and> block s' n d \<and> same_esp s s' \<and> step_to d i s s'"
proof -
  have b0: "block (act [Delay 5] s) n d" using assms(1) by (simp add: block_def wf_esp_def)
  obtain s1 where 1: "cmd_state i (act [Delay 5] s) = Some s1" "same_esp (act [Delay 5] s) s1" "wf_esp s1" "user_num s1 = user_num s"
      "face s1 = face s" "user_quan_flag s1 = user_quan_flag s" "writes Uart3 s1 = writes Uart3 s"
    using cmd_state_ok [OF b0 assms(2)] by (auto simp: map_filter_def)
  note b1 = block_same [OF b0 1(2,3)]
  have g: "cmd_get i s1 = Some (i, s1)" using block_match [OF b1 assms(2), of "''get''"] assms(3) by (simp add: cmd_get_def del: match_at.simps)
  obtain s2 where 2: "cmd_add i s1 = Some s2" "same_esp s1 s2" "wf_esp s2" "face s2 = face s1" "user_quan_flag s2 = user_quan_flag s1"
      "user_num s2 = user_num s1 + (if prefix ''add'' (drop i d) then 1 else 0)" "writes Uart3 s2 = writes Uart3 s1"
    using cmd_add_ok [OF b1 assms(2)] by auto
  note b2 = block_same [OF b1 2(2,3)]
  obtain s3 where 3: "cmd_face i s2 = Some s3" "same_esp s2 s3" "wf_esp s3" "user_num s3 = user_num s2"
      "face s3 = (if prefix ''face'' (drop i d) \<and> face s2 = 1 then 0 else face s2)" "user_quan_flag s3 = user_quan_flag s2"
      "writes Uart3 s3 = writes Uart3 s2"
    using cmd_face_ok [OF b2 assms(2)] by auto
  note b3 = block_same [OF b2 3(2,3)]
  obtain s4 where 4: "cmd_sign True i s3 = Some s4" "same_esp s3 s4" "wf_esp s4" "user_num s4 = user_num s3" "face s4 = face s3"
      "user_quan_flag s4 = (user_quan_flag s3 + (if prefix ''sign'' (drop i d) then 1 else 0)) mod 3"
      "writes Uart3 s4 = writes Uart3 s3 @ digits (user_quan_flag s3) (if prefix ''sign'' (drop i d) then 1 else 0)"
    using cmd_sign_ok [OF b3 assms(2)] by auto
  note b4 = block_same [OF b3 4(2,3)]
  have "esp32_at True n i s = do { s \<leftarrow> cmd_json n i s4; Some (i, s) }" by (simp add: esp32_at_def 1(1) g 2(1) 3(1) 4(1))
  moreover have "same_esp s s4" using 1(2) 2(2) 3(2) 4(2) by (simp add: same_esp_def)
  moreover have "step_to d i s s4" using 1 2 3 4 by (simp add: step_to_def)
  ultimately show ?thesis using b4 by blast
qed

lemma json_copy_eq:
  "json_copy n p j src dst = (if n = 0 \<or> j + n \<le> length src \<and> p + n \<le> length dst
     then Some (take p dst @ take n (drop j src) @ drop (p + n) dst) else None)"
proof (induction n arbitrary: p j dst)
  case (Suc n)
  show ?case
  proof (cases "j < length src \<and> p < length dst")
    case True
    then have "dst[p := src ! j] = take p dst @ src ! j # drop (Suc p) dst" "drop j src = src ! j # drop (Suc j) src"
      by (simp_all add: upd_conv_take_nth_drop Cons_nth_drop_Suc)
    then show ?thesis using Suc.IH [of "Suc p" "Suc j" "dst[p := src ! j]"] True
      by (auto simp: rdc_def add.commute)
  qed (auto simp: rdc_def)
qed simp

subsection \<open>Blocks of commands\<close>

lemma esp32_loop_commands:
  assumes "\<forall>i < n. \<not> prefix ''get'' (drop i d) \<and> \<not> prefix ''{\"'' (drop i d)"
  shows "block s n d \<Longrightarrow> \<not> readstate s \<Longrightarrow> i \<le> n \<Longrightarrow>
    \<exists>s'. esp32_loop (n - i) True n i s = Some s' \<and> wf_esp s' \<and> \<not> readstate s' \<and> app_buffer s' = app_buffer s \<and> len s' = len s \<and>
      user_num s' = user_num s + length (filter (\<lambda>i. prefix ''add'' (drop i d)) [i..<n]) \<and>
      face s' = (if face s = 1 \<and> (\<exists>j \<in> {i..<n}. prefix ''face'' (drop j d)) then 0 else face s) \<and>
      user_quan_flag s' = (user_quan_flag s + length (filter (\<lambda>i. prefix ''sign'' (drop i d)) [i..<n])) mod 3 \<and>
      writes Uart3 s' = writes Uart3 s @ digits (user_quan_flag s) (length (filter (\<lambda>i. prefix ''sign'' (drop i d)) [i..<n]))"
proof (induction "n - i" arbitrary: i s)
  case 0
  then show ?case by (simp add: digits_def block_def wf_esp_def)
next
  case (Suc k)
  have i: "i < n" "n - i = Suc (n - Suc i)" "k = n - Suc i" "Suc i \<le> n" using Suc.hyps(2) by auto
  obtain s1 where s1: "esp32_at True n i s = do { s \<leftarrow> cmd_json n i s1; Some (i, s) }" "block s1 n d" "same_esp s s1" "step_to d i s s1"
    using esp32_at_json [OF Suc.prems(1) i(1)] assms i(1) by blast
  have "cmd_json n i s1 = Some s1" using block_match [OF s1(2) i(1), of "''{\"''"] assms i(1) s1(3) Suc.prems(2)
    by (simp add: cmd_json_def same_esp_def del: match_at.simps)
  then have e: "esp32_loop (n - i) True n i s = esp32_loop (n - Suc i) True n (Suc i) s1" using s1(1) i(1) by (simp add: i(2))
  have n1: "\<not> readstate s1" using s1(3) Suc.prems(2) by (simp add: same_esp_def)
  have u: "[i..<n] = i # [Suc i..<n]" "{i..<n} = insert i {Suc i..<n}" using i(1) by (auto simp: upt_conv_Cons)
  obtain s' where s': "esp32_loop (n - Suc i) True n (Suc i) s1 = Some s'" "wf_esp s'" "\<not> readstate s'" "app_buffer s' = app_buffer s1"
      "len s' = len s1" "user_num s' = user_num s1 + length (filter (\<lambda>i. prefix ''add'' (drop i d)) [Suc i..<n])"
      "face s' = (if face s1 = 1 \<and> (\<exists>j \<in> {Suc i..<n}. prefix ''face'' (drop j d)) then 0 else face s1)"
      "user_quan_flag s' = (user_quan_flag s1 + length (filter (\<lambda>i. prefix ''sign'' (drop i d)) [Suc i..<n])) mod 3"
      "writes Uart3 s' = writes Uart3 s1 @ digits (user_quan_flag s1) (length (filter (\<lambda>i. prefix ''sign'' (drop i d)) [Suc i..<n]))"
    using Suc.hyps(1) [OF i(3) s1(2) n1 i(4)] by blast
  define c where "c = (if prefix ''sign'' (drop i d) then 1 else 0 :: nat)"
  define m where "m = length (filter (\<lambda>i. prefix ''sign'' (drop i d)) [Suc i..<n])"
  have cm: "length (filter (\<lambda>i. prefix ''sign'' (drop i d)) [i..<n]) = c + m" unfolding u(1) by (simp add: c_def m_def)
  have q1: "user_quan_flag s1 = (user_quan_flag s + c) mod 3" "writes Uart3 s1 = writes Uart3 s @ digits (user_quan_flag s) c"
    using s1(4) by (simp_all add: step_to_def c_def)
  have "writes Uart3 s' = writes Uart3 s @ digits (user_quan_flag s) (c + m)"
    unfolding digits_add q1(1) [symmetric] using s'(9) q1(2) by (simp add: m_def)
  moreover have "user_quan_flag s' = (user_quan_flag s + (c + m)) mod 3"
    using s'(8) by (simp add: q1(1) m_def mod_add_left_eq add.assoc)
  moreover have "user_num s' = user_num s + length (filter (\<lambda>i. prefix ''add'' (drop i d)) [i..<n])"
  proof -
    have "user_num s1 = user_num s + (if prefix ''add'' (drop i d) then 1 else 0)" using s1(4) unfolding step_to_def by blast
    then show ?thesis unfolding u(1) s'(6) by simp
  qed
  moreover have "face s' = (if face s = 1 \<and> (\<exists>j \<in> {i..<n}. prefix ''face'' (drop j d)) then 0 else face s)"
  proof -
    define P where "P j = prefix ''face'' (drop j d)" for j
    have "face s1 = (if P i \<and> face s = 1 then 0 else face s)" using s1(4) unfolding step_to_def P_def by blast
    then show ?thesis unfolding u(2) s'(7) P_def [symmetric] by (cases "P i"; cases "face s = 1") simp_all
  qed
  ultimately show ?case unfolding cm e using s'(1-5) s1(3) by (simp add: same_esp_def)
qed

lemma turn_block:
  fixes sz :: nat
  assumes "wf_esp s" "\<forall>n. length (dev n) \<le> n"
  defines "d \<equiv> dev (min sz 127)"
  shows "\<exists>b. esp32_turn True (Inr (sz, dev)) s = esp32_loop (length d) True (length d) 0 (s\<lparr>uart_rx_buffer := b\<rparr>) \<and>
    block (s\<lparr>uart_rx_buffer := b\<rparr>) (length d) d"
proof -
  define b where "b = (d @ drop (length d) (uart_rx_buffer s))[length d := CHR 0x00]"
  have l: "length d \<le> 127" using assms(2) by (auto simp: d_def intro: order_trans)
  have w: "length (uart_rx_buffer s) = 128" using assms(1) by (simp add: wf_esp_def)
  have n: "(if length (uart_rx_buffer s) - 1 > sz then sz else length (uart_rx_buffer s) - 1) = min sz 127" using w by auto
  have "esp32_turn True (Inr (sz, dev)) s = esp32_loop (length d) True (length d) 0 (s\<lparr>uart_rx_buffer := b\<rparr>)"
    unfolding esp32_turn_def sum.case prod.case Let_def n d_def [symmetric]
    using l w by (simp add: copy_field_0 b_def del: copy_field.simps)
  moreover have "block (s\<lparr>uart_rx_buffer := b\<rparr>) (length d) d" using l w assms(1) by (simp add: block_def wf_esp_def b_def)
  ultimately show ?thesis by blast
qed

lemma no_place: "\<not> sublist w d \<Longrightarrow> \<not> prefix w (drop i d)"
  by (meson prefix_imp_sublist sublist_drop sublist_order.order_trans)

definition count :: "string \<Rightarrow> string \<Rightarrow> nat" where
  "count w d = length (filter (\<lambda>i. prefix w (drop i d)) [0..<length d])"

definition demo_esp :: esp32_app where
  "demo_esp = \<lparr>uart_rx_buffer = replicate 128 CHR 0x00, app_buffer = replicate 128 CHR 0x00, json_length = 0, user_num = 2,
     user_date_t = replicate 10 demo_user, face = 0, user_quan_flag = 0, len = 0, readstate = False, acts = []\<rparr>"

lemma wf_demo_esp: "wf_esp demo_esp"
  by code_simp



subsection \<open>JSON blocks\<close>

text \<open>Before position \<open>i\<close> of a JSON block of \<open>n\<close> characters: the text collected so far.\<close>

definition json_inv :: "string \<Rightarrow> nat \<Rightarrow> nat \<Rightarrow> string \<Rightarrow> esp32_app \<Rightarrow> bool" where
  "json_inv d n i b s \<longleftrightarrow> block s n d \<and> uart_rx_buffer s = b \<and> (readstate s \<longleftrightarrow> 0 < i) \<and> len s = i \<and>
     (0 < i \<longrightarrow> (\<forall>p < i + n - 1. app_buffer s ! p = b ! p))"

lemma json_step:
  assumes "json_inv d n i b s" "i < n" "prefix ''{\"'' d" "\<not> prefix ''get'' (drop i d)"
  shows "if i + n \<le> 128 then \<exists>s'. esp32_at True n i s = Some (i, s') \<and> json_inv d n (Suc i) b s' else esp32_at True n i s = None"
proof -
  have b: "block s n d" using assms(1) by (simp add: json_inv_def)
  obtain s1 where s1: "esp32_at True n i s = do { s \<leftarrow> cmd_json n i s1; Some (i, s) }" "block s1 n d" "same_esp s s1"
    using esp32_at_json [OF b assms(2,4)] by blast
  have m: "(if readstate s1 then Some True else match_at (uart_rx_buffer s1) i ''{\"'') = Some True"
    using block_match [OF s1(2) assms(2), of "''{\"''"] assms(1,3) s1(3)
    by (cases "i = 0") (auto simp: json_inv_def same_esp_def simp del: match_at.simps)
  have l: "length b = 128" "length (app_buffer s1) = 128" "uart_rx_buffer s1 = b" "len s1 = i" "app_buffer s1 = app_buffer s"
    using assms(1) s1(2,3) by (auto simp: json_inv_def block_def wf_esp_def same_esp_def)
  have c: "cmd_json n i s1 = (if i + n \<le> 128 then Some ((act [Delay 5] s1)\<lparr>readstate := True,
      app_buffer := take i (app_buffer s) @ take n (drop i b) @ drop (i + n) (app_buffer s), len := Suc i\<rparr>) else None)"
    unfolding cmd_json_def m using l assms(2) by (simp add: json_copy_eq)
  show ?thesis
  proof (cases "i + n \<le> 128")
    case True
    define s2 where "s2 = (act [Delay 5] s1)\<lparr>readstate := True,
      app_buffer := take i (app_buffer s) @ take n (drop i b) @ drop (i + n) (app_buffer s), len := Suc i\<rparr>"
    have "block s2 n d" using s1(2) l True by (simp add: block_def wf_esp_def s2_def)
    moreover have "app_buffer s2 ! p = b ! p" if "p < i + n" for p
    proof (cases "p < i")
      case True
      then show ?thesis using assms(1,2) l \<open>i + n \<le> 128\<close> by (auto simp: s2_def nth_append json_inv_def)
    next
      case False
      then show ?thesis using that l \<open>i + n \<le> 128\<close> by (auto simp: s2_def nth_append)
    qed
    ultimately have "json_inv d n (Suc i) b s2" using l by (simp add: json_inv_def s2_def)
    then show ?thesis using s1(1) c True by (auto simp: s2_def)
  qed (simp add: s1(1) c)
qed

lemma json_loop:
  assumes "prefix ''{\"'' d" "\<not> sublist ''get'' d"
  shows "json_inv d n i b s \<Longrightarrow> i \<le> n \<Longrightarrow> i < n \<or> n \<le> 64 \<Longrightarrow>
    if n \<le> 64 then \<exists>s'. esp32_loop (n - i) True n i s = Some s' \<and> json_inv d n n b s' else esp32_loop (n - i) True n i s = None"
proof (induction "n - i" arbitrary: i s)
  case (Suc k)
  have i: "i < n" "n - i = Suc (n - Suc i)" "k = n - Suc i" "Suc i \<le> n" using Suc.hyps(2) by auto
  note st = json_step [OF Suc.prems(1) i(1) assms(1) no_place [OF assms(2)]]
  show ?case
  proof (cases "i + n \<le> 128")
    case True
    then obtain s' where s': "esp32_at True n i s = Some (i, s')" "json_inv d n (Suc i) b s'" using st by auto
    have "Suc i < n \<or> n \<le> 64" using True i(1) by linarith
    then show ?thesis using Suc.hyps(1) [OF i(3) s'(2) i(4)] s'(1) i(1,2) by simp
  next
    case False
    then show ?thesis using st i(1,2) by simp
  qed
qed simp

text \<open>
  C3. A JSON text that arrives in one block, without the word \<open>get\<close>, on an idle line is passed on
  whole when it has at most 64 characters: at the next quiet second its exact text, with its
  terminator, stands in \<open>app_buffer\<close>, its length in \<open>json_length\<close>, and both mails are sent. A
  longer text overruns the 128-character buffers, because the block is copied again at every
  position, one place further.
\<close>

theorem esp32_json_transfer:
  fixes sz :: nat
  assumes "wf_esp s" "\<not> readstate s" "len s = 0" "\<forall>n. length (dev n) \<le> n"
  defines "d \<equiv> dev (min sz 127)"
  assumes "prefix ''{\"'' d" "\<not> sublist ''get'' d"
  shows "if length d \<le> 64
    then \<exists>s1 s2. esp32_turn True (Inr (sz, dev)) s = Some s1 \<and> esp32_turn True (Inl ()) s1 = Some s2 \<and>
      take (length d) (app_buffer s2) = d \<and> app_buffer s2 ! length d = CHR 0x00 \<and> json_length s2 = length d \<and>
      acts s2 = acts s1 @ [Mail_app_buffer, Mail_json_over] \<and> len s2 = 0 \<and> \<not> readstate s2 \<and> wf_esp s2
    else esp32_turn True (Inr (sz, dev)) s = None"
proof -
  obtain b where b: "esp32_turn True (Inr (sz, dev)) s = esp32_loop (length d) True (length d) 0 (s\<lparr>uart_rx_buffer := b\<rparr>)"
    "block (s\<lparr>uart_rx_buffer := b\<rparr>) (length d) d" using turn_block [OF assms(1,4)] by (auto simp: d_def)
  have "json_inv d (length d) 0 b (s\<lparr>uart_rx_buffer := b\<rparr>)" using b(2) assms(2,3) by (simp add: json_inv_def)
  note L = json_loop [OF assms(6,7) this]
  have pos: "2 \<le> length d" using prefix_length_le [OF assms(6)] by simp
  show ?thesis
  proof (cases "length d \<le> 64")
    case True
    then obtain s1 where s1: "esp32_turn True (Inr (sz, dev)) s = Some s1" "json_inv d (length d) (length d) b s1" using L b(1) by auto
    have bl: "length b = 128" "b ! length d = CHR 0x00" "take (length d) b = d" using b(2) by (auto simp: block_def wf_esp_def)
    have at: "app_buffer s1 ! p = b ! p" if "p \<le> length d" for p using s1(2) that pos by (auto simp: json_inv_def)
    have w: "wf_esp s1" "length (app_buffer s1) = 128" "readstate s1" "len s1 = length d"
      using s1(2) pos by (auto simp: json_inv_def block_def wf_esp_def)
    have "take (length d) (app_buffer s1) = take (length d) b"
      by (rule nth_equalityI) (use at bl(1) w(2) True in auto)
    then show ?thesis using True s1(1) w at [of "length d"] bl
      by (auto simp: esp32_turn_def Let_def wf_esp_def)
  next
    case False
    moreover have "d \<noteq> []" using pos by auto
    ultimately show ?thesis using L b(1) by simp
  qed
qed

theorem esp32_json_transfer_witness:
  "\<exists>s1 s2. esp32_turn True (Inr (64, \<lambda>n. take n ''{\"id\":\"3\"}'')) demo_esp = Some s1 \<and> esp32_turn True (Inl ()) s1 = Some s2 \<and>
     take (length ''{\"id\":\"3\"}'') (app_buffer s2) = ''{\"id\":\"3\"}'' \<and> json_length s2 = 10"
proof -
  have "\<not> sublist ''get'' ''{\"id\":\"3\"}''" by code_simp
  then show ?thesis
    using esp32_json_transfer [OF wf_demo_esp, of "\<lambda>n. take n ''{\"id\":\"3\"}''" 64] by (auto simp: demo_esp_def)
qed

end
