(* ===== verification/App_Json.thy ===== *)
theory App_Json
  imports App_Esp32
begin

section \<open>The JSON thread (\<^verbatim>\<open>json_thread_entry\<close> of \<^verbatim>\<open>applications/test_esp32.c\<close>)\<close>

text \<open>
  The thread that gets the mail of the command thread, parses the text with the JSMN package and
  copies the account data into the first user record. JSMN is not in the repository: what
  \<open>jsmn_parse\<close> returns (a count and the token array) is a parameter of the model.
\<close>

subsection \<open>Tokens and operations\<close>

datatype jsmntype = JSMN_UNDEFINED | JSMN_OBJECT | JSMN_ARRAY | JSMN_STRING | JSMN_PRIMITIVE

record jsmntok =
  tk_type :: jsmntype
  tk_start :: nat
  tk_end :: nat

text \<open>\<^verbatim>\<open>strncmp\<close> of \<open>n\<close> characters from \<open>p\<close> on; both sides have them, so it is a comparison of slices.\<close>

definition fetch_key1 :: "string \<Rightarrow> jsmntok \<Rightarrow> string \<Rightarrow> bool option" where
  "fetch_key1 js t str =
     (if tk_type t = JSMN_STRING \<and> tk_start t \<le> tk_end t \<and> length str = tk_end t - tk_start t
      then match_at js (tk_start t) str else Some False)"

text \<open>\<^verbatim>\<open>for (number = 0; number < end - start; number++) field[number] = json_p[number]\<close>.\<close>

definition copy_value :: "string \<Rightarrow> jsmntok list \<Rightarrow> nat \<Rightarrow> string \<Rightarrow> string option" where
  "copy_value js t k f = (if k < length t then json_copy (tk_end (t ! k) - tk_start (t ! k)) 0 (tk_start (t ! k)) js f else None)"

function json_keys :: "string \<Rightarrow> jsmntok list \<Rightarrow> nat \<Rightarrow> nat \<Rightarrow> user_date \<Rightarrow> user_date option" where
  "json_keys js t res i u =
     (if i < res
      then if i < length t
           then (case fetch_key1 js (t ! i) ''id'' of
                   None \<Rightarrow> None
                 | Some True \<Rightarrow> do { f \<leftarrow> copy_value js t (i + 1) (ud_id u); json_keys js t res (i + 2) (u\<lparr>ud_id := f\<rparr>) }
                 | Some False \<Rightarrow>
                     (case fetch_key1 js (t ! i) ''account'' of
                        None \<Rightarrow> None
                      | Some True \<Rightarrow> do { f \<leftarrow> copy_value js t (i + 1) (ud_name u); json_keys js t res (i + 2) (u\<lparr>ud_name := f\<rparr>) }
                      | Some False \<Rightarrow>
                          (case fetch_key1 js (t ! i) ''psw'' of
                             None \<Rightarrow> None
                           | Some True \<Rightarrow> do { f \<leftarrow> copy_value js t (i + 1) (ud_psw u); json_keys js t res (i + 2) (u\<lparr>ud_psw := f\<rparr>) }
                           | Some False \<Rightarrow> json_keys js t res (i + 1) u)))
           else None
      else Some u)"
  by pat_completeness auto
termination by (relation "measure (\<lambda>(js, t, res, i, u). res - i)") auto

declare json_keys.simps [simp del]

text \<open>
  What one mail leads to, \<open>res\<close> and \<open>t\<close> being the results of \<open>jsmn_parse\<close>: \<open>Some None\<close> when the text is no
  object and the thread ends, \<open>Some (Some s)\<close> with the new state when it is.
\<close>

definition json_mail :: "int \<Rightarrow> jsmntok list \<Rightarrow> esp32_app \<Rightarrow> esp32_app option option" where
  "json_mail res t s =
     (if res < 0 then Some None
      else if res < 1 \<or> tk_type (t ! 0) \<noteq> JSMN_OBJECT then Some None
      else do { u \<leftarrow> json_keys (app_buffer s) t (nat res) 1 (user_date_t s ! 0);
                Some (Some (s\<lparr>user_date_t := (user_date_t s)[0 := u], user_num := user_num s + 1\<rparr>)) })"

subsection \<open>What is stored\<close>

definition tok_text :: "string \<Rightarrow> jsmntok \<Rightarrow> string" where
  "tok_text js t = take (tk_end t - tk_start t) (drop (tk_start t) js)"

definition tok_in :: "string \<Rightarrow> jsmntok \<Rightarrow> bool" where
  "tok_in js t \<longleftrightarrow> tk_start t < tk_end t \<and> tk_end t \<le> length js"

lemma fetch_key1_eq:
  assumes "tok_in js t"
  shows "fetch_key1 js t str = Some (tk_type t = JSMN_STRING \<and> tok_text js t = str)"
proof (cases "tk_type t = JSMN_STRING \<and> length str = tk_end t - tk_start t")
  case True
  have l: "tk_start t < length js" "length (drop (tk_start t) js) \<ge> length str" "str \<noteq> []" using assms True by (auto simp: tok_in_def)
  have "match_at js (tk_start t) str \<noteq> None"
    using l(2) by (auto simp: match_at_None dest: prefix_length_less)
  moreover have "match_at js (tk_start t) str = Some True \<longleftrightarrow> tok_text js t = str"
    unfolding match_at_True using l True by (auto simp: tok_text_def prefix_def) (metis append_take_drop_id)
  ultimately show ?thesis using True assms by (cases "match_at js (tk_start t) str") (auto simp: fetch_key1_def tok_in_def)
next
  case False
  moreover have "length (tok_text js t) = tk_end t - tk_start t" using assms by (auto simp: tok_text_def tok_in_def)
  ultimately show ?thesis by (auto simp: fetch_key1_def)
qed

lemma copy_value_eq:
  assumes "tok_in js (t ! k)" "k < length t"
  shows "copy_value js t k f =
    (if length (tok_text js (t ! k)) \<le> length f then Some (tok_text js (t ! k) @ drop (length (tok_text js (t ! k))) f) else None)"
  using assms by (auto simp: copy_value_def json_copy_eq tok_text_def tok_in_def)

text \<open>The tokens of an object with the three keys in the order in which the phone application sends them.\<close>

definition account_tokens :: "string \<Rightarrow> jsmntok list \<Rightarrow> string \<Rightarrow> string \<Rightarrow> string \<Rightarrow> bool" where
  "account_tokens js t i a p \<longleftrightarrow> length t = 128 \<and> tk_type (t ! 0) = JSMN_OBJECT \<and>
     (\<forall>k \<in> {1..6}. tok_in js (t ! k) \<and> tk_type (t ! k) = JSMN_STRING) \<and>
     map (\<lambda>k. tok_text js (t ! k)) [1, 2, 3, 4, 5, 6] = [''id'', i, ''account'', a, ''psw'', p]"

definition demo_json :: string where
  "demo_json = ''{\"id\":\"3\",\"account\":\"zwl\",\"psw\":\"x\"}'' @ replicate 93 CHR 0x00"

definition demo_tok :: "nat \<Rightarrow> nat \<Rightarrow> jsmntok" where
  "demo_tok a b = \<lparr>tk_type = JSMN_STRING, tk_start = a, tk_end = b\<rparr>"

definition demo_tokens :: "jsmntok list" where
  "demo_tokens = \<lparr>tk_type = JSMN_OBJECT, tk_start = 0, tk_end = 35\<rparr> # demo_tok 2 4 # demo_tok 7 8 # demo_tok 11 18 #
     demo_tok 21 24 # demo_tok 27 30 # demo_tok 33 34 # replicate 121 (demo_tok 0 0)"

text \<open>
  C37. An account text is stored in the first user record: when JSMN delivers an object with the
  string values of \<open>id\<close>, \<open>account\<close> and \<open>psw\<close>, of at most 2, 20 and 20 characters, the record gets
  exactly these values, the other users stay, and one user more is counted. A longer value is
  written past its field, and a text that is no object ends the thread without a change.
\<close>

theorem json_mail_stores:
  assumes "account_tokens (app_buffer s) t i a p" "user_date_t s = u # us"
    and "length (ud_id u) = 2" "length (ud_name u) = 20" "length (ud_psw u) = 20"
  shows "json_mail 7 t s =
      (if length i \<le> 2 \<and> length a \<le> 20 \<and> length p \<le> 20
       then Some (Some (s\<lparr>user_date_t := u\<lparr>ud_id := i @ drop (length i) (ud_id u), ud_name := a @ drop (length a) (ud_name u),
              ud_psw := p @ drop (length p) (ud_psw u)\<rparr> # us, user_num := user_num s + 1\<rparr>))
       else None) \<and>
    json_mail (- 1) t s = Some None"
proof -
  let ?js = "app_buffer s"
  have t: "length t = 128" "tk_type (t ! 0) = JSMN_OBJECT" using assms(1) by (auto simp: account_tokens_def)
  have k: "tok_in ?js (t ! 1)" "tok_in ?js (t ! 2)" "tok_in ?js (t ! 3)" "tok_in ?js (t ! 4)" "tok_in ?js (t ! 5)" "tok_in ?js (t ! 6)"
    "tk_type (t ! 1) = JSMN_STRING" "tk_type (t ! 3) = JSMN_STRING" "tk_type (t ! 5) = JSMN_STRING"
    using assms(1) by (auto simp: account_tokens_def)
  have x: "tok_text ?js (t ! 1) = ''id''" "tok_text ?js (t ! 2) = i" "tok_text ?js (t ! 3) = ''account''" "tok_text ?js (t ! 4) = a"
    "tok_text ?js (t ! 5) = ''psw''" "tok_text ?js (t ! 6) = p"
    using assms(1) by (simp_all add: account_tokens_def)
  have k5: "json_keys ?js t 7 5 v = do { f \<leftarrow> copy_value ?js t 6 (ud_psw v); Some (v\<lparr>ud_psw := f\<rparr>) }" for v
    using t k x by (subst json_keys.simps) (simp add: fetch_key1_eq json_keys.simps [of _ _ _ 7])
  have k3: "json_keys ?js t 7 3 v = do { f \<leftarrow> copy_value ?js t 4 (ud_name v); json_keys ?js t 7 5 (v\<lparr>ud_name := f\<rparr>) }" for v
    using t k x by (subst json_keys.simps) (simp add: fetch_key1_eq)
  have k1: "json_keys ?js t 7 1 v = do { f \<leftarrow> copy_value ?js t 2 (ud_id v); json_keys ?js t 7 3 (v\<lparr>ud_id := f\<rparr>) }" for v
    using t k x by (subst json_keys.simps) (simp add: fetch_key1_eq numeral_2_eq_2 [symmetric])
  show ?thesis using t assms(2-5) by (auto simp: json_mail_def k1 [unfolded One_nat_def] k3 k5 copy_value_eq k x t)
qed

theorem json_mail_stores_witness:
  "\<exists>s'. json_mail 7 demo_tokens (demo_esp\<lparr>app_buffer := demo_json\<rparr>) = Some (Some s') \<and> user_num s' = 3 \<and>
     take 4 (ud_name (user_date_t s' ! 0)) = ''zwl'' @ [CHR 0x00]"
proof -
  have a: "account_tokens (app_buffer (demo_esp\<lparr>app_buffer := demo_json\<rparr>)) demo_tokens ''3'' ''zwl'' ''x''" by code_simp
  have u: "user_date_t (demo_esp\<lparr>app_buffer := demo_json\<rparr>) = demo_user # replicate 9 demo_user" by (simp add: demo_esp_def numeral_eq_Suc)
  from json_mail_stores [OF a u] show ?thesis by (simp add: demo_user_def demo_esp_def numeral_eq_Suc)
qed

end
