(* ===== verification/App_Openmv.thy ===== *)
theory App_Openmv
  imports App_Text
begin

section \<open>Messages of the camera (\<^verbatim>\<open>applications/openMv.c\<close>)\<close>

text \<open>
  The thread behind the serial line of the OpenMV camera: it looks for the words \<open>get\<close> (a face is
  in front of the mirror) and \<open>>>>n\<close> (it is user \<open>n\<close>) in each block it receives, sets the shared flags,
  sends the digit to the screen thread and switches the display and its back light. The record
  holds the flags and logs what the thread does outside. The lemmas say what a block of any
  contents leads to, and that no block makes the thread read outside its buffer.
\<close>

subsection \<open>State and operations\<close>

record openmv_app =
  face_flag :: nat
  user_num_flag :: nat
  screen_sent :: string
  gui_inits :: nat
  delays :: nat
  light :: bool

definition pwminit_user :: "int \<Rightarrow> openmv_app \<Rightarrow> openmv_app" where
  "pwminit_user l s = s\<lparr>light := (l = 1)\<rparr>"

text \<open>The word \<open>resuc\<close> only prints, but its comparison reads the buffer.\<close>

definition openmv_resuc :: "string \<Rightarrow> nat \<Rightarrow> openmv_app \<Rightarrow> openmv_app option" where
  "openmv_resuc b i s = do { m \<leftarrow> match_at b i ''resuc''; Some s }"

definition openmv_get :: "string \<Rightarrow> nat \<Rightarrow> openmv_app \<Rightarrow> openmv_app option" where
  "openmv_get b i s =
     do { m \<leftarrow> match_at b i ''get'';
          if m then Some (pwminit_user 1 (s\<lparr>face_flag := 1, gui_inits := gui_inits s + 1, delays := delays s + 100\<rparr>))
          else Some s }"

definition openmv_num :: "string \<Rightarrow> nat \<Rightarrow> openmv_app \<Rightarrow> openmv_app option" where
  "openmv_num b i s =
     do { m \<leftarrow> match_at b i ''>>>'';
          if m
          then do { nums \<leftarrow> rdc b (i + 3);
                    let s = (if nums = CHR ''1'' then s\<lparr>user_num_flag := 0\<rparr> else s);
                        s = (if nums = CHR ''2'' then s\<lparr>user_num_flag := 1\<rparr> else s);
                        s = (if nums = CHR ''3'' then s\<lparr>user_num_flag := 2\<rparr> else s)
                    in Some (pwminit_user 1 (s\<lparr>screen_sent := screen_sent s @ [nums], gui_inits := gui_inits s + 1\<rparr>)) }
          else Some s }"

fun openmv_loop :: "string \<Rightarrow> nat \<Rightarrow> nat \<Rightarrow> openmv_app \<Rightarrow> openmv_app option" where
  "openmv_loop b i 0 s = Some s"
| "openmv_loop b i (Suc n) s =
     do { s \<leftarrow> openmv_resuc b i s; s \<leftarrow> openmv_get b i s; s \<leftarrow> openmv_num b i s; openmv_loop b (Suc i) n s }"

text \<open>
  One turn of the thread. \<open>Inl\<close> is the time-out of \<open>rt_mq_recv\<close>; \<open>Inr (size, dev)\<close> a message with the size
  of the block, \<open>dev n\<close> what \<open>rt_device_read\<close> returns when it is asked for \<open>n\<close> characters. The result
  pairs the buffer with the state.
\<close>

definition openmv_turn :: "unit + nat \<times> (nat \<Rightarrow> string) \<Rightarrow> string \<times> openmv_app \<Rightarrow> (string \<times> openmv_app) option" where
  "openmv_turn ev bs =
     (case (ev, bs) of
        (Inl _, b, s) \<Rightarrow> Some (b, pwminit_user 0 s)
      | (Inr (sz, dev), b, s) \<Rightarrow>
          let n = (if length b - 1 > sz then sz else length b - 1);
              d = dev n;
              rx_length = length d
          in do { b \<leftarrow> copy_field 0 d b;
                  if rx_length < length b
                  then let b = b[rx_length := CHR 0x00]
                       in do { s \<leftarrow> openmv_loop b 0 rx_length s; Some (b, s) }
                  else None })"

subsection \<open>What a block leads to\<close>

text \<open>The places of a word, and the characters after each \<open>>>>\<close> (the terminator at the end of the block).\<close>

definition places :: "string \<Rightarrow> string \<Rightarrow> nat list" where
  "places w d = filter (\<lambda>i. prefix w (drop i d)) [0..<length d]"

definition selected :: "string \<Rightarrow> string" where
  "selected d = map (\<lambda>i. (d @ [CHR 0x00]) ! (i + 3)) (places ''>>>'' d)"

definition choose_user :: "char \<Rightarrow> nat \<Rightarrow> nat" where
  "choose_user c u = (if c = CHR ''1'' then 0 else if c = CHR ''2'' then 1 else if c = CHR ''3'' then 2 else u)"

definition openmv_effect :: "string \<Rightarrow> nat list \<Rightarrow> openmv_app \<Rightarrow> openmv_app" where
  "openmv_effect d is s =
     (let g = filter (\<lambda>i. prefix ''get'' (drop i d)) is; n = filter (\<lambda>i. prefix ''>>>'' (drop i d)) is;
          cs = map (\<lambda>i. (d @ [CHR 0x00]) ! (i + 3)) n
      in s\<lparr>face_flag := (if g = [] then face_flag s else 1), user_num_flag := fold choose_user cs (user_num_flag s),
           screen_sent := screen_sent s @ cs, gui_inits := gui_inits s + length g + length n,
           delays := delays s + 100 * length g, light := (g \<noteq> [] \<or> n \<noteq> [] \<or> light s)\<rparr>)"

lemma openmv_step:
  assumes "n < length b" "b ! n = CHR 0x00" "i < n" "take n b = d"
  shows "do { s \<leftarrow> openmv_resuc b i s; s \<leftarrow> openmv_get b i s; openmv_num b i s } = Some (openmv_effect d [i] s)"
proof -
  have m: "match_at b i p = Some (prefix p (drop i d))" if "CHR 0x00 \<notin> set p" "p \<noteq> []" for p
    using match_at_terminated [of n b i p] assms that by auto
  have r: "rdc b (i + 3) = Some ((d @ [CHR 0x00]) ! (i + 3))" if "prefix ''>>>'' (drop i d)"
  proof -
    have "3 \<le> length (drop i d)" using prefix_length_le [OF that] by simp
    then have "i + 3 \<le> n" using assms by auto
    then show ?thesis using assms by (auto simp: rdc_def nth_append)
  qed
  show ?thesis
    using r by (cases "prefix ''get'' (drop i d)"; cases "prefix ''>>>'' (drop i d)")
      (simp_all add: openmv_resuc_def openmv_get_def openmv_num_def m openmv_effect_def pwminit_user_def choose_user_def Let_def
        del: match_at.simps)
qed

lemma openmv_effect_Cons: "openmv_effect d (i # is) s = openmv_effect d is (openmv_effect d [i] s)"
  by (simp add: openmv_effect_def Let_def)

lemma openmv_loop_effect:
  assumes "n < length b" "b ! n = CHR 0x00" "take n b = d"
  shows "i \<le> n \<Longrightarrow> openmv_loop b i (n - i) s = Some (openmv_effect d [i..<n] s)"
proof (induction "n - i" arbitrary: i s)
  case 0
  then show ?case by (simp add: openmv_effect_def Let_def)
next
  case (Suc k)
  have i: "i < n" "n - i = Suc (n - Suc i)" "k = n - Suc i" "Suc i \<le> n" using Suc.hyps(2) by auto
  have IH: "openmv_loop b (Suc i) (n - Suc i) s' = Some (openmv_effect d [Suc i..<n] s')" for s'
    using Suc.hyps(1) [OF i(3,4)] .
  have "openmv_loop b i (n - i) s =
      do { s \<leftarrow> do { s \<leftarrow> openmv_resuc b i s; s \<leftarrow> openmv_get b i s; openmv_num b i s }; openmv_loop b (Suc i) (n - Suc i) s }"
    by (simp add: i(2))
  then show ?case unfolding openmv_step [OF assms(1,2) i(1) assms(3)]
    using openmv_effect_Cons [of d i "[Suc i..<n]"] i(1) by (simp add: IH upt_conv_Cons)
qed

lemma places_sublist: "w \<noteq> [] \<Longrightarrow> places w d \<noteq> [] \<longleftrightarrow> sublist w d"
proof
  assume "places w d \<noteq> []"
  then obtain i where "prefix w (drop i d)" by (auto simp: places_def filter_empty_conv)
  then show "sublist w d" by (meson prefix_imp_sublist sublist_drop sublist_order.order_trans)
next
  assume w: "w \<noteq> []" "sublist w d"
  then obtain ps ss where "d = ps @ w @ ss" by (auto simp: sublist_def)
  then have "length ps < length d" "prefix w (drop (length ps) d)" using w(1) by auto
  then show "places w d \<noteq> []" by (auto simp: places_def filter_empty_conv)
qed

lemma openmv_turn_effect:
  fixes sz :: nat
  assumes "length b = 64" "\<forall>n. length (dev n) \<le> n"
  defines "d \<equiv> dev (min sz 63)"
  shows "(\<exists>b' s'. openmv_turn (Inr (sz, dev)) (b, s) = Some (b', s') \<and> length b' = 64 \<and>
      screen_sent s' = screen_sent s @ selected d \<and>
      user_num_flag s' = fold choose_user (selected d) (user_num_flag s) \<and>
      face_flag s' = (if sublist ''get'' d then 1 else face_flag s) \<and>
      light s' = (sublist ''get'' d \<or> sublist ''>>>'' d \<or> light s) \<and>
      gui_inits s' = gui_inits s + length (places ''get'' d) + length (places ''>>>'' d)) \<and>
    openmv_turn (Inl ()) (b, s) = Some (b, s\<lparr>light := False\<rparr>)"
proof -
  have l: "length d \<le> 63" using assms(2) by (auto simp: d_def intro: order_trans)
  have n: "(if length b - 1 > sz then sz else length b - 1) = min sz 63" using assms(1) by auto
  define b1 where "b1 = (d @ drop (length d) b)[length d := CHR 0x00]"
  have b1: "length d < length b1" "b1 ! length d = CHR 0x00" "take (length d) b1 = d" "length b1 = 64"
    using l assms(1) by (simp_all add: b1_def)
  have "openmv_turn (Inr (sz, dev)) (b, s) = Some (b1, openmv_effect d [0..<length d] s)"
    unfolding openmv_turn_def prod.case sum.case Let_def n d_def [symmetric]
    using openmv_loop_effect [OF b1(1-3), of 0] l assms(1) by (simp add: copy_field_0 b1_def)
  moreover have "(filter (\<lambda>i. prefix ''get'' (drop i d)) [0..<length d] = []) \<longleftrightarrow> \<not> sublist ''get'' d"
    "(filter (\<lambda>i. prefix ''>>>'' (drop i d)) [0..<length d] = []) \<longleftrightarrow> \<not> sublist ''>>>'' d"
    using places_sublist [of "''get''" d] places_sublist [of "''>>>''" d] unfolding places_def by blast+
  moreover have "openmv_turn (Inl ()) (b, s) = Some (b, s\<lparr>light := False\<rparr>)" by (simp add: openmv_turn_def pwminit_user_def)
  ultimately show ?thesis using b1(4)
    by (auto simp: openmv_effect_def Let_def selected_def places_def)
qed

definition demo_openmv :: openmv_app where
  "demo_openmv = \<lparr>face_flag = 0, user_num_flag = 0, screen_sent = [], gui_inits = 0, delays = 0, light = False\<rparr>"

text \<open>
  C2. Whatever the camera sends, a turn of the thread stays inside its 64-character buffer and
  does what the words in the block ask for, in their order: the screen thread gets the character
  after each \<open>>>>\<close>, the user flag is that of the last digit 1 to 3, a \<open>get\<close> raises the face flag, and
  either word turns the light on; the light goes off only when no block came for 15 seconds. The
  hypothesis is the contract of \<open>rt_device_read\<close>: it returns at most as much as it was asked for.
\<close>

theorem openmv_turn_correct:
  fixes sz :: nat
  assumes "length b = 64" "\<forall>n. length (dev n) \<le> n"
  defines "d \<equiv> dev (min sz 63)"
  shows "(\<exists>b' s'. openmv_turn (Inr (sz, dev)) (b, s) = Some (b', s') \<and> length b' = 64 \<and>
      screen_sent s' = screen_sent s @ selected d \<and>
      user_num_flag s' = fold choose_user (selected d) (user_num_flag s) \<and>
      face_flag s' = (if sublist ''get'' d then 1 else face_flag s) \<and>
      light s' = (sublist ''get'' d \<or> sublist ''>>>'' d \<or> light s) \<and>
      gui_inits s' = gui_inits s + length (places ''get'' d) + length (places ''>>>'' d)) \<and>
    openmv_turn (Inl ()) (b, s) = Some (b, s\<lparr>light := False\<rparr>)"
  unfolding d_def by (rule openmv_turn_effect [OF assms(1,2)])

theorem openmv_turn_correct_witness:
  "\<exists>b' s'. openmv_turn (Inr (12, \<lambda>n. take n ''xget>>>2>>>3'')) (replicate 64 CHR 0x00, demo_openmv) = Some (b', s') \<and>
     screen_sent s' = ''23'' \<and> user_num_flag s' = 2"
proof -
  have "selected ''xget>>>2>>>3'' = ''23''" by code_simp
  moreover have "fold choose_user ''23'' 0 = 2" by (simp add: choose_user_def)
  ultimately show ?thesis
    using openmv_turn_correct [of "replicate 64 CHR 0x00" "\<lambda>n. take n ''xget>>>2>>>3''" 12 demo_openmv]
    by (auto simp: demo_openmv_def)
qed

end
