(* ===== verification/Rt_Serial.thy ===== *)
theory Rt_Serial
  imports App_Openmv Fifo
begin

section \<open>The receive side of serial devices (\<^verbatim>\<open>rt-thread/components/drivers/serial/serial.c\<close>)\<close>

text \<open>
  Between the interrupt of a serial port and the thread that reads the device stands a ring of
  characters: \<open>rt_hw_serial_isr\<close> stores what the port delivers, giving up the oldest character when
  the ring is full, and tells the user how much there is; \<open>rt_serial_read\<close> takes characters
  out. Both run with interrupts off around each character. The lemmas show a window on the
  stream of characters, and what it means for the camera thread.
\<close>

subsection \<open>Data and operations\<close>

record rt_serial =
  fifo :: string
  put_index :: nat
  get_index :: nat
  is_full :: bool
  bufsz :: nat
  indicated :: "nat list"

text \<open>The 16-bit indices go up by one and start again at the size of the buffer.\<close>

definition next_index :: "rt_serial \<Rightarrow> nat \<Rightarrow> nat" where
  "next_index s i = (let i = (i + 1) mod 65536 in if i \<ge> bufsz s then 0 else i)"

text \<open>One character in the interrupt.\<close>

definition serial_rx_char :: "char \<Rightarrow> rt_serial \<Rightarrow> rt_serial" where
  "serial_rx_char ch s =
     (let s = s\<lparr>fifo := (fifo s)[put_index s := ch]\<rparr>;
          s = s\<lparr>put_index := next_index s (put_index s)\<rparr>
      in if put_index s = get_index s
         then s\<lparr>is_full := True, get_index := next_index s (get_index s)\<rparr>
         else s)"

definition serial_rx_length :: "rt_serial \<Rightarrow> nat" where
  "serial_rx_length s =
     (if put_index s \<ge> get_index s then put_index s - get_index s else bufsz s - (get_index s - put_index s))"

text \<open>\<open>chs\<close> is what \<open>getc\<close> delivers before it returns -1; the callback is logged in \<open>indicated\<close>.\<close>

definition rt_hw_serial_isr_rx :: "string \<Rightarrow> rt_serial \<Rightarrow> rt_serial" where
  "rt_hw_serial_isr_rx chs s =
     (let s = fold serial_rx_char chs s;
          rx_length = serial_rx_length s
      in if rx_length \<noteq> 0 then s\<lparr>indicated := indicated s @ [rx_length]\<rparr> else s)"

fun serial_int_rx :: "nat \<Rightarrow> rt_serial \<Rightarrow> string \<times> rt_serial" where
  "serial_int_rx 0 s = ([], s)"
| "serial_int_rx (Suc n) s =
     (if get_index s = put_index s \<and> \<not> is_full s then ([], s)
      else let ch = fifo s ! get_index s;
               s = s\<lparr>get_index := next_index s (get_index s), is_full := False\<rparr>
           in case serial_int_rx n s of (cs, s) \<Rightarrow> (ch # cs, s))"

definition rt_serial_read :: "nat \<Rightarrow> rt_serial \<Rightarrow> string \<times> rt_serial" where
  "rt_serial_read n s = (if n = 0 then ([], s) else serial_int_rx n s)"

subsection \<open>The characters held\<close>

definition serial_rep :: "rt_serial \<Rightarrow> nat \<Rightarrow> bool" where
  "serial_rep s c \<longleftrightarrow> 2 \<le> bufsz s \<and> bufsz s < 65536 \<and> length (fifo s) = bufsz s \<and> get_index s < bufsz s \<and> c < bufsz s \<and>
     put_index s = (get_index s + c) mod bufsz s \<and> (is_full s \<longrightarrow> c + 1 = bufsz s)"

definition serial_inv :: "rt_serial \<Rightarrow> bool" where
  "serial_inv s \<longleftrightarrow> serial_rep s (serial_rx_length s)"

definition held :: "rt_serial \<Rightarrow> string" where
  "held s = map (\<lambda>j. fifo s ! ((get_index s + j) mod bufsz s)) [0..<serial_rx_length s]"

lemma next_index_eq: "x < bufsz s \<Longrightarrow> bufsz s < 65536 \<Longrightarrow> next_index s x = (x + 1) mod bufsz s"
  by (cases "x + 1 = bufsz s") (auto simp: next_index_def)

lemma next_index_upd [simp]:
  "next_index (s\<lparr>fifo := f\<rparr>) = next_index s" "next_index (s\<lparr>put_index := p\<rparr>) = next_index s"
  by (simp_all add: next_index_def fun_eq_iff)

lemma serial_rep_length:
  assumes "serial_rep s c"
  shows "serial_rx_length s = c"
proof (cases "get_index s + c < bufsz s")
  case False
  then have "(get_index s + c) mod bufsz s = get_index s + c - bufsz s" using assms by (subst le_mod_geq) (auto simp: serial_rep_def)
  then show ?thesis using assms False by (auto simp: serial_rep_def serial_rx_length_def)
qed (use assms in \<open>simp add: serial_rep_def serial_rx_length_def\<close>)

lemma serial_repI: "serial_rep s c \<Longrightarrow> serial_inv s"
  by (simp add: serial_inv_def serial_rep_length)

lemma held_rep: "serial_rep s c \<Longrightarrow> held s = map (\<lambda>j. fifo s ! ((get_index s + j) mod bufsz s)) [0..<c]"
  by (simp add: held_def serial_rep_length)

lemma serial_invD: "serial_inv s \<Longrightarrow> serial_rep s (length (held s))"
  by (simp add: serial_inv_def held_def)

lemma rx_char_spec:
  assumes "serial_inv s"
  shows "serial_inv (serial_rx_char ch s) \<and> bufsz (serial_rx_char ch s) = bufsz s \<and> indicated (serial_rx_char ch s) = indicated s \<and>
    held (serial_rx_char ch s) = (if length (held s) + 1 = bufsz s then tl (held s) else held s) @ [ch]"
proof -
  define n c where "n = bufsz s" and "c = length (held s)"
  have r: "serial_rep s c" using serial_invD [OF assms] by (simp add: c_def)
  have w: "2 \<le> n" "n < 65536" "length (fifo s) = n" "get_index s < n" "c < n" "put_index s = (get_index s + c) mod n" "is_full s \<longrightarrow> c + 1 = n"
    using r by (auto simp: serial_rep_def n_def)
  have p: "put_index s < n" using w by simp
  define s1 where "s1 = s\<lparr>fifo := (fifo s)[put_index s := ch], put_index := (put_index s + 1) mod n\<rparr>"
  have at: "fifo s1 ! ((get_index s + j) mod n) = (if j = c then ch else fifo s ! ((get_index s + j) mod n))" if "j < n" for j
  proof -
    have "(get_index s + j) mod n = put_index s \<longleftrightarrow> j = c" using mod_add_inj [OF that w(5)] w(6) by auto
    then show ?thesis using p w(3) by (auto simp: s1_def nth_list_update)
  qed
  have pi: "(put_index s + 1) mod n = (get_index s + (c + 1)) mod n" unfolding w(6) by (simp add: mod_Suc_eq)
  have eq: "(put_index s + 1) mod n = get_index s \<longleftrightarrow> c + 1 = n"
  proof -
    have "(get_index s + (c + 1)) mod n = (get_index s + 0) mod n \<longleftrightarrow> c + 1 = n"
      using mod_add_inj [of "(c + 1) mod n" n 0 "get_index s"] w by (cases "c + 1 = n") (auto simp: mod_add_right_eq)
    then show ?thesis using pi w(4) by simp
  qed
  have hs: "held s = map (\<lambda>j. fifo s ! ((get_index s + j) mod n)) [0..<c]" using held_rep [OF r] by (simp add: n_def)
  show ?thesis
  proof (cases "c + 1 = n")
    case False
    have e: "serial_rx_char ch s = s1" using eq False next_index_eq [OF p [unfolded n_def]] w(2) by (simp add: serial_rx_char_def Let_def s1_def n_def)
    have "serial_rep s1 (c + 1)" using w False pi by (simp add: serial_rep_def s1_def n_def)
    moreover have "held s1 = held s @ [ch]"
      unfolding held_rep [OF \<open>serial_rep s1 (c + 1)\<close>] hs using at w(5) by (simp add: s1_def n_def)
    ultimately show ?thesis using False by (simp add: e c_def n_def s1_def serial_repI)
  next
    case True
    define s2 where "s2 = s1\<lparr>is_full := True, get_index := (get_index s + 1) mod n\<rparr>"
    have e: "serial_rx_char ch s = s2"
      using eq True next_index_eq [OF p [unfolded n_def]] next_index_eq [of "get_index s" s] w(2,4)
      by (simp add: serial_rx_char_def Let_def s1_def s2_def n_def)
    have "(put_index s + 1) mod n = ((get_index s + 1) mod n + c) mod n" using pi mod_add_left_eq [of "get_index s + 1" n c] by (simp add: add_ac)
    then have rep: "serial_rep s2 c" using w True by (simp add: serial_rep_def s2_def s1_def n_def)
    have sh: "(Suc (get_index s) mod n + j) mod n = Suc (get_index s + j) mod n" for j by (simp add: mod_add_left_eq)
    have "c = Suc (c - 1)" using True w(1) by simp
    then have up: "[0..<c] = [0..<c - 1] @ [c - 1]" by (metis upt_Suc_append zero_le)
    have "held s2 = map (\<lambda>j. fifo s1 ! ((get_index s + Suc j) mod n)) [0..<c]"
      unfolding held_rep [OF rep] by (simp add: s2_def s1_def n_def [symmetric] sh)
    also have "\<dots> = map (\<lambda>j. fifo s ! ((get_index s + Suc j) mod n)) [0..<c - 1] @ [ch]"
    proof -
      have "fifo s1 ! ((get_index s + Suc j) mod n) = fifo s ! ((get_index s + Suc j) mod n)" if "j < c - 1" for j
      proof -
        have "Suc j < n" "Suc j \<noteq> c" using that w(5) by auto
        then show ?thesis using at [of "Suc j"] by simp
      qed
      moreover have "fifo s1 ! ((get_index s + Suc (c - 1)) mod n) = ch" using at [of c] w(5) \<open>c = Suc (c - 1)\<close> by simp
      ultimately show ?thesis unfolding up by simp
    qed
    also have "\<dots> = tl (held s) @ [ch]"
      unfolding hs using upt_0_Cons [of c] True w(1) by simp
    finally have h: "held s2 = tl (held s) @ [ch]" .
    have f: "bufsz s2 = bufsz s" "indicated s2 = indicated s" by (simp_all add: s2_def s1_def)
    show ?thesis unfolding e f using h True serial_repI [OF rep] by (simp add: c_def n_def)
  qed
qed

text \<open>What a buffer of \<open>n\<close> places keeps of a stream: the newest \<open>n - 1\<close> characters.\<close>

definition window :: "nat \<Rightarrow> string \<Rightarrow> string" where
  "window n b = drop (length b - (n - 1)) b"

lemma window_snoc:
  assumes "2 \<le> n"
  shows "(if length (window n b) + 1 = n then tl (window n b) else window n b) @ [ch] = window n (b @ [ch])"
proof (cases "length b + 1 < n")
  case False
  then have "length (window n b) + 1 = n" using assms by (simp add: window_def)
  then show ?thesis using False assms by (auto simp: window_def tl_drop Suc_diff_le drop_Suc [symmetric])
qed (simp add: window_def)

lemma window_id: "length b < n \<Longrightarrow> window n b = b"
  by (simp add: window_def)

lemma window_append: "window n (window n a @ b) = window n (a @ b)"
  by (cases "length a \<le> n - 1") (simp_all add: window_def add.commute)

lemma length_held: "length (held s) = serial_rx_length s"
  by (simp add: held_def)

lemma fold_rx_spec:
  "serial_inv s \<Longrightarrow> serial_inv (fold serial_rx_char cs s) \<and> bufsz (fold serial_rx_char cs s) = bufsz s \<and>
     indicated (fold serial_rx_char cs s) = indicated s \<and> held (fold serial_rx_char cs s) = window (bufsz s) (held s @ cs)"
proof (induction cs arbitrary: s)
  case Nil
  then have "length (held s) < bufsz s" using serial_invD by (auto simp: serial_rep_def)
  then show ?case using Nil by (simp add: window_id)
next
  case (Cons c cs)
  have n: "2 \<le> bufsz s" "length (held s) < bufsz s" using serial_invD [OF Cons.prems] by (auto simp: serial_rep_def)
  note r = rx_char_spec [OF Cons.prems, of c]
  have "held (serial_rx_char c s) = window (bufsz s) (held s @ [c])"
    using r window_snoc [OF n(1), of "held s" c] unfolding window_id [OF n(2)] by simp
  then show ?case using Cons.IH [of "serial_rx_char c s"] r window_append [of "bufsz s" "held s @ [c]" cs] by simp
qed

lemma isr_spec:
  assumes "serial_inv s"
  shows "serial_inv (rt_hw_serial_isr_rx cs s) \<and> bufsz (rt_hw_serial_isr_rx cs s) = bufsz s \<and>
    held (rt_hw_serial_isr_rx cs s) = window (bufsz s) (held s @ cs) \<and>
    indicated (rt_hw_serial_isr_rx cs s) = indicated s @
      (if held s @ cs = [] then [] else [length (window (bufsz s) (held s @ cs))])"
proof -
  define s1 where "s1 = fold serial_rx_char cs s"
  have s1: "serial_inv s1" "bufsz s1 = bufsz s" "indicated s1 = indicated s" "held s1 = window (bufsz s) (held s @ cs)"
    using fold_rx_spec [OF assms, of cs] by (simp_all add: s1_def)
  have n: "2 \<le> bufsz s" using serial_invD [OF assms] by (simp add: serial_rep_def)
  have l: "serial_rx_length s1 = length (window (bufsz s) (held s @ cs))" using s1(4) length_held [of s1] by simp
  have "length (window (bufsz s) (held s @ cs)) = 0 \<longleftrightarrow> held s @ cs = []" using n by (cases "held s @ cs") (auto simp: window_def simp del: append_is_Nil_conv)
  moreover have "serial_inv (s1\<lparr>indicated := i\<rparr>) = serial_inv s1" "held (s1\<lparr>indicated := i\<rparr>) = held s1" for i
    by (simp_all add: serial_inv_def serial_rep_def serial_rx_length_def held_def)
  ultimately show ?thesis using s1 l by (auto simp: rt_hw_serial_isr_rx_def Let_def s1_def [symmetric])
qed

lemma int_rx_spec:
  "serial_inv s \<Longrightarrow> case serial_int_rx n s of (cs, s') \<Rightarrow>
     cs = take n (held s) \<and> serial_inv s' \<and> held s' = drop n (held s) \<and> bufsz s' = bufsz s \<and> indicated s' = indicated s"
proof (induction n arbitrary: s)
  case (Suc n)
  define c where "c = length (held s)"
  have r: "serial_rep s c" using serial_invD [OF Suc.prems] by (simp add: c_def)
  have w: "2 \<le> bufsz s" "bufsz s < 65536" "get_index s < bufsz s" "c < bufsz s" "put_index s = (get_index s + c) mod bufsz s"
    "is_full s \<longrightarrow> c + 1 = bufsz s" using r by (auto simp: serial_rep_def)
  have em: "get_index s = put_index s \<longleftrightarrow> c = 0" using mod_add_inj [of 0 "bufsz s" c "get_index s"] w by auto
  show ?case
  proof (cases "c = 0")
    case True
    then show ?thesis using em Suc.prems w by (simp add: c_def)
  next
    case False
    define s1 where "s1 = s\<lparr>get_index := (get_index s + 1) mod bufsz s, is_full := False\<rparr>"
    have "((get_index s + 1) mod bufsz s + (c - 1)) mod bufsz s = (get_index s + c) mod bufsz s"
      using mod_add_left_eq [of "get_index s + 1" "bufsz s" "c - 1"] False by simp
    then have rep: "serial_rep s1 (c - 1)" using r w False by (simp add: serial_rep_def s1_def)
    have sh: "(Suc (get_index s) mod bufsz s + j) mod bufsz s = Suc (get_index s + j) mod bufsz s" for j by (simp add: mod_add_left_eq)
    have h: "held s = fifo s ! get_index s # held s1"
      unfolding held_rep [OF r] held_rep [OF rep] using upt_0_Cons [of c] False w(3) by (simp add: s1_def sh o_def)
    have "serial_int_rx (Suc n) s = (case serial_int_rx n s1 of (cs, s') \<Rightarrow> (fifo s ! get_index s # cs, s'))"
      using em False next_index_eq [OF w(3,2)] by (simp add: Let_def s1_def)
    then show ?thesis using Suc.IH [OF serial_repI [OF rep]] h by (auto simp: s1_def split: prod.splits)
  qed
qed simp

subsection \<open>The stream\<close>

datatype serial_op = Irq string | Read nat

text \<open>A run of interrupts and reads: the characters received, those delivered to readers, and the device after it.\<close>

fun serial_run :: "serial_op list \<Rightarrow> rt_serial \<Rightarrow> string \<times> string \<times> rt_serial" where
  "serial_run [] s = ([], [], s)"
| "serial_run (Irq cs # ops) s = (case serial_run ops (rt_hw_serial_isr_rx cs s) of (r, d, s') \<Rightarrow> (cs @ r, d, s'))"
| "serial_run (Read n # ops) s =
     (case rt_serial_read n s of (cs, s1) \<Rightarrow> case serial_run ops s1 of (r, d, s') \<Rightarrow> (r, cs @ d, s'))"

lemma read_spec:
  assumes "serial_inv s" "rt_serial_read n s = (cs, s')"
  shows "cs = take n (held s)" "serial_inv s'" "held s' = drop n (held s)" "bufsz s' = bufsz s" "indicated s' = indicated s"
  using int_rx_spec [OF assms(1), of n] assms by (auto simp: rt_serial_read_def split: if_splits)

lemma held_bound: "serial_inv s \<Longrightarrow> length (held s) < bufsz s"
  using serial_invD by (auto simp: serial_rep_def)

text \<open>With at most \<open>bufsz - 1\<close> characters on the way nothing is lost; in any case what is held is recent.\<close>

lemma serial_run_order:
  "serial_inv s \<Longrightarrow> serial_run ops s = (r, d, s') \<Longrightarrow> serial_inv s' \<and> bufsz s' = bufsz s \<and>
     (length (held s @ r) < bufsz s \<longrightarrow> held s @ r = d @ held s') \<and> suffix (held s') (held s @ r)"
proof (induction ops arbitrary: s r d)
  case (Cons op ops)
  show ?case
  proof (cases op)
    case (Irq cs)
    note i = isr_spec [OF Cons.prems(1), of cs]
    obtain r1 where r1: "serial_run ops (rt_hw_serial_isr_rx cs s) = (r1, d, s')" "r = cs @ r1"
      using Cons.prems(2) Irq by (auto split: prod.splits)
    note IH = Cons.IH [OF _ r1(1)]
    have w: "suffix (window (bufsz s) (held s @ cs) @ r1) (held s @ r)"
      using suffix_drop [of _ "held s @ cs"] unfolding r1(2) append_assoc [symmetric] same_suffix_suffix window_def .
    then have "suffix (held s') (held s @ r)" using IH i suffix_order.trans by fastforce
    moreover have "length (held s @ r) < bufsz s \<Longrightarrow> window (bufsz s) (held s @ cs) = held s @ cs" by (rule window_id) (simp add: r1(2))
    ultimately show ?thesis using IH i r1(2) by auto
  next
    case (Read n)
    obtain cs s1 where c: "rt_serial_read n s = (cs, s1)" by (cases "rt_serial_read n s")
    note rs = read_spec [OF Cons.prems(1) c]
    obtain d1 where d1: "serial_run ops s1 = (r, d1, s')" "d = cs @ d1" using Cons.prems(2) Read c by (auto split: prod.splits)
    note IH = Cons.IH [OF rs(2) d1(1)]
    have h: "cs @ held s1 = held s" using rs by simp
    then have "suffix (held s1 @ r) (held s @ r)" by (metis same_suffix_suffix suffixI)
    then have "suffix (held s') (held s @ r)" using IH suffix_order.trans by blast
    moreover have "held s @ r = d @ held s'" if "length (held s @ r) < bufsz s"
    proof -
      have "length (held s1 @ r) < bufsz s1" using that rs(4) by (simp flip: h)
      then show ?thesis using IH d1(2) by (simp flip: h)
    qed
    ultimately show ?thesis using IH rs(4) by simp
  qed
qed simp

definition serial0 :: rt_serial where
  "serial0 = \<lparr>fifo = replicate 8 CHR 0x00, put_index = 0, get_index = 0, is_full = False, bufsz = 8, indicated = []\<rparr>"

lemma serial0_ok: "serial_inv serial0" "held serial0 = []"
  by (simp_all add: serial_inv_def serial_rep_def serial_rx_length_def held_def serial0_def)



text \<open>
  C26. From the port to the screen. A block of at most 63 characters that one interrupt delivers to an
  idle line reaches the camera thread whole: the interrupt reports its length, the thread that
  is woken with this length reads exactly the block, and does what the words in it ask for.
\<close>

theorem camera_line:
  assumes "serial_inv s" "held s = []" "cs \<noteq> []" "length cs \<le> 63" "length cs < bufsz s" "length b = 64"
  defines "s1 \<equiv> rt_hw_serial_isr_rx cs s"
  shows "indicated s1 = indicated s @ [length cs] \<and>
    (\<exists>b' a'. openmv_turn (Inr (last (indicated s1), \<lambda>n. fst (rt_serial_read n s1))) (b, a) = Some (b', a') \<and>
       screen_sent a' = screen_sent a @ selected cs \<and> user_num_flag a' = fold choose_user (selected cs) (user_num_flag a) \<and>
       face_flag a' = (if sublist ''get'' cs then 1 else face_flag a) \<and>
       light a' = (sublist ''get'' cs \<or> sublist ''>>>'' cs \<or> light a))"
proof -
  note i = isr_spec [OF assms(1), of cs]
  have h: "held s1 = cs" "serial_inv s1" "indicated s1 = indicated s @ [length cs]"
    using i assms(2,3,5) by (simp_all add: s1_def window_id)
  have rd: "fst (rt_serial_read n s1) = take n cs" for n using read_spec(1) [OF h(2), of n] h(1) by (cases "rt_serial_read n s1") simp
  define sz where "sz = length cs"
  define dev where "dev = (\<lambda>n. fst (rt_serial_read n s1))"
  have "\<forall>n. length (dev n) \<le> n" "dev (min sz 63) = cs" using assms(4) by (simp_all add: dev_def rd sz_def)
  with openmv_turn_effect [OF assms(6), of dev sz a] show ?thesis unfolding h(3) dev_def [symmetric] by (auto simp: sz_def)
qed

theorem camera_line_witness:
  "\<exists>b' a'. openmv_turn (Inr (last (indicated (rt_hw_serial_isr_rx ''>>>2'' serial0)), \<lambda>n. fst (rt_serial_read n (rt_hw_serial_isr_rx ''>>>2'' serial0))))
     (replicate 64 CHR 0x00, demo_openmv) = Some (b', a') \<and> screen_sent a' = ''2'' \<and> user_num_flag a' = 1"
proof -
  have "selected ''>>>2'' = ''2''" by code_simp
  moreover have "length ''>>>2'' < bufsz serial0" by (simp add: serial0_def)
  ultimately show ?thesis
    using camera_line [OF serial0_ok, of "''>>>2''" "replicate 64 CHR 0x00" demo_openmv] by (auto simp: demo_openmv_def choose_user_def)
qed

end
