(* ===== verification/Ls1c_Uart.thy ===== *)
theory Ls1c_Uart
  imports Ls1c_Gpio Ls1c_Clock
begin

section \<open>Serial ports (\<^verbatim>\<open>libraries/ls1c_uart.c\<close>, \<^verbatim>\<open>drivers/drv_uart.c\<close>)\<close>

text \<open>
  The UARTs of the LS1C are of the 16550 type: eight byte-wide registers, the first two of which
  are the divisor latch while bit 7 of the line control register is set. The operations write the
  bus; what the writes mean is told by a model of the 16550 that reads the trace of the bus.
  What a status register shows is input: polling loops take the values they will read as an argument.
\<close>

subsection \<open>Registers\<close>

datatype ls1c_uart_t = LS1C_UART00 | LS1C_UART01 | LS1C_UART1 | LS1C_UART2 | LS1C_UART3 | LS1C_UART4 | LS1C_UART5
  | LS1C_UART6 | LS1C_UART7 | LS1C_UART8 | LS1C_UART9 | LS1C_UART10 | LS1C_UART11

fun uart_get_base :: "ls1c_uart_t \<Rightarrow> u32" where
  "uart_get_base LS1C_UART00 = 0xbfe40000"
| "uart_get_base LS1C_UART01 = 0xbfe41000"
| "uart_get_base LS1C_UART1 = 0xbfe44000"
| "uart_get_base LS1C_UART2 = 0xbfe48000"
| "uart_get_base LS1C_UART3 = 0xbfe4c000"
| "uart_get_base LS1C_UART4 = 0xbfe4c400"
| "uart_get_base LS1C_UART5 = 0xbfe4c500"
| "uart_get_base LS1C_UART6 = 0xbfe4c600"
| "uart_get_base LS1C_UART7 = 0xbfe4c700"
| "uart_get_base LS1C_UART8 = 0xbfe4c800"
| "uart_get_base LS1C_UART9 = 0xbfe4c900"
| "uart_get_base LS1C_UART10 = 0xbfe4ca00"
| "uart_get_base LS1C_UART11 = 0xbfe4cb00"

abbreviation LS1C_UART_DAT_OFFSET :: u32 where "LS1C_UART_DAT_OFFSET \<equiv> 0"
abbreviation LS1C_UART_IER_OFFSET :: u32 where "LS1C_UART_IER_OFFSET \<equiv> 1"
abbreviation LS1C_UART_FCR_OFFSET :: u32 where "LS1C_UART_FCR_OFFSET \<equiv> 2"
abbreviation LS1C_UART_LCR_OFFSET :: u32 where "LS1C_UART_LCR_OFFSET \<equiv> 3"
abbreviation LS1C_UART_LSR_OFFSET :: u32 where "LS1C_UART_LSR_OFFSET \<equiv> 5"
abbreviation LS1C_UART_LSB_OFFSET :: u32 where "LS1C_UART_LSB_OFFSET \<equiv> 0"
abbreviation LS1C_UART_MSB_OFFSET :: u32 where "LS1C_UART_MSB_OFFSET \<equiv> 1"

record ls1c_uart_info_t =
  UARTx :: ls1c_uart_t
  baudrate :: u32
  rx_enable :: bool

subsection \<open>Operations\<close>

text \<open>\<open>None\<close>: division by zero, in the clock tree or for a baud rate of 0.\<close>

definition baud_div :: "u32 \<Rightarrow> bus \<Rightarrow> u32 option" where
  "baud_div baud s = do { r \<leftarrow> clk_get_cpu_rate s; d \<leftarrow> cdiv (r div 16) baud; Some (d div 2) }"

definition uart_init :: "ls1c_uart_info_t \<Rightarrow> bus \<Rightarrow> bus option" where
  "uart_init info s =
     (let base = uart_get_base (UARTx info);
          s = reg_write_8 0 (base + LS1C_UART_IER_OFFSET) s;
          s = reg_write_8 0xc3 (base + LS1C_UART_FCR_OFFSET) s;
          s = reg_write_8 0x80 (base + LS1C_UART_LCR_OFFSET) s
      in do { d \<leftarrow> baud_div (baudrate info) s;
              let s = reg_write_8 (ucast (drop_bit 8 d AND 0xff)) (base + LS1C_UART_MSB_OFFSET) s;
                  s = reg_write_8 (ucast (d AND 0xff)) (base + LS1C_UART_LSB_OFFSET) s;
                  s = reg_write_8 0x03 (base + LS1C_UART_LCR_OFFSET) s
              in Some (if rx_enable info then reg_write_8 (0x1 OR 0x4) (base + LS1C_UART_IER_OFFSET) s else s) })"

text \<open>The status has the transmitter-empty or the FIFO-empty bit set.\<close>

definition uart_is_transmit_empty :: "u8 \<Rightarrow> bool" where
  "uart_is_transmit_empty status \<longleftrightarrow> status AND (push_bit 6 1 OR push_bit 5 1) \<noteq> 0"

text \<open>\<open>lsr\<close> lists the values the line status register will show; \<open>None\<close> when none of them ends the wait.\<close>

fun uart_putc :: "ls1c_uart_t \<Rightarrow> u8 \<Rightarrow> u8 list \<Rightarrow> bus \<Rightarrow> (u8 list \<times> bus) option" where
  "uart_putc uartx ch [] s = None"
| "uart_putc uartx ch (status # lsr) s =
     (if uart_is_transmit_empty status then Some (lsr, reg_write_8 ch (uart_get_base uartx + LS1C_UART_DAT_OFFSET) s)
      else uart_putc uartx ch lsr s)"

fun uart_print :: "ls1c_uart_t \<Rightarrow> u8 list \<Rightarrow> u8 list \<Rightarrow> bus \<Rightarrow> (u8 list \<times> bus) option" where
  "uart_print uartx [] lsr s = Some (lsr, s)"
| "uart_print uartx (c # str) lsr s =
     (if c = 0 then Some (lsr, s) else do { (lsr, s) \<leftarrow> uart_putc uartx c lsr s; uart_print uartx str lsr s })"

definition uart2_init :: "bus \<Rightarrow> bus option" where
  "uart2_init s =
     (let s = pin_set_remap 37 PIN_REMAP_SECOND s;
          s = pin_set_remap 36 PIN_REMAP_SECOND s
      in uart_init \<lparr>UARTx = LS1C_UART2, baudrate = 115200, rx_enable = False\<rparr> s)"

text \<open>The serial driver: configuration, the character pair and the test of the interrupt cause.\<close>

definition ls1c_uart_configure :: "ls1c_uart_t \<Rightarrow> u32 \<Rightarrow> bus \<Rightarrow> bus option" where
  "ls1c_uart_configure uartx baud s = uart_init \<lparr>UARTx = uartx, baudrate = baud, rx_enable = True\<rparr> s"

definition ls1c_uart_getc :: "u8 \<Rightarrow> u8 \<Rightarrow> int" where
  "ls1c_uart_getc lsr dat = (if 0x01 AND lsr \<noteq> 0 then uint dat else - 1)"

definition uart_irq_rx :: "u8 \<Rightarrow> bool" where
  "uart_irq_rx iir \<longleftrightarrow> 0xc AND iir \<noteq> 0 \<or> 0x4 AND iir \<noteq> 0"

subsection \<open>The 16550\<close>

record uart16550 =
  ier :: u8
  fcr :: u8
  lcr :: u8
  dlm :: u8
  dll :: u8
  sent :: "u8 list"

definition uart_dev_write :: "u32 \<Rightarrow> u8 \<Rightarrow> uart16550 \<Rightarrow> uart16550" where
  "uart_dev_write off v d =
     (if off = 0 then (if bit (lcr d) 7 then d\<lparr>dll := v\<rparr> else d\<lparr>sent := sent d @ [v]\<rparr>)
      else if off = 1 then (if bit (lcr d) 7 then d\<lparr>dlm := v\<rparr> else d\<lparr>ier := v\<rparr>)
      else if off = 2 then d\<lparr>fcr := v\<rparr>
      else if off = 3 then d\<lparr>lcr := v\<rparr>
      else d)"

fun uart_dev_access :: "u32 \<Rightarrow> access \<Rightarrow> uart16550 \<Rightarrow> uart16550" where
  "uart_dev_access base (W8 a v) d = (if a - base < 8 then uart_dev_write (a - base) v d else d)"
| "uart_dev_access base (W32 a v) d = d"

text \<open>What the device at \<open>base\<close> has become when the bus went from \<open>s\<close> to \<open>s'\<close>.\<close>

definition uart_dev :: "u32 \<Rightarrow> bus \<Rightarrow> bus \<Rightarrow> uart16550 \<Rightarrow> uart16550" where
  "uart_dev base s s' d = fold (uart_dev_access base) (drop (length (bus_trace s)) (bus_trace s')) d"

definition divisor :: "uart16550 \<Rightarrow> nat" where
  "divisor d = 256 * unat (dlm d) + unat (dll d)"

lemma uart_base_nonzero:
  "uart_get_base u \<noteq> 0" "uart_get_base u + 1 \<noteq> 0" "uart_get_base u + 2 \<noteq> 0" "uart_get_base u + 3 \<noteq> 0"
  by (cases u; simp)+

lemma low_byte: "unat (ucast (d AND 0xff) :: u8) = unat (d :: u32) mod 256"
proof -
  have "(0xff :: u32) = mask 8" by (simp add: mask_eq_exp_minus_1)
  then show ?thesis using unat_and_mask [of d 8] by (simp add: unsigned_ucast_eq take_bit_eq_mod)
qed

lemma high_byte: "unat (ucast (drop_bit 8 d AND 0xff) :: u8) = unat (d :: u32) div 256 mod 256"
  using low_byte [of "drop_bit 8 d"] unat_drop_bit [of 8 d] by simp

lemma cpu_rate_wr8 [simp]: "clk_get_cpu_rate (wr8 a v s) = clk_get_cpu_rate s"
  by (simp add: clk_get_cpu_rate_def clk_get_pll_rate_def reg_read_32_def bus_simps)

lemma uart_dev_refl [simp]: "uart_dev base s s d = d"
  by (simp add: uart_dev_def)

lemma uart_dev_wr8:
  assumes "uart_get_base u + off \<noteq> 0" "off < 8" "\<exists>t. bus_trace s' = bus_trace s @ t"
  shows "uart_dev (uart_get_base u) s (wr8 (uart_get_base u + off) v s') d = uart_dev_write off v (uart_dev (uart_get_base u) s s' d)"
  using assms by (auto simp: uart_dev_def bus_simps)

lemma trace_wr8: "\<exists>t. bus_trace s' = bus_trace s @ t \<Longrightarrow> \<exists>t. bus_trace (wr8 a v s') = bus_trace s @ t"
  by (auto simp: bus_simps)

lemma uart_init_dev:
  assumes "baud_div (baudrate info) s = Some dv" "\<not> bit (lcr d) 7"
  shows "\<exists>s'. uart_init info s = Some s' \<and> uart_dev (uart_get_base (UARTx info)) s s' d =
    d\<lparr>ier := (if rx_enable info then 5 else 0), fcr := 0xc3, lcr := 3, dlm := ucast (drop_bit 8 dv AND 0xff), dll := ucast (dv AND 0xff)\<rparr>"
proof -
  define u where "u = UARTx info"
  define b where "b = uart_get_base u"
  have nz: "b + 0 \<noteq> 0" "b + 1 \<noteq> 0" "b + 2 \<noteq> 0" "b + 3 \<noteq> 0" using uart_base_nonzero [of u] by (simp_all add: b_def)
  have "baud_div (baudrate info) (wr8 (b + 3) 0x80 (wr8 (b + 2) 0xc3 (wr8 (b + 1) 0 s))) = Some dv"
    using assms(1) by (simp add: baud_div_def)
  moreover define s1 where "s1 = wr8 (b + 3) 3 (wr8 (b + 0) (ucast (dv AND 0xff)) (wr8 (b + 1) (ucast (drop_bit 8 dv AND 0xff))
      (wr8 (b + 3) 0x80 (wr8 (b + 2) 0xc3 (wr8 (b + 1) 0 s)))))"
  ultimately have e: "uart_init info s = Some (if rx_enable info then wr8 (b + 1) 5 s1 else s1)"
    by (simp add: uart_init_def Let_def reg_write_8_def b_def u_def)
  have t: "\<exists>t. bus_trace s1 = bus_trace s @ t" unfolding s1_def by (intro trace_wr8) simp
  have "uart_dev b s s1 d = d\<lparr>ier := 0, fcr := 0xc3, lcr := 3, dlm := ucast (drop_bit 8 dv AND 0xff), dll := ucast (dv AND 0xff)\<rparr>"
    unfolding s1_def b_def using nz assms(2)
    by (subst uart_dev_wr8, simp add: b_def, simp, (intro trace_wr8)?, simp)+ (simp add: uart_dev_write_def)
  moreover have "uart_dev b s (wr8 (b + 1) 5 s1) d = uart_dev_write 1 5 (uart_dev b s s1 d)"
    unfolding b_def by (rule uart_dev_wr8) (use nz t in \<open>simp_all add: b_def\<close>)
  ultimately show ?thesis by (simp add: e uart_dev_write_def b_def u_def)
qed

lemma uart_putc_sends:
  assumes "\<exists>x \<in> set lsr. uart_is_transmit_empty x"
  shows "uart_putc u ch lsr s = Some (tl (dropWhile (\<lambda>x. \<not> uart_is_transmit_empty x) lsr), wr8 (uart_get_base u) ch s)"
  using assms by (induction lsr) (auto simp: reg_write_8_def)

lemma uart_print_sends:
  assumes "\<forall>c \<in> set str. c \<noteq> 0" "length str \<le> length (filter uart_is_transmit_empty lsr)" "\<exists>t. bus_trace s' = bus_trace s @ t"
    "\<not> bit (lcr (uart_dev (uart_get_base u) s s' d)) 7"
  shows "\<exists>lsr' s''. uart_print u (str @ 0 # rest) lsr s' = Some (lsr', s'') \<and>
    uart_dev (uart_get_base u) s s'' d = (uart_dev (uart_get_base u) s s' d)\<lparr>sent := sent (uart_dev (uart_get_base u) s s' d) @ str\<rparr>"
  using assms
proof (induction str arbitrary: lsr s')
  case (Cons c str)
  let ?b = "uart_get_base u" and ?r = "uart_is_transmit_empty"
  let ?D = "uart_dev ?b s s' d" and ?w = "dropWhile (\<lambda>x. \<not> ?r x) lsr"
  have "filter ?r lsr \<noteq> []" using Cons.prems(2) by auto
  then have ex: "\<exists>x \<in> set lsr. ?r x" by (simp add: filter_empty_conv)
  have "filter ?r lsr = filter ?r ?w" by (induction lsr) auto
  moreover have "?w \<noteq> []" "?r (hd ?w)" using ex hd_dropWhile [of "\<lambda>x. \<not> ?r x" lsr] by auto
  ultimately have "length (filter ?r lsr) = Suc (length (filter ?r (tl ?w)))" by (cases ?w) auto
  then have l: "length str \<le> length (filter ?r (tl ?w))" using Cons.prems(2) by simp
  have D: "uart_dev ?b s (wr8 ?b c s') d = ?D\<lparr>sent := sent ?D @ [c]\<rparr>"
    using uart_dev_wr8 [of u 0 s' s c d] uart_base_nonzero(1) [of u] Cons.prems(3,4) by (simp add: uart_dev_write_def)
  have "\<not> bit (lcr (uart_dev ?b s (wr8 ?b c s') d)) 7" using Cons.prems(4) by (simp add: D)
  from Cons.IH [OF _ l trace_wr8 [OF Cons.prems(3)] this] Cons.prems(1)
  obtain lsr' s'' where "uart_print u (str @ 0 # rest) (tl ?w) (wr8 ?b c s') = Some (lsr', s'')"
      "uart_dev ?b s s'' d = ?D\<lparr>sent := sent ?D @ [c] @ str\<rparr>" by (auto simp: D)
  then show ?case using uart_putc_sends [OF ex, of u c s'] Cons.prems(1) by simp
qed auto

definition uart_idle :: uart16550 where
  "uart_idle = \<lparr>ier = 0, fcr = 0, lcr = 0, dlm = 0, dll = 0, sent = []\<rparr>"

text \<open>
  C29. Setting up a serial port and printing on it, as the 16550 behind the registers sees it: the
  divisor latch is opened and closed again around the divisor, which is the CPU clock over 32
  times the baud rate, rounded down (its low 16 bits); the line is 8 data bits without parity, the
  interrupts are off but for reception when asked for; and a string, given that the transmitter
  becomes empty as often as it has characters, is sent up to its terminator, character by
  character and in order.
\<close>

theorem uart_line:
  assumes "clk_get_cpu_rate s = Some rate" "baudrate info \<noteq> 0" "\<not> bit (lcr d) 7"
    and "\<forall>c \<in> set str. c \<noteq> 0" "length str \<le> length (filter uart_is_transmit_empty lsr)"
  shows "\<exists>s1 lsr' s2. uart_init info s = Some s1 \<and> uart_print (UARTx info) (str @ 0 # rest) lsr s1 = Some (lsr', s2) \<and>
    (let d2 = uart_dev (uart_get_base (UARTx info)) s s2 d
     in divisor d2 = unat rate div 16 div unat (baudrate info) div 2 mod 65536 \<and> lcr d2 = 3 \<and>
        ier d2 = (if rx_enable info then 5 else 0) \<and> sent d2 = sent d @ str)"
proof -
  define dv where "dv = rate div 16 div baudrate info div 2"
  have "baud_div (baudrate info) s = Some dv" using assms(1,2) by (simp add: baud_div_def dv_def cdiv_def)
  from uart_init_dev [OF this assms(3)] obtain s1 where s1: "uart_init info s = Some s1" "uart_dev (uart_get_base (UARTx info)) s s1 d =
    d\<lparr>ier := (if rx_enable info then 5 else 0), fcr := 0xc3, lcr := 3, dlm := ucast (drop_bit 8 dv AND 0xff), dll := ucast (dv AND 0xff)\<rparr>"
    by blast
  have t: "\<exists>t. bus_trace s1 = bus_trace s @ t"
    using s1(1) by (auto simp: uart_init_def Let_def reg_write_8_def bus_simps split: if_splits bind_splits)
  have "\<not> bit (lcr (uart_dev (uart_get_base (UARTx info)) s s1 d)) 7" by (simp add: s1(2))
  from uart_print_sends [OF assms(4,5) t this, of rest]
  obtain lsr' s2 where s2: "uart_print (UARTx info) (str @ 0 # rest) lsr s1 = Some (lsr', s2)"
      "uart_dev (uart_get_base (UARTx info)) s s2 d = (uart_dev (uart_get_base (UARTx info)) s s1 d)\<lparr>sent := sent d @ str\<rparr>"
    by (auto simp: s1(2))
  have "unat dv = unat rate div 16 div unat (baudrate info) div 2" by (simp add: dv_def unat_div)
  moreover have "256 * (unat dv div 256 mod 256) + unat dv mod 256 = unat dv mod 65536"
    using mod_mult2_eq [of "unat dv" 256 256] by simp
  ultimately have "divisor (uart_dev (uart_get_base (UARTx info)) s s2 d) = unat rate div 16 div unat (baudrate info) div 2 mod 65536"
    by (simp add: s2(2) s1(2) divisor_def low_byte unat_drop_bit)
  then show ?thesis using s1(1) s2(1) by (auto simp: s2(2) s1(2) Let_def)
qed

theorem uart_line_witness:
  "\<exists>s1 lsr' s2. uart_init \<lparr>UARTx = LS1C_UART9, baudrate = 9600, rx_enable = True\<rparr> bus0 = Some s1 \<and>
     uart_print LS1C_UART9 ([72, 105] @ 0 # []) [0, 0x20, 0x40] s1 = Some (lsr', s2) \<and>
     divisor (uart_dev 0xbfe4c900 bus0 s2 uart_idle) = 78 \<and> sent (uart_dev 0xbfe4c900 bus0 s2 uart_idle) = [72, 105]"
proof -
  have c: "clk_get_cpu_rate bus0 = Some 24000000" by code_simp
  have l: "length [72, 105 :: u8] \<le> length (filter uart_is_transmit_empty [0, 0x20, 0x40])" by code_simp
  show ?thesis
    using uart_line [OF c, of "\<lparr>UARTx = LS1C_UART9, baudrate = 9600, rx_enable = True\<rparr>" uart_idle "[72, 105]" "[0, 0x20, 0x40]" "[]"] l
    by (auto simp: Let_def uart_idle_def simp del: uart_print.simps)
qed

end
