(* ===== verification/Rt_Kmem.thy ===== *)
theory Rt_Kmem
  imports Prelude "HOL-Library.Sublist"
begin

unbundle bit_operations_syntax

section \<open>Memory blocks and C strings (\<^verbatim>\<open>rt-thread/src/kservice.c\<close>)\<close>

text \<open>
  The kernel's own \<open>rt_memset\<close>, \<open>rt_memcpy\<close>, \<open>rt_memmove\<close>, \<open>rt_memcmp\<close> and string functions, over a
  byte-addressed little-endian memory. An object never extends past the end of the address space,
  so addresses are naturals. The block functions work a word or four words at a time when the
  addresses are aligned; the lemmas show that they are the plain byte-by-byte operations. A
  string function that runs until it meets a zero byte may not return, which is \<open>None\<close>; on memory
  that holds a terminated string it does.
\<close>

type_synonym bytes = "nat \<Rightarrow> u8"

subsection \<open>Words in memory\<close>

definition load32 :: "bytes \<Rightarrow> nat \<Rightarrow> u32" where
  "load32 m a = ucast (m a) OR push_bit 8 (ucast (m (a + 1))) OR push_bit 16 (ucast (m (a + 2))) OR
     push_bit 24 (ucast (m (a + 3)))"

definition store32 :: "nat \<Rightarrow> u32 \<Rightarrow> bytes \<Rightarrow> bytes" where
  "store32 a w m = m(a := ucast w, a + 1 := ucast (drop_bit 8 w), a + 2 := ucast (drop_bit 16 w),
     a + 3 := ucast (drop_bit 24 w))"

subsection \<open>Filling\<close>

text \<open>The state of a loop: the place reached and the memory.\<close>

definition fill_word :: "u32 \<Rightarrow> nat \<times> bytes \<Rightarrow> nat \<times> bytes" where
  "fill_word buffer = (\<lambda>(p, m). (p + 4, store32 p buffer m))"

fun fill_big :: "u32 \<Rightarrow> nat \<Rightarrow> nat \<times> bytes \<Rightarrow> nat \<times> nat \<times> bytes" where
  "fill_big buffer count st =
     (if count \<ge> 16
      then fill_big buffer (count - 16)
             (fill_word buffer (fill_word buffer (fill_word buffer (fill_word buffer st))))
      else (count, st))"

fun fill_little :: "u32 \<Rightarrow> nat \<Rightarrow> nat \<times> bytes \<Rightarrow> nat \<times> nat \<times> bytes" where
  "fill_little buffer count st =
     (if count \<ge> 4 then fill_little buffer (count - 4) (fill_word buffer st) else (count, st))"

fun fill_bytes :: "u8 \<Rightarrow> nat \<Rightarrow> nat \<times> bytes \<Rightarrow> bytes" where
  "fill_bytes d 0 (p, m) = m"
| "fill_bytes d (Suc count) (p, m) = fill_bytes d count (p + 1, m(p := d))"

definition rt_memset :: "nat \<Rightarrow> u32 \<Rightarrow> nat \<Rightarrow> bytes \<Rightarrow> bytes" where
  "rt_memset s c count m =
     (let d = c AND 0xff;
          (count, st) =
            (if \<not> count < 4 \<and> s mod 4 = 0
             then let buffer = push_bit 8 d OR d;
                      buffer = buffer OR push_bit 16 buffer;
                      (count, st) = fill_big buffer count (s, m)
                  in fill_little buffer count st
             else (count, (s, m)))
      in fill_bytes (ucast d) count st)"

subsection \<open>Copying and comparing\<close>

definition copy_word :: "nat \<times> nat \<times> bytes \<Rightarrow> nat \<times> nat \<times> bytes" where
  "copy_word = (\<lambda>(d, s, m). (d + 4, s + 4, store32 d (load32 m s) m))"

fun copy_big :: "nat \<Rightarrow> nat \<times> nat \<times> bytes \<Rightarrow> nat \<times> nat \<times> nat \<times> bytes" where
  "copy_big len st =
     (if len \<ge> 16 then copy_big (len - 16) (copy_word (copy_word (copy_word (copy_word st)))) else (len, st))"

fun copy_little :: "nat \<Rightarrow> nat \<times> nat \<times> bytes \<Rightarrow> nat \<times> nat \<times> nat \<times> bytes" where
  "copy_little len st = (if len \<ge> 4 then copy_little (len - 4) (copy_word st) else (len, st))"

fun copy_bytes :: "nat \<Rightarrow> nat \<times> nat \<times> bytes \<Rightarrow> bytes" where
  "copy_bytes 0 (d, s, m) = m"
| "copy_bytes (Suc len) (d, s, m) = copy_bytes len (d + 1, s + 1, m(d := m s))"

definition rt_memcpy :: "nat \<Rightarrow> nat \<Rightarrow> nat \<Rightarrow> bytes \<Rightarrow> bytes" where
  "rt_memcpy dst src count m =
     (let (len, st) =
            (if \<not> count < 16 \<and> src mod 4 = 0 \<and> dst mod 4 = 0
             then let (len, st) = copy_big count (dst, src, m) in copy_little len st
             else (count, (dst, src, m)))
      in copy_bytes len st)"

text \<open>The loop that runs downwards; the places are one past the next byte.\<close>

fun copy_down :: "nat \<Rightarrow> nat \<times> nat \<times> bytes \<Rightarrow> bytes" where
  "copy_down 0 (d, s, m) = m"
| "copy_down (Suc n) (d, s, m) = copy_down n (d - 1, s - 1, m(d - 1 := m (s - 1)))"

definition rt_memmove :: "nat \<Rightarrow> nat \<Rightarrow> nat \<Rightarrow> bytes \<Rightarrow> bytes" where
  "rt_memmove dest src n m =
     (if src < dest \<and> dest < src + n then copy_down n (dest + n, src + n, m)
      else copy_bytes n (dest, src, m))"

fun rt_memcmp :: "nat \<Rightarrow> nat \<Rightarrow> nat \<Rightarrow> bytes \<Rightarrow> int" where
  "rt_memcmp cs ct 0 m = 0"
| "rt_memcmp cs ct (Suc count) m =
     (let res = int (unat (m cs)) - int (unat (m ct))
      in if res \<noteq> 0 then res else rt_memcmp (cs + 1) (ct + 1) count m)"

subsection \<open>Strings\<close>

text \<open>\<^verbatim>\<open>char\<close> is signed on this target: a byte read as a character is \<open>sint\<close> of it.\<close>

partial_function (option) strlen_loop :: "bytes \<Rightarrow> nat \<Rightarrow> nat option" where
  "strlen_loop m sc = (if m sc \<noteq> 0 then strlen_loop m (sc + 1) else Some sc)"

definition rt_strlen :: "bytes \<Rightarrow> nat \<Rightarrow> nat option" where
  "rt_strlen m s = map_option (\<lambda>sc. sc - s) (strlen_loop m s)"

function strnlen_loop :: "bytes \<Rightarrow> nat \<Rightarrow> nat \<Rightarrow> nat \<Rightarrow> nat" where
  "strnlen_loop m s maxlen sc =
     (if m sc \<noteq> 0 \<and> sc - s < maxlen then strnlen_loop m s maxlen (sc + 1) else sc - s)"
  by pat_completeness auto
termination by (relation "measure (\<lambda>(m, s, maxlen, sc). s + maxlen - sc)") auto

definition rt_strnlen :: "bytes \<Rightarrow> nat \<Rightarrow> nat \<Rightarrow> nat" where
  "rt_strnlen m s maxlen = strnlen_loop m s maxlen s"

partial_function (option) rt_strcmp :: "bytes \<Rightarrow> nat \<Rightarrow> nat \<Rightarrow> int option" where
  "rt_strcmp m cs ct =
     (if m cs \<noteq> 0 \<and> m cs = m ct then rt_strcmp m (cs + 1) (ct + 1) else Some (sint (m cs) - sint (m ct)))"

fun rt_strncmp :: "bytes \<Rightarrow> nat \<Rightarrow> nat \<Rightarrow> nat \<Rightarrow> int" where
  "rt_strncmp m cs ct 0 = 0"
| "rt_strncmp m cs ct (Suc count) =
     (let res = m cs - m ct
      in if res \<noteq> 0 \<or> m cs = 0 then sint res else rt_strncmp m (cs + 1) (ct + 1) count)"

definition lower :: "u8 \<Rightarrow> int" where
  "lower c = (let ca = uint c in if ca \<ge> 65 \<and> ca \<le> 90 then ca + 32 else ca)"

partial_function (option) rt_strcasecmp :: "bytes \<Rightarrow> nat \<Rightarrow> nat \<Rightarrow> int option" where
  "rt_strcasecmp m a b =
     (if lower (m a) = lower (m b) \<and> lower (m a) \<noteq> 0 then rt_strcasecmp m (a + 1) (b + 1)
      else Some (lower (m a) - lower (m b)))"

fun rt_strncpy :: "nat \<Rightarrow> nat \<Rightarrow> nat \<Rightarrow> bytes \<Rightarrow> bytes" where
  "rt_strncpy d s 0 m = m"
| "rt_strncpy d s (Suc n) m =
     (let m' = m(d := m s)
      in if m s = 0 then fill_bytes 0 n (d + 1, m') else rt_strncpy (d + 1) (s + 1) n m')"

function strstr_loop :: "bytes \<Rightarrow> nat \<Rightarrow> nat \<Rightarrow> int \<Rightarrow> int \<Rightarrow> nat option" where
  "strstr_loop m s1 s2 l1 l2 =
     (if l1 \<ge> l2
      then if rt_memcmp s1 s2 (nat l2) m = 0 then Some s1 else strstr_loop m (s1 + 1) s2 (l1 - 1) l2
      else None)"
  by pat_completeness auto
termination by (relation "measure (\<lambda>(m, s1, s2, l1, l2). nat (l1 - l2 + 1))") auto

text \<open>The inner option is the pointer returned; \<open>None\<close> there is the null pointer.\<close>

definition rt_strstr :: "bytes \<Rightarrow> nat \<Rightarrow> nat \<Rightarrow> nat option option" where
  "rt_strstr m s1 s2 =
     do { l2 \<leftarrow> rt_strlen m s2;
          if l2 = 0 then Some (Some s1)
          else do { l1 \<leftarrow> rt_strlen m s1; Some (strstr_loop m s1 s2 (int l1) (int l2)) } }"

declare strnlen_loop.simps [simp del] strstr_loop.simps [simp del]
declare fill_big.simps [simp del] fill_little.simps [simp del] copy_big.simps [simp del] copy_little.simps [simp del]

subsection \<open>What the block functions do\<close>

definition filled :: "nat \<Rightarrow> u8 \<Rightarrow> nat \<Rightarrow> bytes \<Rightarrow> bytes" where
  "filled s d n m = (\<lambda>a. if s \<le> a \<and> a < s + n then d else m a)"

definition copied :: "nat \<Rightarrow> nat \<Rightarrow> nat \<Rightarrow> bytes \<Rightarrow> bytes" where
  "copied dst src n m = (\<lambda>a. if dst \<le> a \<and> a < dst + n then m (src + (a - dst)) else m a)"

lemma filled_filled: "filled (s + n) d k (filled s d n m) = filled s d (n + k) m"
  by (auto simp: filled_def)

lemma fill_bytes_eq: "fill_bytes d n (p, m) = filled p d n m"
proof (induction n arbitrary: p m)
  case (Suc n)
  show ?case by (auto simp: Suc.IH filled_def fun_eq_iff)
qed (auto simp: filled_def fun_eq_iff)

lemma u8_bit_bound: "bit (x :: u8) n \<Longrightarrow> n < 8"
  using bit_imp_le_length [of x n] by simp

lemma u8_high_bits [simp]: "\<not> bit (x :: u8) (8 + n)" "\<not> bit x (16 + n)" "\<not> bit x (24 + n)"
  by (auto dest: u8_bit_bound)

lemma spread_bytes:
  fixes d :: u32
  assumes "d = c AND 0xff"
  defines "b \<equiv> push_bit 8 d OR d"
  defines "w \<equiv> b OR push_bit 16 b"
  shows "ucast w = (ucast d :: u8)" "ucast (drop_bit 8 w) = (ucast d :: u8)"
    "ucast (drop_bit 16 w) = (ucast d :: u8)" "ucast (drop_bit 24 w) = (ucast d :: u8)"
proof -
  have d: "bit d n \<Longrightarrow> n < 8" for n
  proof -
    have "0xff = (mask 8 :: u32)" by (simp add: mask_eq_exp_minus_1)
    then show "bit d n \<Longrightarrow> n < 8" by (auto simp: assms(1) bit_and_iff bit_mask_iff)
  qed
  have "\<not> bit d (8 + n)" "\<not> bit d (16 + n)" "\<not> bit d (24 + n)" for n by (auto dest: d)
  then show "ucast w = (ucast d :: u8)" "ucast (drop_bit 8 w) = (ucast d :: u8)"
    "ucast (drop_bit 16 w) = (ucast d :: u8)" "ucast (drop_bit 24 w) = (ucast d :: u8)"
    by (auto intro!: bit_word_eqI simp: w_def b_def bit_simps)
qed

lemma fill_word_eq:
  assumes "ucast w = (d :: u8)" "ucast (drop_bit 8 w) = d" "ucast (drop_bit 16 w) = d" "ucast (drop_bit 24 w) = d"
  shows "fill_word w (p, m) = (p + 4, filled p d 4 m)"
  using assms by (auto simp: fill_word_def store32_def filled_def fun_eq_iff)

lemma copy_word_eq: "copy_word (d, s, m) = (d + 4, s + 4, copied d s 4 m)"
proof -
  have "ucast (load32 m s) = m s" "ucast (drop_bit 8 (load32 m s)) = m (s + 1)"
    "ucast (drop_bit 16 (load32 m s)) = m (s + 2)" "ucast (drop_bit 24 (load32 m s)) = m (s + 3)"
    by (auto intro!: bit_word_eqI simp: load32_def bit_simps)
  moreover have "a = d + 1 \<or> a = d + 2 \<or> a = d + 3 \<or> a = d" if "d \<le> a" "a < d + 4" for a
    using that by arith
  ultimately show ?thesis by (auto simp: copy_word_def store32_def copied_def fun_eq_iff)
qed

text \<open>
  The loops as steps along the block: what is left of the count, and the state after \<open>n\<close> bytes.
  Copying upwards is right when the destination does not start inside the source.
\<close>

definition fst_at :: "nat \<Rightarrow> u8 \<Rightarrow> bytes \<Rightarrow> nat \<Rightarrow> nat \<times> bytes" where
  "fst_at s d m n = (s + n, filled s d n m)"

definition cst_at :: "nat \<Rightarrow> nat \<Rightarrow> bytes \<Rightarrow> nat \<Rightarrow> nat \<times> nat \<times> bytes" where
  "cst_at d s m n = (d + n, s + n, copied d s n m)"

definition upward_ok :: "nat \<Rightarrow> nat \<Rightarrow> nat \<Rightarrow> bool" where
  "upward_ok d s n \<longleftrightarrow> d \<le> s \<or> s + n \<le> d"

lemma chunk_loop:
  fixes w :: nat and pos :: "nat \<Rightarrow> 's"
  assumes rec: "\<And>len st. loop len st = (if len \<ge> w then loop (len - w) (step st) else (len, st))"
    and step: "\<And>n. n + w \<le> limit \<Longrightarrow> step (pos n) = pos (n + w)" and "w > 0" and "n + len \<le> limit"
  shows "loop len (pos n) = (len mod w, pos (n + len div w * w))"
  using assms(4)
proof (induction len arbitrary: n rule: less_induct)
  case (less len)
  show ?case
  proof (cases "len \<ge> w")
    case True
    have "len div w = (len - w) div w + 1" "len mod w = (len - w) mod w"
      using True assms(3) le_div_geq [of w len] le_mod_geq [of w len] by auto
    then have "n + w + (len - w) div w * w = n + len div w * w" "(len - w) mod w = len mod w" by simp_all
    moreover have "loop len (pos n) = loop (len - w) (pos (n + w))" using True less.prems by (simp add: rec [of len] step)
    moreover have "loop (len - w) (pos (n + w)) = ((len - w) mod w, pos (n + w + (len - w) div w * w))"
      using True less.prems assms(3) by (intro less.IH) auto
    ultimately show ?thesis by (simp only:)
  next
    case False
    then show ?thesis by (simp add: rec [of len])
  qed
qed

lemma copied_copied:
  assumes "upward_ok d s limit" "n + k \<le> limit"
  shows "copied (d + n) (s + n) k (copied d s n m) = copied d s (n + k) m"
  using assms by (auto simp: copied_def upward_ok_def fun_eq_iff)

lemma copy_word_at:
  "upward_ok d s limit \<Longrightarrow> n + 4 \<le> limit \<Longrightarrow> copy_word (cst_at d s m n) = cst_at d s m (n + 4)"
  using copied_copied [of d s limit n 4 m] by (simp add: cst_at_def copy_word_eq add.assoc)

lemma copy_bytes_at:
  assumes "upward_ok d s limit" "n + k \<le> limit"
  shows "copy_bytes k (cst_at d s m n) = copied d s (n + k) m"
  using assms(2)
proof (induction k arbitrary: n)
  case (Suc k)
  have "(copied d s n m)(d + n := copied d s n m (s + n)) = copied d s (n + 1) m"
    using assms(1) Suc.prems by (auto simp: copied_def upward_ok_def fun_eq_iff)
  then have "copy_bytes (Suc k) (cst_at d s m n) = copy_bytes k (cst_at d s m (n + 1))"
    by (simp add: cst_at_def)
  then show ?case using Suc.IH [of "n + 1"] Suc.prems by simp
qed (simp add: cst_at_def)

lemma copy_big_at:
  assumes "upward_ok d s limit" "n + len \<le> limit"
  shows "copy_big len (cst_at d s m n) = (len mod 16, cst_at d s m (n + len div 16 * 16))"
proof (rule chunk_loop [where pos = "cst_at d s m", OF copy_big.simps _ _ assms(2)])
  fix n assume "n + 16 \<le> limit"
  then show "copy_word (copy_word (copy_word (copy_word (cst_at d s m n)))) = cst_at d s m (n + 16)"
    using copy_word_at [OF assms(1)] by (simp add: add.assoc)
qed simp

lemma copy_little_at:
  assumes "upward_ok d s limit" "n + len \<le> limit"
  shows "copy_little len (cst_at d s m n) = (len mod 4, cst_at d s m (n + len div 4 * 4))"
  by (rule chunk_loop [where pos = "cst_at d s m", OF copy_little.simps _ _ assms(2)]) (simp_all add: copy_word_at [OF assms(1)])

lemma split_count: "(n :: nat) div 16 * 16 + n mod 16 div 4 * 4 + n mod 16 mod 4 = n"
  by (simp add: add.assoc)

lemma rt_memcpy_eq:
  assumes "upward_ok dst src n"
  shows "rt_memcpy dst src n m = copied dst src n m"
proof -
  have st: "(dst, src, m) = cst_at dst src m 0" by (auto simp: cst_at_def copied_def fun_eq_iff)
  have le: "n div 16 * 16 + n mod 16 \<le> n" "n div 16 * 16 + n mod 16 div 4 * 4 + n mod 16 mod 4 \<le> n"
    by (simp, simp only: split_count)
  have "copy_big n (cst_at dst src m 0) = (n mod 16, cst_at dst src m (n div 16 * 16))"
    using copy_big_at [OF assms, of 0 n] by simp
  then show ?thesis
    using copy_bytes_at [OF assms, of 0 n m] copy_bytes_at [OF assms le(2), of m] copy_little_at [OF assms le(1), of m]
    by (simp add: rt_memcpy_def st split_count)
qed

lemma fill_word_at:
  assumes "ucast w = (d :: u8)" "ucast (drop_bit 8 w) = d" "ucast (drop_bit 16 w) = d" "ucast (drop_bit 24 w) = d"
  shows "fill_word w (fst_at s d m n) = fst_at s d m (n + 4)"
  using filled_filled [of s n d 4 m] by (simp add: fst_at_def fill_word_eq [OF assms])

lemma rt_memset_eq: "rt_memset s c n m = filled s (ucast c) n m"
proof -
  define d where "d = c AND 0xff"
  define w where "w = (push_bit 8 d OR d) OR push_bit 16 (push_bit 8 d OR d)"
  have mask: "0xff = (mask 8 :: u32)" by (simp add: mask_eq_exp_minus_1)
  have dc: "(ucast d :: u8) = ucast c"
    unfolding d_def mask by (auto intro!: bit_word_eqI simp: bit_simps)
  note step = fill_word_at [OF spread_bytes [OF d_def, folded w_def, unfolded dc]]
  have st: "(s, m) = fst_at s (ucast c) m 0" by (auto simp: fst_at_def filled_def fun_eq_iff)
  have big: "fill_big w n (fst_at s (ucast c) m 0) = (n mod 16, fst_at s (ucast c) m (0 + n div 16 * 16))"
    by (rule chunk_loop [OF fill_big.simps, where limit = n and pos = "fst_at s (ucast c) m"]) (simp_all add: step add.assoc)
  have little: "fill_little w (n mod 16) (fst_at s (ucast c) m (n div 16 * 16)) =
      (n mod 16 mod 4, fst_at s (ucast c) m (n div 16 * 16 + n mod 16 div 4 * 4))"
    by (rule chunk_loop [OF fill_little.simps, where limit = n and pos = "fst_at s (ucast c) m"]) (simp_all add: step)
  have bytes: "fill_bytes (ucast c) k (fst_at s (ucast c) m j) = filled s (ucast c) (j + k) m" for j k
    by (simp add: fst_at_def fill_bytes_eq filled_filled)
  show ?thesis
    using big little bytes [of "n mod 16 mod 4" "n div 16 * 16 + n mod 16 div 4 * 4"] bytes [of n 0]
    unfolding rt_memset_def Let_def d_def [symmetric] w_def [symmetric] by (simp add: dc st split_count)
qed

lemma copy_down_eq:
  assumes "s \<le> d"
  shows "copy_down n (d + n, s + n, m) = copied d s n m"
proof (induction n arbitrary: m)
  case (Suc n)
  have "copy_down (Suc n) (d + Suc n, s + Suc n, m) = copied d s n (m(d + n := m (s + n)))"
    by (simp add: Suc.IH del: fun_upd_apply)
  also have "\<dots> = copied d s (Suc n) m" using assms by (auto simp: copied_def fun_eq_iff less_Suc_eq)
  finally show ?case .
qed (auto simp: copied_def fun_eq_iff)

lemma rt_memmove_eq: "rt_memmove dst src n m = copied dst src n m"
proof (cases "src < dst \<and> dst < src + n")
  case True
  then show ?thesis by (simp add: rt_memmove_def copy_down_eq)
next
  case False
  then have "upward_ok dst src n" by (auto simp: upward_ok_def)
  moreover have "(dst, src, m) = cst_at dst src m 0" by (auto simp: cst_at_def copied_def fun_eq_iff)
  ultimately show ?thesis using copy_bytes_at [of dst src n 0 n m] False by (auto simp: rt_memmove_def)
qed

lemma rt_memcmp_zero: "rt_memcmp a b n m = 0 \<longleftrightarrow> (\<forall>i<n. m (a + i) = m (b + i))"
proof (induction n arbitrary: a b)
  case (Suc n)
  have "(\<forall>i<Suc n. m (a + i) = m (b + i)) \<longleftrightarrow> m a = m b \<and> (\<forall>i<n. m (a + 1 + i) = m (b + 1 + i))"
    by (auto simp: less_Suc_eq_0_disj)
  moreover have "int (unat (m a)) - int (unat (m b)) \<noteq> 0 \<longleftrightarrow> m a \<noteq> m b" by (auto simp: word_uint_eq_iff)
  ultimately show ?case using Suc.IH [of "a + 1" "b + 1"] by (simp only: rt_memcmp.simps Let_def) auto
qed simp

subsection \<open>What the string functions do\<close>

text \<open>Memory holds the string \<open>xs\<close> at \<open>s\<close>.\<close>

fun cstr :: "bytes \<Rightarrow> nat \<Rightarrow> u8 list \<Rightarrow> bool" where
  "cstr m s [] \<longleftrightarrow> m s = 0"
| "cstr m s (x # xs) \<longleftrightarrow> m s = x \<and> x \<noteq> 0 \<and> cstr m (s + 1) xs"

lemma cstr_nth: "cstr m s xs \<Longrightarrow> i < length xs \<Longrightarrow> m (s + i) = xs ! i"
proof (induction xs arbitrary: s i)
  case (Cons x xs)
  show ?case using Cons.prems Cons.IH [of "s + 1" "i - 1"] by (cases i) auto
qed simp

lemma cstr_drop: "cstr m s xs \<Longrightarrow> k \<le> length xs \<Longrightarrow> cstr m (s + k) (drop k xs)"
proof (induction k arbitrary: s xs)
  case (Suc k)
  show ?case using Suc.prems Suc.IH [of "s + 1" "tl xs"] by (cases xs) auto
qed simp

lemma rt_strlen_eq:
  assumes "cstr m s xs"
  shows "rt_strlen m s = Some (length xs)"
proof -
  have "strlen_loop m s = Some (s + length xs)"
    using assms by (induction xs arbitrary: s) (subst strlen_loop.simps, simp)+
  then show ?thesis by (simp add: rt_strlen_def)
qed

lemma rt_strnlen_eq:
  assumes "cstr m s xs"
  shows "rt_strnlen m s n = min n (length xs)"
proof -
  have "strnlen_loop m s n (s + k) = min n (k + length ys)" if "cstr m (s + k) ys" "k \<le> n" for k ys
    using that
  proof (induction ys arbitrary: k)
    case (Cons y ys)
    show ?case using Cons.prems Cons.IH [of "k + 1"] by (subst strnlen_loop.simps) auto
  qed (subst strnlen_loop.simps, simp)
  from this [of 0 xs] show ?thesis using assms by (simp add: rt_strnlen_def)
qed

text \<open>The first place where two terminated strings differ decides a comparison.\<close>

fun str_diff :: "u8 list \<Rightarrow> u8 list \<Rightarrow> u8 \<times> u8" where
  "str_diff (x # xs) (y # ys) = (if x = y then str_diff xs ys else (x, y))"
| "str_diff (x # xs) [] = (x, 0)"
| "str_diff [] (y # ys) = (0, y)"
| "str_diff [] [] = (0, 0)"

lemma rt_strcmp_eq:
  assumes "cstr m s xs" "cstr m t ys"
  shows "rt_strcmp m s t = Some (sint (fst (str_diff xs ys)) - sint (snd (str_diff xs ys)))"
  using assms
proof (induction xs ys arbitrary: s t rule: str_diff.induct)
  case (1 x xs y ys)
  then show ?case by (subst rt_strcmp.simps) auto
qed (subst rt_strcmp.simps; auto)+

lemma str_diff_eq: "0 \<notin> set xs \<Longrightarrow> 0 \<notin> set ys \<Longrightarrow> fst (str_diff xs ys) = snd (str_diff xs ys) \<longleftrightarrow> xs = ys"
  by (induction xs ys rule: str_diff.induct) auto

lemma cstr_nonzero: "cstr m s xs \<Longrightarrow> 0 \<notin> set xs"
  by (induction xs arbitrary: s) auto

lemma rt_strncmp_zero:
  assumes "cstr m s xs" "cstr m t ys"
  shows "rt_strncmp m s t n = 0 \<longleftrightarrow> take n xs = take n ys"
  using assms
proof (induction n arbitrary: s t xs ys)
  case (Suc n)
  show ?case
    using Suc.prems Suc.IH [of "s + 1" "tl xs" "t + 1" "tl ys"]
    by (cases xs; cases ys) (auto simp: Let_def signed_eq_0_iff)
qed simp

lemma cstr_frame: "cstr m s xs \<Longrightarrow> d < s \<or> s + length xs < d \<Longrightarrow> cstr (m(d := v)) s xs"
  by (induction xs arbitrary: s) auto

lemma rt_strncpy_eq:
  assumes "cstr m s xs" "d + n \<le> s \<or> s + length xs < d"
  shows "rt_strncpy d s n m = (\<lambda>a. if d \<le> a \<and> a < d + n then (if a - d < length xs then xs ! (a - d) else 0) else m a)"
  using assms
proof (induction n arbitrary: d s xs m)
  case 0
  then show ?case by (auto simp: fun_eq_iff)
next
  case (Suc n)
  show ?case
  proof (cases xs)
    case Nil
    then show ?thesis using Suc.prems by (auto simp: fill_bytes_eq filled_def fun_eq_iff)
  next
    case (Cons x ys)
    have "cstr (m(d := m s)) (s + 1) ys"
      using Suc.prems Cons cstr_frame [of m "s + 1" ys d "m s"] by auto
    then have "rt_strncpy (d + 1) (s + 1) n (m(d := m s)) =
        (\<lambda>a. if d + 1 \<le> a \<and> a < d + 1 + n then (if a - (d + 1) < length ys then ys ! (a - (d + 1)) else 0)
             else (m(d := m s)) a)"
      using Suc.prems Cons by (intro Suc.IH) (auto simp del: fun_upd_apply)
    moreover have "m s = x" "x \<noteq> 0" using Suc.prems Cons by auto
    ultimately show ?thesis using Cons by (auto simp: Let_def fun_eq_iff nth_Cons')
  qed
qed

lemma rt_memcmp_prefix:
  assumes "cstr m s xs" "cstr m t ys" "length ys \<le> length xs"
  shows "rt_memcmp s t (length ys) m = 0 \<longleftrightarrow> prefix ys xs"
proof -
  have "prefix ys xs \<longleftrightarrow> take (length ys) xs = ys" by (metis append_eq_conv_conj prefix_def)
  then show ?thesis using assms(3) cstr_nth [OF assms(1)] cstr_nth [OF assms(2)]
    by (auto simp: rt_memcmp_zero list_eq_iff_nth_eq)
qed

text \<open>The first place of \<open>xs\<close> where \<open>ys\<close> stands.\<close>

definition first_at :: "u8 list \<Rightarrow> u8 list \<Rightarrow> nat option" where
  "first_at ys xs = find (\<lambda>k. prefix ys (drop k xs)) [0..<Suc (length xs)]"

lemma first_at_Cons:
  "first_at ys (x # xs) = (if prefix ys (x # xs) then Some 0 else map_option Suc (first_at ys xs))"
proof -
  have "[0..<Suc (length (x # xs))] = 0 # map Suc [0..<Suc (length xs)]"
    by (simp add: map_Suc_upt upt_conv_Cons del: upt_Suc)
  moreover have "find P (map Suc ks) = map_option Suc (find (P \<circ> Suc) ks)" for P ks by (induction ks) auto
  ultimately show ?thesis by (simp add: first_at_def comp_def del: upt_Suc)
qed

lemma first_at_short: "length xs < length ys \<Longrightarrow> first_at ys xs = None"
  by (auto simp: first_at_def find_None_iff dest!: prefix_length_le)

lemma strstr_loop_eq:
  assumes "cstr m s xs" "cstr m t ys" "ys \<noteq> []"
  shows "strstr_loop m s t (int (length xs)) (int (length ys)) = map_option (\<lambda>k. s + k) (first_at ys xs)"
  using assms(1)
proof (induction xs arbitrary: s)
  case Nil
  then show ?case using assms(3) by (subst strstr_loop.simps) (simp add: first_at_def)
next
  case (Cons x xs)
  show ?case
  proof (cases "length ys \<le> length (x # xs)")
    case True
    have "strstr_loop m (s + 1) t (int (length xs)) (int (length ys)) = map_option (\<lambda>k. s + 1 + k) (first_at ys xs)"
      using Cons.prems by (intro Cons.IH) simp
    then show ?thesis using True rt_memcmp_prefix [OF Cons.prems assms(2) True]
      by (subst strstr_loop.simps) (simp add: first_at_Cons option.map_comp comp_def)
  next
    case False
    then show ?thesis using first_at_short [of "x # xs" ys] by (subst strstr_loop.simps) simp
  qed
qed

lemma rt_strstr_eq:
  assumes "cstr m s xs" "cstr m t ys"
  shows "rt_strstr m s t = Some (map_option (\<lambda>k. s + k) (first_at ys xs))"
proof (cases "ys = []")
  case True
  then have "first_at ys xs = Some 0" by (simp add: first_at_def upt_conv_Cons del: upt_Suc)
  then show ?thesis using True by (simp add: rt_strstr_def rt_strlen_eq [OF assms(2)])
next
  case False
  then show ?thesis using strstr_loop_eq [OF assms] by (simp add: rt_strstr_def rt_strlen_eq [OF assms(1)] rt_strlen_eq [OF assms(2)])
qed

lemma lower_zero [simp]: "lower x = 0 \<longleftrightarrow> x = 0" "lower 0 = 0"
proof -
  have "uint x \<ge> 0" by simp
  then show "lower x = 0 \<longleftrightarrow> x = 0" "lower 0 = 0" by (auto simp: lower_def Let_def simp flip: uint_0_iff)
qed

lemma rt_strcasecmp_zero:
  assumes "cstr m s xs" "cstr m t ys"
  shows "\<exists>r. rt_strcasecmp m s t = Some r \<and> (r = 0 \<longleftrightarrow> map lower xs = map lower ys)"
  using assms
proof (induction xs arbitrary: s t ys)
  case Nil
  then show ?case by (cases ys) (subst rt_strcasecmp.simps; auto)+
next
  case (Cons x xs)
  show ?case
  proof (cases ys)
    case Nil
    then show ?thesis using Cons.prems by (subst rt_strcasecmp.simps) auto
  next
    case c: (Cons y zs)
    then show ?thesis using Cons.prems Cons.IH [of "s + 1" "t + 1" zs] by (subst rt_strcasecmp.simps) auto
  qed
qed

subsection \<open>Properties\<close>

text \<open>
  C39. The block functions, word-wise where the addresses allow it, are the plain byte-wise
  operations: \<open>rt_memset\<close> fills exactly the block, \<open>rt_memmove\<close> copies it whatever the overlap,
  \<open>rt_memcpy\<close> copies it whenever the destination does not start inside the source, and \<open>rt_memcmp\<close>
  returns zero exactly when the blocks agree.
\<close>

theorem kservice_blocks:
  "rt_memset s c n m = filled s (ucast c) n m \<and> rt_memmove d s n m = copied d s n m \<and>
   (d \<le> s \<or> s + n \<le> d \<longrightarrow> rt_memcpy d s n m = copied d s n m) \<and>
   (rt_memcmp d s n m = 0 \<longleftrightarrow> (\<forall>i<n. m (d + i) = m (s + i)))"
  using rt_memset_eq rt_memmove_eq rt_memcpy_eq [of d s n m] rt_memcmp_zero by (auto simp: upward_ok_def)

theorem kservice_blocks_witness:
  "rt_memcpy 100 0 23 of_nat 122 = 22 \<and> rt_memcpy 100 0 23 of_nat 123 = 123 \<and> rt_memmove 3 0 9 of_nat 11 = 8"
  using kservice_blocks [of 0 0 23 of_nat 100] kservice_blocks [of 0 0 9 of_nat 3] by (simp add: copied_def)

text \<open>
  On memory that holds terminated strings the string functions return, and what they return
  is: the length, or the bound if it is smaller; a difference that is zero exactly for equal
  strings (without regard to case, or up to a number of characters, as asked); the first place
  where one string stands in the other; and \<open>rt_strncpy\<close> fills exactly \<open>n\<close> bytes with the string
  and zeros.
\<close>

theorem kservice_strings:
  assumes "cstr m s xs" "cstr m t ys"
  shows "rt_strlen m s = Some (length xs) \<and> rt_strnlen m s n = min n (length xs) \<and>
    (\<exists>r. rt_strcmp m s t = Some r \<and> (r = 0 \<longleftrightarrow> xs = ys)) \<and>
    (\<exists>r. rt_strcasecmp m s t = Some r \<and> (r = 0 \<longleftrightarrow> map lower xs = map lower ys)) \<and>
    (rt_strncmp m s t n = 0 \<longleftrightarrow> take n xs = take n ys) \<and>
    rt_strstr m s t = Some (map_option (\<lambda>k. s + k) (first_at ys xs)) \<and>
    (d + n \<le> s \<or> s + length xs < d \<longrightarrow>
      (\<forall>a. rt_strncpy d s n m a =
        (if d \<le> a \<and> a < d + n then (if a - d < length xs then xs ! (a - d) else 0) else m a)))"
  using rt_strlen_eq [OF assms(1)] rt_strnlen_eq [OF assms(1)] rt_strcmp_eq [OF assms] rt_strncmp_zero [OF assms]
    rt_strcasecmp_zero [OF assms] rt_strstr_eq [OF assms] rt_strncpy_eq [OF assms(1)]
    str_diff_eq [OF cstr_nonzero [OF assms(1)] cstr_nonzero [OF assms(2)]]
  by (auto dest: signed_word_eqI)

definition kmem_demo :: bytes where
  "kmem_demo a = (if a < 6 then [103, 101, 116, 115, 0, 7] ! a else if a = 10 then 101 else if a = 11 then 84 else 0)"

theorem kservice_strings_witness:
  "rt_strlen kmem_demo 0 = Some 4 \<and> rt_strstr kmem_demo 0 11 = Some None \<and> rt_strncpy 20 0 8 kmem_demo 27 = 0"
  using kservice_strings [of kmem_demo 0 "[103, 101, 116, 115]" 11 "[84]" 8 20]
  by (simp add: kmem_demo_def first_at_Cons) (simp add: first_at_def)

end
