(* ===== verification/Rt_Printf.thy ===== *)
theory Rt_Printf
  imports Prelude
begin

unbundle bit_operations_syntax

section \<open>Formatted output (\<^verbatim>\<open>rt-thread/src/kservice.c\<close>)\<close>

text \<open>
  \<open>rt_vsnprintf\<close> and the conversions behind \<open>rt_kprintf\<close>, \<open>rt_snprintf\<close> and \<open>rt_sprintf\<close>. The output is the
  object the buffer points into, the place reached (\<open>str - buf\<close>, which runs on past the end) and
  the end; a write outside the object sets \<open>overrun\<close>. An argument list that does not match its
  format is undefined in C, which is \<open>None\<close>. Widths and precisions are taken as exact integers (C
  leaves the overflow of \<^verbatim>\<open>int\<close> undefined). The lemmas show that whatever the buffer, the loops write
  one text, given in closed form, cut to the buffer.
\<close>

subsection \<open>Output\<close>

record out =
  obuf :: string
  opos :: nat
  oend :: nat
  overrun :: bool

text \<open>A write at an offset from the buffer.\<close>

definition poke :: "nat \<Rightarrow> char \<Rightarrow> out \<Rightarrow> out" where
  "poke i c st = (if i < length (obuf st) then st\<lparr>obuf := (obuf st)[i := c]\<rparr> else st\<lparr>overrun := True\<rparr>)"

text \<open>\<^verbatim>\<open>if (str < end) *str = c; ++str;\<close>\<close>

definition put :: "char \<Rightarrow> out \<Rightarrow> out" where
  "put c st = (let st = (if opos st < oend st then poke (opos st) c st else st) in st\<lparr>opos := opos st + 1\<rparr>)"

text \<open>
  The three forms of padding loop: \<^verbatim>\<open>while (n-- > 0)\<close>, \<^verbatim>\<open>while (--n > 0)\<close> and \<^verbatim>\<open>while (k < n--)\<close>. They
  return what is left in the counter.
\<close>

function pad_post :: "char \<Rightarrow> int \<Rightarrow> out \<Rightarrow> int \<times> out" where
  "pad_post c n st = (if n > 0 then pad_post c (n - 1) (put c st) else (n - 1, st))"
  by pat_completeness auto
termination by (relation "measure (\<lambda>(c, n, st). nat n)") auto

function pad_pre :: "char \<Rightarrow> int \<Rightarrow> out \<Rightarrow> int \<times> out" where
  "pad_pre c n st = (if n - 1 > 0 then pad_pre c (n - 1) (put c st) else (n - 1, st))"
  by pat_completeness auto
termination by (relation "measure (\<lambda>(c, n, st). nat n)") auto

function pad_above :: "char \<Rightarrow> int \<Rightarrow> int \<Rightarrow> out \<Rightarrow> int \<times> out" where
  "pad_above c k n st = (if k < n then pad_above c k (n - 1) (put c st) else (n - 1, st))"
  by pat_completeness auto
termination by (relation "measure (\<lambda>(c, k, n, st). nat (n - k))") auto

subsection \<open>Numbers\<close>

abbreviation ZEROPAD :: u8 where "ZEROPAD \<equiv> 1"
abbreviation SIGN :: u8 where "SIGN \<equiv> 2"
abbreviation PLUS :: u8 where "PLUS \<equiv> 4"
abbreviation SPACE :: u8 where "SPACE \<equiv> 8"
abbreviation LEFT :: u8 where "LEFT \<equiv> 16"
abbreviation SPECIAL :: u8 where "SPECIAL \<equiv> 32"
abbreviation LARGE :: u8 where "LARGE \<equiv> 64"

definition has :: "u8 \<Rightarrow> u8 \<Rightarrow> bool" where
  "has flags f \<longleftrightarrow> flags AND f \<noteq> 0"

definition divide :: "u32 \<Rightarrow> nat \<Rightarrow> nat \<times> u32" where
  "divide n base = (if base = 10 then (unat (n mod 10), n div 10) else (unat (n mod 16), n div 16))"

definition digits :: "u8 \<Rightarrow> string" where
  "digits type = (if has type LARGE then ''0123456789ABCDEF'' else ''0123456789abcdef'')"

lemma divide_less: "n \<noteq> 0 \<Longrightarrow> unat (snd (divide n base)) < unat n"
  by (auto simp: divide_def unat_div word_gt_0 simp flip: word_neq_0_conv intro!: div_less_dividend)
    (auto simp: unat_gt_0)

text \<open>\<^verbatim>\<open>while (num != 0) tmp[i++] = digits[divide(&num, base)];\<close>\<close>

function digit_loop :: "nat \<Rightarrow> u8 \<Rightarrow> u32 \<Rightarrow> string \<Rightarrow> string" where
  "digit_loop base type num tmp =
     (if num \<noteq> 0
      then let (res, num') = divide num base in digit_loop base type num' (tmp @ [digits type ! res])
      else tmp)"
  by pat_completeness auto
termination
  by (relation "measure (\<lambda>(base, type, num, tmp). unat num)") (auto dest!: divide_less simp: prod_eq_iff)

text \<open>\<^verbatim>\<open>while (i-- > 0) ... tmp[i] ...\<close>\<close>

fun put_tmp :: "nat \<Rightarrow> string \<Rightarrow> out \<Rightarrow> out" where
  "put_tmp 0 tmp st = st"
| "put_tmp (Suc i) tmp st = put_tmp i tmp (put (tmp ! i) st)"

definition number_sign :: "u8 \<Rightarrow> u32 \<Rightarrow> char option \<times> u32" where
  "number_sign type num =
     (if has type SIGN
      then if num <s 0 then (Some (CHR ''-''), - num)
           else if has type PLUS then (Some (CHR ''+''), num)
           else if has type SPACE then (Some (CHR '' ''), num)
           else (None, num)
      else (None, num))"

definition clear_flag :: "u8 \<Rightarrow> u8 \<Rightarrow> u8" where
  "clear_flag flags f = flags AND NOT f"

definition print_number :: "out \<Rightarrow> u32 \<Rightarrow> nat \<Rightarrow> int \<Rightarrow> int \<Rightarrow> u8 \<Rightarrow> out" where
  "print_number buf num base s precision type =
     (let precision_bak = precision;
          size0 = s;
          type = (if has type LEFT then clear_flag type ZEROPAD else type);
          c = (if has type ZEROPAD then CHR ''0'' else CHR '' '');
          (sign, num) = number_sign type num;
          tmp = (if num = 0 then ''0'' else digit_loop base type num []);
          i = length tmp;
          precision = (if int i > precision then int i else precision);
          size0 = size0 - precision;
          (size0, buf) =
            (if \<not> has type (ZEROPAD OR LEFT)
             then pad_post (CHR '' '') (if sign \<noteq> None \<and> size0 > 0 then size0 - 1 else size0) buf
             else (size0, buf));
          (size0, buf) = (case sign of None \<Rightarrow> (size0, buf) | Some sg \<Rightarrow> (size0 - 1, put sg buf));
          (size0, buf) = (if \<not> has type LEFT then pad_post c size0 buf else (size0, buf));
          (precision, buf) = pad_above (CHR ''0'') (int i) precision buf;
          buf = (if precision_bak \<noteq> 0 then put_tmp i tmp buf else buf);
          (size0, buf) = pad_post (CHR '' '') size0 buf
      in buf)"

subsection \<open>Formats\<close>

text \<open>The arguments: an \<^verbatim>\<open>int\<close> or a pointer as a word, or a string (\<open>None\<close> is the null pointer).\<close>

datatype va = VaInt u32 | VaStr "string option"

fun va_int :: "va list \<Rightarrow> (u32 \<times> va list) option" where
  "va_int (VaInt w # args) = Some (w, args)"
| "va_int _ = None"

fun va_str :: "va list \<Rightarrow> (string option \<times> va list) option" where
  "va_str (VaStr s # args) = Some (s, args)"
| "va_str _ = None"

definition isdigit :: "char \<Rightarrow> bool" where
  "isdigit c \<longleftrightarrow> of_char c \<ge> (48 :: nat) \<and> of_char c < (58 :: nat)"

fun skip_atoi :: "int \<Rightarrow> string \<Rightarrow> int \<times> string" where
  "skip_atoi i [] = (i, [])"
| "skip_atoi i (c # s) = (if isdigit c then skip_atoi (i * 10 + of_char c - 48) s else (i, c # s))"

fun get_flags :: "string \<Rightarrow> u8 \<Rightarrow> u8 \<times> string" where
  "get_flags [] flags = (flags, [])"
| "get_flags (c # fmt) flags =
     (if c = CHR ''-'' then get_flags fmt (flags OR LEFT)
      else if c = CHR ''+'' then get_flags fmt (flags OR PLUS)
      else if c = CHR '' '' then get_flags fmt (flags OR SPACE)
      else if c = CHR ''#'' then get_flags fmt (flags OR SPECIAL)
      else if c = CHR ''0'' then get_flags fmt (flags OR ZEROPAD)
      else (flags, c # fmt))"

fun get_width :: "string \<Rightarrow> u8 \<Rightarrow> va list \<Rightarrow> (int \<times> u8 \<times> string \<times> va list) option" where
  "get_width [] flags args = Some (-1, flags, [], args)"
| "get_width (c # fmt) flags args =
     (if isdigit c then let (w, rest) = skip_atoi 0 (c # fmt) in Some (w, flags, rest, args)
      else if c = CHR ''*''
      then do { (v, args) \<leftarrow> va_int args;
                Some (if sint v < 0 then (- sint v, flags OR LEFT, fmt, args) else (sint v, flags, fmt, args)) }
      else Some (-1, flags, c # fmt, args))"

definition get_precision :: "string \<Rightarrow> va list \<Rightarrow> (int \<times> string \<times> va list) option" where
  "get_precision fmt args =
     (if fmt \<noteq> [] \<and> hd fmt = CHR ''.''
      then do { (p, fmt, args) \<leftarrow>
                  (case tl fmt of
                     [] \<Rightarrow> Some (-1, [], args)
                   | c # fmt' \<Rightarrow>
                       if isdigit c then let (p, rest) = skip_atoi 0 (c # fmt') in Some (p, rest, args)
                       else if c = CHR ''*'' then do { (v, args) \<leftarrow> va_int args; Some (sint v, fmt', args) }
                       else Some (-1, c # fmt', args));
                Some (if p < 0 then 0 else p, fmt, args) }
      else Some (-1, fmt, args))"

fun get_qualifier :: "string \<Rightarrow> char option \<times> string" where
  "get_qualifier [] = (None, [])"
| "get_qualifier (c # fmt) = (if c = CHR ''h'' \<or> c = CHR ''l'' then (Some c, fmt) else (None, c # fmt))"

text \<open>The argument of an integer conversion, as its qualifier says.\<close>

definition get_num :: "char option \<Rightarrow> u8 \<Rightarrow> u32 \<Rightarrow> u32" where
  "get_num qualifier flags w =
     (if qualifier = Some (CHR ''h'')
      then let num = ucast (ucast w :: u16) in if has flags SIGN then scast (ucast num :: u16) else num
      else w)"

fun put_str :: "nat \<Rightarrow> string \<Rightarrow> out \<Rightarrow> out" where
  "put_str 0 s st = st"
| "put_str (Suc i) s st = put_str i (tl s) (put (hd s) st)"

definition conv_char :: "int \<Rightarrow> u8 \<Rightarrow> u32 \<Rightarrow> out \<Rightarrow> out" where
  "conv_char field_width flags w st =
     (let (field_width, st) = (if \<not> has flags LEFT then pad_pre (CHR '' '') field_width st else (field_width, st));
          st = put (char_of (unat w mod 256)) st;
          (field_width, st) = pad_pre (CHR '' '') field_width st
      in st)"

definition conv_str :: "int \<Rightarrow> int \<Rightarrow> u8 \<Rightarrow> string option \<Rightarrow> out \<Rightarrow> out" where
  "conv_str field_width precision flags s st =
     (let s = (case s of None \<Rightarrow> ''(NULL)'' | Some s \<Rightarrow> s);
          len = int (length s);
          len = (if precision > 0 \<and> len > precision then precision else len);
          (field_width, st) =
            (if \<not> has flags LEFT then pad_above (CHR '' '') len field_width st else (field_width, st));
          st = put_str (nat len) s st;
          (field_width, st) = pad_above (CHR '' '') len field_width st
      in st)"

text \<open>The base and the flags of an integer conversion; \<open>None\<close> for any other character.\<close>

definition number_conv :: "char \<Rightarrow> u8 \<Rightarrow> (nat \<times> u8) option" where
  "number_conv c flags =
     (if c = CHR ''o'' then Some (8, flags)
      else if c = CHR ''X'' then Some (16, flags OR LARGE)
      else if c = CHR ''x'' then Some (16, flags)
      else if c = CHR ''d'' \<or> c = CHR ''i'' then Some (10, flags OR SIGN)
      else if c = CHR ''u'' then Some (10, flags)
      else None)"

text \<open>What stands between a percent sign and its conversion character.\<close>

definition get_spec :: "string \<Rightarrow> va list \<Rightarrow> (u8 \<times> int \<times> int \<times> char option \<times> string \<times> va list) option" where
  "get_spec fmt args =
     do { let (flags, fmt) = get_flags fmt 0;
          (field_width, flags, fmt, args) \<leftarrow> get_width fmt flags args;
          (precision, fmt, args) \<leftarrow> get_precision fmt args;
          let (qualifier, fmt) = get_qualifier fmt;
          Some (flags, field_width, precision, qualifier, fmt, args) }"

text \<open>
  One conversion, from behind its percent sign: the rest of the format, the arguments left and the
  output. \<open>vs_switch\<close> is the switch over the conversion character.
\<close>

fun vs_switch :: "u8 \<Rightarrow> int \<Rightarrow> int \<Rightarrow> char option \<Rightarrow> string \<Rightarrow> va list \<Rightarrow> out \<Rightarrow> (string \<times> va list \<times> out) option" where
  "vs_switch flags field_width precision qualifier [] args st = Some ([], args, put (CHR ''%'') st)"
| "vs_switch flags field_width precision qualifier (c # rest) args st =
     (if c = CHR ''c'' then do { (w, args) \<leftarrow> va_int args; Some (rest, args, conv_char field_width flags w st) }
      else if c = CHR ''s''
      then do { (s, args) \<leftarrow> va_str args; Some (rest, args, conv_str field_width precision flags s st) }
      else if c = CHR ''p''
      then do { (w, args) \<leftarrow> va_int args;
                let (field_width, flags) = (if field_width = -1 then (8, flags OR ZEROPAD) else (field_width, flags));
                Some (rest, args, print_number st w 16 field_width precision flags) }
      else if c = CHR ''%'' then Some (rest, args, put (CHR ''%'') st)
      else case number_conv c flags of
             Some (base, flags) \<Rightarrow>
               do { (w, args) \<leftarrow> va_int args;
                    Some (rest, args, print_number st (get_num qualifier flags w) base field_width precision flags) }
           | None \<Rightarrow> Some (rest, args, put c (put (CHR ''%'') st)))"

definition vs_conv :: "string \<Rightarrow> va list \<Rightarrow> out \<Rightarrow> (string \<times> va list \<times> out) option" where
  "vs_conv fmt args st =
     do { (flags, field_width, precision, qualifier, fmt, args) \<leftarrow> get_spec fmt args;
          vs_switch flags field_width precision qualifier fmt args st }"

lemma skip_atoi_shorter: "length (snd (skip_atoi i s)) \<le> length s"
  by (induction i s rule: skip_atoi.induct) auto

lemma get_flags_shorter: "length (snd (get_flags fmt flags)) \<le> length fmt"
  by (induction fmt flags rule: get_flags.induct) auto

lemma get_width_shorter:
  "get_width fmt flags args = Some (w, flags', fmt', args') \<Longrightarrow> length fmt' \<le> length fmt"
  using skip_atoi_shorter [of 0 fmt]
  by (cases fmt) (auto simp: bind_eq_Some_conv split: if_splits prod.splits)

lemma get_precision_shorter:
  "get_precision fmt args = Some (p, fmt', args') \<Longrightarrow> length fmt' \<le> length fmt"
  using skip_atoi_shorter [of 0 "tl fmt"]
  by (cases fmt) (auto simp: get_precision_def bind_eq_Some_conv split: if_splits prod.splits list.splits)

lemma get_qualifier_shorter: "length (snd (get_qualifier fmt)) \<le> length fmt"
  by (cases fmt) auto

lemma get_spec_shorter:
  assumes "get_spec fmt args = Some (flags, w, p, q, fmt', args')"
  shows "length fmt' \<le> length fmt"
proof -
  obtain f1 fmt1 where 1: "get_flags fmt 0 = (f1, fmt1)" by fastforce
  obtain f2 w2 fmt2 args2 where 2: "get_width fmt1 f1 args = Some (w2, f2, fmt2, args2)"
    using assms by (auto simp: get_spec_def 1 bind_eq_Some_conv)
  obtain p3 fmt3 args3 where 3: "get_precision fmt2 args2 = Some (p3, fmt3, args3)"
    using assms by (auto simp: get_spec_def 1 2 bind_eq_Some_conv)
  obtain q4 fmt4 where 4: "get_qualifier fmt3 = (q4, fmt4)" by fastforce
  have "fmt' = fmt4" using assms by (simp add: get_spec_def 1 2 3 4)
  then show ?thesis
    using get_flags_shorter [of fmt 0] get_width_shorter [OF 2] get_precision_shorter [OF 3] get_qualifier_shorter [of fmt3]
    by (simp add: 1 4)
qed

lemma vs_switch_rest: "vs_switch flags w p q fmt args st = Some (fmt', args', st') \<Longrightarrow> fmt' = tl fmt"
  by (cases fmt) (auto simp: bind_eq_Some_conv Let_def split: if_splits option.splits)

lemma vs_conv_shorter: "vs_conv fmt args st = Some (fmt', args', st') \<Longrightarrow> length fmt' \<le> length fmt"
  by (auto simp: vs_conv_def bind_eq_Some_conv dest!: get_spec_shorter vs_switch_rest)

subsection \<open>The print functions\<close>

function vs_loop :: "string \<Rightarrow> va list \<Rightarrow> out \<Rightarrow> out option" where
  "vs_loop [] args st = Some st"
| "vs_loop (c # fmt) args st =
     (if c \<noteq> CHR ''%'' then vs_loop fmt args (put c st)
      else case vs_conv fmt args st of
             None \<Rightarrow> None
           | Some (fmt', args', st') \<Rightarrow> vs_loop fmt' args' st')"
  by pat_completeness auto
termination by (relation "measure (\<lambda>(fmt, args, st). length fmt)") (auto dest!: vs_conv_shorter)

text \<open>
  \<open>buf\<close> is the address of the buffer and \<open>b\<close> the object from there on. The result is the number of
  characters and the output state.
\<close>

definition rt_vsnprintf :: "nat \<Rightarrow> nat \<Rightarrow> string \<Rightarrow> va list \<Rightarrow> string \<Rightarrow> (nat \<times> out) option" where
  "rt_vsnprintf buf size0 fmt args b =
     (let size0 = (if (buf + size0) mod 2 ^ 32 < buf then 2 ^ 32 - 1 - buf else size0)
      in do { st \<leftarrow> vs_loop fmt args \<lparr>obuf = b, opos = 0, oend = size0, overrun = False\<rparr>;
              let st' = (if size0 > 0
                         then if opos st < oend st then poke (opos st) (CHR 0x00) st
                              else poke (oend st - 1) (CHR 0x00) st
                         else st);
              Some (opos st', st') })"

definition rt_snprintf :: "nat \<Rightarrow> nat \<Rightarrow> string \<Rightarrow> va list \<Rightarrow> string \<Rightarrow> (nat \<times> out) option" where
  "rt_snprintf buf size0 fmt args b = rt_vsnprintf buf size0 fmt args b"

definition rt_vsprintf :: "nat \<Rightarrow> string \<Rightarrow> va list \<Rightarrow> string \<Rightarrow> (nat \<times> out) option" where
  "rt_vsprintf buf fmt args b = rt_vsnprintf buf (2 ^ 32 - 1) fmt args b"

definition rt_sprintf :: "nat \<Rightarrow> string \<Rightarrow> va list \<Rightarrow> string \<Rightarrow> (nat \<times> out) option" where
  "rt_sprintf buf fmt args b = rt_vsprintf buf fmt args b"

subsection \<open>The text a format stands for\<close>

text \<open>
  The reference: what each conversion stands for in closed form, with no buffer, counter or loop.
  A conversion \<^verbatim>\<open>%o\<close> comes out in base 16, since \<open>divide\<close> knows two bases only; a precision of 0 drops
  the digits of every number, and counts for nothing with a string.
\<close>

fun radix :: "u8 \<Rightarrow> nat \<Rightarrow> nat \<Rightarrow> string" where
  "radix type b n = (if n < b \<or> b < 2 then [digits type ! n] else radix type b (n div b) @ [digits type ! (n mod b)])"

declare radix.simps [simp del]

definition number_text :: "u32 \<Rightarrow> nat \<Rightarrow> int \<Rightarrow> int \<Rightarrow> u8 \<Rightarrow> string" where
  "number_text num base width precision type =
     (let negative = (has type SIGN \<and> sint num < 0);
          sg = (if negative then ''-'' else if \<not> has type SIGN then [] else if has type PLUS then ''+''
                else if has type SPACE then '' '' else []);
          ds = radix type (if base = 10 then 10 else 16) (if negative then nat (- sint num) else unat num);
          zeros = replicate (nat precision - length ds) (CHR ''0'');
          body = zeros @ (if precision = 0 then [] else ds);
          gap = nat (width - int (length sg + max (length ds) (nat precision)))
      in if has type LEFT then sg @ body @ replicate gap (CHR '' '')
         else if has type ZEROPAD then sg @ replicate gap (CHR ''0'') @ body
         else replicate gap (CHR '' '') @ sg @ body)"

definition char_text :: "int \<Rightarrow> u8 \<Rightarrow> u32 \<Rightarrow> string" where
  "char_text width flags w =
     (let gap = replicate (nat (width - 1)) (CHR '' ''); c = [char_of (unat w mod 256)]
      in if has flags LEFT then c @ gap else gap @ c)"

definition str_text :: "int \<Rightarrow> int \<Rightarrow> u8 \<Rightarrow> string option \<Rightarrow> string" where
  "str_text width precision flags s =
     (let t = (case s of None \<Rightarrow> ''(NULL)'' | Some s \<Rightarrow> s);
          t = (if precision > 0 then take (nat precision) t else t);
          gap = replicate (nat (width - int (length t))) (CHR '' '')
      in if has flags LEFT then t @ gap else gap @ t)"

fun switch_text :: "u8 \<Rightarrow> int \<Rightarrow> int \<Rightarrow> char option \<Rightarrow> string \<Rightarrow> va list \<Rightarrow> (string \<times> va list \<times> string) option" where
  "switch_text flags width precision qualifier [] args = Some ([], args, ''%'')"
| "switch_text flags width precision qualifier (c # rest) args =
     (if c = CHR ''c'' then do { (w, args) \<leftarrow> va_int args; Some (rest, args, char_text width flags w) }
      else if c = CHR ''s'' then do { (s, args) \<leftarrow> va_str args; Some (rest, args, str_text width precision flags s) }
      else if c = CHR ''p''
      then do { (w, args) \<leftarrow> va_int args;
                Some (rest, args, if width = -1 then number_text w 16 8 precision (flags OR ZEROPAD)
                                  else number_text w 16 width precision flags) }
      else if c = CHR ''%'' then Some (rest, args, ''%'')
      else case number_conv c flags of
             Some (base, flags) \<Rightarrow>
               do { (w, args) \<leftarrow> va_int args;
                    Some (rest, args, number_text (get_num qualifier flags w) base width precision flags) }
           | None \<Rightarrow> Some (rest, args, [CHR ''%'', c]))"

definition conv_text :: "string \<Rightarrow> va list \<Rightarrow> (string \<times> va list \<times> string) option" where
  "conv_text fmt args =
     do { (flags, width, precision, qualifier, fmt, args) \<leftarrow> get_spec fmt args;
          switch_text flags width precision qualifier fmt args }"

lemma switch_text_rest: "switch_text flags w p q fmt args = Some (fmt', args', t) \<Longrightarrow> fmt' = tl fmt"
  by (cases fmt) (auto simp: bind_eq_Some_conv split: if_splits option.splits)

lemma conv_text_shorter: "conv_text fmt args = Some (fmt', args', t) \<Longrightarrow> length fmt' \<le> length fmt"
  by (auto simp: conv_text_def bind_eq_Some_conv dest!: get_spec_shorter switch_text_rest)

function fmt_text :: "string \<Rightarrow> va list \<Rightarrow> string option" where
  "fmt_text [] args = Some []"
| "fmt_text (c # fmt) args =
     (if c \<noteq> CHR ''%'' then map_option (\<lambda>t. c # t) (fmt_text fmt args)
      else case conv_text fmt args of
             None \<Rightarrow> None
           | Some (fmt', args', t) \<Rightarrow> map_option (\<lambda>t'. t @ t') (fmt_text fmt' args'))"
  by pat_completeness auto
termination by (relation "measure (\<lambda>(fmt, args). length fmt)") (auto dest!: conv_text_shorter)

subsection \<open>The loops write the text\<close>

definition puts :: "string \<Rightarrow> out \<Rightarrow> out" where
  "puts t st = fold put t st"

lemma puts_simps [simp]: "puts [] st = st" "puts (c # t) st = puts t (put c st)" "puts (s @ t) st = puts t (puts s st)"
  by (simp_all add: puts_def)

declare pad_post.simps [simp del] pad_pre.simps [simp del] pad_above.simps [simp del] digit_loop.simps [simp del]

lemma pad_post_eq: "pad_post c n st = (min n 0 - 1, puts (replicate (nat n) c) st)"
proof (induction "nat n" arbitrary: n st)
  case (Suc k)
  have "k = nat (n - 1)" "nat n = Suc (nat (n - 1))" "n > 0" using Suc.hyps(2) by simp_all
  then show ?case using Suc.hyps(1) [of "n - 1" "put c st"] by (subst pad_post.simps) simp
qed (subst pad_post.simps, simp)

lemma pad_pre_eq: "pad_pre c n st = (min (n - 1) 0, puts (replicate (nat (n - 1)) c) st)"
proof (induction "nat (n - 1)" arbitrary: n st)
  case (Suc k)
  have "k = nat (n - 1 - 1)" "nat (n - 1) = Suc (nat (n - 1 - 1))" "n - 1 > 0" using Suc.hyps(2) by simp_all
  then show ?case using Suc.hyps(1) [of "n - 1" "put c st"] by (subst pad_pre.simps) simp
qed (subst pad_pre.simps, simp)

lemma pad_above_eq: "pad_above c k n st = (min n k - 1, puts (replicate (nat (n - k)) c) st)"
proof (induction "nat (n - k)" arbitrary: n st)
  case (Suc j)
  have "j = nat (n - 1 - k)" "nat (n - k) = Suc (nat (n - 1 - k))" "k < n" using Suc.hyps(2) by simp_all
  then show ?case using Suc.hyps(1) [of "n - 1" "put c st"] by (subst pad_above.simps) simp
qed (subst pad_above.simps, simp)

lemma put_tmp_eq: "i \<le> length tmp \<Longrightarrow> put_tmp i tmp st = puts (rev (take i tmp)) st"
  by (induction i arbitrary: st) (simp_all add: take_Suc_conv_app_nth)

lemma put_str_eq: "n \<le> length s \<Longrightarrow> put_str n s st = puts (take n s) st"
proof (induction n arbitrary: s st)
  case (Suc n)
  then show ?case by (cases s) auto
qed simp

lemma has_bit: "has f ZEROPAD = bit f 0" "has f SIGN = bit f 1" "has f PLUS = bit f 2" "has f SPACE = bit f 3"
  "has f LEFT = bit f 4" "has f LARGE = bit f 6" "has f (ZEROPAD OR LEFT) = (bit f 0 \<or> bit f 4)"
proof -
  have b: "bit f n \<longleftrightarrow> f AND push_bit n 1 \<noteq> 0" for n by (rule bit_iff_and_push_bit_not_eq_0)
  show "has f ZEROPAD = bit f 0" "has f SIGN = bit f 1" "has f PLUS = bit f 2" "has f SPACE = bit f 3"
    "has f LEFT = bit f 4" "has f LARGE = bit f 6"
    using b [of 0] b [of 1] b [of 2] b [of 3] b [of 4] b [of 6] by (simp_all add: has_def)
  have "(ZEROPAD OR LEFT) = (push_bit 0 1 OR push_bit 4 1 :: u8)" by simp
  then have "f AND (ZEROPAD OR LEFT) = (f AND push_bit 0 1) OR (f AND push_bit 4 1)" by (simp only: bit.conj_disj_distrib)
  then show "has f (ZEROPAD OR LEFT) = (bit f 0 \<or> bit f 4)" using b [of 0] b [of 4] by (simp add: has_def or_eq_0_iff)
qed

lemma clear_zeropad: "bit (clear_flag f ZEROPAD) n \<longleftrightarrow> bit f n \<and> n \<noteq> 0"
  unfolding clear_flag_def by (auto simp only: bit_and_iff bit_not_iff bit_1_iff) (auto dest: bit_imp_le_length)

lemma digits_clear: "digits (clear_flag f ZEROPAD) = digits f"
  by (simp add: digits_def has_bit clear_zeropad)

lemma digit_loop_eq:
  "n \<noteq> 0 \<Longrightarrow> digit_loop base type n tmp = tmp @ rev (radix type (if base = 10 then 10 else 16) (unat n))"
proof (induction base type n tmp rule: digit_loop.induct)
  case (1 base type n tmp)
  define b :: nat where "b = (if base = 10 then 10 else 16)"
  have d: "divide n base = (unat n mod b, if base = 10 then n div 10 else n div 16)" "b \<ge> 2"
    by (simp_all add: divide_def b_def unat_mod)
  define m where "m = (if base = 10 then n div 10 else n div 16)"
  have m: "unat m = unat n div b" by (simp add: m_def b_def unat_div)
  have e: "digit_loop base type n tmp = digit_loop base type m (tmp @ [digits type ! (unat n mod b)])"
    using 1(2) d by (subst digit_loop.simps) (simp add: m_def)
  show ?case
  proof (cases "m = 0")
    case True
    then have "unat n < b" using m d(2) by (simp add: div_eq_0_iff)
    then show ?thesis unfolding e b_def [symmetric] using True by (subst digit_loop.simps, subst radix.simps) simp
  next
    case False
    then have "\<not> unat n < b" using m by (auto simp: unat_eq_0)
    moreover have "digit_loop base type m (tmp @ [digits type ! (unat n mod b)]) =
        (tmp @ [digits type ! (unat n mod b)]) @ rev (radix type b (unat n div b))"
      unfolding b_def m [symmetric, unfolded b_def]
      using 1(1) [OF 1(2) _ _ False, of "(unat n mod b, m)"] d 1(2) by (simp add: m_def b_def)
    ultimately show ?thesis unfolding e b_def [symmetric] using d(2) by (simp add: radix.simps [of type b "unat n"])
  qed
qed

lemma number_digits:
  "rev (if n = 0 then ''0'' else digit_loop base type n []) = radix type (if base = 10 then 10 else 16) (unat n)"
proof (cases "n = 0")
  case True
  then show ?thesis by (subst radix.simps) (simp add: digits_def)
next
  case False
  then show ?thesis by (simp add: digit_loop_eq)
qed

lemma radix_clear: "radix (clear_flag f ZEROPAD) b n = radix f b n"
proof (induction f b n rule: radix.induct)
  case (1 f b n)
  then show ?case by (subst (1 2) radix.simps) (simp add: digits_clear)
qed

lemma unat_minus_neg:
  assumes "sint (x :: u32) < 0"
  shows "unat (- x) = nat (- sint x)"
proof -
  have "- x = word_of_int (- sint x)" by simp
  then have "uint (- x) = uint (word_of_int (- sint x) :: u32)" by (rule arg_cong)
  also have "\<dots> = (- sint x) mod 2 ^ 32" by (simp only: uint_word_of_int) simp
  finally have "uint (- x) = (- sint x) mod 2 ^ 32" .
  moreover have "- sint x < 2 ^ 32" using sint_greater_eq [of x] by simp
  ultimately have "uint (- x) = - sint x" using assms by simp
  then show ?thesis by (simp add: unat_eq_nat_uint)
qed

text \<open>The sign and the digits, from the code and from the closed form.\<close>

lemma number_sign_eq:
  assumes "number_sign type num = (sign, n)"
  shows "(case sign of None \<Rightarrow> [] | Some c \<Rightarrow> [c]) =
      (if has type SIGN \<and> sint num < 0 then ''-'' else if \<not> has type SIGN then [] else if has type PLUS then ''+''
       else if has type SPACE then '' '' else [])"
    and "unat n = (if has type SIGN \<and> sint num < 0 then nat (- sint num) else unat num)"
  using assms unat_minus_neg [of num] by (auto simp: number_sign_def word_sless_alt split: if_splits)

lemma print_number_eq:
  "print_number st num base width precision type = puts (number_text num base width precision type) st"
proof -
  define t where "t = (if has type LEFT then clear_flag type ZEROPAD else type)"
  have t: "has t LEFT = has type LEFT" "has t ZEROPAD = (has type ZEROPAD \<and> \<not> has type LEFT)"
    "has t SIGN = has type SIGN" "has t PLUS = has type PLUS" "has t SPACE = has type SPACE"
    "has t (ZEROPAD OR LEFT) = (has type ZEROPAD \<or> has type LEFT)"
    unfolding t_def by (cases "bit type 4"; simp only: has_bit clear_zeropad if_True if_False simp_thms; simp)+
  obtain sign n where sn: "number_sign t num = (sign, n)" by fastforce
  define tmp where "tmp = (if n = 0 then ''0'' else digit_loop base t n [])"
  define ds where "ds = radix type (if base = 10 then 10 else 16) (unat n)"
  have "radix t b m = radix type b m" for b m by (simp add: t_def radix_clear)
  then have r: "rev tmp = ds" by (simp add: tmp_def ds_def number_digits)
  have len: "length tmp = length ds" using arg_cong [OF r, of length] by simp
  have tmp: "put_tmp (length ds) tmp st = puts ds st" for st
    using put_tmp_eq [of "length tmp" tmp st] r len by simp
  define sg where "sg = (case sign of None \<Rightarrow> [] | Some c \<Rightarrow> [c])"
  have sg: "(if has type SIGN \<and> sint num < 0 then ''-'' else if \<not> has type SIGN then [] else if has type PLUS then ''+''
       else if has type SPACE then '' '' else []) = sg"
    using number_sign_eq(1) [OF sn] t by (simp add: sg_def)
  have un: "(if has type SIGN \<and> sint num < 0 then nat (- sint num) else unat num) = unat n"
    using number_sign_eq(2) [OF sn] t by simp
  have nt: "number_text num base width precision type =
    (let zeros = replicate (nat precision - length ds) (CHR ''0'');
         body = zeros @ (if precision = 0 then [] else ds);
         gap = nat (width - int (length sg + max (length ds) (nat precision)))
     in if has type LEFT then sg @ body @ replicate gap (CHR '' '')
        else if has type ZEROPAD then sg @ replicate gap (CHR ''0'') @ body
        else replicate gap (CHR '' '') @ sg @ body)"
    unfolding number_text_def Let_def sg un ds_def [symmetric] by (rule refl)
  define M where "M = max (int (length ds)) precision"
  have g: "width - int (length sg + max (length ds) (nat precision)) = width - M - int (length sg)"
    by (simp add: M_def of_nat_max)
  have p: "nat (M - int (length ds)) = nat precision - length ds"
    "(if int (length ds) > precision then int (length ds) else precision) = M" by (auto simp: M_def)
  show ?thesis
    unfolding nt g print_number_def Let_def t_def [symmetric] sn prod.case tmp_def [symmetric] len p t pad_post_eq pad_above_eq tmp
    by (cases sign; cases "has type LEFT"; cases "has type ZEROPAD") (auto simp: sg_def t p)
qed

lemma conv_char_eq: "conv_char width flags w st = puts (char_text width flags w) st"
  by (cases "has flags LEFT") (auto simp: conv_char_def char_text_def pad_pre_eq Let_def)

lemma conv_str_eq: "conv_str width precision flags s st = puts (str_text width precision flags s) st"
proof -
  define t where "t = (case s of None \<Rightarrow> ''(NULL)'' | Some s \<Rightarrow> s)"
  define len where "len = (if precision > 0 \<and> int (length t) > precision then precision else int (length t))"
  define u where "u = (if precision > 0 then take (nat precision) t else t)"
  have l: "len = int (length u)" "nat len = length u" by (auto simp: len_def u_def min_def)
  have "take (nat len) t = u" "nat len \<le> length t" by (auto simp: len_def u_def)
  then have "put_str (length u) t st = puts u st" for st using put_str_eq [of "nat len" t st] by (simp add: l)
  then show ?thesis
    unfolding conv_str_def str_text_def Let_def t_def [symmetric] len_def [symmetric] u_def [symmetric] pad_above_eq l
    by (cases "has flags LEFT") auto
qed

lemma vs_switch_eq: "vs_switch flags w p q fmt args st =
    map_option (\<lambda>(fmt, args, t). (fmt, args, puts t st)) (switch_text flags w p q fmt args)"
proof (cases fmt)
  case (Cons c rest)
  show ?thesis unfolding Cons vs_switch.simps switch_text.simps
    by (cases "va_int args"; cases "va_str args"; cases "number_conv c flags")
      (simp_all add: conv_char_eq conv_str_eq print_number_eq split: prod.splits)
qed simp

lemma vs_conv_eq:
  "vs_conv fmt args st = map_option (\<lambda>(fmt, args, t). (fmt, args, puts t st)) (conv_text fmt args)"
  by (auto simp: vs_conv_def conv_text_def vs_switch_eq split: bind_splits)

lemma vs_loop_eq: "vs_loop fmt args st = map_option (\<lambda>t. puts t st) (fmt_text fmt args)"
proof (induction fmt args arbitrary: st rule: fmt_text.induct)
  case (2 c fmt args)
  show ?case
  proof (cases "c = CHR ''%''")
    case True
    show ?thesis
    proof (cases "conv_text fmt args")
      case None
      then show ?thesis using True by (simp add: vs_conv_eq)
    next
      case (Some r)
      obtain fmt' args' t where r: "r = (fmt', args', t)" by (metis prod_cases3)
      have "vs_loop fmt' args' u = map_option (\<lambda>t. puts t u) (fmt_text fmt' args')" for u
        by (rule 2(2)) (use True Some r in auto)
      then show ?thesis using True Some r by (simp add: vs_conv_eq option.map_comp comp_def)
    qed
  next
    case False
    then show ?thesis using 2(1) [of "put c st"] by (simp add: option.map_comp comp_def)
  qed
qed simp

subsection \<open>The text in the buffer\<close>

lemma put_sel:
  "opos (put c st) = opos st + 1" "oend (put c st) = oend st" "length (obuf (put c st)) = length (obuf st)"
  "i < length (obuf st) \<Longrightarrow> obuf (put c st) ! i = (if i = opos st \<and> opos st < oend st then c else obuf st ! i)"
  "overrun (put c st) \<longleftrightarrow> overrun st \<or> opos st < oend st \<and> length (obuf st) \<le> opos st"
  by (auto simp: put_def poke_def Let_def nth_list_update)

lemma puts_sel:
  "opos (puts t st) = opos st + length t" "oend (puts t st) = oend st" "length (obuf (puts t st)) = length (obuf st)"
  by (induction t arbitrary: st) (simp_all add: put_sel)

lemma puts_nth:
  "i < length (obuf st) \<Longrightarrow> obuf (puts t st) ! i =
     (if opos st \<le> i \<and> i < min (opos st + length t) (oend st) then t ! (i - opos st) else obuf st ! i)"
  by (induction t arbitrary: st) (auto simp: put_sel nth_Cons')

lemma puts_overrun:
  "overrun (puts t st) \<longleftrightarrow> overrun st \<or> max (opos st) (length (obuf st)) < min (opos st + length t) (oend st)"
proof (induction t arbitrary: st)
  case (Cons c t)
  have "max p l < min (p + Suc k) e \<longleftrightarrow> p < e \<and> l \<le> p \<or> max (p + 1) l < min (p + 1 + k) e" for p l k e :: nat
    by (simp only: max_less_iff_conj min_less_iff_conj) arith
  then show ?case using Cons.IH [of "put c st"] by (simp only: puts_simps put_sel length_Cons) blast
qed simp

text \<open>The text cut to a buffer of \<open>n\<close> characters and terminated.\<close>

definition cut_text :: "nat \<Rightarrow> string \<Rightarrow> string \<Rightarrow> string" where
  "cut_text n t b = (if n = 0 then b
     else let m = min (length t) (n - 1) in take m t @ CHR 0x00 # drop (m + 1) b)"

lemma cut_text_nth:
  assumes "min (length t) (n - 1) < length b" "i < length b" "n > 0"
  shows "cut_text n t b ! i = (if i < min (length t) (n - 1) then t ! i else if i = min (length t) (n - 1) then CHR 0x00 else b ! i)"
proof -
  define m where "m = min (length t) (n - 1)"
  have "m \<le> length t" "m < length b" using assms by (auto simp: m_def)
  then show ?thesis using assms(2,3) by (auto simp: cut_text_def nth_append Let_def nth_Cons' simp flip: m_def)
qed

text \<open>The terminator, written behind the text or over its last character that fits.\<close>

definition terminate :: "out \<Rightarrow> out" where
  "terminate st = (if oend st > 0
     then if opos st < oend st then poke (opos st) (CHR 0x00) st else poke (oend st - 1) (CHR 0x00) st
     else st)"

lemma terminate_puts:
  assumes "n \<le> length b \<or> length t < length b"
  shows "terminate (puts t \<lparr>obuf = b, opos = 0, oend = n, overrun = False\<rparr>) =
    \<lparr>obuf = cut_text n t b, opos = length t, oend = n, overrun = False\<rparr>"
proof -
  define st0 where "st0 = \<lparr>obuf = b, opos = 0, oend = n, overrun = False\<rparr>"
  define st where "st = puts t st0"
  have sel: "opos st = length t" "oend st = n" "length (obuf st) = length b"
    "i < length b \<Longrightarrow> obuf st ! i = (if i < min (length t) n then t ! i else b ! i)" for i
    using puts_sel [of t st0] puts_nth [of i st0 t] by (simp_all add: st_def st0_def)
  have no: "\<not> overrun st" using puts_overrun [of t st0] assms by (auto simp: st_def st0_def)
  have "terminate st = \<lparr>obuf = cut_text n t b, opos = length t, oend = n, overrun = False\<rparr>"
  proof (cases "n = 0")
    case True
    then have "obuf st = b" using sel(3,4) by (intro nth_equalityI) auto
    then show ?thesis using True no sel(1,2) by (intro out.equality) (simp_all add: cut_text_def terminate_def)
  next
    case False
    define m where "m = min (length t) (n - 1)"
    have m: "m < length b" using False assms by (auto simp: m_def)
    have len: "length (cut_text n t b) = length b" using m False by (auto simp: cut_text_def Let_def m_def)
    have "(obuf st)[m := CHR 0x00] = cut_text n t b"
      using sel(3,4) m False cut_text_nth [of t n b] by (intro nth_equalityI) (auto simp: len nth_list_update m_def)
    moreover have "(if length t < n then length t else n - 1) = m" using False by (auto simp: m_def)
    then have "terminate st = poke m (CHR 0x00) st" using False by (simp add: terminate_def sel(1,2) split: if_splits)
    ultimately show ?thesis using no sel(1,2,3) m by (intro out.equality) (simp_all add: poke_def)
  qed
  then show ?thesis by (simp add: st_def st0_def)
qed

lemma rt_vsnprintf_terminate:
  "rt_vsnprintf buf n fmt args b =
    (let n = (if (buf + n) mod 2 ^ 32 < buf then 2 ^ 32 - 1 - buf else n)
     in map_option (\<lambda>t. (length t, terminate (puts t \<lparr>obuf = b, opos = 0, oend = n, overrun = False\<rparr>))) (fmt_text fmt args))"
proof -
  have "opos (poke i c st) = opos st" for i c st by (simp add: poke_def)
  then show ?thesis unfolding rt_vsnprintf_def Let_def vs_loop_eq
    by (cases "fmt_text fmt args") (simp_all add: terminate_def puts_sel)
qed

lemma rt_vsnprintf_eq:
  assumes "n \<le> length b" "buf + n < 2 ^ 32"
  shows "rt_vsnprintf buf n fmt args b =
    map_option (\<lambda>t. (length t, \<lparr>obuf = cut_text n t b, opos = length t, oend = n, overrun = False\<rparr>)) (fmt_text fmt args)"
  using assms by (cases "fmt_text fmt args") (simp_all add: rt_vsnprintf_terminate terminate_puts)

text \<open>\<open>rt_sprintf\<close> trusts its caller: a text that does not fit with its terminator is written past the object.\<close>

lemma rt_sprintf_eq:
  assumes "0 < buf" "buf + length b < 2 ^ 32 - 1"
  shows "fmt_text fmt args = None \<Longrightarrow> rt_sprintf buf fmt args b = None"
    and "fmt_text fmt args = Some t \<Longrightarrow> \<exists>st. rt_sprintf buf fmt args b = Some (length t, st) \<and>
      (if length t < length b then obuf st = t @ CHR 0x00 # drop (length t + 1) b \<and> \<not> overrun st else overrun st)"
proof -
  have wrap: "(buf + (2 ^ 32 - 1)) mod 2 ^ 32 = buf - 1" using assms
    by (subst mod_if) (simp add: mod_if)
  define e :: nat where "e = 2 ^ 32 - 1 - buf"
  have e: "length b < e" using assms by (auto simp: e_def)
  have r: "rt_sprintf buf fmt args b =
      map_option (\<lambda>t. (length t, terminate (puts t \<lparr>obuf = b, opos = 0, oend = e, overrun = False\<rparr>))) (fmt_text fmt args)"
    unfolding rt_sprintf_def rt_vsprintf_def rt_vsnprintf_terminate wrap Let_def e_def using assms(1) by simp
  show "fmt_text fmt args = None \<Longrightarrow> rt_sprintf buf fmt args b = None" by (simp add: r)
  assume t: "fmt_text fmt args = Some t"
  define st where "st = puts t \<lparr>obuf = b, opos = 0, oend = e, overrun = False\<rparr>"
  have "overrun (terminate st)" if "\<not> length t < length b"
  proof (cases "length t < e")
    case True
    then show ?thesis using that puts_sel [of t "\<lparr>obuf = b, opos = 0, oend = e, overrun = False\<rparr>"]
      by (simp add: st_def terminate_def poke_def)
  next
    case False
    then have "overrun st" using that e puts_overrun [of t "\<lparr>obuf = b, opos = 0, oend = e, overrun = False\<rparr>"]
      by (auto simp: st_def)
    then show ?thesis by (simp add: terminate_def poke_def)
  qed
  moreover have "terminate st = \<lparr>obuf = t @ CHR 0x00 # drop (length t + 1) b, opos = length t, oend = e, overrun = False\<rparr>"
    if "length t < length b"
    unfolding st_def using that e by (subst terminate_puts) (auto simp: cut_text_def Let_def min_def)
  ultimately show "\<exists>st. rt_sprintf buf fmt args b = Some (length t, st) \<and>
      (if length t < length b then obuf st = t @ CHR 0x00 # drop (length t + 1) b \<and> \<not> overrun st else overrun st)"
    using t by (auto simp: r simp flip: st_def)
qed

subsection \<open>Numbers come back\<close>

lemma of_char_digit:
  assumes "i < 10"
  shows "isdigit (digits type ! i) \<and> of_char (digits type ! i) = int i + 48"
proof -
  have "i \<in> {0, 1, 2, 3, 4, 5, 6, 7, 8, 9}" using assms by auto
  then show ?thesis by (auto simp: digits_def isdigit_def)
qed

lemma skip_atoi_radix:
  "skip_atoi i (radix type 10 n @ s) = skip_atoi (i * 10 ^ length (radix type 10 n) + int n) s"
proof (induction type "10 :: nat" n arbitrary: s rule: radix.induct)
  case (1 type n)
  show ?case
  proof (cases "n < 10")
    case True
    then show ?thesis using of_char_digit [of n type] by (simp add: radix.simps [of type 10 n])
  next
    case False
    have "skip_atoi i (radix type 10 n @ s) = skip_atoi i (radix type 10 (n div 10) @ (digits type ! (n mod 10)) # s)"
      using False by (simp add: radix.simps [of type 10 n])
    also have "\<dots> = skip_atoi (i * 10 ^ length (radix type 10 (n div 10)) + int (n div 10)) ((digits type ! (n mod 10)) # s)"
      using False by (intro 1) auto
    also have "\<dots> = skip_atoi ((i * 10 ^ length (radix type 10 (n div 10)) + int (n div 10)) * 10 + int (n mod 10)) s"
      using of_char_digit [of "n mod 10" type] by (simp add: add.assoc)
    also have "(i * 10 ^ length (radix type 10 (n div 10)) + int (n div 10)) * 10 + int (n mod 10) =
        i * 10 ^ length (radix type 10 n) + int n"
      using False by (simp add: radix.simps [of type 10 n] algebra_simps zdiv_int zmod_int)
    finally show ?thesis .
  qed
qed

lemma radix_length: "n < 10 ^ Suc k \<Longrightarrow> length (radix type 10 n) \<le> Suc k"
proof (induction k arbitrary: n)
  case 0
  then show ?case by (simp add: radix.simps [of type 10 n])
next
  case (Suc k)
  have "n div 10 < 10 ^ Suc k" using Suc.prems by (simp add: less_mult_imp_div_less)
  then show ?case using Suc.IH [of "n div 10"] by (simp add: radix.simps [of type 10 n])
qed

text \<open>The two decimal conversions without width or precision.\<close>

lemma decimal_text:
  "fmt_text ''%d'' [VaInt w] = Some ((if sint w < 0 then ''-'' else []) @ radix 2 10 (nat \<bar>sint w\<bar>))"
  "fmt_text ''%u'' [VaInt w] = Some (radix 0 10 (unat w))"
proof -
  have f: "has 2 SIGN" "\<not> has 2 PLUS" "\<not> has 2 SPACE" "\<not> has 2 LEFT" "\<not> has 2 ZEROPAD"
    "\<not> has 0 SIGN" "\<not> has 0 LEFT" "\<not> has 0 ZEROPAD" by (simp_all add: has_def)
  have u: "unat w = nat (sint w)" if "\<not> sint w < 0"
  proof -
    have "w = word_of_int (sint w)" by simp
    then have "uint w = uint (word_of_int (sint w) :: u32)" by (rule arg_cong)
    also have "\<dots> = sint w mod 2 ^ 32" by (simp only: uint_word_of_int) simp
    also have "\<dots> = sint w" using that sint_less [of w] by simp
    finally show ?thesis by (simp add: unat_eq_nat_uint)
  qed
  have "fmt_text ''%d'' [VaInt w] = Some (number_text w 10 (-1) (-1) 2)"
    "fmt_text ''%u'' [VaInt w] = Some (number_text w 10 (-1) (-1) 0)"
    by (simp_all add: conv_text_def get_spec_def get_precision_def number_conv_def get_num_def isdigit_def)
  then show "fmt_text ''%d'' [VaInt w] = Some ((if sint w < 0 then ''-'' else []) @ radix 2 10 (nat \<bar>sint w\<bar>))"
    "fmt_text ''%u'' [VaInt w] = Some (radix 0 10 (unat w))"
    using u by (simp_all add: number_text_def f Let_def)
qed

subsection \<open>Properties\<close>



lemma snprintf_short:
  assumes "fmt_text fmt args = Some t" "length t < n" "n \<le> length b" "buf + n < 2 ^ 32"
  shows "\<exists>st. rt_snprintf buf n fmt args b = Some (length t, st) \<and> \<not> overrun st \<and>
    obuf st = t @ CHR 0x00 # drop (length t + 1) b"
proof -
  have "cut_text n t b = t @ CHR 0x00 # drop (length t + 1) b" using assms(2) by (auto simp: cut_text_def Let_def min_def)
  then show ?thesis using rt_vsnprintf_eq [OF assms(3,4), of fmt args] assms(1) by (simp add: rt_snprintf_def)
qed

lemma skip_atoi_stop: "s = [] \<or> \<not> isdigit (hd s) \<Longrightarrow> skip_atoi i s = (i, s)"
  by (cases s) auto

text \<open>
  Decimal numbers come back: a 32-bit value printed with \<^verbatim>\<open>%d\<close> or \<^verbatim>\<open>%u\<close> into twelve bytes or more
  is there whole, and the kernel's own \<open>skip_atoi\<close> reads the value from its digits; this includes
  the most negative value.
\<close>

theorem rt_snprintf_decimal:
  assumes "12 \<le> n" "n \<le> length b" "buf + n < 2 ^ 32" "rest = [] \<or> \<not> isdigit (hd rest)"
  shows "(\<exists>ds t st. rt_snprintf buf n ''%d'' [VaInt w] b = Some (length t, st) \<and> \<not> overrun st \<and>
      obuf st = t @ CHR 0x00 # drop (length t + 1) b \<and> t = (if sint w < 0 then ''-'' else []) @ ds \<and>
      skip_atoi 0 (ds @ rest) = (\<bar>sint w\<bar>, rest)) \<and>
    (\<exists>t st. rt_snprintf buf n ''%u'' [VaInt w] b = Some (length t, st) \<and> \<not> overrun st \<and>
      obuf st = t @ CHR 0x00 # drop (length t + 1) b \<and> skip_atoi 0 (t @ rest) = (uint w, rest))"
proof
  define ds where "ds = radix 2 10 (nat \<bar>sint w\<bar>)"
  define t where "t = (if sint w < 0 then ''-'' else []) @ ds"
  have "nat \<bar>sint w\<bar> < 10 ^ Suc 9" using sint_greater_eq [of w] sint_less [of w] by simp
  then have "length ds \<le> Suc 9" unfolding ds_def by (rule radix_length)
  then have "length t < n" using assms(1) by (simp add: t_def)
  then obtain st where "rt_snprintf buf n ''%d'' [VaInt w] b = Some (length t, st)" "\<not> overrun st"
    "obuf st = t @ CHR 0x00 # drop (length t + 1) b"
    using snprintf_short [OF decimal_text(1) _ assms(2,3), of w] by (auto simp: t_def ds_def)
  moreover have "skip_atoi 0 (ds @ rest) = (\<bar>sint w\<bar>, rest)"
    by (simp add: ds_def skip_atoi_radix skip_atoi_stop [OF assms(4)])
  ultimately show "\<exists>ds t st. rt_snprintf buf n ''%d'' [VaInt w] b = Some (length t, st) \<and> \<not> overrun st \<and>
      obuf st = t @ CHR 0x00 # drop (length t + 1) b \<and> t = (if sint w < 0 then ''-'' else []) @ ds \<and>
      skip_atoi 0 (ds @ rest) = (\<bar>sint w\<bar>, rest)" using t_def by blast
next
  define t where "t = radix 0 10 (unat w)"
  have "unat w < 10 ^ Suc 9" using unat_bound32 [of w] by simp
  then have "length t \<le> Suc 9" unfolding t_def by (rule radix_length)
  then obtain st where "rt_snprintf buf n ''%u'' [VaInt w] b = Some (length t, st)" "\<not> overrun st"
    "obuf st = t @ CHR 0x00 # drop (length t + 1) b"
    using snprintf_short [OF decimal_text(2) _ assms(2,3), of w] assms(1) by (auto simp: t_def)
  moreover have "skip_atoi 0 (t @ rest) = (uint w, rest)"
    by (simp add: t_def skip_atoi_radix skip_atoi_stop [OF assms(4)])
  ultimately show "\<exists>t st. rt_snprintf buf n ''%u'' [VaInt w] b = Some (length t, st) \<and> \<not> overrun st \<and>
      obuf st = t @ CHR 0x00 # drop (length t + 1) b \<and> skip_atoi 0 (t @ rest) = (uint w, rest)" by blast
qed

theorem rt_snprintf_decimal_witness:
  "\<exists>ds t st. rt_snprintf 1000 12 ''%d'' [VaInt 0x80000000] (replicate 12 (CHR ''.'')) = Some (length t, st) \<and>
     t = ''-'' @ ds \<and> skip_atoi 0 (ds @ '' s'') = (2147483648, '' s'')"
  using rt_snprintf_decimal [where n = 12 and b = "replicate 12 (CHR ''.'')" and buf = 1000 and rest = "'' s''" and w = "0x80000000"] by (auto simp: isdigit_def)

end
