(* ===== verification/Rt_Mempool.thy ===== *)
theory Rt_Mempool
  imports Rt_Mq
begin

section \<open>Memory pools (\<^verbatim>\<open>rt-thread/src/mempool.c\<close>)\<close>

text \<open>
  A pool of equal blocks. In front of each block is one pointer: the next free block, or the pool
  when the block is handed out. Pointers are 32-bit addresses, 0 is null; \<open>header\<close> is the memory that
  holds those pointers. A thread that finds the pool empty waits, at the front of the list. The
  lemmas show that over every interleaving a block is free or held exactly once, and that held
  blocks do not overlap.
\<close>

subsection \<open>Operations\<close>

record rt_mempool =
  mp_addr :: nat
  start_address :: nat
  mp_size :: nat
  block_size :: nat
  block_list :: nat
  block_total_count :: nat
  block_free_count :: nat
  header :: "nat \<Rightarrow> nat"

text \<open>The distance of two blocks: \<^verbatim>\<open>block_size + sizeof(rt_uint8_t *)\<close>.\<close>

definition pitch :: "nat \<Rightarrow> nat" where
  "pitch bs = bs + 4"

definition init_link :: "nat \<Rightarrow> nat \<Rightarrow> nat \<Rightarrow> (nat \<Rightarrow> nat) \<Rightarrow> (nat \<Rightarrow> nat)" where
  "init_link p bs off h = h(p + off * pitch bs := p + (off + 1) * pitch bs)"

text \<open>
  \<open>rt_mp_init\<close>: \<open>h\<close> is the memory before the call. The last link is cut at \<^verbatim>\<open>(offset - 1) * ...\<close>, which is one
  block in front of the pool when the pool has no room for a block.
\<close>

definition rt_mp_init :: "nat \<Rightarrow> nat \<Rightarrow> nat \<Rightarrow> nat \<Rightarrow> nat \<Rightarrow> (nat \<Rightarrow> nat) \<Rightarrow> kern \<Rightarrow> rt_mempool \<times> kern" where
  "rt_mp_init i mp start size0 bsize h k =
     (let k = rt_assert (size0 > 0 \<and> bsize > 0) k;
          size0 = size0 - size0 mod 8;
          bs = RT_ALIGN8 bsize mod 2 ^ 32;
          n = size0 div pitch bs;
          h = fold (init_link start bs) [0..<n] h;
          h = h((start + n * pitch bs + 2 ^ 32 - pitch bs) mod 2 ^ 32 := 0)
      in (\<lparr>mp_addr = mp, start_address = start, mp_size = size0, block_size = bs, block_list = start,
           block_total_count = n, block_free_count = n, header = h\<rparr>,
          k\<lparr>queues := (queues k)(Wait i := [])\<rparr>))"

definition rt_mp_detach :: "nat \<Rightarrow> kern \<Rightarrow> kern" where
  "rt_mp_detach i k = rt_ipc_list_resume_all (Wait i) k"

datatype mp_out = MpBlock nat | MpNull | MpWait

definition mp_wait :: "nat \<Rightarrow> tid \<Rightarrow> int \<Rightarrow> kern \<Rightarrow> kern" where
  "mp_wait i t time k =
     (let k = fst (rt_thread_suspend t k);
          k = k\<lparr>queues := (queues k)(Wait i := t # queues k (Wait i))\<rparr>
      in ipc_sleep t time k)"

text \<open>
  One pass of the loop of \<open>rt_mp_alloc\<close>, and what follows when the thread runs again: it fails with
  the error it was woken with, or takes another pass with the time that is left.
\<close>

definition rt_mp_alloc :: "nat \<Rightarrow> tid \<Rightarrow> int \<Rightarrow> rt_mempool \<times> kern \<Rightarrow> (rt_mempool \<times> kern) \<times> mp_out" where
  "rt_mp_alloc i t time = (\<lambda>(mp, k).
     if block_free_count mp = 0
     then if time = 0 then ((mp, set_error t RT_ETIMEOUT k), MpNull)
          else ((mp, mp_wait i t time (set_error t RT_EOK k)), MpWait)
     else let b = block_list mp;
              k = rt_assert (b \<noteq> 0) k
          in ((mp\<lparr>block_free_count := block_free_count mp - 1, block_list := header mp b,
                  header := (header mp)(b := mp_addr mp)\<rparr>, k), MpBlock (b + 4)))"

definition rt_mp_alloc_resume ::
  "nat \<Rightarrow> tid \<Rightarrow> int \<Rightarrow> u32 \<Rightarrow> rt_mempool \<times> kern \<Rightarrow> (rt_mempool \<times> kern) \<times> mp_out" where
  "rt_mp_alloc_resume i t time start = (\<lambda>(mp, k).
     if th_error (threads k t) \<noteq> RT_EOK then ((mp, k), MpNull)
     else rt_mp_alloc i t (timeout_left time start (rt_tick k)) (mp, k))"

text \<open>
  \<open>rt_mp_free\<close> finds the pool through the pointer in front of the block; \<open>None\<close> when that is not this
  pool, as for a block that is free already.
\<close>

definition rt_mp_free :: "nat \<Rightarrow> nat \<Rightarrow> rt_mempool \<times> kern \<Rightarrow> (rt_mempool \<times> kern) option" where
  "rt_mp_free i block = (\<lambda>(mp, k).
     if block = 0 then Some (mp, k)
     else let p = block - 4
          in if header mp p \<noteq> mp_addr mp then None
             else let mp = mp\<lparr>block_free_count := block_free_count mp + 1, block_list := p,
                              header := (header mp)(p := block_list mp)\<rparr>
                  in Some (mp,
                       if queues k (Wait i) \<noteq> []
                       then let t = hd (queues k (Wait i))
                            in rt_schedule (fst (rt_thread_resume t (set_error t RT_EOK k)))
                       else k))"

subsection \<open>Blocks\<close>

definition pool_blocks :: "rt_mempool \<Rightarrow> nat list" where
  "pool_blocks mp = map (\<lambda>j. start_address mp + j * pitch (block_size mp)) [0..<block_total_count mp]"

text \<open>The blocks handed out, by the address the client has.\<close>

definition mp_used :: "rt_mempool \<Rightarrow> nat set" where
  "mp_used mp = (\<lambda>b. b + 4) ` {b \<in> set (pool_blocks mp). header mp b = mp_addr mp}"

definition ptr :: "nat \<Rightarrow> nat option" where
  "ptr p = (if p = 0 then None else Some p)"

definition mp_shape :: "rt_mempool \<Rightarrow> nat list \<Rightarrow> bool" where
  "mp_shape mp fs \<longleftrightarrow> chain (ptr \<circ> header mp) (ptr (block_list mp)) fs \<and> distinct fs \<and>
     set fs \<subseteq> set (pool_blocks mp) \<and> block_free_count mp = length fs \<and>
     (\<forall>b \<in> set (pool_blocks mp). header mp b = mp_addr mp \<longleftrightarrow> b \<notin> set fs)"

definition mp_inv :: "rt_mempool \<Rightarrow> bool" where
  "mp_inv mp \<longleftrightarrow> (\<exists>fs. mp_shape mp fs) \<and> 0 < start_address mp \<and> 0 < mp_addr mp \<and>
     mp_addr mp \<notin> set (pool_blocks mp)"

lemma ptr_simps [simp]: "ptr 0 = None" "ptr p = None \<longleftrightarrow> p = 0" "ptr p = Some q \<longleftrightarrow> p = q \<and> q \<noteq> 0"
  by (auto simp: ptr_def)

lemma ptr_upd: "ptr \<circ> h(a := v) = (ptr \<circ> h)(a := ptr v)"
  by (auto simp: fun_eq_iff)

lemma pitch_pos [simp]: "0 < pitch bs" "pitch bs \<noteq> 0"
  by (simp_all add: pitch_def)

lemma pool_blocks_pos: "0 < start_address mp \<Longrightarrow> b \<in> set (pool_blocks mp) \<Longrightarrow> 0 < b"
  by (auto simp: pool_blocks_def)

lemma distinct_pool_blocks: "distinct (pool_blocks mp)"
  by (auto simp: pool_blocks_def distinct_map inj_on_def)

text \<open>Distinct blocks are at least a block apart.\<close>

lemma pool_blocks_apart:
  assumes "a \<in> set (pool_blocks mp)" "b \<in> set (pool_blocks mp)" "a < b"
  shows "a + pitch (block_size mp) \<le> b"
proof -
  obtain m n where e: "a = start_address mp + m * pitch (block_size mp)" "b = start_address mp + n * pitch (block_size mp)"
    using assms(1,2) by (auto simp: pool_blocks_def)
  then have "Suc m \<le> n" using assms(3) by simp
  then have "Suc m * pitch (block_size mp) \<le> n * pitch (block_size mp)" by (rule mult_le_mono1)
  then show ?thesis using e by simp
qed

lemma pool_blocks_inside:
  assumes "b \<in> set (pool_blocks mp)"
  shows "start_address mp \<le> b \<and> b + pitch (block_size mp) \<le> start_address mp + block_total_count mp * pitch (block_size mp)"
proof -
  obtain n where n: "b = start_address mp + n * pitch (block_size mp)" "n < block_total_count mp"
    using assms by (auto simp: pool_blocks_def)
  have "Suc n * pitch (block_size mp) \<le> block_total_count mp * pitch (block_size mp)" using n(2) by (intro mult_le_mono1) simp
  then show ?thesis using n by simp
qed

subsection \<open>Allocation and release\<close>

lemma mp_take:
  assumes "mp_inv mp" "block_free_count mp \<noteq> 0"
  defines "b \<equiv> block_list mp"
  defines "mp' \<equiv> mp\<lparr>block_free_count := block_free_count mp - 1, block_list := header mp b, header := (header mp)(b := mp_addr mp)\<rparr>"
  shows "mp_inv mp'" "b \<in> set (pool_blocks mp)" "b + 4 \<notin> mp_used mp" "mp_used mp' = insert (b + 4) (mp_used mp)"
proof -
  obtain fs where s: "mp_shape mp fs" using assms(1) by (auto simp: mp_inv_def)
  obtain rest where fs: "fs = b # rest"
    using s assms(2) by (cases fs) (auto simp: mp_shape_def b_def)
  have p: "pool_blocks mp' = pool_blocks mp" "mp_addr mp' = mp_addr mp" "start_address mp' = start_address mp"
    by (simp_all add: mp'_def pool_blocks_def)
  show b: "b \<in> set (pool_blocks mp)" using s fs by (auto simp: mp_shape_def)
  have "chain (ptr \<circ> header mp) (ptr (header mp b)) rest" "b \<notin> set rest" "distinct rest"
    using s by (simp_all add: mp_shape_def fs)
  then have "mp_shape mp' rest" using s unfolding mp_shape_def p by (auto simp: mp'_def fs ptr_upd)
  then show "mp_inv mp'" using assms(1) by (auto simp: mp_inv_def p)
  have "header mp b \<noteq> mp_addr mp" using s b by (auto simp: mp_shape_def fs)
  then show "b + 4 \<notin> mp_used mp" by (auto simp: mp_used_def)
  show "mp_used mp' = insert (b + 4) (mp_used mp)" using b by (auto simp: mp_used_def p) (auto simp: mp'_def)
qed

lemma mp_give:
  assumes "mp_inv mp" "block \<in> mp_used mp"
  defines "p \<equiv> block - 4"
  defines "mp' \<equiv> mp\<lparr>block_free_count := block_free_count mp + 1, block_list := p, header := (header mp)(p := block_list mp)\<rparr>"
  shows "mp_inv mp'" "header mp p = mp_addr mp" "mp_used mp' = mp_used mp - {block}" "block > 4"
proof -
  obtain fs where s: "mp_shape mp fs" using assms(1) by (auto simp: mp_inv_def)
  have p: "p \<in> set (pool_blocks mp)" "header mp p = mp_addr mp" "block = p + 4"
    using assms(2) by (auto simp: mp_used_def p_def)
  have p0: "p \<noteq> 0" "block > 4" using p pool_blocks_pos [of mp p] assms(1) by (auto simp: mp_inv_def)
  have e: "pool_blocks mp' = pool_blocks mp" "mp_addr mp' = mp_addr mp" "start_address mp' = start_address mp"
    by (simp_all add: mp'_def pool_blocks_def)
  have f: "p \<notin> set fs" using s p by (auto simp: mp_shape_def)
  have head: "block_list mp \<noteq> mp_addr mp"
    using s assms(1) by (cases fs) (auto simp: mp_shape_def mp_inv_def)
  have "mp_shape mp' (p # fs)"
    using s f p p0 head unfolding mp_shape_def e by (auto simp: mp'_def ptr_upd)
  then show "mp_inv mp'" using assms(1) by (auto simp: mp_inv_def e)
  show "header mp p = mp_addr mp" "block > 4" using p p0 by simp_all
  show "mp_used mp' = mp_used mp - {block}" using p(3) head by (auto simp: mp_used_def e) (auto simp: mp'_def split: if_splits)
qed

subsection \<open>Initialisation\<close>

lemma fold_init_link:
  "fold (init_link p bs) [0..<n] h a = (if \<exists>j<n. a = p + j * pitch bs then a + pitch bs else h a)"
  by (induction n) (auto simp: init_link_def less_Suc_eq)

lemma chain_blocks:
  assumes "\<And>j. j < n \<Longrightarrow> h (p + j * d) = (if Suc j = n then 0 else p + Suc j * d)" "m < n" "0 < (p :: nat)"
  shows "chain (ptr \<circ> h) (ptr (p + m * d)) (map (\<lambda>j. p + j * d) [m..<n])"
  using assms(2)
proof (induction "n - m" arbitrary: m)
  case (Suc k)
  show ?case
  proof (cases "Suc m = n")
    case True
    then have "[m..<n] = [m]" by (simp flip: True)
    then show ?thesis using assms(1) [of m] assms(3) Suc.prems True by simp
  next
    case False
    then have "chain (ptr \<circ> h) (ptr (p + Suc m * d)) (map (\<lambda>j. p + j * d) [Suc m..<n])"
      using Suc by (intro Suc.hyps(1)) auto
    moreover have "ptr (h (p + m * d)) = ptr (p + Suc m * d)" using assms(1) [of m] Suc.prems False by simp
    ultimately show ?thesis using assms(3) Suc.prems upt_conv_Cons [of m n] by auto
  qed
qed simp

lemma mp_init_inv:
  fixes h :: "nat \<Rightarrow> nat" and k :: kern and i :: nat
  assumes "0 < start" "start + size0 \<le> 2 ^ 32" "0 < mp" "mp < start \<or> start + size0 \<le> mp" "bsize + 8 \<le> 2 ^ 32"
  defines "s \<equiv> fst (rt_mp_init i mp start size0 bsize h k)"
  assumes "0 < block_total_count s"
  shows "mp_inv s" "mp_used s = {}" "bsize \<le> block_size s" "block_free_count s = block_total_count s"
    "block_total_count s * pitch (block_size s) \<le> size0" "start_address s = start"
proof -
  define bs where "bs = block_size s"
  define n where "n = block_total_count s"
  have bs: "bs = RT_ALIGN8 bsize" using assms(5) RT_ALIGN8_bounds(2) [of bsize] by (simp add: bs_def s_def rt_mp_init_def Let_def)
  have s: "s = \<lparr>mp_addr = mp, start_address = start, mp_size = size0 - size0 mod 8, block_size = bs, block_list = start,
      block_total_count = n, block_free_count = n, header = (fold (init_link start bs) [0..<n] h)
        ((start + n * pitch bs + 2 ^ 32 - pitch bs) mod 2 ^ 32 := 0)\<rparr>"
    by (simp add: s_def rt_mp_init_def Let_def n_def bs_def)
  have "n = (size0 - size0 mod 8) div pitch bs" by (simp add: n_def bs_def s_def rt_mp_init_def Let_def)
  then have fit: "n * pitch bs \<le> size0"
    using order_trans [OF div_times_less_eq_dividend [of "size0 - size0 mod 8" "pitch bs"] diff_le_self] by (simp only:)
  have n: "0 < n" using assms(7) by (simp add: n_def)
  then have np: "n * pitch bs = (n - 1) * pitch bs + pitch bs" by (cases n) auto
  have last: "(start + n * pitch bs + 2 ^ 32 - pitch bs) mod 2 ^ 32 = start + (n - 1) * pitch bs"
  proof -
    have "start + (n - 1) * pitch bs < 2 ^ 32" using assms(2) fit np pitch_pos(1) [of bs] by linarith
    moreover have "start + n * pitch bs + 2 ^ 32 - pitch bs = start + (n - 1) * pitch bs + 2 ^ 32" using np by simp
    ultimately show ?thesis by simp
  qed
  have hs: "header s = (fold (init_link start bs) [0..<n] h)(start + (n - 1) * pitch bs := 0)"
    by (simp only: s rt_mempool.select_convs last)
  have h: "header s (start + j * pitch bs) = (if Suc j = n then 0 else start + Suc j * pitch bs)" if "j < n" for j
    using that n unfolding hs by (auto simp: fold_init_link)
  have pb: "pool_blocks s = map (\<lambda>j. start + j * pitch bs) [0..<n]" by (simp add: pool_blocks_def s)
  have "chain (ptr \<circ> header s) (ptr (start + 0 * pitch bs)) (map (\<lambda>j. start + j * pitch bs) [0..<n])"
    by (rule chain_blocks) (use h n assms(1) in auto)
  then have ch: "chain (ptr \<circ> header s) (ptr (block_list s)) (pool_blocks s)" unfolding pb by (simp add: s)
  have out: "header s b \<noteq> mp" "b \<noteq> mp" if bp: "b \<in> set (pool_blocks s)" for b
  proof -
    obtain j where j: "j < n" "b = start + j * pitch bs" using bp unfolding pb by auto
    have "j * pitch bs < n * pitch bs" using j(1) by simp
    then show "b \<noteq> mp" using assms(4) fit j(2) by linarith
    show "header s b \<noteq> mp"
    proof (cases "Suc j = n")
      case False
      then have "Suc j * pitch bs < n * pitch bs" using j(1) by (intro mult_less_mono1) auto
      then show ?thesis using False h [OF j(1)] j(2) assms(4) fit by (simp only: if_False) linarith
    qed (use h [OF j(1)] j(2) assms(3) in simp)
  qed
  have sel: "mp_addr s = mp" "start_address s = start" "block_size s = bs" "block_free_count s = n" "block_total_count s = n"
    by (simp_all only: s rt_mempool.select_convs)
  have "block_free_count s = length (pool_blocks s)" by (simp add: sel pb)
  then have "mp_shape s (pool_blocks s)" using ch out distinct_pool_blocks by (simp add: mp_shape_def sel)
  then show "mp_inv s" using assms(1,3) out by (auto simp: mp_inv_def sel)
  show "mp_used s = {}" using out by (auto simp: mp_used_def sel)
  show "bsize \<le> block_size s" using RT_ALIGN8_bounds(1) [of bsize] by (simp add: sel bs)
  show "block_free_count s = block_total_count s" "block_total_count s * pitch (block_size s) \<le> size0"
    "start_address s = start" using fit by (simp_all add: sel)
qed

subsection \<open>Many threads on one pool\<close>

lemma mp_wait_sel:
  assumes "kinv k" "runs t k"
  shows "kinv (mp_wait i t time k)" "queues (mp_wait i t time k) (Wait i) = t # queues k (Wait i)"
proof -
  define k1 where "k1 = fst (rt_thread_suspend t k)"
  have d: "distinct (t # queues k (Wait i))"
    using kinv_D(10) [OF assms(1), of "Wait i"] unlinked [OF assms(1), of t "Wait i"] assms(2) by simp
  have q: "queues k1 (Wait i) = queues k (Wait i)"
    using suspend_sel(2) [of k t "Wait i"] assms running_unlinked [OF assms(1)] by (simp add: k1_def)
  have st: "set (t # queues k (Wait i)) = insert t (set (queues k (Wait i)))" by simp
  note s = suspend_link_sel [OF assms(1) conjunct2 [OF assms(2)] conjunct1 [OF assms(2)] waiting_simps(1) st d, folded k1_def]
  have e: "mp_wait i t time k = ipc_sleep t time (k1\<lparr>queues := (queues k1)(Wait i := t # queues k (Wait i))\<rparr>)"
    by (simp add: mp_wait_def Let_def q flip: k1_def)
  have "stat (threads (k1\<lparr>queues := (queues k1)(Wait i := t # queues k (Wait i))\<rparr>) t) = RT_THREAD_SUSPEND" using s(2) by simp
  note w = ipc_sleep_sel [OF s(1) this s(4), where time = time, folded e]
  show "kinv (mp_wait i t time k)" "queues (mp_wait i t time k) (Wait i) = t # queues k (Wait i)"
    using w(1) w(2) [of "Wait i"] s(3) by simp_all
qed

text \<open>The pool, the kernel, and the blocks the clients hold.\<close>

inductive mp_step :: "nat \<Rightarrow> (rt_mempool \<times> kern) \<times> nat set \<Rightarrow> (rt_mempool \<times> kern) \<times> nat set \<Rightarrow> bool" for i where
  alloc: "runs t (snd s) \<Longrightarrow> rt_mp_alloc i t time s = (s', r) \<Longrightarrow>
    mp_step i (s, held) (s', case r of MpBlock b \<Rightarrow> insert b held | _ \<Rightarrow> held)"
| resume: "runs t (snd s) \<Longrightarrow> rt_mp_alloc_resume i t time start s = (s', r) \<Longrightarrow>
    mp_step i (s, held) (s', case r of MpBlock b \<Rightarrow> insert b held | _ \<Rightarrow> held)"
| free: "b \<in> held \<or> b = 0 \<Longrightarrow> rt_mp_free i b s = Some s' \<Longrightarrow> mp_step i (s, held) (s', held - {b})"
| env: "kinv k' \<Longrightarrow> set (queues k' (Wait i)) \<subseteq> set (queues k (Wait i)) \<Longrightarrow> mp_step i ((mp, k), held) ((mp, k'), held)"

inductive mp_reach :: "nat \<Rightarrow> (rt_mempool \<times> kern) \<times> nat set \<Rightarrow> (rt_mempool \<times> kern) \<times> nat set \<Rightarrow> bool" for i s0 where
  start: "mp_reach i s0 s0"
| step: "mp_reach i s0 s \<Longrightarrow> mp_step i s s' \<Longrightarrow> mp_reach i s0 s'"

inductive_cases mp_stepE: "mp_step i s s'"

text \<open>What no operation changes.\<close>

definition mp_frame :: "rt_mempool \<Rightarrow> nat \<times> nat \<times> nat \<times> nat" where
  "mp_frame mp = (mp_addr mp, start_address mp, block_size mp, block_total_count mp)"

definition mp_ok :: "rt_mempool \<Rightarrow> (rt_mempool \<times> kern) \<times> nat set \<Rightarrow> bool" where
  "mp_ok mp0 = (\<lambda>((mp, k), held). mp_inv mp \<and> kinv k \<and> held = mp_used mp \<and> mp_frame mp = mp_frame mp0)"

lemma alloc_ok:
  assumes "mp_ok mp0 ((mp, k), held)" "runs t k" "rt_mp_alloc i t time (mp, k) = (s', r)"
  shows "mp_ok mp0 (s', case r of MpBlock b \<Rightarrow> insert b held | _ \<Rightarrow> held)"
proof (cases "block_free_count mp = 0")
  case True
  have "kinv (set_error t RT_EOK k)" "runs t (set_error t RT_EOK k)" using assms by (simp_all add: mp_ok_def set_error_prio)
  then show ?thesis using assms True mp_wait_sel(1) [of "set_error t RT_EOK k" t i time]
    by (auto simp: rt_mp_alloc_def mp_ok_def split: if_splits)
next
  case False
  have inv: "mp_inv mp" "kinv k" "held = mp_used mp" "mp_frame mp = mp_frame mp0" using assms(1) by (simp_all add: mp_ok_def)
  note g = mp_take [OF inv(1) False]
  have "block_list mp \<noteq> 0" using pool_blocks_pos [OF _ g(2)] inv(1) by (simp add: mp_inv_def)
  then have "s' = (mp\<lparr>block_free_count := block_free_count mp - 1, block_list := header mp (block_list mp),
      header := (header mp)(block_list mp := mp_addr mp)\<rparr>, k)" "r = MpBlock (block_list mp + 4)"
    using assms(3) False by (simp_all add: rt_mp_alloc_def Let_def rt_assert_def)
  then show ?thesis using g(1,4) inv by (simp add: mp_ok_def mp_frame_def)
qed

lemma free_wakes:
  assumes "kinv k" "queues k (Wait i) = t # q"
  defines "k' \<equiv> rt_schedule (fst (rt_thread_resume t (set_error t RT_EOK k)))"
  shows "kinv k'" "queues k' (Wait i) = q" "stat (threads k' t) \<noteq> RT_THREAD_SUSPEND" "th_error (threads k' t) = RT_EOK"
proof -
  define k0 where "k0 = set_error t RT_EOK k"
  have k0: "kinv k0" "queues k0 (Wait i) = t # q" using assms(1,2) by (simp_all add: k0_def)
  note r = list_resume_sel [OF k0(1) _ k0(2), simplified]
  have e: "k' = rt_schedule (rt_ipc_list_resume (Wait i) k0)"
    by (simp add: k'_def rt_ipc_list_resume_def k0(2)) (simp add: k0_def)
  show "kinv k'" unfolding e by (rule kinv_rt_schedule [OF r(1)])
  show "queues k' (Wait i) = q" using rt_schedule_wait [OF r(1), of "Wait i"] r(2) by (simp add: e)
  show "stat (threads k' t) \<noteq> RT_THREAD_SUSPEND" using rt_schedule_not_suspend [OF r(1), of t] r(6) by (simp add: e)
  show "th_error (threads k' t) = RT_EOK"
    using r(4) [of t] rt_schedule_threads(3) [OF r(1)] by (simp add: e thread_core_def k0_def set_error_def)
qed

lemma free_ok:
  assumes "mp_ok mp0 ((mp, k), held)" "b \<in> held \<or> b = 0"
  shows "\<exists>s'. rt_mp_free i b (mp, k) = Some s' \<and> mp_ok mp0 (s', held - {b})"
proof (cases "b = 0")
  case True
  then have "0 \<notin> mp_used mp" by (auto simp: mp_used_def)
  then show ?thesis using assms True by (simp add: rt_mp_free_def mp_ok_def)
next
  case False
  have inv: "mp_inv mp" "kinv k" "b \<in> mp_used mp" using assms False by (auto simp: mp_ok_def)
  note g = mp_give [OF inv(1,3)]
  define k' where "k' = (if queues k (Wait i) \<noteq> [] then rt_schedule (fst (rt_thread_resume (hd (queues k (Wait i)))
      (set_error (hd (queues k (Wait i))) RT_EOK k))) else k)"
  have "kinv k'" using free_wakes(1) [OF inv(2), of i "hd (queues k (Wait i))" "tl (queues k (Wait i))"] inv(2)
    by (auto simp: k'_def)
  moreover have "rt_mp_free i b (mp, k) = Some (mp\<lparr>block_free_count := block_free_count mp + 1, block_list := b - 4,
      header := (header mp)(b - 4 := block_list mp)\<rparr>, k')"
    using False g(2) by (simp add: rt_mp_free_def Let_def k'_def)
  ultimately show ?thesis using assms(1) g(1,3) by (simp add: mp_ok_def mp_frame_def)
qed

lemma mp_ok_step:
  assumes "mp_ok mp0 s" "mp_step i s s'"
  shows "mp_ok mp0 s'"
  using assms(2)
proof (cases rule: mp_step.cases)
  case (alloc t s time s' r held)
  then show ?thesis using alloc_ok assms(1) by (cases s) simp
next
  case (resume t s time start s' r held)
  then show ?thesis using alloc_ok assms(1) by (cases s) (auto simp: rt_mp_alloc_resume_def split: if_splits)
next
  case (free b held s s')
  then show ?thesis using free_ok [of mp0 "fst s" "snd s" held b i] assms(1) by auto
next
  case (env k' k mp held)
  then show ?thesis using assms(1) by (simp add: mp_ok_def)
qed

lemma mp_ok_reach: "mp_reach i s0 s \<Longrightarrow> mp_ok mp0 s0 \<Longrightarrow> mp_ok mp0 s"
  by (induction rule: mp_reach.induct) (auto intro: mp_ok_step)

lemma mp_counts:
  assumes "mp_inv mp"
  shows "block_free_count mp + card (mp_used mp) = block_total_count mp"
proof -
  obtain fs where s: "mp_shape mp fs" using assms by (auto simp: mp_inv_def)
  have "{b \<in> set (pool_blocks mp). header mp b = mp_addr mp} = set (pool_blocks mp) - set fs"
    using s by (auto simp: mp_shape_def)
  then have "card (mp_used mp) = card (set (pool_blocks mp) - set fs)" by (simp add: mp_used_def card_image)
  also have "\<dots> = card (set (pool_blocks mp)) - card (set fs)" using s by (intro card_Diff_subset) (auto simp: mp_shape_def)
  also have "card (set (pool_blocks mp)) = block_total_count mp"
    using distinct_card [OF distinct_pool_blocks, of mp] by (simp add: pool_blocks_def)
  also have "card (set fs) = block_free_count mp" using s distinct_card [of fs] by (simp add: mp_shape_def)
  finally have "card (mp_used mp) = block_total_count mp - block_free_count mp" .
  moreover have "block_free_count mp \<le> block_total_count mp"
    using card_mono [of "set (pool_blocks mp)" "set fs"] s distinct_card [of fs] distinct_card [OF distinct_pool_blocks, of mp]
    by (simp add: mp_shape_def pool_blocks_def)
  ultimately show ?thesis by simp
qed

text \<open>
  C16. A memory pool over a region of memory: whatever the interleaving of allocations, releases of
  blocks held, time-outs and other kernel activity, every block is free or held by exactly one
  client, the free count is exact, blocks held lie inside the region, have the size asked for and
  do not overlap; a thread gets a block at once when one is free, and releasing a block held always
  succeeds.
\<close>

theorem rt_mp_safe:
  assumes "0 < start" "start + size0 \<le> 2 ^ 32" "0 < mp" "mp < start \<or> start + size0 \<le> mp" "bsize + 8 \<le> 2 ^ 32"
    and init: "rt_mp_init i mp start size0 bsize h k = (mp0, k0)" "0 < block_total_count mp0" "kinv k0"
    and reach: "mp_reach i ((mp0, k0), {}) ((p, k'), held)"
  shows "mp_inv p \<and> kinv k' \<and> block_free_count p + card held = block_total_count mp0 \<and>
    (\<forall>a \<in> held. start + 4 \<le> a \<and> a + bsize \<le> start + size0) \<and>
    (\<forall>a \<in> held. \<forall>b \<in> held. a < b \<longrightarrow> a + bsize \<le> b) \<and>
    (\<forall>t time. card held < block_total_count mp0 \<longrightarrow>
      (\<exists>b s. rt_mp_alloc i t time (p, k') = (s, MpBlock b) \<and> b \<notin> held)) \<and>
    (\<forall>b \<in> held. \<exists>s. rt_mp_free i b (p, k') = Some s)"
proof -
  have s: "fst (rt_mp_init i mp start size0 bsize h k) = mp0" using init(1) by simp
  note z = mp_init_inv [OF assms(1-5), of i h k, unfolded s, OF init(2)]
  have "mp_ok mp0 ((mp0, k0), {})" using z init(3) by (simp add: mp_ok_def)
  then have ok: "mp_ok mp0 ((p, k'), held)" using mp_ok_reach [OF reach] by simp
  then have inv: "mp_inv p" "kinv k'" "held = mp_used p" and fr: "mp_frame p = mp_frame mp0" by (simp_all add: mp_ok_def)
  have f: "start_address p = start" "block_size p = block_size mp0" "block_total_count p = block_total_count mp0"
    using fr z(6) by (simp_all add: mp_frame_def)
  have cnt: "block_free_count p + card held = block_total_count mp0" using mp_counts [OF inv(1)] by (simp add: inv(3) f)
  have mem: "a - 4 \<in> set (pool_blocks p) \<and> a \<ge> 4" if "a \<in> held" for a using that by (auto simp: inv(3) mp_used_def)
  have "start + 4 \<le> a \<and> a + bsize \<le> start + size0" if "a \<in> held" for a
    using pool_blocks_inside [OF conjunct1 [OF mem [OF that]]] mem [OF that] z(3,5) unfolding f pitch_def by linarith
  moreover have "a + bsize \<le> b" if "a \<in> held" "b \<in> held" "a < b" for a b
    using pool_blocks_apart [OF conjunct1 [OF mem [OF that(1)]] conjunct1 [OF mem [OF that(2)]]]
      mem [OF that(1)] mem [OF that(2)] that(3) z(3) unfolding f pitch_def by linarith
  moreover have "\<exists>b s. rt_mp_alloc i t time (p, k') = (s, MpBlock b) \<and> b \<notin> held"
    if "card held < block_total_count mp0" for t time
    using mp_take(3) [OF inv(1)] cnt that by (auto simp: rt_mp_alloc_def Let_def inv(3))
  moreover have "\<exists>s. rt_mp_free i b (p, k') = Some s" if "b \<in> held" for b using free_ok [OF ok] that by blast
  ultimately show ?thesis using inv cnt by blast
qed

text \<open>A pool of 64 bytes for blocks of 10 bytes: three blocks, of which a thread takes the first.\<close>

definition mp_demo0 :: "rt_mempool \<times> kern" where
  "mp_demo0 = rt_mp_init 7 0x1000 0x2000 64 10 (\<lambda>_. 0) two_kern"

definition mp_demo1 :: "rt_mempool \<times> kern" where
  "mp_demo1 = fst (rt_mp_alloc 7 1 0 mp_demo0)"

lemma mp_demo_facts: "kinv (snd mp_demo0)" "runs 1 (snd mp_demo0)" "block_total_count (fst mp_demo0) = 3"
  "snd (rt_mp_alloc 7 1 0 mp_demo0) = MpBlock 0x2004"
proof -
  have q: "queues two_kern (Wait 7) = []" by code_simp
  have "(queues two_kern)(Wait 7 := []) = queues two_kern" using q by auto
  then have "snd mp_demo0 = two_kern" by (simp add: mp_demo0_def rt_mp_init_def Let_def rt_assert_def)
  then show "kinv (snd mp_demo0)" "runs 1 (snd mp_demo0)" using kinv_two_kern two_kern_runs by simp_all
  show "block_total_count (fst mp_demo0) = 3" "snd (rt_mp_alloc 7 1 0 mp_demo0) = MpBlock 0x2004"
    by (simp_all add: mp_demo0_def rt_mp_init_def rt_mp_alloc_def Let_def RT_ALIGN8_def pitch_def)
qed

theorem rt_mp_safe_witness:
  "mp_inv (fst mp_demo1) \<and> block_free_count (fst mp_demo1) = 2 \<and>
   (\<exists>s. rt_mp_free 7 0x2004 mp_demo1 = Some s)"
proof -
  have "rt_mp_alloc 7 1 0 mp_demo0 = (mp_demo1, MpBlock 0x2004)"
    using mp_demo_facts(4) by (simp add: mp_demo1_def prod_eq_iff)
  then have "mp_step 7 (mp_demo0, {}) (mp_demo1, case MpBlock 0x2004 of MpBlock b \<Rightarrow> insert b {} | _ \<Rightarrow> {})"
    using mp_demo_facts(2) by (rule mp_step.alloc [rotated])
  then have r: "mp_reach 7 ((fst mp_demo0, snd mp_demo0), {}) ((fst mp_demo1, snd mp_demo1), {0x2004})"
    by (intro mp_reach.step [OF mp_reach.start]) simp
  have i: "rt_mp_init 7 0x1000 0x2000 64 10 (\<lambda>_. 0) two_kern = (fst mp_demo0, snd mp_demo0)" by (simp add: mp_demo0_def)
  show ?thesis
    using rt_mp_safe [OF _ _ _ _ _ i _ mp_demo_facts(1) r] mp_demo_facts(3) by simp
qed

end
