(* ===== verification/Rt_Object.thy ===== *)
theory Rt_Object
  imports Rt_Heap Rt_Mutex Rt_Event Rt_Mempool Rt_Kmem
begin

unbundle bit_operations_syntax

section \<open>Kernel objects on the heap (\<^verbatim>\<open>rt-thread/src/object.c\<close>)\<close>

text \<open>
  The object container keeps one list of objects per class; a static object lives where its user
  put it, a dynamic one in a block of the heap. This theory composes the container with the heap,
  the kernel and the IPC objects: the \<open>_create\<close> and \<open>_delete\<close> calls of \<^verbatim>\<open>ipc.c\<close> and \<^verbatim>\<open>mempool.c\<close>. An object
  is named by its address, which also names its waiting lists. The sizes of the control blocks are
  the compiler's: \<open>osize\<close> is a parameter. \<open>None\<close> is a failed assertion. The lemmas show that the
  container stays well formed, that a creation which fails leaves nothing behind, and that deletion
  gives back what creation took.
\<close>

subsection \<open>The container\<close>

record ksys =
  container :: "u8 \<Rightarrow> nat list"
  otype :: "nat \<Rightarrow> u8"
  oname :: "nat \<Rightarrow> string"
  sys_heap :: mem_heap
  sys_kern :: kern

abbreviation RT_Object_Class_Semaphore :: u8 where "RT_Object_Class_Semaphore \<equiv> 2"
abbreviation RT_Object_Class_Mutex :: u8 where "RT_Object_Class_Mutex \<equiv> 3"
abbreviation RT_Object_Class_Event :: u8 where "RT_Object_Class_Event \<equiv> 4"
abbreviation RT_Object_Class_MailBox :: u8 where "RT_Object_Class_MailBox \<equiv> 5"
abbreviation RT_Object_Class_MessageQueue :: u8 where "RT_Object_Class_MessageQueue \<equiv> 6"
abbreviation RT_Object_Class_MemPool :: u8 where "RT_Object_Class_MemPool \<equiv> 8"
abbreviation RT_Object_Class_Static :: u8 where "RT_Object_Class_Static \<equiv> 0x80"

text \<open>The classes of \<open>rt_object_container\<close> in this configuration: thread to timer.\<close>

definition rt_object_container :: "u8 list" where
  "rt_object_container = [1, 2, 3, 4, 5, 6, 7, 8, 9, 10]"

definition rt_object_get_information :: "u8 \<Rightarrow> u8 option" where
  "rt_object_get_information type = find (\<lambda>t. t = type) rt_object_container"

definition rt_object_get_length :: "u8 \<Rightarrow> ksys \<Rightarrow> nat" where
  "rt_object_get_length type s = (case rt_object_get_information type of None \<Rightarrow> 0 | Some t \<Rightarrow> length (container s t))"

text \<open>The pointers copied, at most \<open>maxlen\<close>.\<close>

definition rt_object_get_pointers :: "u8 \<Rightarrow> int \<Rightarrow> ksys \<Rightarrow> nat list" where
  "rt_object_get_pointers type maxlen s =
     (if maxlen \<le> 0 then []
      else case rt_object_get_information type of None \<Rightarrow> [] | Some t \<Rightarrow> take (nat maxlen) (container s t))"

text \<open>Names are kept in \<open>RT_NAME_MAX\<close> = 10 characters and compared in as many.\<close>

definition clip_name :: "string \<Rightarrow> string" where
  "clip_name name = take 10 name"

definition rt_object_init :: "nat \<Rightarrow> u8 \<Rightarrow> string \<Rightarrow> ksys \<Rightarrow> ksys option" where
  "rt_object_init p type name s =
     (case rt_object_get_information type of
        None \<Rightarrow> None
      | Some t \<Rightarrow>
          if p \<in> set (container s t) then None
          else Some (s\<lparr>otype := (otype s)(p := type OR RT_Object_Class_Static), oname := (oname s)(p := clip_name name),
                       container := (container s)(t := p # container s t)\<rparr>))"

definition unlink_object :: "nat \<Rightarrow> ksys \<Rightarrow> ksys" where
  "unlink_object p s = s\<lparr>otype := (otype s)(p := 0), container := (\<lambda>t. removeAll p (container s t))\<rparr>"

definition rt_object_detach :: "nat \<Rightarrow> ksys \<Rightarrow> ksys option" where
  "rt_object_detach p s = (if p = 0 then None else Some (unlink_object p s))"

text \<open>The address is 0 when there is no memory.\<close>

definition rt_object_allocate :: "(u8 \<Rightarrow> nat) \<Rightarrow> u8 \<Rightarrow> string \<Rightarrow> ksys \<Rightarrow> (ksys \<times> nat) option" where
  "rt_object_allocate osize type name s =
     do { t \<leftarrow> rt_object_get_information type;
          (h, p) \<leftarrow> rt_malloc (osize t) (sys_heap s);
          if p = 0 then Some (s\<lparr>sys_heap := h\<rparr>, 0)
          else Some (s\<lparr>sys_heap := h\<lparr>bytes := rt_memset p 0 (osize t) (bytes h)\<rparr>, otype := (otype s)(p := type),
                       oname := (oname s)(p := clip_name name), container := (container s)(t := p # container s t)\<rparr>, p) }"

definition rt_object_is_systemobject :: "nat \<Rightarrow> ksys \<Rightarrow> bool" where
  "rt_object_is_systemobject p s \<longleftrightarrow> otype s p AND RT_Object_Class_Static \<noteq> 0"

definition rt_object_get_type :: "nat \<Rightarrow> ksys \<Rightarrow> u8" where
  "rt_object_get_type p s = otype s p AND NOT RT_Object_Class_Static"

definition rt_object_delete :: "nat \<Rightarrow> ksys \<Rightarrow> ksys option" where
  "rt_object_delete p s =
     (if p = 0 \<or> rt_object_is_systemobject p s then None
      else let s = unlink_object p s
           in do { h \<leftarrow> rt_free p (sys_heap s); Some (s\<lparr>sys_heap := h\<rparr>) })"

definition rt_object_find :: "string \<Rightarrow> u8 \<Rightarrow> ksys \<Rightarrow> nat option" where
  "rt_object_find name type s =
     (case rt_object_get_information type of
        None \<Rightarrow> None
      | Some t \<Rightarrow> find (\<lambda>p. oname s p = clip_name name) (container s t))"

subsection \<open>Objects without a pool\<close>

text \<open>The check at the head of every \<open>_delete\<close>: the object is a dynamic one of the class.\<close>

definition deletable :: "u8 \<Rightarrow> nat \<Rightarrow> ksys \<Rightarrow> bool" where
  "deletable type p s \<longleftrightarrow> p \<noteq> 0 \<and> rt_object_get_type p s = type \<and> \<not> rt_object_is_systemobject p s"

text \<open>Allocation followed by the assignments that the \<open>_init\<close> function of the class makes, too.\<close>

definition create_object ::
  "(u8 \<Rightarrow> nat) \<Rightarrow> u8 \<Rightarrow> string \<Rightarrow> (nat \<Rightarrow> kern \<Rightarrow> 'a \<times> kern) \<Rightarrow> ksys \<Rightarrow> (ksys \<times> (nat \<times> 'a) option) option" where
  "create_object osize type name init s =
     do { (s, p) \<leftarrow> rt_object_allocate osize type name s;
          if p = 0 then Some (s, None)
          else let (ob, k) = init p (sys_kern s) in Some (s\<lparr>sys_kern := k\<rparr>, Some (p, ob)) }"

definition rt_sem_create :: "(u8 \<Rightarrow> nat) \<Rightarrow> string \<Rightarrow> u32 \<Rightarrow> ipc_flag \<Rightarrow> ksys \<Rightarrow> (ksys \<times> (nat \<times> rt_semaphore) option) option" where
  "rt_sem_create osize name value flag s =
     (if value < 0x10000
      then create_object osize RT_Object_Class_Semaphore name (\<lambda>p. rt_sem_init p value flag) s
      else None)"

definition rt_mutex_create :: "(u8 \<Rightarrow> nat) \<Rightarrow> string \<Rightarrow> ipc_flag \<Rightarrow> ksys \<Rightarrow> (ksys \<times> (nat \<times> rt_mutex) option) option" where
  "rt_mutex_create osize name flag s = create_object osize RT_Object_Class_Mutex name (\<lambda>p. rt_mutex_init p flag) s"

definition rt_event_create :: "(u8 \<Rightarrow> nat) \<Rightarrow> string \<Rightarrow> ipc_flag \<Rightarrow> ksys \<Rightarrow> (ksys \<times> (nat \<times> rt_event) option) option" where
  "rt_event_create osize name flag s = create_object osize RT_Object_Class_Event name (\<lambda>p. rt_event_init p flag) s"

definition delete_object :: "u8 \<Rightarrow> nat \<Rightarrow> ksys \<Rightarrow> ksys option" where
  "delete_object type p s =
     (if \<not> deletable type p s then None
      else rt_object_delete p (s\<lparr>sys_kern := rt_ipc_list_resume_all (Wait p) (sys_kern s)\<rparr>))"

definition rt_sem_delete :: "nat \<Rightarrow> ksys \<Rightarrow> ksys option" where
  "rt_sem_delete p s = delete_object RT_Object_Class_Semaphore p s"

definition rt_mutex_delete :: "nat \<Rightarrow> ksys \<Rightarrow> ksys option" where
  "rt_mutex_delete p s = delete_object RT_Object_Class_Mutex p s"

definition rt_event_delete :: "nat \<Rightarrow> ksys \<Rightarrow> ksys option" where
  "rt_event_delete p s = delete_object RT_Object_Class_Event p s"

subsection \<open>Objects with a pool\<close>

text \<open>
  The object is allocated, then \<open>n\<close> bytes for its pool; when there is no room for the pool the object
  is deleted again. \<open>init\<close> gets the addresses of the object and of the pool.
\<close>

definition create_pooled ::
  "(u8 \<Rightarrow> nat) \<Rightarrow> u8 \<Rightarrow> string \<Rightarrow> nat \<Rightarrow> (nat \<Rightarrow> nat \<Rightarrow> mem_heap \<Rightarrow> kern \<Rightarrow> 'a \<times> kern) \<Rightarrow> ksys \<Rightarrow>
   (ksys \<times> (nat \<times> nat \<times> 'a) option) option" where
  "create_pooled osize type name n init s =
     do { (s, p) \<leftarrow> rt_object_allocate osize type name s;
          if p = 0 then Some (s, None)
          else do { (h, q) \<leftarrow> rt_malloc n (sys_heap s);
                    let s = s\<lparr>sys_heap := h\<rparr>;
                    if q = 0 then do { s \<leftarrow> rt_object_delete p s; Some (s, None) }
                    else let (ob, k) = init p q h (sys_kern s) in Some (s\<lparr>sys_kern := k\<rparr>, Some (p, q, ob)) } }"

definition rt_mb_create ::
  "(u8 \<Rightarrow> nat) \<Rightarrow> string \<Rightarrow> nat \<Rightarrow> ipc_flag \<Rightarrow> ksys \<Rightarrow> (ksys \<times> (nat \<times> nat \<times> rt_mailbox) option) option" where
  "rt_mb_create osize name size0 flag s =
     create_pooled osize RT_Object_Class_MailBox name (size0 mod 65536 * 4)
       (\<lambda>p q h. rt_mb_init p (map (\<lambda>j. load32 (bytes h) (q + 4 * j)) [0..<size0 mod 65536]) size0 flag) s"

definition rt_mq_create ::
  "(u8 \<Rightarrow> nat) \<Rightarrow> string \<Rightarrow> nat \<Rightarrow> nat \<Rightarrow> ipc_flag \<Rightarrow> ksys \<Rightarrow> (ksys \<times> (nat \<times> nat \<times> rt_messagequeue) option) option" where
  "rt_mq_create osize name msize mmax flag s =
     (let pool_size = (RT_ALIGN8 msize mod 65536 + MQ_HEAD) * (mmax mod 65536)
      in create_pooled osize RT_Object_Class_MessageQueue name pool_size (\<lambda>p q h. rt_mq_init p msize pool_size flag) s)"

text \<open>The chain of blocks is laid out as in \<open>rt_mp_init\<close>; the product is taken in 32 bits.\<close>

definition rt_mp_create ::
  "(u8 \<Rightarrow> nat) \<Rightarrow> string \<Rightarrow> nat \<Rightarrow> nat \<Rightarrow> ksys \<Rightarrow> (ksys \<times> (nat \<times> nat \<times> rt_mempool) option) option" where
  "rt_mp_create osize name n bsize s =
     (if n = 0 \<or> bsize = 0 then None
      else let bs = RT_ALIGN8 bsize mod 2 ^ 32;
               room = pitch bs * n mod 2 ^ 32
           in create_pooled osize RT_Object_Class_MemPool name room
                (\<lambda>p q h k.
                  (\<lparr>mp_addr = p, start_address = q, mp_size = room, block_size = bs, block_list = q,
                    block_total_count = n, block_free_count = n,
                    header = (fold (init_link q bs) [0..<n] (\<lambda>_. 0))(q + (n - 1) * pitch bs := 0)\<rparr>,
                   k\<lparr>queues := (queues k)(Wait p := [])\<rparr>)) s)"

definition delete_pooled :: "u8 \<Rightarrow> nat \<Rightarrow> nat \<Rightarrow> (kern \<Rightarrow> kern) \<Rightarrow> ksys \<Rightarrow> ksys option" where
  "delete_pooled type p q wake s =
     (if \<not> deletable type p s then None
      else let s = s\<lparr>sys_kern := wake (sys_kern s)\<rparr>
           in do { h \<leftarrow> rt_free q (sys_heap s); rt_object_delete p (s\<lparr>sys_heap := h\<rparr>) })"

definition rt_mb_delete :: "nat \<Rightarrow> nat \<Rightarrow> ksys \<Rightarrow> ksys option" where
  "rt_mb_delete p q s =
     delete_pooled RT_Object_Class_MailBox p q
       (\<lambda>k. rt_ipc_list_resume_all (WaitSend p) (rt_ipc_list_resume_all (Wait p) k)) s"

definition rt_mq_delete :: "nat \<Rightarrow> nat \<Rightarrow> ksys \<Rightarrow> ksys option" where
  "rt_mq_delete p q s =
     delete_pooled RT_Object_Class_MessageQueue p q
       (\<lambda>k. rt_ipc_list_resume_all (WaitSend p) (rt_ipc_list_resume_all (Wait p) k)) s"

definition rt_mp_delete :: "nat \<Rightarrow> nat \<Rightarrow> ksys \<Rightarrow> ksys option" where
  "rt_mp_delete p q s = delete_pooled RT_Object_Class_MemPool p q (rt_ipc_list_resume_all (Wait p)) s"

subsection \<open>Well-formedness\<close>

text \<open>
  Every object is in the list of its class, once; a dynamic object is a block of the heap, a static
  one is outside it; only objects have waiting threads, and only mailboxes and message queues have
  waiting senders.
\<close>

definition in_heap :: "mem_heap \<Rightarrow> nat \<Rightarrow> bool" where
  "in_heap h p \<longleftrightarrow> heap_ptr h \<le> p \<and> p \<le> heap_ptr h + heap_end h"

definition live_objs :: "ksys \<Rightarrow> nat set" where
  "live_objs s = {p. \<exists>t. p \<in> set (container s t)}"

definition registered :: "ksys \<Rightarrow> u8 \<Rightarrow> nat \<Rightarrow> bool" where
  "registered s t p \<longleftrightarrow> t \<in> set rt_object_container \<and> p \<noteq> 0 \<and>
     (otype s p = t \<and> p \<in> fst ` allocated (sys_heap s) \<or> otype s p = (t OR RT_Object_Class_Static) \<and> \<not> in_heap (sys_heap s) p)"

definition obj_inv :: "ksys \<Rightarrow> bool" where
  "obj_inv s \<longleftrightarrow> heap_inv (sys_heap s) \<and> kinv (sys_kern s) \<and> (\<forall>t. distinct (container s t)) \<and>
     (\<forall>t p. p \<in> set (container s t) \<longrightarrow> registered s t p) \<and>
     (\<forall>p. p \<notin> live_objs s \<longrightarrow> queues (sys_kern s) (Wait p) = []) \<and>
     (\<forall>p. p \<notin> set (container s RT_Object_Class_MailBox) \<union> set (container s RT_Object_Class_MessageQueue) \<longrightarrow>
        queues (sys_kern s) (WaitSend p) = [])"

lemma obj_invD:
  assumes "obj_inv s"
  shows "heap_inv (sys_heap s)" "kinv (sys_kern s)" "distinct (container s t)"
    "p \<in> set (container s t) \<Longrightarrow> registered s t p" "p \<notin> live_objs s \<Longrightarrow> queues (sys_kern s) (Wait p) = []"
    "p \<notin> live_objs s \<Longrightarrow> queues (sys_kern s) (WaitSend p) = []"
  using assms by (auto simp: obj_inv_def live_objs_def)

lemma class_bits:
  assumes "t \<in> set rt_object_container"
  shows "t AND RT_Object_Class_Static = 0" "t AND NOT RT_Object_Class_Static = t"
    "(t OR RT_Object_Class_Static) AND RT_Object_Class_Static \<noteq> 0" "(t OR RT_Object_Class_Static) AND NOT RT_Object_Class_Static = t"
    "rt_object_get_information t = Some t" "t \<noteq> 0" "t \<noteq> (t OR RT_Object_Class_Static)"
  using assms by (auto simp: rt_object_container_def rt_object_get_information_def)

lemma registered_type:
  "registered s t p \<Longrightarrow> rt_object_get_type p s = t"
  "registered s t p \<Longrightarrow> rt_object_is_systemobject p s \<longleftrightarrow> otype s p = (t OR RT_Object_Class_Static)"
  using class_bits [of t] by (auto simp: registered_def rt_object_get_type_def rt_object_is_systemobject_def)

text \<open>An object is in one list only.\<close>

lemma registered_unique:
  assumes "obj_inv s" "p \<in> set (container s t)" "p \<in> set (container s u)"
  shows "t = u"
  using registered_type(1) [OF obj_invD(4) [OF assms(1,2)]] registered_type(1) [OF obj_invD(4) [OF assms(1,3)]] by simp

lemma allocated_in_heap: "heap_inv h \<Longrightarrow> (p, m) \<in> allocated h \<Longrightarrow> in_heap h p"
  using allocated_bounds [of h p m] by (auto simp: in_heap_def)

text \<open>A block that is not allocated yet, or is no object, is in no list.\<close>

lemma fresh_not_live:
  assumes "obj_inv s" "p \<notin> fst ` allocated (sys_heap s)" "in_heap (sys_heap s) p"
  shows "p \<notin> live_objs s"
  using assms obj_invD(4) [OF assms(1)] by (auto simp: live_objs_def registered_def)

lemma in_heap_same: "same_heap h h' \<Longrightarrow> in_heap h' = in_heap h"
  by (auto simp: same_heap_def in_heap_def)

text \<open>More memory or less memory that no object uses.\<close>

lemma obj_inv_heap:
  assumes "obj_inv s" "heap_inv h" "same_heap (sys_heap s) h" "fst ` allocated (sys_heap s) \<inter> live_objs s \<subseteq> fst ` allocated h"
  shows "obj_inv (s\<lparr>sys_heap := h\<rparr>)"
proof -
  have "registered (s\<lparr>sys_heap := h\<rparr>) t p" if "p \<in> set (container s t)" for t p
  proof -
    have "p \<in> live_objs s" using that by (auto simp: live_objs_def)
    then show ?thesis using obj_invD(4) [OF assms(1) that] assms(4) in_heap_same [OF assms(3)] by (auto simp: registered_def)
  qed
  then show ?thesis using assms(1,2) by (simp add: obj_inv_def live_objs_def)
qed

lemma allocate_cases:
  assumes "obj_inv s" "t \<in> set rt_object_container"
  obtains (fail) "rt_object_allocate osize t name s = Some (s, 0)"
  | (success) s' p m where "rt_object_allocate osize t name s = Some (s', p)" "p \<noteq> 0" "obj_inv s'" "p \<notin> live_objs s"
      "p \<notin> fst ` allocated (sys_heap s)" "allocated (sys_heap s') = insert (p, m) (allocated (sys_heap s))" "align32 (osize t) \<le> m"
      "container s' = (container s)(t := p # container s t)" "otype s' p = t" "oname s' p = clip_name name"
      "sys_kern s' = sys_kern s" "same_heap (sys_heap s) (sys_heap s')"
      "\<forall>a. p \<le> a \<and> a < p + osize t \<longrightarrow> bytes (sys_heap s') a = 0"
      "\<forall>x. x \<noteq> p \<longrightarrow> oname s' x = oname s x \<and> otype s' x = otype s x"
  using obj_invD(1) [OF assms(1)]
proof (cases rule: malloc_spec [where n = "osize t"])
  case fail
  then show thesis using that(1) by (simp add: rt_object_allocate_def class_bits [OF assms(2)])
next
  case (success h p m)
  define s' where "s' = s\<lparr>sys_heap := h\<lparr>bytes := rt_memset p 0 (osize t) (bytes h)\<rparr>, otype := (otype s)(p := t),
      oname := (oname s)(p := clip_name name), container := (container s)(t := p # container s t)\<rparr>"
  have e: "rt_object_allocate osize t name s = Some (s', p)"
    using success(1,2) by (simp add: rt_object_allocate_def class_bits [OF assms(2)] s'_def)
  have "in_heap (sys_heap s) p"
    using allocated_in_heap [OF success(3), of p m] success(4) in_heap_same [OF success(7)] by simp
  then have fr: "p \<notin> live_objs s" using fresh_not_live [OF assms(1) success(5)] by simp
  have sh: "same_heap (sys_heap s) (sys_heap s')" using success(7) by (simp add: s'_def same_heap_def)
  have "registered s' u x" if "x \<in> set (container s' u)" for x u
  proof (cases "x = p")
    case True
    then have "u = t" using that fr by (auto simp: s'_def live_objs_def split: if_splits)
    then show ?thesis using True success(2,4) assms(2) by (auto simp: registered_def s'_def)
  next
    case False
    then have "registered s u x" using that obj_invD(4) [OF assms(1), of x u] by (auto simp: s'_def split: if_splits)
    then show ?thesis using False success(4) in_heap_same [OF sh] by (auto simp: registered_def s'_def)
  qed
  moreover have "distinct (container s' u)" for u using obj_invD(3) [OF assms(1)] fr by (auto simp: s'_def live_objs_def)
  moreover have sub: "set (container s u) \<subseteq> set (container s' u)" for u by (auto simp: s'_def)
  moreover have "x \<notin> live_objs s' \<Longrightarrow> x \<notin> live_objs s" for x using sub by (auto simp: live_objs_def)
  ultimately have "obj_inv s'" using assms(1) success(3) unfolding obj_inv_def by (auto simp: s'_def)
  then show thesis using that(2) [OF e success(2) _ fr success(5) _ success(6) _ _ _ _ sh] success(4)
    by (auto simp: s'_def rt_memset_eq filled_def)
qed

text \<open>Deletion of a dynamic object nobody waits for.\<close>

lemma object_delete_spec:
  assumes "obj_inv s" "p \<in> set (container s t)" "otype s p = t" "(p, m) \<in> allocated (sys_heap s)"
    and nobody: "queues (sys_kern s) (Wait p) = []" "queues (sys_kern s) (WaitSend p) = []"
  obtains s' where "rt_object_delete p s = Some s'" "obj_inv s'" "allocated (sys_heap s') = allocated (sys_heap s) - {(p, m)}"
    "container s' = (\<lambda>u. removeAll p (container s u))" "sys_kern s' = sys_kern s" "same_heap (sys_heap s) (sys_heap s')"
proof -
  note r = obj_invD(4) [OF assms(1,2)]
  have dyn: "\<not> rt_object_is_systemobject p s" "p \<noteq> 0"
    using registered_type(2) [OF r] assms(3) class_bits(7) [of t] r by (auto simp: registered_def)
  obtain h where h: "rt_free p (sys_heap s) = Some h" "heap_inv h" "allocated h = allocated (sys_heap s) - {(p, m)}"
    "same_heap (sys_heap s) h" using free_spec [OF obj_invD(1) [OF assms(1)] assms(4)] by blast
  define s' where "s' = (unlink_object p s)\<lparr>sys_heap := h\<rparr>"
  have e: "rt_object_delete p s = Some s'" using dyn h(1) by (simp add: rt_object_delete_def s'_def unlink_object_def)
  have c: "container s' = (\<lambda>u. removeAll p (container s u))" "sys_kern s' = sys_kern s" "sys_heap s' = h"
    by (simp_all add: s'_def unlink_object_def)
  have "registered s' u x" if "x \<in> set (container s' u)" for x u
  proof -
    have x: "x \<noteq> p" "registered s u x" using that obj_invD(4) [OF assms(1)] by (auto simp: c)
    have "x \<in> fst ` allocated (sys_heap s) \<Longrightarrow> x \<in> fst ` (allocated (sys_heap s) - {(p, m)})" using x(1) by force
    then show ?thesis using x in_heap_same [OF h(4)] by (auto simp: registered_def c h(3)) (auto simp: s'_def unlink_object_def)
  qed
  moreover have "distinct (container s' u)" for u using obj_invD(3) [OF assms(1)] by (simp add: c distinct_removeAll)
  moreover have "x \<notin> live_objs s' \<Longrightarrow> x = p \<or> x \<notin> live_objs s" for x by (auto simp: live_objs_def c)
  moreover have "x \<notin> set (container s' u) \<Longrightarrow> x = p \<or> x \<notin> set (container s u)" for x u by (auto simp: c)
  moreover have "queues (sys_kern s) (Wait x) = []" if "x \<notin> live_objs s'" for x
    using that nobody(1) obj_invD(5) [OF assms(1), of x] by (cases "x = p") (auto simp: live_objs_def c)
  ultimately have "obj_inv s'" using assms(1) nobody(2) h(2) unfolding obj_inv_def c by auto
  then show thesis using that [OF e] h(3,4) c by simp
qed

text \<open>Waking everybody who waits for an object.\<close>

lemma obj_inv_wake:
  assumes "obj_inv s" "l = Wait p \<or> l = WaitSend p"
  defines "s' \<equiv> s\<lparr>sys_kern := rt_ipc_list_resume_all l (sys_kern s)\<rparr>"
  shows "obj_inv s'" "queues (sys_kern s') l = []"
    "l' = Wait q \<or> l' = WaitSend q \<Longrightarrow> queues (sys_kern s) l' = [] \<Longrightarrow> queues (sys_kern s') l' = []"
    "u \<in> set (queues (sys_kern s) l) \<Longrightarrow> th_error (threads (sys_kern s') u) = RT_ERROR \<and> stat (threads (sys_kern s') u) \<noteq> RT_THREAD_SUSPEND"
proof -
  have "waiting l" using assms(2) by auto
  then have r: "resumed_all l (sys_kern s) (sys_kern s')"
    using resume_all_post [OF obj_invD(2) [OF assms(1)]] by (simp add: s'_def)
  then show e: "queues (sys_kern s') l = []"
    "l' = Wait q \<or> l' = WaitSend q \<Longrightarrow> queues (sys_kern s) l' = [] \<Longrightarrow> queues (sys_kern s') l' = []"
    "u \<in> set (queues (sys_kern s) l) \<Longrightarrow> th_error (threads (sys_kern s') u) = RT_ERROR \<and> stat (threads (sys_kern s') u) \<noteq> RT_THREAD_SUSPEND" for l' q
    by (auto simp: resumed_all_def) (metis waiting_simps(1,2))+
  have "container s' = container s" "sys_heap s' = sys_heap s" "otype s' = otype s" by (simp_all add: s'_def)
  moreover have "kinv (sys_kern s')" using r by (simp add: resumed_all_def)
  ultimately show "obj_inv s'" using assms(1) e(2) unfolding obj_inv_def live_objs_def registered_def by auto
qed

text \<open>An \<open>_init\<close> that only empties waiting lists which are empty already.\<close>

lemma clear_empty [simp]: "queues k l = [] \<Longrightarrow> k\<lparr>queues := (queues k)(l := [])\<rparr> = k"
proof -
  assume "queues k l = []"
  then have "(queues k)(l := []) = queues k" by auto
  then show ?thesis by simp
qed

lemma clear_empty2: "queues k l = [] \<Longrightarrow> queues k m = [] \<Longrightarrow> k\<lparr>queues := (queues k)(l := [], m := [])\<rparr> = k"
proof -
  assume "queues k l = []" "queues k m = []"
  then have "(queues k)(l := [], m := []) = queues k" by auto
  then show ?thesis by simp
qed

definition harmless :: "(nat \<Rightarrow> kern \<Rightarrow> 'a \<times> kern) \<Rightarrow> bool" where
  "harmless init \<longleftrightarrow> (\<forall>p k. queues k (Wait p) = [] \<longrightarrow> queues k (WaitSend p) = [] \<longrightarrow> snd (init p k) = k)"

lemma harmless_inits:
  "value < 0x10000 \<Longrightarrow> harmless (\<lambda>p. rt_sem_init p value flag)" "harmless (\<lambda>p. rt_mutex_init p flag)"
  "harmless (\<lambda>p. rt_event_init p flag)"
  by (simp_all add: harmless_def rt_sem_init_def rt_mutex_init_def rt_event_init_def Let_def rt_assert_def)

text \<open>What a creation leaves when it succeeds: a new object of the class, found by its name.\<close>

definition created :: "u8 \<Rightarrow> string \<Rightarrow> nat \<Rightarrow> ksys \<Rightarrow> ksys \<Rightarrow> bool" where
  "created t name p s s' \<longleftrightarrow> obj_inv s' \<and> p \<notin> live_objs s \<and> container s' = (container s)(t := p # container s t) \<and>
     sys_kern s' = sys_kern s \<and> deletable t p s' \<and> rt_object_find name t s' = Some p"

lemma create_object_cases:
  assumes "obj_inv s" "t \<in> set rt_object_container" "harmless init" "osize t \<le> 2 ^ 32 - 8"
  obtains (fail) "create_object osize t name init s = Some (s, None)"
  | (success) s' p m where "create_object osize t name init s = Some (s', Some (p, fst (init p (sys_kern s))))"
      "created t name p s s'" "osize t \<le> m" "allocated (sys_heap s') = insert (p, m) (allocated (sys_heap s))"
      "p \<notin> fst ` allocated (sys_heap s)"
  using assms(1,2)
proof (cases rule: allocate_cases [where osize = osize and name = name])
  case fail
  then show thesis using that(1) by (simp add: create_object_def)
next
  case (success s' p m)
  have "queues (sys_kern s) (Wait p) = []" "queues (sys_kern s) (WaitSend p) = []"
    using obj_invD(5,6) [OF assms(1) success(4)] by simp_all
  then have "snd (init p (sys_kern s)) = sys_kern s" using assms(3) by (simp add: harmless_def)
  then have e: "create_object osize t name init s = Some (s', Some (p, fst (init p (sys_kern s))))"
    using success(1,2,11) by (cases "init p (sys_kern s)") (simp add: create_object_def)
  have "registered s' t p" using obj_invD(4) [OF success(3), of p t] success(8) by simp
  then have "deletable t p s'"
    using registered_type class_bits(7) [OF assms(2)] success(2,9) by (simp add: deletable_def)
  moreover have "rt_object_find name t s' = Some p"
    by (simp add: rt_object_find_def class_bits [OF assms(2)] success(8,10))
  ultimately have "created t name p s s'" using success by (simp add: created_def)
  moreover have "osize t \<le> m" using align32_ge(1) [OF assms(4)] success(7) by simp
  ultimately show thesis using that(2) [OF e] success(5,6) by blast
qed

lemma delete_object_spec:
  assumes "obj_inv s" "p \<in> set (container s t)" "deletable t p s"
    and "t \<noteq> RT_Object_Class_MailBox" "t \<noteq> RT_Object_Class_MessageQueue"
  obtains s' m where "delete_object t p s = Some s'" "obj_inv s'" "(p, m) \<in> allocated (sys_heap s)"
    "allocated (sys_heap s') = allocated (sys_heap s) - {(p, m)}" "container s' = (\<lambda>u. removeAll p (container s u))"
    "\<forall>u \<in> set (queues (sys_kern s) (Wait p)). th_error (threads (sys_kern s') u) = RT_ERROR \<and>
       stat (threads (sys_kern s') u) \<noteq> RT_THREAD_SUSPEND"
proof -
  define s1 where "s1 = s\<lparr>sys_kern := rt_ipc_list_resume_all (Wait p) (sys_kern s)\<rparr>"
  note w = obj_inv_wake [OF assms(1) disjI1 [OF refl], where p = p, folded s1_def]
  note r = obj_invD(4) [OF assms(1,2)]
  have ty: "otype s p = t" using r assms(3) registered_type(2) [OF r] by (auto simp: deletable_def registered_def)
  then obtain m where m: "(p, m) \<in> allocated (sys_heap s)"
    using r class_bits(7) [of t] by (auto simp: registered_def)
  have "p \<notin> set (container s RT_Object_Class_MailBox) \<union> set (container s RT_Object_Class_MessageQueue)"
    using registered_unique [OF assms(1,2)] assms(4,5) by blast
  then have "queues (sys_kern s) (WaitSend p) = []" using assms(1) by (simp add: obj_inv_def)
  then have q: "queues (sys_kern s1) (Wait p) = []" "queues (sys_kern s1) (WaitSend p) = []"
    using w(2) w(3) [OF disjI2 [OF refl]] by simp_all
  have c: "container s1 = container s" "otype s1 = otype s" "sys_heap s1 = sys_heap s" by (simp_all add: s1_def)
  have d: "p \<in> set (container s1 t)" "otype s1 p = t" "(p, m) \<in> allocated (sys_heap s1)" using assms(2) ty m by (simp_all add: c)
  show thesis
  proof (rule object_delete_spec [OF w(1) d q])
    fix s' assume "rt_object_delete p s1 = Some s'" "obj_inv s'"
      "allocated (sys_heap s') = allocated (sys_heap s1) - {(p, m)}" "container s' = (\<lambda>u. removeAll p (container s1 u))"
      "sys_kern s' = sys_kern s1"
    then show thesis using that [of s' m] m w(4) assms(3) by (simp add: delete_object_def c flip: s1_def)
  qed
qed

subsection \<open>Creation and deletion with a pool\<close>

definition harmless2 :: "(nat \<Rightarrow> nat \<Rightarrow> mem_heap \<Rightarrow> kern \<Rightarrow> 'a \<times> kern) \<Rightarrow> bool" where
  "harmless2 init \<longleftrightarrow> (\<forall>p q h k. queues k (Wait p) = [] \<longrightarrow> queues k (WaitSend p) = [] \<longrightarrow> snd (init p q h k) = k)"

lemma create_pooled_cases:
  assumes "obj_inv s" "t \<in> set rt_object_container" "harmless2 init" "osize t \<le> 2 ^ 32 - 8" "n \<le> 2 ^ 32 - 8"
  obtains (fail) s' where "create_pooled osize t name n init s = Some (s', None)" "obj_inv s'"
      "allocated (sys_heap s') = allocated (sys_heap s)" "container s' = container s" "sys_kern s' = sys_kern s"
  | (success) s' p q m l where "create_pooled osize t name n init s = Some (s', Some (p, q, fst (init p q (sys_heap s') (sys_kern s))))"
      "created t name p s s'" "osize t \<le> m" "n \<le> l" "n \<noteq> 0" "p \<noteq> q"
      "allocated (sys_heap s') = insert (q, l) (insert (p, m) (allocated (sys_heap s)))"
      "p \<notin> fst ` allocated (sys_heap s)" "q \<notin> fst ` allocated (sys_heap s)" "q \<notin> live_objs s'"
  using assms(1,2)
proof (cases rule: allocate_cases [where osize = osize and name = name])
  case fail
  then show thesis using that(1) [of s] assms(1) by (simp add: create_pooled_def)
next
  case (success s1 p m)
  note a = success
  have q0: "queues (sys_kern s) (Wait p) = []" "queues (sys_kern s) (WaitSend p) = []"
    using obj_invD(5,6) [OF assms(1) a(4)] by simp_all
  have om: "osize t \<le> m" using align32_ge(1) [OF assms(4)] a(7) by simp
  have rem: "(\<lambda>u. removeAll p (container s1 u)) = container s"
    using a(4) by (auto simp: a(8) live_objs_def fun_eq_iff intro: removeAll_id)
  show thesis using obj_invD(1) [OF a(3)]
  proof (cases rule: malloc_spec [where n = n])
    case fail
    have s1: "s1\<lparr>sys_heap := sys_heap s1\<rparr> = s1" by simp
    have d: "p \<in> set (container s1 t)" "(p, m) \<in> allocated (sys_heap s1)" using a(6,8) by simp_all
    show thesis
    proof (rule object_delete_spec [OF a(3) d(1) a(9) d(2)])
      fix s' assume r: "rt_object_delete p s1 = Some s'" "obj_inv s'" "allocated (sys_heap s') = allocated (sys_heap s1) - {(p, m)}"
        "container s' = (\<lambda>u. removeAll p (container s1 u))" "sys_kern s' = sys_kern s1"
      have "allocated (sys_heap s') = allocated (sys_heap s)" using r(3) a(5,6) by force
      moreover have "create_pooled osize t name n init s = Some (s', None)"
        using a(1,2) fail(1) r(1) by (simp add: create_pooled_def s1)
      ultimately show thesis using that(1) [of s'] r(2,4,5) rem a(11) by simp
    qed (use q0 a(11) in simp_all)
  next
    case (success h q l)
    define s2 where "s2 = s1\<lparr>sys_heap := h\<rparr>"
    have sel: "sys_heap s2 = h" "container s2 = container s1" "sys_kern s2 = sys_kern s" "otype s2 = otype s1" "oname s2 = oname s1"
      using a(11) by (simp_all add: s2_def)
    have inv: "obj_inv s2" unfolding s2_def using success(4)
      by (intro obj_inv_heap [OF a(3) success(3,7)]) auto
    have e: "create_pooled osize t name n init s = Some (s2, Some (p, q, fst (init p q h (sys_kern s))))"
    proof -
      have "snd (init p q h (sys_kern s)) = sys_kern s" using assms(3) q0 by (simp add: harmless2_def)
      then show ?thesis using a(1,2,11) success(1,2) by (cases "init p q h (sys_kern s)") (simp add: create_pooled_def s2_def)
    qed
    have "registered s2 t p" using obj_invD(4) [OF inv, of p t] a(8) by (simp add: sel)
    then have "deletable t p s2"
      using registered_type class_bits(7) [OF assms(2)] a(2,9) by (simp add: deletable_def sel)
    moreover have "rt_object_find name t s2 = Some p"
      by (simp add: rt_object_find_def class_bits [OF assms(2)] a(8,10) sel)
    ultimately have cr: "created t name p s s2" using a(4,8) inv by (simp add: created_def sel)
    have "in_heap (sys_heap s1) q"
      using allocated_in_heap [OF success(3), of q l] success(4) in_heap_same [OF success(7)] by simp
    then have "q \<notin> live_objs s2" using fresh_not_live [OF a(3) success(5)] by (simp add: live_objs_def sel)
    moreover have "q \<notin> fst ` allocated (sys_heap s)" "p \<noteq> q" using success(5) by (auto simp: a(6))
    ultimately show thesis
      using that(2) [of s2 p q m l] e cr om align32_ge(1) [OF assms(5)] success(4,6,9) a(5,6) by (simp add: sel)
  qed
qed

lemma delete_pooled_spec:
  assumes "obj_inv s" "p \<in> set (container s t)" "deletable t p s" "(q, l) \<in> allocated (sys_heap s)" "q \<notin> live_objs s"
    and w: "obj_inv (s\<lparr>sys_kern := wake (sys_kern s)\<rparr>)" "queues (wake (sys_kern s)) (Wait p) = []"
      "queues (wake (sys_kern s)) (WaitSend p) = []"
  obtains s' m where "delete_pooled t p q wake s = Some s'" "obj_inv s'" "(p, m) \<in> allocated (sys_heap s)"
    "allocated (sys_heap s') = allocated (sys_heap s) - {(q, l), (p, m)}" "container s' = (\<lambda>u. removeAll p (container s u))"
    "sys_kern s' = wake (sys_kern s)"
proof -
  note r = obj_invD(4) [OF assms(1,2)]
  have ty: "otype s p = t" using r assms(3) registered_type(2) [OF r] by (auto simp: deletable_def registered_def)
  then obtain m where m: "(p, m) \<in> allocated (sys_heap s)"
    using r class_bits(7) [of t] by (auto simp: registered_def)
  have pq: "p \<noteq> q" using assms(2,5) by (auto simp: live_objs_def)
  obtain h where h: "rt_free q (sys_heap s) = Some h" "heap_inv h" "allocated h = allocated (sys_heap s) - {(q, l)}"
    "same_heap (sys_heap s) h" using free_spec [OF obj_invD(1) [OF assms(1)] assms(4)] by blast
  define s1 where "s1 = s\<lparr>sys_kern := wake (sys_kern s), sys_heap := h\<rparr>"
  have c: "container s1 = container s" "otype s1 = otype s" "sys_heap s1 = h" "sys_kern s1 = wake (sys_kern s)" by (simp_all add: s1_def)
  have "x \<in> fst ` allocated h" if "x \<in> fst ` allocated (sys_heap s)" "x \<in> live_objs s" for x
    using that assms(5) by (force simp: h(3))
  then have "obj_inv (s\<lparr>sys_kern := wake (sys_kern s), sys_heap := h\<rparr>)"
    using obj_inv_heap [OF w(1), of h] h(2,4) by (auto simp: live_objs_def)
  then have inv: "obj_inv s1" by (simp add: s1_def)
  have d: "p \<in> set (container s1 t)" "otype s1 p = t" "(p, m) \<in> allocated (sys_heap s1)"
    "queues (sys_kern s1) (Wait p) = []" "queues (sys_kern s1) (WaitSend p) = []"
    using assms(2) ty m pq w(2,3) by (simp_all add: c h(3))
  show thesis
  proof (rule object_delete_spec [OF inv d])
    fix s' assume "rt_object_delete p s1 = Some s'" "obj_inv s'" "allocated (sys_heap s') = allocated (sys_heap s1) - {(p, m)}"
      "container s' = (\<lambda>u. removeAll p (container s1 u))" "sys_kern s' = sys_kern s1"
    then show thesis using that [of s' m] m assms(3) h(1)
      by (simp add: delete_pooled_def c h(3) s1_def insert_Diff_if) auto
  qed
qed

lemma resume_both:
  fixes p :: nat
  assumes "obj_inv s"
  defines "k1 \<equiv> rt_ipc_list_resume_all (Wait p) (sys_kern s)"
  defines "k2 \<equiv> rt_ipc_list_resume_all (WaitSend p) k1"
  shows "obj_inv (s\<lparr>sys_kern := k2\<rparr>)" "queues k2 (Wait p) = []" "queues k2 (WaitSend p) = []"
proof -
  note a = obj_inv_wake [OF assms(1) disjI1 [OF refl], where p = p, folded k1_def]
  note b = obj_inv_wake [OF a(1) disjI2 [OF refl], where p = p]
  show "obj_inv (s\<lparr>sys_kern := k2\<rparr>)" "queues k2 (WaitSend p) = []" "queues k2 (Wait p) = []"
    using b(1,2) b(3) [OF disjI1 [OF refl] a(2)] by (simp_all add: k2_def)
qed

lemma harmless2_inits:
  "harmless2 (\<lambda>p q h. rt_mb_init p (pool q h) n flag)" "harmless2 (\<lambda>p q h. rt_mq_init p msize psize flag)"
  by (simp_all add: harmless2_def rt_mb_init_def rt_mq_init_def Let_def clear_empty2)

lemma mq_pool_bound: "(RT_ALIGN8 msize mod 65536 + MQ_HEAD) * (mmax mod 65536) \<le> 2 ^ 32 - 8"
proof -
  have "8 dvd RT_ALIGN8 msize" by (simp add: RT_ALIGN8_def)
  then have "8 dvd RT_ALIGN8 msize mod 65536" by (simp add: dvd_mod)
  then have "RT_ALIGN8 msize mod 65536 \<le> 65528" using mod_less_divisor [of 65536 "RT_ALIGN8 msize"] by (elim dvdE) simp
  then have "(RT_ALIGN8 msize mod 65536 + MQ_HEAD) * (mmax mod 65536) \<le> 65532 * 65535" by (intro mult_le_mono) auto
  then show ?thesis by simp
qed

lemma static_init_inv:
  assumes "obj_inv s" "t \<in> set rt_object_container" "p \<noteq> 0" "\<not> in_heap (sys_heap s) p" "p \<notin> live_objs s"
    "rt_object_init p t name s = Some s'"
  shows "obj_inv s'"
proof -
  have s': "s' = s\<lparr>otype := (otype s)(p := t OR RT_Object_Class_Static), oname := (oname s)(p := clip_name name),
      container := (container s)(t := p # container s t)\<rparr>"
    using assms(6) by (simp add: rt_object_init_def class_bits [OF assms(2)] split: if_splits)
  have "registered s' u x" if "x \<in> set (container s' u)" for x u
    using that assms(2-5) obj_invD(4) [OF assms(1), of x u]
    by (cases "x = p") (auto simp: s' registered_def live_objs_def split: if_splits)
  moreover have "distinct (container s' u)" for u using obj_invD(3) [OF assms(1)] assms(5) by (auto simp: s' live_objs_def)
  moreover have sub: "set (container s u) \<subseteq> set (container s' u)" for u by (auto simp: s')
  moreover have "x \<notin> live_objs s' \<Longrightarrow> x \<notin> live_objs s" for x using sub by (auto simp: live_objs_def)
  ultimately show ?thesis using assms(1) unfolding obj_inv_def by (auto simp: s')
qed

lemma detach_inv:
  assumes "obj_inv s" "queues (sys_kern s) (Wait p) = []" "queues (sys_kern s) (WaitSend p) = []" "rt_object_detach p s = Some s'"
  shows "obj_inv s'"
proof -
  have c: "container s' = (\<lambda>u. removeAll p (container s u))" "sys_kern s' = sys_kern s" "sys_heap s' = sys_heap s"
    "otype s' = (otype s)(p := 0)" using assms(4) by (auto simp: rt_object_detach_def unlink_object_def split: if_splits)
  have "registered s' u x" if "x \<in> set (container s' u)" for x u
    using that obj_invD(4) [OF assms(1), of x u] by (auto simp: c registered_def)
  moreover have "distinct (container s' u)" for u using obj_invD(3) [OF assms(1)] by (simp add: c distinct_removeAll)
  moreover have "queues (sys_kern s) (Wait x) = []" if "x \<notin> live_objs s'" for x
    using that assms(2) obj_invD(5) [OF assms(1), of x] by (cases "x = p") (auto simp: live_objs_def c)
  ultimately show ?thesis using assms(1,3) unfolding obj_inv_def c by auto
qed

lemma create_object_inv:
  assumes "obj_inv s" "t \<in> set rt_object_container" "harmless init" "osize t \<le> 2 ^ 32 - 8"
    "create_object osize t name init s = Some (s', r)"
  shows "obj_inv s'"
  using assms(1-4)
proof (cases rule: create_object_cases [where name = name])
  case fail
  then show ?thesis using assms(1,5) by simp
next
  case (success s1 p m)
  then show ?thesis using assms(5) by (simp add: created_def)
qed

lemma create_pooled_inv:
  assumes "obj_inv s" "t \<in> set rt_object_container" "harmless2 init" "osize t \<le> 2 ^ 32 - 8" "n \<le> 2 ^ 32 - 8"
    "create_pooled osize t name n init s = Some (s', r)"
  shows "obj_inv s'"
  using assms(1-5)
proof (cases rule: create_pooled_cases [where name = name])
  case (fail s1)
  then show ?thesis using assms(6) by simp
next
  case (success s1 p q m l)
  then show ?thesis using assms(6) by (simp add: created_def)
qed

lemma mb_pool_bound: "n mod 65536 * 4 \<le> (2 ^ 32 - 8 :: nat)"
proof -
  have "n mod 65536 < (65536 :: nat)" by simp
  then show ?thesis by simp
qed

lemma sem_create_inv:
  assumes "obj_inv s" "\<And>t. osize t \<le> 2 ^ 32 - 8" "rt_sem_create osize name value flag s = Some (s', r)"
  shows "obj_inv s'"
proof -
  have v: "value < 0x10000" "create_object osize 2 name (\<lambda>p. rt_sem_init p value flag) s = Some (s', r)"
    using assms(3) by (simp_all add: rt_sem_create_def split: if_splits)
  show ?thesis by (rule create_object_inv [OF assms(1) _ harmless_inits(1) [OF v(1)] assms(2) v(2)])
      (simp add: rt_object_container_def)
qed

lemma mutex_create_inv:
  assumes "obj_inv s" "\<And>t. osize t \<le> 2 ^ 32 - 8" "rt_mutex_create osize name flag s = Some (s', r)"
  shows "obj_inv s'"
  using create_object_inv [OF assms(1) _ harmless_inits(2) assms(2) assms(3) [unfolded rt_mutex_create_def]]
  by (simp add: rt_object_container_def)

lemma event_create_inv:
  assumes "obj_inv s" "\<And>t. osize t \<le> 2 ^ 32 - 8" "rt_event_create osize name flag s = Some (s', r)"
  shows "obj_inv s'"
  using create_object_inv [OF assms(1) _ harmless_inits(3) assms(2) assms(3) [unfolded rt_event_create_def]]
  by (simp add: rt_object_container_def)

lemma mb_create_inv:
  assumes "obj_inv s" "\<And>t. osize t \<le> 2 ^ 32 - 8" "rt_mb_create osize name n flag s = Some (s', r)"
  shows "obj_inv s'"
  by (rule create_pooled_inv [OF assms(1) _ harmless2_inits(1) assms(2) mb_pool_bound assms(3) [unfolded rt_mb_create_def]])
    (simp add: rt_object_container_def)

lemma mq_create_inv:
  assumes "obj_inv s" "\<And>t. osize t \<le> 2 ^ 32 - 8" "rt_mq_create osize name msize mmax flag s = Some (s', r)"
  shows "obj_inv s'"
  by (rule create_pooled_inv [OF assms(1) _ harmless2_inits(2) assms(2) mq_pool_bound assms(3) [unfolded rt_mq_create_def Let_def]])
    (simp add: rt_object_container_def)

lemma simple_delete_inv:
  assumes "obj_inv s" "t \<in> {RT_Object_Class_Semaphore, RT_Object_Class_Mutex, RT_Object_Class_Event}"
    "p \<in> set (container s t)" "delete_object t p s = Some s'"
  shows "obj_inv s'"
proof -
  have d: "deletable t p s" using assms(4) by (auto simp: delete_object_def split: if_splits)
  have "t \<noteq> RT_Object_Class_MailBox" "t \<noteq> RT_Object_Class_MessageQueue" using assms(2) by auto
  from delete_object_spec [OF assms(1,3) d this] show ?thesis using assms(4) by (metis option.inject)
qed

lemma pooled_delete_inv:
  assumes "obj_inv s" "p \<in> set (container s t)" "q \<in> fst ` allocated (sys_heap s) - live_objs s"
    "delete_pooled t p q (\<lambda>k. rt_ipc_list_resume_all (WaitSend p) (rt_ipc_list_resume_all (Wait p) k)) s = Some s'"
  shows "obj_inv s'"
proof -
  have d: "deletable t p s" using assms(4) by (auto simp: delete_pooled_def split: if_splits)
  obtain l where l: "(q, l) \<in> allocated (sys_heap s)" using assms(3) by auto
  have q: "q \<notin> live_objs s" using assms(3) by simp
  define wake where "wake = (\<lambda>k. rt_ipc_list_resume_all (WaitSend p) (rt_ipc_list_resume_all (Wait p) k))"
  have "obj_inv (s\<lparr>sys_kern := wake (sys_kern s)\<rparr>)" "queues (wake (sys_kern s)) (Wait p) = []"
    "queues (wake (sys_kern s)) (WaitSend p) = []" using resume_both [OF assms(1), of p] by (simp_all add: wake_def)
  from delete_pooled_spec [where wake = wake, OF assms(1,2) d l q this] show ?thesis
    using assms(4) unfolding wake_def [symmetric] by (metis option.inject)
qed

lemma mb_delete_inv:
  assumes "obj_inv s" "p \<in> set (container s RT_Object_Class_MailBox)" "q \<in> fst ` allocated (sys_heap s) - live_objs s"
    "rt_mb_delete p q s = Some s'"
  shows "obj_inv s'"
  using pooled_delete_inv [OF assms(1-3)] assms(4) by (simp add: rt_mb_delete_def)

lemma mq_delete_inv:
  assumes "obj_inv s" "p \<in> set (container s RT_Object_Class_MessageQueue)" "q \<in> fst ` allocated (sys_heap s) - live_objs s"
    "rt_mq_delete p q s = Some s'"
  shows "obj_inv s'"
  using pooled_delete_inv [OF assms(1-3)] assms(4) by (simp add: rt_mq_delete_def)

lemma object_init_inv:
  assumes "obj_inv s" "p \<noteq> 0" "\<not> in_heap (sys_heap s) p" "p \<notin> live_objs s" "rt_object_init p t name s = Some s'"
  shows "obj_inv s'"
proof -
  have "rt_object_get_information t \<noteq> None" using assms(5) by (auto simp: rt_object_init_def split: option.splits)
  then have "t \<in> set rt_object_container" by (auto simp: rt_object_get_information_def find_Some_iff)
  then show ?thesis using static_init_inv [OF assms(1) _ assms(2-5)] by simp
qed

subsection \<open>Properties\<close>


lemma resume_both_wakes:
  assumes "kinv k" "u \<in> set (queues k (Wait p)) \<union> set (queues k (WaitSend p))"
  shows "stat (threads (rt_ipc_list_resume_all (WaitSend p) (rt_ipc_list_resume_all (Wait p) k)) u) \<noteq> RT_THREAD_SUSPEND"
proof -
  define k1 where "k1 = rt_ipc_list_resume_all (Wait p) k"
  have a: "resumed_all (Wait p) k k1" using resume_all_post [OF assms(1)] by (simp add: k1_def)
  then have "kinv k1" "queues k1 (WaitSend p) = queues k (WaitSend p)" by (simp_all add: resumed_all_def)
  moreover from this have "resumed_all (WaitSend p) k1 (rt_ipc_list_resume_all (WaitSend p) k1)" using resume_all_post by simp
  ultimately show ?thesis using a assms(2) by (cases "u \<in> set (queues k (WaitSend p))") (auto simp: resumed_all_def k1_def)
qed

lemma mb_init_ring:
  assumes "length pool = n mod 65536"
  shows "ring_inv (fst (rt_mb_init p pool n flag k))" "mails (fst (rt_mb_init p pool n flag k)) = []"
    "mb_size (fst (rt_mb_init p pool n flag k)) = n mod 65536"
  using assms by (simp_all add: rt_mb_init_def ring_inv_def mails_def)

lemma mb_delete_back:
  assumes c: "created RT_Object_Class_MailBox name p s s'"
    and a: "p \<noteq> q" "allocated (sys_heap s') = insert (q, l) (insert (p, m) (allocated (sys_heap s)))"
      "p \<notin> fst ` allocated (sys_heap s)" "q \<notin> fst ` allocated (sys_heap s)" "q \<notin> live_objs s'"
    and inv: "obj_inv (s'\<lparr>sys_kern := k\<rparr>)"
  shows "\<exists>s''. rt_mb_delete p q (s'\<lparr>sys_kern := k\<rparr>) = Some s'' \<and> obj_inv s'' \<and>
    allocated (sys_heap s'') = allocated (sys_heap s) \<and> container s'' = container s \<and>
    (\<forall>u \<in> set (queues k (Wait p)) \<union> set (queues k (WaitSend p)). stat (threads (sys_kern s'') u) \<noteq> RT_THREAD_SUSPEND)"
proof -
  define wake where "wake = (\<lambda>k. rt_ipc_list_resume_all (WaitSend p) (rt_ipc_list_resume_all (Wait p) k))"
  define s1 where "s1 = s'\<lparr>sys_kern := k\<rparr>"
  have s1: "container s1 = container s'" "sys_heap s1 = sys_heap s'" "sys_kern s1 = k" "otype s1 = otype s'" "obj_inv s1"
    using inv by (simp_all add: s1_def)
  have w: "obj_inv (s1\<lparr>sys_kern := wake (sys_kern s1)\<rparr>)" "queues (wake (sys_kern s1)) (Wait p) = []"
    "queues (wake (sys_kern s1)) (WaitSend p) = []" using resume_both [OF s1(5), of p] by (simp_all add: wake_def)
  have d: "p \<in> set (container s1 RT_Object_Class_MailBox)" "deletable RT_Object_Class_MailBox p s1"
    "(q, l) \<in> allocated (sys_heap s1)" "q \<notin> live_objs s1"
    using c a(2,5) by (simp_all add: s1 created_def deletable_def live_objs_def rt_object_get_type_def rt_object_is_systemobject_def)
  obtain s'' m' where r: "delete_pooled RT_Object_Class_MailBox p q wake s1 = Some s''" "obj_inv s''" "(p, m') \<in> allocated (sys_heap s1)"
    "allocated (sys_heap s'') = allocated (sys_heap s1) - {(q, l), (p, m')}" "container s'' = (\<lambda>u. removeAll p (container s1 u))"
    "sys_kern s'' = wake (sys_kern s1)" by (rule delete_pooled_spec [where wake = wake, OF s1(5) d w], rule that)
  have "m' = m" using r(3) a by (force simp: s1)
  moreover have "(q, l) \<notin> allocated (sys_heap s)" "(p, m) \<notin> allocated (sys_heap s)" using a(3,4) by force+
  then have "insert (q, l) (insert (p, m) (allocated (sys_heap s))) - {(q, l), (p, m)} = allocated (sys_heap s)" by blast
  ultimately have "allocated (sys_heap s'') = allocated (sys_heap s)" using r(4) by (simp only: s1 a(2))
  moreover have "container s'' = container s"
    using r(5) c by (auto simp: s1 created_def live_objs_def fun_eq_iff intro: removeAll_id)
  moreover have "stat (threads (sys_kern s'') u) \<noteq> RT_THREAD_SUSPEND"
    if "u \<in> set (queues k (Wait p)) \<union> set (queues k (WaitSend p))" for u
    using resume_both_wakes [OF _ that] obj_invD(2) [OF s1(5)] by (simp add: r(6) wake_def s1)
  moreover have "rt_mb_delete p q s1 = Some s''" using r(1) by (simp add: rt_mb_delete_def wake_def)
  ultimately show ?thesis using r(2) by (auto simp flip: s1_def)
qed

text \<open>
  A mailbox on the heap: \<open>rt_mb_create\<close> either returns null and leaves memory, container and
  kernel as they were, or returns a new empty mailbox, found by its name, whose control block and
  pool are two new blocks of sufficient size; and whatever happens to the mailbox in the meantime,
  \<open>rt_mb_delete\<close> gives back exactly these blocks and leaves no thread waiting.
\<close>

theorem mailbox_on_heap:
  assumes "obj_inv s" "\<And>t. osize t \<le> 2 ^ 32 - 8"
  shows "\<exists>s' r. rt_mb_create osize name n flag s = Some (s', r) \<and>
    (case r of
       None \<Rightarrow> allocated (sys_heap s') = allocated (sys_heap s) \<and> container s' = container s \<and> sys_kern s' = sys_kern s
     | Some (p, q, mb) \<Rightarrow>
         created RT_Object_Class_MailBox name p s s' \<and> ring_inv mb \<and> mails mb = [] \<and> mb_size mb = n mod 65536 \<and>
         (\<exists>m l. osize RT_Object_Class_MailBox \<le> m \<and> 4 * mb_size mb \<le> l \<and> p \<noteq> q \<and> {p, q} \<inter> fst ` allocated (sys_heap s) = {} \<and>
            allocated (sys_heap s') = {(p, m), (q, l)} \<union> allocated (sys_heap s)) \<and>
         (\<forall>k. obj_inv (s'\<lparr>sys_kern := k\<rparr>) \<longrightarrow>
            (\<exists>s''. rt_mb_delete p q (s'\<lparr>sys_kern := k\<rparr>) = Some s'' \<and> obj_inv s'' \<and>
               allocated (sys_heap s'') = allocated (sys_heap s) \<and> container s'' = container s \<and>
               (\<forall>u \<in> set (queues k (Wait p)) \<union> set (queues k (WaitSend p)). stat (threads (sys_kern s'') u) \<noteq> RT_THREAD_SUSPEND))))"
proof -
  have t: "RT_Object_Class_MailBox \<in> set rt_object_container" by (simp add: rt_object_container_def)
  define pool where "pool = (\<lambda>q (h :: mem_heap). map (\<lambda>j. load32 (bytes h) (q + 4 * j)) [0..<n mod 65536])"
  have e: "rt_mb_create osize name n flag s = create_pooled osize RT_Object_Class_MailBox name (n mod 65536 * 4)
      (\<lambda>p q h. rt_mb_init p (pool q h) n flag) s" by (simp add: rt_mb_create_def pool_def)
  show ?thesis
  proof (rule create_pooled_cases [where name = name,
        OF assms(1) t harmless2_inits(1) [where pool = pool and n = n and flag = flag] assms(2) mb_pool_bound [of n]])
    fix s' p q m l
    assume r: "create_pooled osize RT_Object_Class_MailBox name (n mod 65536 * 4) (\<lambda>p q h. rt_mb_init p (pool q h) n flag) s =
        Some (s', Some (p, q, fst (rt_mb_init p (pool q (sys_heap s')) n flag (sys_kern s))))"
      and c: "created RT_Object_Class_MailBox name p s s'" "osize RT_Object_Class_MailBox \<le> m" "n mod 65536 * 4 \<le> l"
      and a: "p \<noteq> q" "allocated (sys_heap s') = insert (q, l) (insert (p, m) (allocated (sys_heap s)))"
        "p \<notin> fst ` allocated (sys_heap s)" "q \<notin> fst ` allocated (sys_heap s)" "q \<notin> live_objs s'"
    define mb where "mb = fst (rt_mb_init p (pool q (sys_heap s')) n flag (sys_kern s))"
    have mb: "ring_inv mb" "mails mb = []" "mb_size mb = n mod 65536"
      using mb_init_ring [of "pool q (sys_heap s')" n p flag "sys_kern s"] by (simp_all add: mb_def pool_def)
    have al: "\<exists>m l. osize RT_Object_Class_MailBox \<le> m \<and> 4 * mb_size mb \<le> l \<and> p \<noteq> q \<and> {p, q} \<inter> fst ` allocated (sys_heap s) = {} \<and>
        allocated (sys_heap s') = {(p, m), (q, l)} \<union> allocated (sys_heap s)"
      using c(2,3) a mb(3) by (intro exI [of _ m] exI [of _ l]) auto
    show ?thesis using r c(1) mb al mb_delete_back [OF c(1) a]
      by (intro exI [of _ s'] exI [of _ "Some (p, q, mb)"]) (simp add: e flip: mb_def)
  qed (simp add: e)
qed

text \<open>A system after start-up with one mailbox.\<close>

definition obj_demo :: ksys where
  "obj_demo = \<lparr>container = (\<lambda>_. []), otype = (\<lambda>_. 0), oname = (\<lambda>_. []), sys_heap = heap_demo, sys_kern = boot\<rparr>"

lemma obj_demo_inv: "obj_inv obj_demo"
proof -
  have "queues boot l = []" for l
    by (cases l) (simp_all add: boot_def rt_system_timer_init_def rt_system_scheduler_init_def)
  then show ?thesis using kinv_boot heap_demo_inv by (simp add: obj_inv_def obj_demo_def)
qed

theorem mailbox_on_heap_witness:
  "\<exists>s' r. rt_mb_create (\<lambda>_. 60) ''mb'' 4 RT_IPC_FLAG_FIFO obj_demo = Some (s', r) \<and>
     (case r of None \<Rightarrow> container s' = container obj_demo | Some (p, q, mb) \<Rightarrow> mails mb = [] \<and> mb_size mb = 4)"
  using mailbox_on_heap [OF obj_demo_inv, of "\<lambda>_. 60" "''mb''" 4 RT_IPC_FLAG_FIFO] by (fastforce split: option.splits)


end
