(* ===== verification/Ls1c_Can.thy ===== *)
theory Ls1c_Can
  imports Ls1c_Gpio
begin

unbundle bit_operations_syntax

section \<open>CAN controllers (\<^verbatim>\<open>libraries/ls1c_can.c\<close>, \<^verbatim>\<open>drivers/drv_can.c\<close>)\<close>

text \<open>
  The two SJA1000-style controllers in PeliCAN mode: modes, bit timing, acceptance filter, the frame
  window, and the driver on top. The library reads and writes the controller as a C structure, here
  the record \<open>CAN_TypeDef\<close>. Only the mode register answers for itself: \<open>settle n v\<close> is what it
  shows 10 microseconds after \<open>v\<close> was written, when the polling loop has \<open>n\<close> passes left.
  \<open>None\<close> is an access outside an array of eight bytes, or the use of a variable that was never set.
\<close>

subsection \<open>Registers and messages\<close>

record CAN_TypeDef =
  MOD :: u8
  CMR :: u8
  SR :: u8
  IR :: u8
  IER :: u8
  BTR0 :: u8
  BTR1 :: u8
  ECC :: u8
  RXERR :: u8
  TXERR :: u8
  IDE_RTR_DLC :: u8
  ID :: "u8 list"
  BUF :: "u8 list"
  CDR :: u8

type_synonym settle = "nat \<Rightarrow> u8 \<Rightarrow> u8"

abbreviation CAN_Mode_RM :: u8 where "CAN_Mode_RM \<equiv> 0x01"
abbreviation CAN_Mode_LOM :: u8 where "CAN_Mode_LOM \<equiv> 0x02"
abbreviation CAN_Mode_STM :: u8 where "CAN_Mode_STM \<equiv> 0x04"
abbreviation CAN_Mode_AFM :: u8 where "CAN_Mode_AFM \<equiv> 0x08"
abbreviation CAN_Mode_SM :: u8 where "CAN_Mode_SM \<equiv> 0x10"
abbreviation CAN_IR_RI :: u8 where "CAN_IR_RI \<equiv> 0x01"
abbreviation CAN_IR_TI :: u8 where "CAN_IR_TI \<equiv> 0x02"
abbreviation CAN_IR_DOI :: u8 where "CAN_IR_DOI \<equiv> 0x08"
abbreviation CAN_IR_BEI :: u8 where "CAN_IR_BEI \<equiv> 0x80"
abbreviation CAN_CMR_TR :: u8 where "CAN_CMR_TR \<equiv> 0x01"
abbreviation CAN_CMR_RRB :: u8 where "CAN_CMR_RRB \<equiv> 0x04"
abbreviation CAN_CMR_CDO :: u8 where "CAN_CMR_CDO \<equiv> 0x08"
abbreviation CAN_InitStatus_Failed :: u8 where "CAN_InitStatus_Failed \<equiv> 0"

datatype Ls1c_CanBPS_t = LS1C_CAN1MBaud | LS1C_CAN800kBaud | LS1C_CAN500kBaud | LS1C_CAN250kBaud
  | LS1C_CAN125kBaud | LS1C_CAN100kBaud | LS1C_CAN50kBaud | LS1C_CAN40kBaud

record CAN_InitTypeDef =
  CAN_Prescaler :: u8
  CAN_Mode :: u8
  CAN_SJW :: u8
  CAN_BS1 :: u8
  CAN_BS2 :: u8

record CAN_FilterInitTypeDef =
  F_IDE :: u8
  F_RTR :: u8
  F_MODE :: u8
  First_Data :: u32
  Data_Mask :: u32
  F_ID :: u32
  IDMASK :: u32

text \<open>\<^verbatim>\<open>CanTxMsg\<close> and \<^verbatim>\<open>CanRxMsg\<close> have the same members.\<close>

record CanMsg =
  StdId :: u32
  ExtId :: u32
  IDE :: u8
  RTR :: u8
  DLC :: u8
  Data :: "u8 list"

subsection \<open>Modes and bit timing\<close>

fun reset_poll :: "settle \<Rightarrow> nat \<Rightarrow> u8 \<Rightarrow> CAN_TypeDef \<Rightarrow> CAN_TypeDef \<times> u8" where
  "reset_poll settle 0 status c = (c, 0)"
| "reset_poll settle (Suc n) status c =
     (if status AND CAN_Mode_RM = CAN_Mode_RM then (c, 1)
      else let c = c\<lparr>MOD := settle n (MOD c OR CAN_Mode_RM)\<rparr>
           in reset_poll settle n (MOD c) c)"

definition set_reset_mode :: "settle \<Rightarrow> CAN_TypeDef \<Rightarrow> CAN_TypeDef \<times> u8" where
  "set_reset_mode settle c =
     (let status = MOD c;
          c = c\<lparr>IER := 0x00\<rparr>
      in reset_poll settle 100 status c)"

fun normal_poll :: "settle \<Rightarrow> nat \<Rightarrow> u8 \<Rightarrow> CAN_TypeDef \<Rightarrow> CAN_TypeDef \<times> u8" where
  "normal_poll settle 0 status c = (c, 0)"
| "normal_poll settle (Suc n) status c =
     (if status AND CAN_Mode_RM \<noteq> CAN_Mode_RM then (c\<lparr>IER := IER c OR NOT CAN_IR_BEI\<rparr>, 1)
      else let c = c\<lparr>MOD := settle n (MOD c AND NOT CAN_Mode_RM)\<rparr>
           in normal_poll settle n (MOD c) c)"

definition set_normal_mode :: "settle \<Rightarrow> CAN_TypeDef \<Rightarrow> CAN_TypeDef \<times> u8" where
  "set_normal_mode settle c = normal_poll settle 100 (MOD c) c"

definition set_start :: "settle \<Rightarrow> CAN_TypeDef \<Rightarrow> CAN_TypeDef \<times> u8" where
  "set_start settle c = set_normal_mode settle (c\<lparr>TXERR := 0, RXERR := 0, CDR := 0xC0\<rparr>)"

text \<open>One of the four switches of \<open>CAN_Init\<close>: the bit \<open>m\<close> of the mode register follows the configuration.\<close>

definition mode_bit :: "u8 \<Rightarrow> u8 \<Rightarrow> CAN_TypeDef \<Rightarrow> CAN_TypeDef" where
  "mode_bit m mode c =
     (if mode AND m = m then c\<lparr>MOD := MOD c OR m\<rparr> else c\<lparr>MOD := MOD c AND NOT m\<rparr>)"

definition bit_timing :: "u8 \<Rightarrow> u8 \<Rightarrow> u8 \<Rightarrow> u8 \<Rightarrow> CAN_TypeDef \<Rightarrow> CAN_TypeDef" where
  "bit_timing prescaler bs1 bs2 sjw c =
     c\<lparr>BTR0 := (prescaler - 1) OR push_bit 6 sjw,
       BTR1 := bs1 OR push_bit 4 bs2 OR push_bit 7 sjw\<rparr>"

definition CAN_Init :: "settle \<Rightarrow> CAN_InitTypeDef \<Rightarrow> CAN_TypeDef \<Rightarrow> CAN_TypeDef \<times> u8" where
  "CAN_Init settle init c =
     (if MOD c = 0xFF then (c, CAN_InitStatus_Failed)
      else let (c, InitStatus) = set_reset_mode settle c;
               c = mode_bit CAN_Mode_SM (CAN_Mode init) c;
               c = mode_bit CAN_Mode_LOM (CAN_Mode init) c;
               c = mode_bit CAN_Mode_AFM (CAN_Mode init) c;
               c = mode_bit CAN_Mode_STM (CAN_Mode init) c;
               c = bit_timing (CAN_Prescaler init) (CAN_BS1 init) (CAN_BS2 init) (CAN_SJW init) c
           in (fst (set_start settle c), InitStatus))"

text \<open>Prescaler and the codes of the two segments for each rate.\<close>

fun bps_timing :: "Ls1c_CanBPS_t \<Rightarrow> u8 \<times> u8 \<times> u8" where
  "bps_timing LS1C_CAN1MBaud = (9, 0x03, 0x01)"
| "bps_timing LS1C_CAN800kBaud = (8, 0x06, 0x01)"
| "bps_timing LS1C_CAN500kBaud = (9, 0x0A, 0x01)"
| "bps_timing LS1C_CAN250kBaud = (36, 0x03, 0x01)"
| "bps_timing LS1C_CAN125kBaud = (36, 0x0A, 0x01)"
| "bps_timing LS1C_CAN100kBaud = (63, 0x06, 0x01)"
| "bps_timing LS1C_CAN50kBaud = (63, 0x0F, 0x02)"
| "bps_timing LS1C_CAN40kBaud = (63, 0x0F, 0x07)"

definition CAN_SetBps :: "settle \<Rightarrow> Ls1c_CanBPS_t \<Rightarrow> CAN_TypeDef \<Rightarrow> CAN_TypeDef \<times> u8" where
  "CAN_SetBps settle Bps c =
     (let (c, InitStatus) = set_reset_mode settle c
      in if InitStatus = CAN_InitStatus_Failed then (c, CAN_InitStatus_Failed)
         else case bps_timing Bps of (prescaler, bs1, bs2) \<Rightarrow>
           let c = bit_timing prescaler bs1 bs2 0 c
           in (fst (set_start settle c), CAN_InitStatus_Failed))"

definition CAN_SetMode :: "settle \<Rightarrow> u8 \<Rightarrow> CAN_TypeDef \<Rightarrow> CAN_TypeDef \<times> u8" where
  "CAN_SetMode settle mode c =
     (let (c, InitStatus) = set_reset_mode settle c
      in if InitStatus = CAN_InitStatus_Failed then (c, CAN_InitStatus_Failed)
         else let c = (if mode = 0 then c\<lparr>MOD := MOD c AND NOT CAN_Mode_STM AND NOT CAN_Mode_LOM\<rparr>
                       else if mode = 1 then c\<lparr>MOD := MOD c AND NOT CAN_Mode_STM OR CAN_Mode_LOM\<rparr>
                       else if mode = 2 then c\<lparr>MOD := (MOD c OR CAN_Mode_STM) AND NOT CAN_Mode_LOM\<rparr>
                       else if mode = 3 then c\<lparr>MOD := MOD c OR CAN_Mode_STM OR CAN_Mode_LOM\<rparr>
                       else c)
              in (fst (set_start settle c), CAN_InitStatus_Failed))"

subsection \<open>Acceptance filter\<close>

text \<open>
  The four code bytes and the four mask bytes; \<open>None\<close> when no branch sets them. The computations
  are on 32 bits and are cut to a byte by the assignment.
\<close>

definition filter_bytes :: "CAN_FilterInitTypeDef \<Rightarrow> (u8 list \<times> u8 list) option" where
  "filter_bytes f =
     (let thisid = F_ID f;
          thismask = IDMASK f;
          thisid1 = drop_bit 16 (F_ID f AND 0xFFFF0000);
          thismask1 = drop_bit 16 (IDMASK f AND 0xFFFF0000);
          thisid2 = F_ID f AND 0x0000FFFF;
          thismask2 = IDMASK f AND 0x0000FFFF;
          rtr = ucast (F_RTR f) :: u32;
          firstdata = First_Data f;
          datamask = Data_Mask f
      in if F_IDE f = 0 then
           (if F_MODE f = 0 then
              Some ([ucast (drop_bit 3 thisid1),
                     ucast (push_bit 5 thisid1 OR drop_bit 4 firstdata OR push_bit 4 rtr),
                     ucast (drop_bit 3 thisid2),
                     ucast (firstdata AND 0x0F OR push_bit 5 thisid2 OR push_bit 4 rtr)],
                    [ucast (drop_bit 3 thismask1),
                     ucast (push_bit 4 thismask1 OR drop_bit 4 datamask),
                     ucast (drop_bit 3 thismask2),
                     ucast (push_bit 4 datamask)])
            else if F_MODE f = 1 then
              Some ([ucast (drop_bit 3 thisid), ucast (push_bit 5 thisid OR push_bit 4 rtr), 0x00, 0x00],
                    [ucast (drop_bit 3 thismask), ucast (push_bit 5 thismask) OR 0x0F, 0xFF, 0xFF])
            else None)
         else if F_IDE f = 1 then
           (if F_MODE f = 0 then
              Some ([ucast (drop_bit 8 thisid1), ucast thisid1, ucast (drop_bit 8 thisid2), ucast thisid2],
                    [ucast (drop_bit 8 thismask1), ucast thismask1, ucast (drop_bit 8 thismask2), ucast thismask2])
            else if F_MODE f = 1 then
              Some ([ucast (drop_bit 21 thisid), ucast (drop_bit 13 thisid), ucast (drop_bit 5 thisid),
                     ucast (push_bit 3 thisid OR push_bit 2 rtr)],
                    [ucast (drop_bit 21 thismask), ucast (drop_bit 13 thismask), ucast (drop_bit 5 thismask),
                     ucast (push_bit 3 thismask) OR 0x03])
            else None)
         else None)"

definition write_filter :: "u8 list \<Rightarrow> u8 list \<Rightarrow> CAN_TypeDef \<Rightarrow> CAN_TypeDef" where
  "write_filter code msk c =
     c\<lparr>IDE_RTR_DLC := code ! 0,
       ID := (ID c)[0 := code ! 1, 1 := code ! 2, 2 := code ! 3, 3 := msk ! 0],
       BUF := (BUF c)[0 := msk ! 1, 1 := msk ! 2, 2 := msk ! 3]\<rparr>"

definition CAN_FilterInit :: "settle \<Rightarrow> CAN_FilterInitTypeDef \<Rightarrow> CAN_TypeDef \<Rightarrow> CAN_TypeDef option" where
  "CAN_FilterInit settle f c =
     (case filter_bytes f of
        None \<Rightarrow> None
      | Some (code, msk) \<Rightarrow>
          let c = fst (set_reset_mode settle c);
              c = (if F_MODE f = 1 then c\<lparr>MOD := MOD c OR CAN_Mode_AFM\<rparr> else c);
              c = write_filter code msk c
          in Some (fst (set_start settle c)))"

subsection \<open>Frames\<close>

definition copy_loop :: "nat \<Rightarrow> nat \<Rightarrow> u8 list \<Rightarrow> u8 list \<Rightarrow> u8 list" where
  "copy_loop n off src dst = fold (\<lambda>i b. b[i := src ! (i + off)]) [0..<n] dst"

definition info_byte :: "CanMsg \<Rightarrow> u8" where
  "info_byte m = push_bit 7 (IDE m AND 0x01) OR push_bit 6 (RTR m AND 0x01) OR (DLC m AND 0x0F)"

definition CAN_Transmit :: "CanMsg \<Rightarrow> CAN_TypeDef \<Rightarrow> CAN_TypeDef option" where
  "CAN_Transmit m c =
     (if IDE m \<le> 1 \<and> 8 < DLC m then None
      else let c = (if IDE m = 1 then
                      c\<lparr>ID := (ID c)[0 := ucast (drop_bit 21 (ExtId m)), 1 := ucast (drop_bit 13 (ExtId m)),
                                   2 := ucast (drop_bit 5 (ExtId m)), 3 := ucast (push_bit 3 (ExtId m))],
                        IDE_RTR_DLC := info_byte m,
                        BUF := copy_loop (unat (DLC m)) 0 (Data m) (BUF c)\<rparr>
                    else if IDE m = 0 then
                      c\<lparr>ID := (ID c)[0 := ucast (drop_bit 3 (StdId m)), 1 := ucast (push_bit 5 (StdId m)),
                                   2 := Data m ! 0, 3 := Data m ! 1],
                        IDE_RTR_DLC := info_byte m,
                        BUF := copy_loop (unat (DLC m) - 2) 2 (Data m) (BUF c)\<rparr>
                    else c)
           in Some (c\<lparr>CMR := CAN_CMR_TR\<rparr>))"

text \<open>The members that a frame does not have keep the values of the frame before.\<close>

definition CAN_Receive :: "CAN_TypeDef \<Rightarrow> CanMsg \<Rightarrow> CanMsg" where
  "CAN_Receive c m =
     (let m = m\<lparr>IDE := drop_bit 7 (IDE_RTR_DLC c AND 0x80)\<rparr>;
          m = m\<lparr>RTR := drop_bit 4 (IDE_RTR_DLC c AND 0x40)\<rparr>;
          m = m\<lparr>DLC := IDE_RTR_DLC c AND 0x0F\<rparr>
      in if IDE m = 0 then
           m\<lparr>StdId := push_bit 3 (ucast (ID c ! 0)) OR drop_bit 5 (ucast (ID c ! 1)),
             Data := [ID c ! 2, ID c ! 3, BUF c ! 0, BUF c ! 1, BUF c ! 2, BUF c ! 3, BUF c ! 4, BUF c ! 5]\<rparr>
         else if IDE m = 1 then
           m\<lparr>ExtId := push_bit 21 (ucast (ID c ! 0)) OR push_bit 13 (ucast (ID c ! 1))
                      OR push_bit 5 (ucast (ID c ! 2)) OR drop_bit 3 (ucast (ID c ! 3)),
             Data := map (\<lambda>i. BUF c ! i) [0..<8]\<rparr>
         else m)"

subsection \<open>The driver\<close>

text \<open>
  \<^verbatim>\<open>struct rt_can_filter_item\<close>: the identifier has 29 bits, the three flags one bit each.
  The counters of \<^verbatim>\<open>struct rt_can_status\<close> that nothing in this configuration writes are left out.
\<close>

record rt_can_filter_item =
  fi_id :: u32
  fi_ide :: u8
  fi_rtr :: u8
  fi_mode :: u8
  fi_mask :: u32
  fi_hdr :: int

record rt_can_msg =
  id :: u32
  ide :: u8
  rtr :: u8
  len :: u8
  priv :: u8
  hdr :: int
  data :: "u8 list"

record rt_can_status =
  rcverrcnt :: u32
  snderrcnt :: u32
  errcode :: u32
  rcvpkg :: u32
  dropedrcvpkg :: u32
  sndpkg :: u32
  dropedsndpkg :: u32
  rcvchange :: u32
  sndchange :: u32

record can_drv =
  creg :: CAN_TypeDef
  cfg_baud :: u32
  cfg_mode :: u8
  can_status :: rt_can_status

text \<open>
  \<open>junk\<close> is what the two members of the local structure that are never assigned happen to hold.
  The locals \<^verbatim>\<open>id\<close> and \<^verbatim>\<open>idmask\<close> are declared \<^verbatim>\<open>unsigned char\<close>.
\<close>

definition bxmodifyfilter ::
  "settle \<Rightarrow> u32 \<times> u32 \<Rightarrow> rt_can_filter_item \<Rightarrow> bool \<Rightarrow> CAN_TypeDef \<Rightarrow> (CAN_TypeDef \<times> int) option" where
  "bxmodifyfilter settle junk pitem actived c =
     (if \<not> actived then Some (c, 0)
      else if fi_hdr pitem = - 1 then Some (c, - 1)
      else let id8 = ucast (fi_id pitem) :: u8;
               idmask = ucast (fi_mask pitem) :: u8
           in do { c \<leftarrow> CAN_FilterInit settle
                     \<lparr>F_IDE = fi_ide pitem, F_RTR = fi_rtr pitem, F_MODE = fi_mode pitem, First_Data = fst junk,
                      Data_Mask = snd junk, F_ID = ucast id8, IDMASK = ucast idmask\<rparr> c;
                   Some (c, 0) })"

fun setfilter ::
  "settle \<Rightarrow> (nat \<Rightarrow> u32 \<times> u32) \<Rightarrow> rt_can_filter_item list \<Rightarrow> bool \<Rightarrow> CAN_TypeDef \<Rightarrow> (CAN_TypeDef \<times> int) option" where
  "setfilter settle junk [] actived c = Some (c, 0)"
| "setfilter settle junk (pitem # items) actived c =
     do { (c, res) \<leftarrow> bxmodifyfilter settle (junk (length items)) pitem actived c;
          if res \<noteq> 0 then Some (c, res) else setfilter settle junk items actived c }"

definition baud_bps :: "u32 \<Rightarrow> Ls1c_CanBPS_t" where
  "baud_bps baud =
     (if baud = 1000000 then LS1C_CAN1MBaud
      else if baud = 800000 then LS1C_CAN800kBaud
      else if baud = 500000 then LS1C_CAN500kBaud
      else if baud = 250000 then LS1C_CAN250kBaud
      else if baud = 125000 then LS1C_CAN125kBaud
      else if baud = 50000 then LS1C_CAN40kBaud
      else LS1C_CAN250kBaud)"

text \<open>The second switch of \<open>bxcan_init\<close> has no case for 40 kbit/s.\<close>

definition init_timing :: "Ls1c_CanBPS_t \<Rightarrow> u8 \<times> u8 \<times> u8" where
  "init_timing bps = (if bps = LS1C_CAN40kBaud then (36, 0x03, 0x01) else bps_timing bps)"

definition bxcan_init :: "settle \<Rightarrow> u32 \<Rightarrow> u32 \<Rightarrow> CAN_TypeDef \<Rightarrow> CAN_TypeDef option" where
  "bxcan_init settle baud mode c =
     do { m \<leftarrow> (if mode = 0 then Some 0x00
                 else if mode = 1 then Some CAN_Mode_LOM
                 else if mode = 2 then Some CAN_Mode_STM
                 else if mode = 3 then Some (CAN_Mode_STM OR CAN_Mode_LOM)
                 else None);
          let (prescaler, bs1, bs2) = init_timing (baud_bps baud)
          in Some (fst (CAN_Init settle
               \<lparr>CAN_Prescaler = prescaler, CAN_Mode = m, CAN_SJW = 0, CAN_BS1 = bs1, CAN_BS2 = bs2\<rparr> c)) }"

datatype can_no = CAN0 | CAN1

definition bxcan_hw_init :: "u32 \<Rightarrow> u32 \<Rightarrow> bus \<Rightarrow> bus" where
  "bxcan_hw_init rx tx s =
     (let s = pin_set_purpose rx PIN_PURPOSE_OTHER s;
          s = pin_set_purpose tx PIN_PURPOSE_OTHER s;
          s = pin_set_remap rx PIN_REMAP_THIRD s
      in pin_set_remap tx PIN_REMAP_THIRD s)"

fun configure :: "settle \<Rightarrow> can_no \<Rightarrow> u32 \<Rightarrow> u32 \<Rightarrow> bus \<times> CAN_TypeDef \<Rightarrow> (bus \<times> CAN_TypeDef) option" where
  "configure settle CAN0 baud mode (s, c) =
     do { c \<leftarrow> bxcan_init settle baud mode c; Some (bxcan_hw_init 54 55 s, c) }"
| "configure settle CAN1 baud mode (s, c) =
     do { c \<leftarrow> bxcan_init settle baud mode c; Some (bxcan_hw_init 56 57 s, c) }"

datatype can_cmd = RT_CAN_CMD_SET_FILTER "rt_can_filter_item list" bool | RT_CAN_CMD_SET_MODE u32
  | RT_CAN_CMD_SET_BAUD u32 | RT_CAN_CMD_GET_STATUS | can_cmd_other

fun control :: "settle \<Rightarrow> (nat \<Rightarrow> u32 \<times> u32) \<Rightarrow> can_cmd \<Rightarrow> can_drv \<Rightarrow> (can_drv \<times> int) option" where
  "control settle junk (RT_CAN_CMD_SET_FILTER items actived) d =
     do { (c, res) \<leftarrow> setfilter settle junk items actived (creg d); Some (d\<lparr>creg := c\<rparr>, res) }"
| "control settle junk (RT_CAN_CMD_SET_MODE argval) d =
     (if argval \<noteq> 0 \<or> argval \<noteq> 1 \<or> argval \<noteq> 2 \<or> argval \<noteq> 3 then Some (d, 1)
      else if argval \<noteq> ucast (cfg_mode d) then
        (let (c, r) = CAN_SetMode settle (ucast argval) (creg d)
         in Some (d\<lparr>cfg_mode := ucast argval, creg := c\<rparr>, uint r))
      else Some (d, 0))"
| "control settle junk (RT_CAN_CMD_SET_BAUD argval) d =
     (if argval \<noteq> 1000000 \<and> argval \<noteq> 800000 \<and> argval \<noteq> 500000 \<and> argval \<noteq> 250000 \<and> argval \<noteq> 125000 \<and>
         argval \<noteq> 100000 \<and> argval \<noteq> 50000 then Some (d, 1)
      else if argval \<noteq> cfg_baud d then
        (let (c, r) = CAN_SetBps settle (baud_bps argval) (creg d)
         in Some (d\<lparr>cfg_baud := argval, creg := c\<rparr>, uint r))
      else Some (d, 0))"
| "control settle junk RT_CAN_CMD_GET_STATUS d =
     Some (d\<lparr>can_status := (can_status d)\<lparr>rcverrcnt := ucast (RXERR (creg d)), snderrcnt := ucast (TXERR (creg d)),
                                          errcode := ucast (ECC (creg d))\<rparr>\<rparr>, 0)"
| "control settle junk can_cmd_other d = Some (d, 0)"

text \<open>
  \<open>stack\<close>: the eight bytes of the local message before they are set. The fields of
  \<^verbatim>\<open>struct rt_can_msg\<close> are narrower than the members they are copied from.
\<close>

definition sendmsg :: "u8 list \<Rightarrow> rt_can_msg \<Rightarrow> CAN_TypeDef \<Rightarrow> CAN_TypeDef option" where
  "sendmsg stack pmsg c =
     (if 8 < len pmsg then None
      else CAN_Transmit \<lparr>StdId = id pmsg, ExtId = id pmsg, IDE = ide pmsg, RTR = rtr pmsg, DLC = len pmsg,
                         Data = copy_loop (unat (len pmsg)) 0 (data pmsg) stack\<rparr> c)"

definition recvmsg :: "CanMsg \<Rightarrow> rt_can_msg \<Rightarrow> rt_can_msg option" where
  "recvmsg RxMessage pmsg =
     (if 8 < DLC RxMessage then None
      else Some (pmsg\<lparr>ide := IDE RxMessage AND mask 1,
                      id := (if IDE RxMessage = 1 then ExtId RxMessage else StdId RxMessage) AND mask 29,
                      len := DLC RxMessage,
                      rtr := RTR RxMessage AND mask 1,
                      hdr := 0,
                      data := copy_loop (unat (DLC RxMessage)) 0 (Data RxMessage) (data pmsg)\<rparr>))"

text \<open>
  The interrupt handlers of the two controllers share the variable \<open>RxMessage\<close>. The result is the
  event handed to \<open>rt_hw_can_isr\<close>, if any.
\<close>

definition ls1c_can_irqhandler :: "CAN_TypeDef \<Rightarrow> CanMsg \<Rightarrow> CAN_TypeDef \<times> CanMsg \<times> nat option" where
  "ls1c_can_irqhandler c RxMessage =
     (let status = IR c
      in if status AND CAN_IR_RI = CAN_IR_RI then
           (c\<lparr>CMR := CMR c OR CAN_CMR_RRB OR CAN_CMR_CDO\<rparr>, CAN_Receive c RxMessage, Some 0x01)
         else if status AND CAN_IR_TI = CAN_IR_TI then (c, RxMessage, Some 0x02)
         else if status AND CAN_IR_DOI = CAN_IR_DOI then (c, RxMessage, Some 0x06)
         else (c, RxMessage, None))"

subsection \<open>What the modes and rates come to\<close>

text \<open>A controller that works: the mode register takes the value written. One that never enters reset mode.\<close>

definition obeys :: "settle \<Rightarrow> bool" where
  "obeys settle \<longleftrightarrow> (\<forall>n v. settle n v = v)"

definition never_resets :: "settle \<Rightarrow> bool" where
  "never_resets settle \<longleftrightarrow> (\<forall>n v. \<not> bit (settle n v) 0)"

lemma and_RM [simp]: "(v :: u8) AND CAN_Mode_RM = CAN_Mode_RM \<longleftrightarrow> bit v 0"
  by (simp add: and_1_eq_bit)

lemma set_RM [simp]: "bit (v :: u8) 0 \<Longrightarrow> v OR CAN_Mode_RM = v"
  by (rule bit_eqI) (auto simp: bit_or_iff bit_1_iff)

lemma clear_RM: "\<not> bit (v :: u8) 0 \<Longrightarrow> v AND NOT CAN_Mode_RM = v"
  by (rule bit_eqI) (auto simp: bit_and_iff bit_not_iff bit_1_iff intro: gr0I)

lemmas clear_RM' [simp] = clear_RM [simplified]

lemma not_BEI [simp]: "(- 129 :: u8) = 0x7F"
  by simp

lemma poll_obeys:
  assumes "obeys settle" "2 \<le> n"
  shows "reset_poll settle n (MOD c) c = (c\<lparr>MOD := MOD c OR CAN_Mode_RM\<rparr>, 1)"
    "normal_poll settle n (MOD c) c = (c\<lparr>MOD := MOD c AND NOT CAN_Mode_RM, IER := IER c OR NOT CAN_IR_BEI\<rparr>, 1)"
proof -
  obtain m where n: "n = Suc (Suc m)" using assms(2) by (metis add_2_eq_Suc le_Suc_ex)
  show "reset_poll settle n (MOD c) c = (c\<lparr>MOD := MOD c OR CAN_Mode_RM\<rparr>, 1)"
    using assms(1) by (cases "bit (MOD c) 0") (simp_all add: n obeys_def Let_def bit_or_iff bit_1_iff)
  show "normal_poll settle n (MOD c) c = (c\<lparr>MOD := MOD c AND NOT CAN_Mode_RM, IER := IER c OR NOT CAN_IR_BEI\<rparr>, 1)"
    using assms(1) by (cases "bit (MOD c) 0") (simp_all add: n obeys_def Let_def bit_and_iff bit_not_iff bit_1_iff)
qed

lemma set_reset_mode_obeys:
  assumes "obeys settle"
  shows "set_reset_mode settle c = (c\<lparr>IER := 0, MOD := MOD c OR CAN_Mode_RM\<rparr>, 1)"
  using poll_obeys(1) [OF assms, of 100 "c\<lparr>IER := 0\<rparr>"] by (simp add: set_reset_mode_def)

lemma reset_poll_never:
  assumes "never_resets settle" "\<not> bit status 0" "\<not> bit (MOD c) 0"
  shows "\<exists>v. reset_poll settle n status c = (c\<lparr>MOD := v\<rparr>, 0) \<and> \<not> bit v 0"
  using assms(2,3)
proof (induction n arbitrary: status c)
  case 0
  then show ?case by (auto intro: exI [of _ "MOD c"])
next
  case (Suc n)
  define c' where "c' = c\<lparr>MOD := settle n (MOD c OR 1)\<rparr>"
  have "\<not> bit (MOD c') 0" using assms(1) by (simp add: c'_def never_resets_def)
  from Suc.IH [OF this this] obtain v where
    "reset_poll settle n (MOD c') c' = (c'\<lparr>MOD := v\<rparr>, 0)" "\<not> bit v 0" by auto
  with Suc.prems show ?case by (auto simp: c'_def Let_def intro!: exI [of _ v])
qed

lemma set_reset_mode_never:
  assumes "never_resets settle" "\<not> bit (MOD c) 0"
  shows "\<exists>v. set_reset_mode settle c = (c\<lparr>IER := 0, MOD := v\<rparr>, 0) \<and> \<not> bit v 0"
  using reset_poll_never [OF assms, of "c\<lparr>IER := 0\<rparr>" 100] assms(2) by (auto simp: set_reset_mode_def Let_def)

lemma set_start_obeys:
  assumes "obeys settle"
  shows "set_start settle c =
    (c\<lparr>TXERR := 0, RXERR := 0, CDR := 0xC0, MOD := MOD c AND NOT CAN_Mode_RM, IER := IER c OR 0x7F\<rparr>, 1)"
  using poll_obeys(2) [OF assms, of 100 "c\<lparr>TXERR := 0, RXERR := 0, CDR := 0xC0\<rparr>"]
  by (simp add: set_start_def set_normal_mode_def)

text \<open>
  The rate of a SJA1000 with these timing registers, from the clock of 126 MHz that the tables assume:
  a bit is one quantum of synchronisation and the two segments, and the prescaler counts double.
\<close>

definition bit_rate :: "CAN_TypeDef \<Rightarrow> nat" where
  "bit_rate c = 126000000 div ((1 + (unat (BTR1 c AND 0x0F) + 1) + (unat (drop_bit 4 (BTR1 c) AND 0x07) + 1)) *
     (2 * (unat (BTR0 c AND 0x3F) + 1)))"

definition operational :: "CAN_TypeDef \<Rightarrow> bool" where
  "operational c \<longleftrightarrow> \<not> bit (MOD c) 0 \<and> IER c = 0x7F \<and> TXERR c = 0 \<and> RXERR c = 0 \<and> CDR c = 0xC0"

fun bps_rate :: "Ls1c_CanBPS_t \<Rightarrow> nat" where
  "bps_rate LS1C_CAN1MBaud = 1000000"
| "bps_rate LS1C_CAN800kBaud = 787500"
| "bps_rate LS1C_CAN500kBaud = 500000"
| "bps_rate LS1C_CAN250kBaud = 250000"
| "bps_rate LS1C_CAN125kBaud = 125000"
| "bps_rate LS1C_CAN100kBaud = 100000"
| "bps_rate LS1C_CAN50kBaud = 50000"
| "bps_rate LS1C_CAN40kBaud = 40000"

lemma bit_rate_timing:
  assumes "bps_timing bps = (p, b1, b2)" "BTR0 c = p - 1" "BTR1 c = b1 OR push_bit 4 b2"
  shows "bit_rate c = bps_rate bps"
proof -
  have "bit_rate c = 126000000 div ((1 + (unat ((b1 OR push_bit 4 b2) AND 0x0F) + 1) + (unat (drop_bit 4 (b1 OR push_bit 4 b2) AND 0x07) + 1)) *
     (2 * (unat ((p - 1) AND 0x3F) + 1)))" unfolding bit_rate_def assms(2,3) ..
  also have "\<dots> = bps_rate bps" using assms(1) by (cases bps) (auto simp: eq_commute [of _ p] eq_commute [of _ b1] eq_commute [of _ b2])
  finally show ?thesis .
qed

lemma CAN_SetBps_obeys:
  assumes "obeys settle"
  shows "\<exists>c'. CAN_SetBps settle bps c = (c', 0) \<and> operational c' \<and> bit_rate c' = bps_rate bps"
proof -
  obtain p b1 b2 where t: "bps_timing bps = (p, b1, b2)" by (metis prod_cases3)
  define c' where "c' = fst (set_start settle (bit_timing p b1 b2 0 (c\<lparr>IER := 0, MOD := MOD c OR CAN_Mode_RM\<rparr>)))"
  have "CAN_SetBps settle bps c = (c', 0)"
    using assms t by (simp add: CAN_SetBps_def set_reset_mode_obeys c'_def)
  moreover have "BTR0 c' = p - 1" "BTR1 c' = b1 OR push_bit 4 b2" "operational c'"
    using assms by (simp_all add: c'_def set_start_obeys bit_timing_def operational_def bit_and_iff bit_not_iff)
  ultimately show ?thesis using bit_rate_timing [OF t] by blast
qed

text \<open>Each switch of \<open>CAN_Init\<close> copies one bit.\<close>

definition copy_bit :: "nat \<Rightarrow> u8 \<Rightarrow> u8 \<Rightarrow> u8" where
  "copy_bit k mode v = (if bit mode k then set_bit k v else unset_bit k v)"

lemma bit_copy_bit [simp]: "k < 8 \<Longrightarrow> bit (copy_bit k mode v) i \<longleftrightarrow> (if i = k then bit mode k else bit v i)"
  by (auto simp: copy_bit_def bit_set_bit_iff bit_unset_bit_iff)

lemma mode_bit_eq:
  assumes "k < 8"
  shows "mode_bit (push_bit k 1) mode c = c\<lparr>MOD := copy_bit k mode (MOD c)\<rparr>"
proof -
  have "mode AND push_bit k 1 = push_bit k 1 \<longleftrightarrow> bit mode k"
    using assms by (auto simp: bit_eq_iff [where 'a = "8 word"] bit_and_iff bit_exp_iff)
  then show ?thesis by (simp add: mode_bit_def copy_bit_def set_bit_eq_or unset_bit_eq_and_not)
qed

lemmas mode_bits = mode_bit_eq [of 1, simplified] mode_bit_eq [of 2, simplified] mode_bit_eq [of 3, simplified]
  mode_bit_eq [of 4, simplified]

lemma CAN_Init_obeys:
  assumes "obeys settle" "MOD c \<noteq> 0xFF" "CAN_SJW init = 0"
  shows "\<exists>c'. CAN_Init settle init c = (c', 1) \<and> operational c' \<and>
    BTR0 c' = CAN_Prescaler init - 1 \<and> BTR1 c' = CAN_BS1 init OR push_bit 4 (CAN_BS2 init) \<and>
    bit (MOD c') 1 = bit (CAN_Mode init) 1 \<and> bit (MOD c') 2 = bit (CAN_Mode init) 2 \<and>
    bit (MOD c') 3 = bit (CAN_Mode init) 3 \<and> bit (MOD c') 4 = bit (CAN_Mode init) 4"
  using assms
  by (simp add: CAN_Init_def set_reset_mode_obeys set_start_obeys mode_bits bit_timing_def operational_def Let_def
      bit_and_iff bit_not_iff)

text \<open>The modes of the driver as bits of the mode register.\<close>

lemma bxcan_init_obeys:
  assumes "obeys settle" "MOD c \<noteq> 0xFF" "mode \<in> {0, 1, 2, 3}"
  shows "\<exists>c'. bxcan_init settle baud mode c = Some c' \<and> operational c' \<and>
    (bit (MOD c') 1 \<longleftrightarrow> mode \<in> {1, 3}) \<and> (bit (MOD c') 2 \<longleftrightarrow> mode \<in> {2, 3}) \<and>
    bit_rate c' = (if baud \<in> {1000000, 500000, 250000, 125000} then unat baud
                   else if baud = 800000 then 787500 else 250000)"
proof -
  obtain p b1 b2 where t: "init_timing (baud_bps baud) = (p, b1, b2)" by (metis prod_cases3)
  define m :: u8 where "m = (if mode = 0 then 0 else if mode = 1 then 2 else if mode = 2 then 4 else 6)"
  define init where "init = \<lparr>CAN_Prescaler = p, CAN_Mode = m, CAN_SJW = 0, CAN_BS1 = b1, CAN_BS2 = b2\<rparr>"
  obtain c' where c': "CAN_Init settle init c = (c', 1)" "operational c'" "BTR0 c' = p - 1" "BTR1 c' = b1 OR push_bit 4 b2"
      "bit (MOD c') 1 = bit m 1" "bit (MOD c') 2 = bit m 2"
    using CAN_Init_obeys [OF assms(1,2), of init] by (auto simp: init_def)
  have "bxcan_init settle baud mode c = Some (fst (CAN_Init settle init c))"
    using assms(3) t by (auto simp: bxcan_init_def init_def m_def)
  moreover have "bit_rate c' = bps_rate (if baud_bps baud = LS1C_CAN40kBaud then LS1C_CAN250kBaud else baud_bps baud)"
    using t by (intro bit_rate_timing [OF _ c'(3,4)]) (auto simp: init_timing_def split: if_splits)
  moreover have "\<dots> = (if baud \<in> {1000000, 500000, 250000, 125000} then unat baud else if baud = 800000 then 787500 else 250000)"
    by (auto simp: baud_bps_def)
  moreover have "(bit m 1 \<longleftrightarrow> mode \<in> {1, 3}) \<and> (bit m 2 \<longleftrightarrow> mode \<in> {2, 3})"
    using assms(3) by (auto simp: m_def)
  ultimately show ?thesis using c' by auto
qed

lemma set_baud_eq:
  assumes "creg d = c" "baud \<noteq> cfg_baud d" "baud \<in> {1000000, 800000, 500000, 250000, 125000, 100000, 50000}"
  shows "control settle junk (RT_CAN_CMD_SET_BAUD baud) d =
    (case CAN_SetBps settle (baud_bps baud) c of (c', r) \<Rightarrow> Some (d\<lparr>cfg_baud := baud, creg := c'\<rparr>, uint r))"
  using assms by (elim insertE emptyE) simp_all

text \<open>
  Configuring a controller. With a controller that obeys its mode register, \<open>configure\<close> leaves it out
  of reset mode with the error counters cleared and all interrupts but the bus error enabled, in the
  mode asked for; the bit rate is the one asked for at 1 M, 500 k, 250 k and 125 kbit/s, 787.5 k for 800 k,
  and 250 kbit/s for every other request, 100 k and 50 k included. Changing the rate later also gives 250 k for
  100 k, but 40 k for 50 k. With a controller that never enters reset mode the same request is
  answered with the code for success, and neither timing nor rate is touched.
\<close>

theorem can_configured:
  assumes "MOD c \<noteq> 0xFF" "mode \<in> {0, 1, 2, 3}" "creg d = c" "baud \<noteq> cfg_baud d"
    "baud \<in> {1000000, 800000, 500000, 250000, 125000, 100000, 50000}"
  shows "(obeys settle \<longrightarrow>
      (\<exists>s' c'. configure settle n baud mode (s, c) = Some (s', c') \<and> operational c' \<and>
         (bit (MOD c') 1 \<longleftrightarrow> mode \<in> {1, 3}) \<and> (bit (MOD c') 2 \<longleftrightarrow> mode \<in> {2, 3}) \<and>
         bit_rate c' = (if baud \<in> {100000, 50000} then 250000 else if baud = 800000 then 787500 else unat baud)) \<and>
      (\<exists>d'. control settle junk (RT_CAN_CMD_SET_BAUD baud) d = Some (d', 0) \<and> operational (creg d') \<and> cfg_baud d' = baud \<and>
         bit_rate (creg d') = (if baud = 100000 then 250000 else if baud = 50000 then 40000
                               else if baud = 800000 then 787500 else unat baud))) \<and>
    (never_resets settle \<and> \<not> bit (MOD c) 0 \<longrightarrow>
      (\<exists>d'. control settle junk (RT_CAN_CMD_SET_BAUD baud) d = Some (d', 0) \<and> cfg_baud d' = baud \<and>
         bit_rate (creg d') = bit_rate c \<and> IER (creg d') = 0))"
proof (intro conjI impI)
  assume ob: "obeys settle"
  show "\<exists>s' c'. configure settle n baud mode (s, c) = Some (s', c') \<and> operational c' \<and>
         (bit (MOD c') 1 \<longleftrightarrow> mode \<in> {1, 3}) \<and> (bit (MOD c') 2 \<longleftrightarrow> mode \<in> {2, 3}) \<and>
         bit_rate c' = (if baud \<in> {100000, 50000} then 250000 else if baud = 800000 then 787500 else unat baud)"
  proof -
    have "(if baud \<in> {1000000, 500000, 250000, 125000} then unat baud else if baud = 800000 then 787500 else 250000) =
        (if baud \<in> {100000, 50000} then 250000 else if baud = 800000 then 787500 else unat baud)"
      using assms(5) by (elim insertE emptyE) simp_all
    with bxcan_init_obeys [OF ob assms(1,2), of baud] show ?thesis by (cases n) force+
  qed
  show "\<exists>d'. control settle junk (RT_CAN_CMD_SET_BAUD baud) d = Some (d', 0) \<and> operational (creg d') \<and> cfg_baud d' = baud \<and>
         bit_rate (creg d') = (if baud = 100000 then 250000 else if baud = 50000 then 40000
                               else if baud = 800000 then 787500 else unat baud)"
  proof -
    have "bps_rate (baud_bps baud) = (if baud = 100000 then 250000 else if baud = 50000 then 40000
                               else if baud = 800000 then 787500 else unat baud)"
      using assms(5) by (elim insertE emptyE) (simp_all add: baud_bps_def)
    with CAN_SetBps_obeys [OF ob, of "baud_bps baud" c] show ?thesis unfolding set_baud_eq [OF assms(3-5)] by force
  qed
next
  assume "never_resets settle \<and> \<not> bit (MOD c) 0"
  then obtain v where "set_reset_mode settle c = (c\<lparr>IER := 0, MOD := v\<rparr>, 0)"
    using set_reset_mode_never by blast
  then show "\<exists>d'. control settle junk (RT_CAN_CMD_SET_BAUD baud) d = Some (d', 0) \<and> cfg_baud d' = baud \<and>
         bit_rate (creg d') = bit_rate c \<and> IER (creg d') = 0"
    unfolding set_baud_eq [OF assms(3-5)] by (simp add: CAN_SetBps_def bit_rate_def)
qed

definition can_regs0 :: CAN_TypeDef where
  "can_regs0 = \<lparr>MOD = 1, CMR = 0, SR = 0, IR = 0, IER = 0, BTR0 = 0, BTR1 = 0, ECC = 0, RXERR = 0, TXERR = 0,
     IDE_RTR_DLC = 0, ID = replicate 4 0, BUF = replicate 8 0, CDR = 0\<rparr>"

definition can_status0 :: rt_can_status where
  "can_status0 = \<lparr>rcverrcnt = 0, snderrcnt = 0, errcode = 0, rcvpkg = 0, dropedrcvpkg = 0, sndpkg = 0,
     dropedsndpkg = 0, rcvchange = 0, sndchange = 0\<rparr>"

definition can_drv0 :: can_drv where
  "can_drv0 = \<lparr>creg = can_regs0, cfg_baud = 250000, cfg_mode = 0, can_status = can_status0\<rparr>"

theorem can_configured_witness:
  "\<exists>s' c'. configure (\<lambda>_ v. v) CAN0 500000 1 (bus0, can_regs0) = Some (s', c') \<and> operational c' \<and> bit_rate c' = 500000"
  using can_configured [of can_regs0 1 can_drv0 500000 "\<lambda>_ v. v" CAN0 bus0]
  by (auto simp: can_regs0_def can_drv0_def obeys_def)

subsection \<open>Which frames the filter lets through\<close>

text \<open>
  The single-filter acceptance test of the SJA1000: the code bytes lie at \<open>IDE_RTR_DLC\<close> and
  \<open>ID[0..2]\<close>, the mask bytes at \<open>ID[3]\<close> and \<open>BUF[0..2]\<close>; a frame is let through when it agrees with the code in
  every bit whose mask bit is 0. Of a standard frame the eleven bits of the identifier, the
  remote bit and two data bytes are compared, of an extended frame 29 bits and the remote bit.
\<close>

definition byte_match :: "u8 \<Rightarrow> u8 \<Rightarrow> u8 \<Rightarrow> bool" where
  "byte_match code msk b \<longleftrightarrow> (code XOR b) AND NOT msk = 0"

definition accepts_std :: "CAN_TypeDef \<Rightarrow> u32 \<Rightarrow> bool \<Rightarrow> u8 \<Rightarrow> u8 \<Rightarrow> bool" where
  "accepts_std c fid remote d0 d1 \<longleftrightarrow>
     byte_match (IDE_RTR_DLC c) (ID c ! 3) (ucast (drop_bit 3 fid)) \<and>
     byte_match (ID c ! 0) (BUF c ! 0 OR 0x0F) (ucast (push_bit 5 fid) OR push_bit 4 (of_bool remote)) \<and>
     byte_match (ID c ! 1) (BUF c ! 1) d0 \<and> byte_match (ID c ! 2) (BUF c ! 2) d1"

definition accepts_ext :: "CAN_TypeDef \<Rightarrow> u32 \<Rightarrow> bool \<Rightarrow> bool" where
  "accepts_ext c fid remote \<longleftrightarrow>
     byte_match (IDE_RTR_DLC c) (ID c ! 3) (ucast (drop_bit 21 fid)) \<and>
     byte_match (ID c ! 0) (BUF c ! 0) (ucast (drop_bit 13 fid)) \<and>
     byte_match (ID c ! 1) (BUF c ! 1) (ucast (drop_bit 5 fid)) \<and>
     byte_match (ID c ! 2) (BUF c ! 2 OR 0x03) (ucast (push_bit 3 fid) OR push_bit 2 (of_bool remote))"

text \<open>The frames with identifier \<open>fid\<close> that agree with \<open>code\<close> in the first \<open>n\<close> bits outside the mask.\<close>

definition id_match :: "nat \<Rightarrow> u32 \<Rightarrow> u32 \<Rightarrow> u32 \<Rightarrow> bool" where
  "id_match n code msk fid \<longleftrightarrow> (\<forall>i < n. bit msk i \<or> bit code i = bit fid i)"

lemma byte_match_bits: "byte_match code msk b \<longleftrightarrow> (\<forall>i < 8. bit msk i \<or> bit code i = bit b i)"
  by (auto simp: byte_match_def bit_eq_iff [where 'a = "8 word"] bit_and_iff bit_xor_iff bit_not_iff)

definition agree :: "u32 \<Rightarrow> u32 \<Rightarrow> u32 \<Rightarrow> nat \<Rightarrow> bool" where
  "agree code msk fid i \<longleftrightarrow> bit msk i \<or> bit code i = bit fid i"

lemma byte_match_high:
  "byte_match (ucast (drop_bit k code)) (ucast (drop_bit k msk)) (ucast (drop_bit k fid)) \<longleftrightarrow>
     (\<forall>i \<in> {k..<k + 8}. agree code msk fid i)"
proof -
  have "(\<forall>i \<in> {k..<k + 8}. agree code msk fid i) \<longleftrightarrow> (\<forall>i < 8. agree code msk fid (k + i))"
    by (auto dest!: le_Suc_ex)
  then show ?thesis by (auto simp: byte_match_bits agree_def bit_ucast_iff bit_drop_bit_eq)
qed

text \<open>The byte with the last bits of the identifier, the remote bit below them and the rest masked.\<close>

lemma byte_match_low:
  assumes "r \<in> {0, 1}" "k \<le> 6"
  shows "byte_match (ucast (push_bit (Suc k) code OR push_bit k (ucast (r :: u8)))) (ucast (push_bit (Suc k) msk) OR mask k)
       (ucast (push_bit (Suc k) fid) OR push_bit k (of_bool remote)) \<longleftrightarrow>
     (\<forall>i \<in> {0..<7 - k}. agree code msk fid i) \<and> remote = bit r 0"
proof -
  let ?m = "\<lambda>i. bit (ucast (push_bit (Suc k) msk) OR mask k :: u8) i \<or>
    bit (ucast (push_bit (Suc k) code OR push_bit k (ucast r)) :: u8) i =
    bit (ucast (push_bit (Suc k) fid) OR push_bit k (of_bool remote) :: u8) i"
  have low: "?m i" if "i < k" for i using that assms(2) by (simp add: bit_or_iff bit_mask_iff)
  have mid: "?m k \<longleftrightarrow> remote = bit r 0"
    using assms by (auto simp: bit_or_iff bit_mask_iff bit_ucast_iff bit_push_bit_iff simp del: push_bit_Suc)
  have high: "?m (Suc k + i) \<longleftrightarrow> agree code msk fid i" if "i < 7 - k" for i
    using that assms
    by (auto simp: bit_or_iff bit_mask_iff bit_ucast_iff bit_push_bit_iff agree_def bit_1_iff simp del: push_bit_Suc)
  have "(\<forall>i < 8. ?m i) \<longleftrightarrow> ?m k \<and> (\<forall>i < 7 - k. ?m (Suc k + i))"
  proof (intro iffI conjI allI impI)
    fix i :: nat assume a: "?m k \<and> (\<forall>i < 7 - k. ?m (Suc k + i))" and i: "i < 8"
    consider "i < k" | "i = k" | "k < i" by linarith
    then show "?m i"
    proof cases
      case 3
      then have "?m (Suc k + (i - Suc k))" using a i by (intro mp [OF spec [OF conjunct2 [OF a]]]) linarith
      with 3 show ?thesis by simp
    qed (use a low in auto)
  qed (use assms(2) in auto)
  then show ?thesis using mid high by (auto simp: byte_match_bits)
qed

lemma agree_ranges:
  fixes P :: "nat \<Rightarrow> bool"
  shows "(\<forall>i \<in> {0..<3}. P i) \<and> (\<forall>i \<in> {3..<11}. P i) \<longleftrightarrow> (\<forall>i < 11. P i)"
    "(\<forall>i \<in> {0..<5}. P i) \<and> (\<forall>i \<in> {5..<13}. P i) \<and> (\<forall>i \<in> {13..<21}. P i) \<and> (\<forall>i \<in> {21..<29}. P i) \<longleftrightarrow> (\<forall>i < 29. P i)"
    "(\<forall>i < 8. P i) \<and> (\<forall>i \<in> {8..<11}. P i) \<longleftrightarrow> (\<forall>i < 11. P i)"
proof -
  have "{..<11} = {0..<3} \<union> {3..<11::nat}" "{..<29} = {0..<5} \<union> {5..<13} \<union> {13..<21} \<union> {21..<29::nat}"
    "{..<11} = {..<8} \<union> {8..<11::nat}" by auto
  then show "(\<forall>i \<in> {0..<3}. P i) \<and> (\<forall>i \<in> {3..<11}. P i) \<longleftrightarrow> (\<forall>i < 11. P i)"
    "(\<forall>i \<in> {0..<5}. P i) \<and> (\<forall>i \<in> {5..<13}. P i) \<and> (\<forall>i \<in> {13..<21}. P i) \<and> (\<forall>i \<in> {21..<29}. P i) \<longleftrightarrow> (\<forall>i < 29. P i)"
    "(\<forall>i < 8. P i) \<and> (\<forall>i \<in> {8..<11}. P i) \<longleftrightarrow> (\<forall>i < 11. P i)"
    by (simp_all only: Ball_def_raw flip: lessThan_iff) blast+
qed

lemma filter_std:
  assumes "r \<in> {0, 1}"
  shows "byte_match (ucast (drop_bit 3 code)) (ucast (drop_bit 3 msk)) (ucast (drop_bit 3 fid)) \<and>
     byte_match (ucast (push_bit 5 code OR push_bit 4 (ucast (r :: u8)))) (ucast (push_bit 5 msk) OR 0x0F)
       (ucast (push_bit 5 fid) OR push_bit 4 (of_bool remote)) \<longleftrightarrow>
     (\<forall>i < 11. agree code msk fid i) \<and> remote = bit r 0"
proof -
  have "mask 4 = (0x0F :: u8)" by (simp add: mask_eq_exp_minus_1)
  with byte_match_low [OF assms, of 4 code msk fid remote] show ?thesis
    unfolding agree_ranges(1) [symmetric] byte_match_high by (auto simp del: push_bit_Suc)
qed

lemma filter_ext:
  assumes "r \<in> {0, 1}"
  shows "byte_match (ucast (drop_bit 21 code)) (ucast (drop_bit 21 msk)) (ucast (drop_bit 21 fid)) \<and>
     byte_match (ucast (drop_bit 13 code)) (ucast (drop_bit 13 msk)) (ucast (drop_bit 13 fid)) \<and>
     byte_match (ucast (drop_bit 5 code)) (ucast (drop_bit 5 msk)) (ucast (drop_bit 5 fid)) \<and>
     byte_match (ucast (push_bit 3 code OR push_bit 2 (ucast (r :: u8)))) (ucast (push_bit 3 msk) OR 0x03)
       (ucast (push_bit 3 fid) OR push_bit 2 (of_bool remote)) \<longleftrightarrow>
     (\<forall>i < 29. agree code msk fid i) \<and> remote = bit r 0"
proof -
  have "mask 2 = (0x03 :: u8)" by (simp add: mask_eq_exp_minus_1)
  with byte_match_low [OF assms, of 2 code msk fid remote] show ?thesis
    unfolding agree_ranges(2) [symmetric] byte_match_high by (auto simp del: push_bit_Suc)
qed

lemma write_filter_sel:
  assumes "length (ID c) = 4" "length (BUF c) = 8"
  shows "IDE_RTR_DLC (write_filter code msk c) = code ! 0" "ID (write_filter code msk c) ! 0 = code ! 1"
    "ID (write_filter code msk c) ! 1 = code ! 2" "ID (write_filter code msk c) ! 2 = code ! 3"
    "ID (write_filter code msk c) ! 3 = msk ! 0" "BUF (write_filter code msk c) ! 0 = msk ! 1"
    "BUF (write_filter code msk c) ! 1 = msk ! 2" "BUF (write_filter code msk c) ! 2 = msk ! 3"
  using assms by (simp_all add: write_filter_def)

lemma write_filter_mode [simp]:
  "MOD (write_filter code msk c) = MOD c" "IER (write_filter code msk c) = IER c"
  by (simp_all add: write_filter_def)

text \<open>The two mask bytes that cover the data, and the masked low bits, never refuse a frame.\<close>

lemma byte_match_trivial: "byte_match code 0xFF b"
proof -
  have m: "(0xFF :: u8) = mask 8" by (simp add: mask_eq_exp_minus_1)
  show ?thesis unfolding byte_match_bits m by (simp add: bit_mask_iff)
qed

lemma or_idem: "(x :: u8) OR y OR y = x OR y"
  by (simp add: or.assoc)

lemma CAN_FilterInit_single:
  assumes "obeys settle" "F_MODE f = 1" "F_IDE f \<in> {0, 1}" "F_RTR f \<in> {0, 1}" "length (ID c) = 4" "length (BUF c) = 8"
  shows "\<exists>c'. CAN_FilterInit settle f c = Some c' \<and> operational c' \<and> bit (MOD c') 3 \<and>
    (F_IDE f = 0 \<longrightarrow> (\<forall>fid remote d0 d1. accepts_std c' fid remote d0 d1 \<longleftrightarrow>
       (\<forall>i < 11. agree (F_ID f) (IDMASK f) fid i) \<and> remote = bit (F_RTR f) 0)) \<and>
    (F_IDE f = 1 \<longrightarrow> (\<forall>fid remote. accepts_ext c' fid remote \<longleftrightarrow>
       (\<forall>i < 29. agree (F_ID f) (IDMASK f) fid i) \<and> remote = bit (F_RTR f) 0))"
proof -
  obtain code msk where b: "filter_bytes f = Some (code, msk)"
    using assms(2,3) by (auto simp: filter_bytes_def Let_def)
  define c0 where "c0 = c\<lparr>IER := 0, MOD := (MOD c OR CAN_Mode_RM) OR CAN_Mode_AFM\<rparr>"
  have len: "length (ID c0) = 4" "length (BUF c0) = 8" using assms(5,6) by (simp_all add: c0_def)
  define c' where "c' = fst (set_start settle (write_filter code msk c0))"
  have sel: "IDE_RTR_DLC c' = code ! 0" "ID c' ! 0 = code ! 1" "ID c' ! 1 = code ! 2" "ID c' ! 2 = code ! 3"
    "ID c' ! 3 = msk ! 0" "BUF c' ! 0 = msk ! 1" "BUF c' ! 1 = msk ! 2" "BUF c' ! 2 = msk ! 3"
    using assms(1) by (simp_all add: c'_def set_start_obeys write_filter_sel [OF len] del: One_nat_def)
  have "CAN_FilterInit settle f c = Some c'"
    using assms(1,2) b by (simp add: CAN_FilterInit_def set_reset_mode_obeys c'_def c0_def Let_def)
  moreover have "operational c' \<and> bit (MOD c') 3"
    using assms(1) by (simp add: c'_def set_start_obeys operational_def c0_def bit_and_iff bit_or_iff bit_not_iff)
  moreover have "accepts_std c' fid remote d0 d1 \<longleftrightarrow>
       (\<forall>i < 11. agree (F_ID f) (IDMASK f) fid i) \<and> remote = bit (F_RTR f) 0" if "F_IDE f = 0" for fid remote d0 d1
    using b that assms(2) filter_std [OF assms(4), of "F_ID f" "IDMASK f" fid remote]
    unfolding accepts_std_def sel by (auto simp: filter_bytes_def Let_def byte_match_trivial or_idem)
  moreover have "accepts_ext c' fid remote \<longleftrightarrow>
       (\<forall>i < 29. agree (F_ID f) (IDMASK f) fid i) \<and> remote = bit (F_RTR f) 0" if "F_IDE f = 1" for fid remote
    using b that assms(2) filter_ext [OF assms(4), of "F_ID f" "IDMASK f" fid remote]
    unfolding accepts_ext_def sel by (auto simp: filter_bytes_def Let_def or_idem)
  ultimately show ?thesis by blast
qed

text \<open>
  C32. The single acceptance filter. \<open>CAN_FilterInit\<close> programs a controller that obeys its mode register so
  that it lets through exactly the frames that agree with the identifier given in every bit outside the
  mask, and in the remote bit: eleven bits of standard frames, 29 of extended ones.
  Behind the driver a filter is narrower: only the low eight bits of identifier and mask reach the
  controller, so the upper bits of a frame have to be 0. A filter without a
  handler (\<open>hdr = - 1\<close>, as the initialisers of the framework set it) is refused and changes nothing.
\<close>

theorem can_filter:
  assumes "obeys settle" "length (ID c) = 4" "length (BUF c) = 8"
  shows "(\<forall>f. F_MODE f = 1 \<and> F_IDE f \<in> {0, 1} \<and> F_RTR f \<in> {0, 1} \<longrightarrow>
      (\<exists>c'. CAN_FilterInit settle f c = Some c' \<and> operational c' \<and> bit (MOD c') 3 \<and>
        (F_IDE f = 0 \<longrightarrow> (\<forall>fid remote d0 d1. accepts_std c' fid remote d0 d1 \<longleftrightarrow>
           (\<forall>i < 11. agree (F_ID f) (IDMASK f) fid i) \<and> remote = bit (F_RTR f) 0)) \<and>
        (F_IDE f = 1 \<longrightarrow> (\<forall>fid remote. accepts_ext c' fid remote \<longleftrightarrow>
           (\<forall>i < 29. agree (F_ID f) (IDMASK f) fid i) \<and> remote = bit (F_RTR f) 0)))) \<and>
    (\<forall>item. fi_mode item = 1 \<and> fi_ide item = 0 \<and> fi_rtr item \<in> {0, 1} \<and> 0 \<le> fi_hdr item \<longrightarrow>
      (\<exists>c'. setfilter settle junk [item] True c = Some (c', 0) \<and>
        (\<forall>fid remote d0 d1. accepts_std c' fid remote d0 d1 \<longleftrightarrow>
           (\<forall>i < 8. agree (fi_id item) (fi_mask item) fid i) \<and> (\<forall>i \<in> {8..<11}. \<not> bit fid i) \<and> remote = bit (fi_rtr item) 0))) \<and>
    (\<forall>item. fi_hdr item = - 1 \<longrightarrow> setfilter settle junk [item] True c = Some (c, - 1))"
proof (intro conjI allI impI)
  fix item :: rt_can_filter_item assume i: "fi_mode item = 1 \<and> fi_ide item = 0 \<and> fi_rtr item \<in> {0, 1} \<and> 0 \<le> fi_hdr item"
  define f where "f = \<lparr>F_IDE = fi_ide item, F_RTR = fi_rtr item, F_MODE = fi_mode item, First_Data = fst (junk 0),
    Data_Mask = snd (junk 0), F_ID = ucast (ucast (fi_id item) :: u8), IDMASK = ucast (ucast (fi_mask item) :: u8)\<rparr>"
  have cut: "(\<forall>i < 11. agree (F_ID f) (IDMASK f) fid i) \<longleftrightarrow>
      (\<forall>i < 8. agree (fi_id item) (fi_mask item) fid i) \<and> (\<forall>i \<in> {8..<11}. \<not> bit fid i)" for fid
    unfolding agree_ranges(3) [symmetric] by (simp add: agree_def f_def bit_ucast_iff)
  obtain c' where "CAN_FilterInit settle f c = Some c'" "\<forall>fid remote d0 d1. accepts_std c' fid remote d0 d1 \<longleftrightarrow>
      (\<forall>i < 11. agree (F_ID f) (IDMASK f) fid i) \<and> remote = bit (F_RTR f) 0"
    using CAN_FilterInit_single [OF assms(1) _ _ _ assms(2,3), of f] i by (auto simp: f_def)
  with i cut show "\<exists>c'. setfilter settle junk [item] True c = Some (c', 0) \<and>
      (\<forall>fid remote d0 d1. accepts_std c' fid remote d0 d1 \<longleftrightarrow>
         (\<forall>i < 8. agree (fi_id item) (fi_mask item) fid i) \<and> (\<forall>i \<in> {8..<11}. \<not> bit fid i) \<and> remote = bit (fi_rtr item) 0)"
    by (auto simp: bxmodifyfilter_def f_def)
qed (use CAN_FilterInit_single [OF assms(1) _ _ _ assms(2,3)] in \<open>auto simp: bxmodifyfilter_def\<close>)

theorem can_filter_witness:
  "\<exists>c'. CAN_FilterInit (\<lambda>_ v. v) \<lparr>F_IDE = 0, F_RTR = 0, F_MODE = 1, First_Data = 0, Data_Mask = 0, F_ID = 0x123, IDMASK = 0\<rparr>
       can_regs0 = Some c' \<and> accepts_std c' 0x123 False 7 9 \<and> \<not> accepts_std c' 0x122 False 7 9"
proof -
  let ?f = "\<lparr>F_IDE = 0, F_RTR = 0, F_MODE = 1, First_Data = 0, Data_Mask = 0, F_ID = 0x123, IDMASK = 0\<rparr>"
  have "\<not> agree 0x123 0 0x122 0" "\<forall>i < 11. agree 0x123 0 0x123 i" by (simp_all add: agree_def)
  moreover from this(1) have "\<not> (\<forall>i < 11. agree 0x123 0 0x122 i)" by (metis zero_less_numeral)
  ultimately show ?thesis
    using conjunct1 [OF can_filter [of "\<lambda>_ v. v" can_regs0]] by (auto simp: obeys_def can_regs0_def dest!: spec [of _ ?f])
qed

subsection \<open>Frames from one controller to another\<close>

lemma copy_loop_eq:
  "n \<le> length dst \<Longrightarrow> n + off \<le> length src \<Longrightarrow> copy_loop n off src dst = take n (drop off src) @ drop n dst"
proof (induction n)
  case (Suc n)
  have "copy_loop (Suc n) off src dst = (copy_loop n off src dst)[n := src ! (n + off)]"
    by (simp add: copy_loop_def)
  moreover have "drop n dst = dst ! n # drop (Suc n) dst" "take (Suc n) (drop off src) = take n (drop off src) @ [src ! (n + off)]"
    using Suc.prems by (simp_all add: Cons_nth_drop_Suc take_Suc_conv_app_nth add.commute)
  ultimately show ?case using Suc by (simp add: list_update_append)
qed (simp add: copy_loop_def)

text \<open>
  What the bus carries from the window of the sender to that of a receiver: the
  descriptor, the identifier bytes, and the data unless the remote bit is set. The rest of the receiver's
  window is whatever it was.
\<close>

definition on_wire :: "CAN_TypeDef \<Rightarrow> CAN_TypeDef \<Rightarrow> bool" where
  "on_wire c c' \<longleftrightarrow>
     (let info = IDE_RTR_DLC c;
          n = (if bit info 7 then 4 else 2) + (if bit info 6 then 0 else min 8 (unat (info AND 0x0F)))
      in IDE_RTR_DLC c' = info \<and> length (ID c') = 4 \<and> length (BUF c') = 8 \<and>
         take n (ID c' @ BUF c') = take n (ID c @ BUF c))"

lemma std_id_bytes:
  "push_bit 3 (ucast (ucast (drop_bit 3 x) :: u8)) OR drop_bit 5 (ucast (ucast (push_bit 5 x) :: u8)) = take_bit 11 (x :: u32)"
  by (rule bit_eqI) (auto simp: bit_or_iff bit_push_bit_iff bit_drop_bit_eq bit_ucast_iff bit_take_bit_iff)

lemma ext_id_bytes:
  "push_bit 21 (ucast (ucast (drop_bit 21 x) :: u8)) OR push_bit 13 (ucast (ucast (drop_bit 13 x) :: u8))
     OR push_bit 5 (ucast (ucast (drop_bit 5 x) :: u8)) OR drop_bit 3 (ucast (ucast (push_bit 3 x) :: u8)) = take_bit 29 (x :: u32)"
  (is "?bytes = _")
proof (rule bit_eqI)
  fix n :: nat
  consider "n < 5" | "5 \<le> n" "n < 13" | "13 \<le> n" "n < 21" | "21 \<le> n" "n < 29" | "29 \<le> n" by linarith
  then show "bit ?bytes n = bit (take_bit 29 x) n"
    by cases (auto simp: bit_or_iff bit_push_bit_iff bit_drop_bit_eq bit_ucast_iff bit_take_bit_iff)
qed

lemma info_byte_bits:
  assumes "IDE m \<in> {0, 1}" "RTR m \<in> {0, 1}" "DLC m \<le> 8"
  shows "bit (info_byte m) 7 \<longleftrightarrow> IDE m = 1" "bit (info_byte m) 6 \<longleftrightarrow> RTR m = 1" "info_byte m AND 0x0F = DLC m"
    "drop_bit 7 (info_byte m AND 0x80) = IDE m" "drop_bit 4 (info_byte m AND 0x40) = push_bit 2 (RTR m)"
proof -
  have "unat (DLC m) \<le> 8" using assms(3) by (simp add: word_le_nat_alt)
  then have "unat (DLC m) \<in> {0, 1, 2, 3, 4, 5, 6, 7, 8}" by auto
  then have "DLC m \<in> word_of_nat ` {0, 1, 2, 3, 4, 5, 6, 7, 8}" by (intro image_eqI [of _ _ "unat (DLC m)"]) simp_all
  then show "bit (info_byte m) 7 \<longleftrightarrow> IDE m = 1" "bit (info_byte m) 6 \<longleftrightarrow> RTR m = 1" "info_byte m AND 0x0F = DLC m"
    "drop_bit 7 (info_byte m AND 0x80) = IDE m" "drop_bit 4 (info_byte m AND 0x40) = push_bit 2 (RTR m)"
    using assms(1,2) by (auto simp: info_byte_def)
qed

text \<open>A message the driver can send: at most eight bytes, an identifier of 11 or 29 bits.\<close>

definition msg_ok :: "rt_can_msg \<Rightarrow> bool" where
  "msg_ok m \<longleftrightarrow> ide m \<in> {0, 1} \<and> rtr m \<in> {0, 1} \<and> len m \<le> 8 \<and> length (data m) = 8 \<and>
     take_bit (if ide m = 1 then 29 else 11) (id m) = id m"

definition window_ok :: "CAN_TypeDef \<Rightarrow> bool" where
  "window_ok c \<longleftrightarrow> length (ID c) = 4 \<and> length (BUF c) = 8"

text \<open>The bytes of the window after the descriptor: identifier, then data.\<close>

lemma sendmsg_window:
  assumes "msg_ok m" "window_ok c" "length stack = 8"
  shows "\<exists>c' rest. sendmsg stack m c = Some c' \<and> window_ok c' \<and> CMR c' = CAN_CMR_TR \<and>
    bit (IDE_RTR_DLC c') 7 = (ide m = 1) \<and> bit (IDE_RTR_DLC c') 6 = (rtr m = 1) \<and> IDE_RTR_DLC c' AND 0x0F = len m \<and>
    drop_bit 7 (IDE_RTR_DLC c' AND 0x80) = ide m \<and> drop_bit 4 (IDE_RTR_DLC c' AND 0x40) = push_bit 2 (rtr m) \<and>
    ID c' @ BUF c' =
      (if ide m = 1 then [ucast (drop_bit 21 (id m)), ucast (drop_bit 13 (id m)), ucast (drop_bit 5 (id m)), ucast (push_bit 3 (id m))]
       else [ucast (drop_bit 3 (id m)), ucast (push_bit 5 (id m))]) @ take (unat (len m)) (data m) @ rest"
proof -
  define n where "n = unat (len m)"
  have n: "n \<le> 8" using assms(1) by (simp add: n_def msg_ok_def word_le_nat_alt)
  define tx where "tx = \<lparr>StdId = id m, ExtId = id m, IDE = ide m, RTR = rtr m, DLC = len m,
    Data = copy_loop n 0 (data m) stack\<rparr>"
  have len: "length (data m) = 8" "length (ID c) = 4" "length (BUF c) = 8" "\<not> 8 < len m"
    using assms by (auto simp: msg_ok_def window_ok_def)
  have data: "Data tx = take n (data m) @ drop n stack" using n len assms(3) by (simp add: tx_def copy_loop_eq)
  obtain a0 a1 a2 a3 where ID: "ID c = [a0, a1, a2, a3]"
    using len(2) by (auto simp: length_Suc_conv numeral_eq_Suc)
  have info: "IDE tx \<in> {0, 1}" "RTR tx \<in> {0, 1}" "DLC tx \<le> 8" using assms(1) by (simp_all add: tx_def msg_ok_def)
  define c' where "c' = (if ide m = 1 then
      c\<lparr>ID := [ucast (drop_bit 21 (id m)), ucast (drop_bit 13 (id m)), ucast (drop_bit 5 (id m)), ucast (push_bit 3 (id m))],
        IDE_RTR_DLC := info_byte tx, BUF := copy_loop n 0 (Data tx) (BUF c), CMR := CAN_CMR_TR\<rparr>
    else c\<lparr>ID := [ucast (drop_bit 3 (id m)), ucast (push_bit 5 (id m)), Data tx ! 0, Data tx ! 1],
        IDE_RTR_DLC := info_byte tx, BUF := copy_loop (n - 2) 2 (Data tx) (BUF c), CMR := CAN_CMR_TR\<rparr>)"
  have "sendmsg stack m c = Some c'"
    using info len by (cases "ide m = 1") (simp_all add: sendmsg_def CAN_Transmit_def c'_def ID Let_def tx_def n_def)
  moreover have "IDE_RTR_DLC c' = info_byte tx" "CMR c' = CAN_CMR_TR" by (simp_all add: c'_def)
  moreover have "window_ok c'" using len n assms(3) data by (simp add: c'_def window_ok_def copy_loop_eq)
  moreover have "\<exists>rest. ID c' @ BUF c' =
      (if ide m = 1 then [ucast (drop_bit 21 (id m)), ucast (drop_bit 13 (id m)), ucast (drop_bit 5 (id m)), ucast (push_bit 3 (id m))]
       else [ucast (drop_bit 3 (id m)), ucast (push_bit 5 (id m))]) @ take n (data m) @ rest"
  proof (cases "ide m = 1")
    case True
    then show ?thesis using n len data assms(3) by (simp add: c'_def copy_loop_eq)
  next
    case False
    have "length (Data tx) = 8" using n len data assms(3) by simp
    then obtain d0 d1 ds where d: "Data tx = d0 # d1 # ds" "length ds = 6" by (auto simp: length_Suc_conv numeral_eq_Suc)
    define t where "t = d0 # d1 # take (n - 2) ds @ drop (n - 2) (BUF c)"
    have "take n t = take n (Data tx)" using d n by (cases n; cases "n - 1") (auto simp: t_def)
    then have "take n t = take n (data m)" using data len n by simp
    then have "t = take n (data m) @ drop n t" by (metis append_take_drop_id)
    moreover have "ID c' @ BUF c' = [ucast (drop_bit 3 (id m)), ucast (push_bit 5 (id m))] @ t"
      using False n len d by (simp add: c'_def copy_loop_eq t_def)
    ultimately show ?thesis using False by (intro exI [of _ "drop n t"]) simp
  qed
  ultimately show ?thesis using info_byte_bits [OF info] by (auto simp: tx_def n_def)
qed

lemma CAN_Receive_window:
  assumes "window_ok c"
  shows "Data (CAN_Receive c old) = take 8 (drop (if bit (IDE_RTR_DLC c) 7 then 4 else 2) (ID c @ BUF c))"
    "IDE (CAN_Receive c old) = drop_bit 7 (IDE_RTR_DLC c AND 0x80)" "RTR (CAN_Receive c old) = drop_bit 4 (IDE_RTR_DLC c AND 0x40)"
    "DLC (CAN_Receive c old) = IDE_RTR_DLC c AND 0x0F"
    "\<not> bit (IDE_RTR_DLC c) 7 \<Longrightarrow> StdId (CAN_Receive c old) = push_bit 3 (ucast (ID c ! 0)) OR drop_bit 5 (ucast (ID c ! 1))"
    "bit (IDE_RTR_DLC c) 7 \<Longrightarrow> ExtId (CAN_Receive c old) = push_bit 21 (ucast (ID c ! 0)) OR push_bit 13 (ucast (ID c ! 1))
       OR push_bit 5 (ucast (ID c ! 2)) OR drop_bit 3 (ucast (ID c ! 3))"
proof -
  have "drop_bit 7 (IDE_RTR_DLC c AND 0x80) = drop_bit 7 (IDE_RTR_DLC c) AND 1" by simp
  then have ide: "drop_bit 7 (IDE_RTR_DLC c AND 0x80) = (if bit (IDE_RTR_DLC c) 7 then 1 else 0)"
    by (simp add: and_1_eq_bit bit_drop_bit_eq)
  have buf: "map ((!) (BUF c)) [0..<8] = BUF c" using assms map_nth [of "BUF c"] by (simp add: window_ok_def)
  obtain a0 a1 a2 a3 e0 e1 e2 e3 e4 e5 e6 e7 where "ID c = [a0, a1, a2, a3]" "BUF c = [e0, e1, e2, e3, e4, e5, e6, e7]"
    using assms by (auto simp: window_ok_def length_Suc_conv numeral_eq_Suc)
  note w = this
  show "Data (CAN_Receive c old) = take 8 (drop (if bit (IDE_RTR_DLC c) 7 then 4 else 2) (ID c @ BUF c))"
    unfolding CAN_Receive_def Let_def using buf by (simp add: ide w del: drop_bit_and)
  show "IDE (CAN_Receive c old) = drop_bit 7 (IDE_RTR_DLC c AND 0x80)" "RTR (CAN_Receive c old) = drop_bit 4 (IDE_RTR_DLC c AND 0x40)"
    "DLC (CAN_Receive c old) = IDE_RTR_DLC c AND 0x0F" by (simp_all add: CAN_Receive_def Let_def)
  show "\<not> bit (IDE_RTR_DLC c) 7 \<Longrightarrow> StdId (CAN_Receive c old) = push_bit 3 (ucast (ID c ! 0)) OR drop_bit 5 (ucast (ID c ! 1))"
    "bit (IDE_RTR_DLC c) 7 \<Longrightarrow> ExtId (CAN_Receive c old) = push_bit 21 (ucast (ID c ! 0)) OR push_bit 13 (ucast (ID c ! 1))
       OR push_bit 5 (ucast (ID c ! 2)) OR drop_bit 3 (ucast (ID c ! 3))"
    unfolding CAN_Receive_def Let_def by (simp_all add: ide del: drop_bit_and)
qed

lemma can_frame:
  assumes "msg_ok m" "window_ok c" "length stack = 8" "sendmsg stack m c = Some c1" "on_wire c1 c2" "length (data tmp) = 8"
  shows "\<exists>m'. recvmsg (CAN_Receive c2 old) tmp = Some m' \<and> id m' = id m \<and> ide m' = ide m \<and> len m' = len m \<and>
    hdr m' = 0 \<and> rtr m' = 0 \<and> length (data m') = 8 \<and>
    (rtr m = 0 \<longrightarrow> take (unat (len m)) (data m') = take (unat (len m)) (data m))"
proof -
  define n where "n = unat (len m)"
  define h :: nat where "h = (if ide m = 1 then 4 else 2)"
  define idb where "idb = (if ide m = 1 then [ucast (drop_bit 21 (id m)), ucast (drop_bit 13 (id m)), ucast (drop_bit 5 (id m)), ucast (push_bit 3 (id m))]
       else [ucast (drop_bit 3 (id m)), ucast (push_bit 5 (id m))] :: u8 list)"
  have m: "ide m \<in> {0, 1}" "rtr m \<in> {0, 1}" "\<not> 8 < len m" "n \<le> 8" "length (data m) = 8"
    using assms(1) by (simp_all add: msg_ok_def n_def not_less) (simp add: word_le_nat_alt)
  obtain rest where i: "bit (IDE_RTR_DLC c1) 7 = (ide m = 1)" "bit (IDE_RTR_DLC c1) 6 = (rtr m = 1)" "IDE_RTR_DLC c1 AND 0x0F = len m"
      "drop_bit 7 (IDE_RTR_DLC c1 AND 0x80) = ide m" "drop_bit 4 (IDE_RTR_DLC c1 AND 0x40) = push_bit 2 (rtr m)"
    and w1: "ID c1 @ BUF c1 = idb @ take n (data m) @ rest"
    using sendmsg_window [OF assms(1-3)] assms(4) unfolding idb_def n_def by auto
  have w2: "window_ok c2" "IDE_RTR_DLC c2 = IDE_RTR_DLC c1"
    and tk: "take (h + (if rtr m = 1 then 0 else n)) (ID c2 @ BUF c2) = take (h + (if rtr m = 1 then 0 else n)) (ID c1 @ BUF c1)"
  proof -
    have mn: "min 8 (unat (len m)) = n" using m(4) by (simp add: n_def)
    show "window_ok c2" "IDE_RTR_DLC c2 = IDE_RTR_DLC c1"
      "take (h + (if rtr m = 1 then 0 else n)) (ID c2 @ BUF c2) = take (h + (if rtr m = 1 then 0 else n)) (ID c1 @ BUF c1)"
      using assms(5) unfolding on_wire_def Let_def i(1-3) window_ok_def h_def mn by blast+
  qed
  have hl: "length idb = h" by (simp add: idb_def h_def)
  have "take h (take (h + (if rtr m = 1 then 0 else n)) (ID c2 @ BUF c2)) = idb"
    unfolding tk using hl by (simp add: w1)
  then have "take h (ID c2) = idb" using w2(1) by (auto simp: window_ok_def h_def min_def)
  then have idx: "ID c2 ! j = idb ! j" if "j < h" for j using that by (metis nth_take)
  have idr: "(if IDE (CAN_Receive c2 old) = 1 then ExtId (CAN_Receive c2 old) else StdId (CAN_Receive c2 old)) = id m"
  proof (cases "ide m = 1")
    case True
    then have "ExtId (CAN_Receive c2 old) = take_bit 29 (id m)"
      using idx i w2 by (simp add: CAN_Receive_window h_def idb_def ext_id_bytes)
    then show ?thesis using True i w2 assms(1) by (simp add: CAN_Receive_window msg_ok_def)
  next
    case False
    then have "StdId (CAN_Receive c2 old) = take_bit 11 (id m)"
      using idx i w2 by (simp add: CAN_Receive_window h_def idb_def std_id_bytes)
    then show ?thesis using False i w2 assms(1) by (simp add: CAN_Receive_window msg_ok_def)
  qed
  have dat: "take n (Data (CAN_Receive c2 old)) = take n (data m)" if "rtr m = 0"
  proof -
    have "take n (drop h (ID c2 @ BUF c2)) = drop h (take (h + n) (ID c2 @ BUF c2))"
      by (simp only: drop_take add_diff_cancel_left')
    also have "\<dots> = drop h (take (h + n) (ID c1 @ BUF c1))" using tk that by simp
    also have "\<dots> = take n (data m)" using hl m by (simp add: w1)
    finally have "take n (drop h (ID c2 @ BUF c2)) = take n (data m)" .
    moreover have "Data (CAN_Receive c2 old) = take 8 (drop h (ID c2 @ BUF c2))"
      unfolding CAN_Receive_window(1) [OF w2(1)] w2(2) i(1) h_def ..
    ultimately show ?thesis using m(4) by (simp only: take_take min_absorb1)
  qed
  have len8: "length (Data (CAN_Receive c2 old)) = 8" using w2 by (simp add: CAN_Receive_window window_ok_def)
  have id29: "id m AND mask 29 = id m"
    using assms(1) by (auto simp: msg_ok_def bit_eq_iff [where 'a = "32 word"] bit_and_iff bit_mask_iff bit_take_bit_iff split: if_splits)
  have bits: "ide m AND mask 1 = ide m" "push_bit 2 (rtr m) AND mask 1 = 0" using m(1,2) by (auto simp: mask_eq_exp_minus_1)
  have rx: "IDE (CAN_Receive c2 old) = ide m" "RTR (CAN_Receive c2 old) = push_bit 2 (rtr m)" "DLC (CAN_Receive c2 old) = len m"
    unfolding CAN_Receive_window [OF w2(1)] w2(2) by (fact i(3-5))+
  define m' where "m' = tmp\<lparr>ide := ide m, id := id m, len := len m, rtr := 0, hdr := 0,
    data := take n (Data (CAN_Receive c2 old)) @ drop n (data tmp)\<rparr>"
  have "recvmsg (CAN_Receive c2 old) tmp = Some m'"
    unfolding recvmsg_def idr unfolding rx id29 bits
    using m(3,4) len8 assms(6) by (simp add: copy_loop_eq m'_def n_def)
  then show ?thesis using dat len8 assms(6) m(4,5) by (simp add: m'_def n_def)
qed

end
