(* ===== verification/Rt_Can.thy ===== *)
theory Rt_Can
  imports Ls1c_Can "HOL-Library.Sublist"
begin

unbundle bit_operations_syntax

section \<open>CAN receive queue (\<^verbatim>\<open>rt-thread/components/drivers/can/can.c\<close>)\<close>

text \<open>
  The receive side of the CAN framework: a pool of message nodes that are free or in use, in the order of
  arrival, with a second chain per handler for the messages that its filter has let through. The
  interrupt fills the queue, \<open>rt_can_read\<close> empties it, and when no node is free the oldest message is
  given up. Nodes are numbered by their place in the buffer; a list head is the sequence of its nodes.
  \<open>None\<close> is a failed assertion or an access outside the caller's buffer.
\<close>

subsection \<open>State\<close>

record can_hdr =
  connected :: bool
  hmsgs :: u32
  hlist :: "nat list"
  has_ind :: bool

record rt_can_rx_fifo =
  buffer :: "nat \<Rightarrow> rt_can_msg"
  msg_owner :: "nat \<Rightarrow> nat option"
  freenumbers :: nat
  freelist :: "nat list"
  uselist :: "nat list"

record rt_can_device =
  msgboxsz :: nat
  maxhdr :: nat
  can_rx :: "rt_can_rx_fifo option"
  chdr :: "can_hdr list option"
  cstatus :: rt_can_status
  int_rx :: bool
  ref_count :: nat
  has_rx_indicate :: bool

text \<open>The call-backs of the interrupt: the indication of a handler, or that of the device.\<close>

datatype can_ind = Hdr_ind nat nat | Rx_ind nat | No_ind

abbreviation msg_size :: nat where "msg_size \<equiv> 16"

subsection \<open>Operations\<close>

text \<open>The receive part of \<open>rt_can_open\<close>: all nodes are free. The part for the handlers: none is connected.\<close>

definition open_rx :: "rt_can_msg \<Rightarrow> rt_can_device \<Rightarrow> rt_can_device" where
  "open_rx zero can =
     (if can_rx can = None
      then can\<lparr>can_rx := Some \<lparr>buffer = (\<lambda>_. zero), msg_owner = (\<lambda>_. None), freenumbers = msgboxsz can,
                             freelist = [0..<msgboxsz can], uselist = []\<rparr>, int_rx := True\<rparr>
      else can)"

definition open_hdr :: "rt_can_device \<Rightarrow> rt_can_device" where
  "open_hdr can =
     (if chdr can = None
      then can\<lparr>chdr := Some (replicate (maxhdr can) \<lparr>connected = False, hmsgs = 0, hlist = [], has_ind = False\<rparr>)\<rparr>
      else can)"

text \<open>\<^verbatim>\<open>RT_CAN_CMD_SET_FILTER\<close> for an active filter, when the driver has taken it: the handlers are connected.\<close>

definition connect_hdr :: "rt_can_filter_item \<times> bool \<Rightarrow> can_hdr list \<Rightarrow> can_hdr list" where
  "connect_hdr = (\<lambda>(pitem, ind) hs.
     if fi_hdr pitem \<ge> int (length hs) \<or> fi_hdr pitem < 0 then hs
     else let h = nat (fi_hdr pitem)
          in if connected (hs ! h) then hs
             else hs[h := \<lparr>connected = True, hmsgs = 0, hlist = [], has_ind = ind\<rparr>])"

definition connect_filters :: "(rt_can_filter_item \<times> bool) list \<Rightarrow> rt_can_device \<Rightarrow> rt_can_device" where
  "connect_filters items can =
     (case chdr can of None \<Rightarrow> can | Some hs \<Rightarrow> can\<lparr>chdr := Some (fold connect_hdr items hs)\<rparr>)"

text \<open>
  Taking the node \<open>n\<close> out of the chain of its handler. The counter of the owner goes down unless it is 0.
\<close>

definition unlink_hdr :: "nat \<Rightarrow> rt_can_rx_fifo \<Rightarrow> can_hdr list option \<Rightarrow> rt_can_rx_fifo \<times> can_hdr list option" where
  "unlink_hdr n f ho =
     (let ho = map_option (map (\<lambda>h. h\<lparr>hlist := removeAll n (hlist h)\<rparr>)) ho;
          ho = (case (msg_owner f n, ho) of
                  (Some k, Some hs) \<Rightarrow> if hmsgs (hs ! k) \<noteq> 0 then Some (hs[k := (hs ! k)\<lparr>hmsgs := hmsgs (hs ! k) - 1\<rparr>]) else Some hs
                | _ \<Rightarrow> ho)
      in (f\<lparr>msg_owner := (msg_owner f)(n := None)\<rparr>, ho))"

text \<open>The node for a new message: the first free one, else the oldest one in use.\<close>

definition take_node ::
  "rt_can_device \<Rightarrow> rt_can_rx_fifo \<Rightarrow> (nat option \<times> rt_can_rx_fifo \<times> rt_can_device) option" where
  "take_node can f =
     (case freelist f of
        n # ns \<Rightarrow>
          (let (f, ho) = unlink_hdr n (f\<lparr>freelist := ns\<rparr>) (chdr can)
           in if freenumbers f > 0 then Some (Some n, f\<lparr>freenumbers := freenumbers f - 1\<rparr>, can\<lparr>chdr := ho\<rparr>) else None)
      | [] \<Rightarrow>
          (case uselist f of
             n # ns \<Rightarrow>
               (let (f, ho) = unlink_hdr n (f\<lparr>uselist := ns\<rparr>) (chdr can)
                in Some (Some n, f, can\<lparr>chdr := ho, cstatus := (cstatus can)\<lparr>dropedrcvpkg := dropedrcvpkg (cstatus can) + 1\<rparr>\<rparr>))
           | [] \<Rightarrow> Some (None, f, can)))"

text \<open>Putting the message into the node and the node at the end of the queue and of its handler's chain.\<close>

definition put_node :: "nat \<Rightarrow> rt_can_msg \<Rightarrow> rt_can_rx_fifo \<Rightarrow> rt_can_device \<Rightarrow> (rt_can_rx_fifo \<times> rt_can_device) option" where
  "put_node n m f can =
     (let f = f\<lparr>buffer := (buffer f)(n := m), uselist := uselist f @ [n]\<rparr>
      in case chdr can of
           None \<Rightarrow> Some (f, can)
         | Some hs \<Rightarrow>
             if hdr m < int (maxhdr can) \<and> hdr m \<ge> 0 then
               (let k = nat (hdr m)
                in if connected (hs ! k)
                   then Some (f\<lparr>msg_owner := (msg_owner f)(n := Some k)\<rparr>,
                              can\<lparr>chdr := Some (hs[k := (hs ! k)\<lparr>hlist := hlist (hs ! k) @ [n], hmsgs := hmsgs (hs ! k) + 1\<rparr>])\<rparr>)
                   else Some (f, can))
             else None)"

definition indicate :: "nat option \<Rightarrow> rt_can_msg \<Rightarrow> rt_can_rx_fifo \<Rightarrow> rt_can_device \<Rightarrow> can_ind option" where
  "indicate node m f can =
     (let dev = (if has_rx_indicate can \<and> uselist f \<noteq> [] then Rx_ind (length (uselist f) * msg_size) else No_ind)
      in case chdr can of
           None \<Rightarrow> Some dev
         | Some hs \<Rightarrow>
             (case node of
                None \<Rightarrow> None
              | Some n \<Rightarrow>
                  let k = nat (hdr m)
                  in if connected (hs ! k) \<and> has_ind (hs ! k)
                     then Some (if hmsgs (hs ! k) * 16 \<noteq> 0 then Hdr_ind k (unat (hmsgs (hs ! k) * 16)) else No_ind)
                     else Some dev))"

definition isr_rx :: "CanMsg \<Rightarrow> rt_can_msg \<Rightarrow> rt_can_device \<Rightarrow> (rt_can_device \<times> can_ind) option" where
  "isr_rx RxMessage tmp can =
     (case can_rx can of
        None \<Rightarrow> None
      | Some f \<Rightarrow>
          if \<not> int_rx can then None
          else do {
            tmpmsg \<leftarrow> recvmsg RxMessage tmp;
            let can = can\<lparr>cstatus := (cstatus can)\<lparr>rcvpkg := rcvpkg (cstatus can) + 1, rcvchange := 1\<rparr>\<rparr>
            in do {
              (node, f, can) \<leftarrow> take_node can f;
              (f, can) \<leftarrow> (case node of None \<Rightarrow> Some (f, can) | Some n \<Rightarrow> put_node n tmpmsg f can);
              ind \<leftarrow> indicate node tmpmsg f can;
              Some (can\<lparr>can_rx := Some f\<rparr>, ind) } })"

text \<open>
  The receive events of \<open>rt_hw_can_isr\<close>: the overflow event counts and falls through to the receive event.
\<close>

definition rt_hw_can_isr :: "nat \<Rightarrow> CanMsg \<Rightarrow> rt_can_msg \<Rightarrow> rt_can_device \<Rightarrow> (rt_can_device \<times> can_ind) option" where
  "rt_hw_can_isr event RxMessage tmp can =
     (if event mod 256 = 0x06 then
        isr_rx RxMessage tmp (can\<lparr>cstatus := (cstatus can)\<lparr>dropedrcvpkg := dropedrcvpkg (cstatus can) + 1\<rparr>\<rparr>)
      else if event mod 256 = 0x01 then isr_rx RxMessage tmp can
      else None)"

text \<open>
  One message for the caller, by the \<open>hdr\<close> it asks for: from the chain of a handler, or for \<open>- 1\<close> the oldest
  of all. \<open>None\<close> inside: no message.
\<close>

definition fetch :: "int \<Rightarrow> rt_can_rx_fifo \<Rightarrow> can_hdr list option \<Rightarrow> nat \<Rightarrow> (nat \<times> rt_can_rx_fifo \<times> can_hdr list option) option" where
  "fetch want f ho maxh =
     (if want \<ge> 0 \<and> ho \<noteq> None \<and> want < int maxh \<and> hlist (the ho ! nat want) \<noteq> [] then
        (let n = hd (hlist (the ho ! nat want));
             hs = map (\<lambda>h. h\<lparr>hlist := removeAll n (hlist h)\<rparr>) (the ho);
             k = nat want;
             hs = (if hmsgs (hs ! k) \<noteq> 0 then hs[k := (hs ! k)\<lparr>hmsgs := hmsgs (hs ! k) - 1\<rparr>] else hs)
         in Some (n, f\<lparr>uselist := removeAll n (uselist f), msg_owner := (msg_owner f)(n := None)\<rparr>, Some hs))
      else if want = - 1 then
        (case uselist f of
           [] \<Rightarrow> None
         | n # ns \<Rightarrow> (case unlink_hdr n (f\<lparr>uselist := ns\<rparr>) ho of (f, ho) \<Rightarrow> Some (n, f, ho)))
      else None)"

fun can_int_rx :: "rt_can_msg list \<Rightarrow> int \<Rightarrow> rt_can_rx_fifo \<Rightarrow> rt_can_device \<Rightarrow>
    (rt_can_msg list \<times> int \<times> rt_can_rx_fifo \<times> rt_can_device) option" where
  "can_int_rx [] msgs f can = (if msgs = 0 then Some ([], 0, f, can) else None)"
| "can_int_rx (d # ds) msgs f can =
     (if msgs = 0 then Some (d # ds, 0, f, can)
      else case fetch (hdr d) f (chdr can) (maxhdr can) of
             None \<Rightarrow> Some (d # ds, msgs, f, can)
           | Some (n, f, ho) \<Rightarrow>
               let f = f\<lparr>freelist := freelist f @ [n], freenumbers := freenumbers f + 1\<rparr>
               in if freenumbers f \<le> msgboxsz can
                  then map_option (\<lambda>(ds, r). (buffer f n # ds, r))
                         (can_int_rx ds (msgs - 16) f (can\<lparr>chdr := ho\<rparr>))
                  else None)"

text \<open>\<open>rt_can_read\<close>: the caller's buffer after the call, the number of bytes read and the device.\<close>

definition rt_can_read :: "rt_can_msg list \<Rightarrow> nat \<Rightarrow> rt_can_device \<Rightarrow> (rt_can_msg list \<times> int \<times> rt_can_device) option" where
  "rt_can_read buf nbytes can =
     (if nbytes = 0 then Some (buf, 0, can)
      else if int_rx can \<and> ref_count can > 0 then
        (case can_rx can of
           None \<Rightarrow> None
         | Some f \<Rightarrow> do { (buf, left, f, can) \<leftarrow> can_int_rx buf (int nbytes) f can;
                          Some (buf, int nbytes - left, can\<lparr>can_rx := Some f\<rparr>) })
      else Some (buf, 0, can))"

subsection \<open>Consistent chains\<close>

text \<open>
  The chain of each handler is the part of the queue it owns, in the same order, and its counter is
  the length of the chain.
\<close>

definition hdr_inv :: "nat list \<Rightarrow> (nat \<Rightarrow> nat option) \<Rightarrow> nat \<Rightarrow> can_hdr list option \<Rightarrow> bool" where
  "hdr_inv us ow m ho \<longleftrightarrow>
     (case ho of
        None \<Rightarrow> ow = (\<lambda>_. None)
      | Some hs \<Rightarrow> length hs = m \<and> (\<forall>n k. ow n = Some k \<longrightarrow> k < m \<and> n \<in> set us) \<and>
          (\<forall>k < m. hlist (hs ! k) = filter (\<lambda>n. ow n = Some k) us \<and> hmsgs (hs ! k) = of_nat (length (hlist (hs ! k)))))"

lemma length_remove_distinct:
  "distinct xs \<Longrightarrow> n \<in> set xs \<Longrightarrow> length xs = Suc (length (removeAll n xs))"
  by (metis One_nat_def Suc_pred distinct_remove1_removeAll length_pos_if_in_set length_remove1)

lemma filter_unlink:
  "filter (\<lambda>x. (ow(n := None)) x = Some k) (removeAll n us) = removeAll n (filter (\<lambda>x. ow x = Some k) us)"
  by (simp add: removeAll_filter_not_eq) (auto intro!: filter_cong)

lemma of_nat_ne_0: "0 < l \<Longrightarrow> l < 2 ^ 32 \<Longrightarrow> (of_nat l :: u32) \<noteq> 0"
  by (simp add: word_of_nat_eq_0_iff nat_dvd_not_less)

text \<open>Removing a node from all chains, with the counter of its owner adjusted, keeps them consistent.\<close>

lemma drop_from_chain:
  assumes "hdr_inv us ow m (Some hs)" "distinct us" "length us < 2 ^ 32" "ow n = Some k"
  defines "hs1 \<equiv> map (\<lambda>h. h\<lparr>hlist := removeAll n (hlist h)\<rparr>) hs"
  shows "hmsgs (hs1 ! k) \<noteq> 0 \<and> k < m \<and>
    hdr_inv (removeAll n us) (ow(n := None)) m (Some (hs1[k := (hs1 ! k)\<lparr>hmsgs := hmsgs (hs1 ! k) - 1\<rparr>]))"
proof -
  have h: "length hs = m" "k < m" "n \<in> set us" and own: "\<And>x j. ow x = Some j \<Longrightarrow> j < m \<and> x \<in> set us"
    and ch: "\<And>j. j < m \<Longrightarrow> hlist (hs ! j) = filter (\<lambda>x. ow x = Some j) us \<and> hmsgs (hs ! j) = of_nat (length (hlist (hs ! j)))"
    using assms(1,4) by (auto simp: hdr_inv_def)
  define l where "l = length (hlist (hs ! k))"
  have mem: "n \<in> set (hlist (hs ! k))" using ch [OF h(2)] h(3) assms(4) by simp
  have d: "distinct (hlist (hs ! k))" using ch [OF h(2)] assms(2) by simp
  have l: "l = Suc (length (removeAll n (hlist (hs ! k))))"
    unfolding l_def by (rule length_remove_distinct [OF d mem])
  have "l \<le> length us" using ch [OF h(2)] by (simp add: l_def)
  then have "l < 2 ^ 32" using assms(3) by linarith
  then have ne: "hmsgs (hs ! k) \<noteq> 0" using ch [OF h(2)] l of_nat_ne_0 [of l] by (simp add: l_def)
  have other: "removeAll n (hlist (hs ! j)) = hlist (hs ! j)" if "j < m" "j \<noteq> k" for j
    using ch [OF that(1)] that(2) assms(4) by (simp add: removeAll_id)
  have "hmsgs (hs ! k) - 1 = of_nat (length (removeAll n (hlist (hs ! k))))"
    using ch [OF h(2)] l by (simp add: l_def)
  then have "hdr_inv (removeAll n us) (ow(n := None)) m (Some (hs1[k := (hs1 ! k)\<lparr>hmsgs := hmsgs (hs1 ! k) - 1\<rparr>]))"
    unfolding hdr_inv_def option.case filter_unlink using h own ch other
    by (auto simp: hs1_def nth_list_update)
  with ne h show ?thesis by (simp add: hs1_def)
qed

lemma not_in_chain:
  assumes "hdr_inv us ow m (Some hs)" "ow n = None"
  shows "map (\<lambda>h. h\<lparr>hlist := removeAll n (hlist h)\<rparr>) hs = hs" "hdr_inv (removeAll n us) (ow(n := None)) m (Some hs)"
proof -
  have e: "removeAll n (hlist (hs ! j)) = hlist (hs ! j)" if "j < length hs" for j
    using assms that by (simp add: hdr_inv_def removeAll_id)
  then show "map (\<lambda>h. h\<lparr>hlist := removeAll n (hlist h)\<rparr>) hs = hs" by (intro nth_equalityI) simp_all
  show "hdr_inv (removeAll n us) (ow(n := None)) m (Some hs)"
    using assms e unfolding hdr_inv_def option.case filter_unlink by (auto simp del: fun_upd_apply) (auto split: if_splits)
qed

definition same_hdrs :: "can_hdr list option \<Rightarrow> can_hdr list option \<Rightarrow> bool" where
  "same_hdrs ho ho' \<longleftrightarrow> (ho = None \<longleftrightarrow> ho' = None) \<and>
     map_option (map connected) ho' = map_option (map connected) ho \<and> map_option (map has_ind) ho' = map_option (map has_ind) ho"

lemma unlink_hdr_inv:
  assumes "hdr_inv us (msg_owner f) m ho" "distinct us" "length us < 2 ^ 32"
  obtains ho' where "unlink_hdr n f ho = (f\<lparr>msg_owner := (msg_owner f)(n := None)\<rparr>, ho')"
    "hdr_inv (removeAll n us) ((msg_owner f)(n := None)) m ho'" "same_hdrs ho ho'"
proof (cases ho)
  case None
  then show ?thesis using assms(1) by (intro that [of None]) (auto simp: unlink_hdr_def hdr_inv_def same_hdrs_def)
next
  case (Some hs)
  show ?thesis
  proof (cases "msg_owner f n")
    case None
    then show ?thesis using not_in_chain [of us "msg_owner f" m hs n] assms(1) Some
      by (intro that [of ho]) (simp_all add: unlink_hdr_def same_hdrs_def)
  next
    case (Some k)
    define hs1 where "hs1 = map (\<lambda>h. h\<lparr>hlist := removeAll n (hlist h)\<rparr>) hs"
    have "hmsgs (hs1 ! k) \<noteq> 0" "k < m"
      "hdr_inv (removeAll n us) ((msg_owner f)(n := None)) m (Some (hs1[k := (hs1 ! k)\<lparr>hmsgs := hmsgs (hs1 ! k) - 1\<rparr>]))"
      using drop_from_chain [of us "msg_owner f" m hs n k] assms Some \<open>ho = Some hs\<close> by (simp_all add: hs1_def)
    moreover from this(2) have "k < length hs" using assms(1) \<open>ho = Some hs\<close> by (simp add: hdr_inv_def)
    then have "same_hdrs ho (Some (hs1[k := (hs1 ! k)\<lparr>hmsgs := hmsgs (hs1 ! k) - 1\<rparr>]))"
      using \<open>ho = Some hs\<close> by (simp add: same_hdrs_def hs1_def map_update comp_def list_update_same_conv)
    ultimately show ?thesis using Some \<open>ho = Some hs\<close>
      by (intro that [of "Some (hs1[k := (hs1 ! k)\<lparr>hmsgs := hmsgs (hs1 ! k) - 1\<rparr>])"]) (simp_all add: unlink_hdr_def hs1_def Let_def)
  qed
qed

subsection \<open>The queue\<close>

text \<open>Every node is free or in use, once, and the free ones are counted.\<close>

definition rx_inv :: "nat \<Rightarrow> nat \<Rightarrow> rt_can_rx_fifo \<Rightarrow> can_hdr list option \<Rightarrow> bool" where
  "rx_inv sz m f ho \<longleftrightarrow> sz < 2 ^ 32 \<and> distinct (freelist f @ uselist f) \<and> set (freelist f @ uselist f) = {0..<sz} \<and>
     freenumbers f = length (freelist f) \<and> hdr_inv (uselist f) (msg_owner f) m ho"

definition queue :: "rt_can_rx_fifo \<Rightarrow> rt_can_msg list" where
  "queue f = map (buffer f) (uselist f)"

text \<open>The device between calls: open for interrupts, and handler 0, which the driver reports, exists.\<close>

definition can_ok :: "rt_can_device \<Rightarrow> bool" where
  "can_ok can \<longleftrightarrow> int_rx can \<and> 0 < ref_count can \<and> 0 < msgboxsz can \<and> 0 < maxhdr can \<and>
     (\<exists>f. can_rx can = Some f \<and> rx_inv (msgboxsz can) (maxhdr can) f (chdr can))"

definition rx_queue :: "rt_can_device \<Rightarrow> rt_can_msg list" where
  "rx_queue can = (case can_rx can of None \<Rightarrow> [] | Some f \<Rightarrow> queue f)"

lemma rx_inv_length:
  assumes "rx_inv sz m f ho"
  shows "length (freelist f) + length (uselist f) = sz" "length (uselist f) < 2 ^ 32"
proof -
  have "card (set (freelist f @ uselist f)) = length (freelist f @ uselist f)"
    using assms by (intro distinct_card) (simp add: rx_inv_def)
  moreover have "set (freelist f @ uselist f) = {0..<sz}" "sz < 2 ^ 32" using assms by (simp_all add: rx_inv_def)
  ultimately show "length (freelist f) + length (uselist f) = sz" by (metis card_atLeastLessThan diff_zero length_append)
  then show "length (uselist f) < 2 ^ 32" using \<open>sz < 2 ^ 32\<close> by linarith
qed

text \<open>
  After \<open>take_node\<close> a node is in neither list; the queue has lost its oldest message when no node was free.
\<close>

definition held :: "nat \<Rightarrow> nat \<Rightarrow> nat \<Rightarrow> rt_can_rx_fifo \<Rightarrow> can_hdr list option \<Rightarrow> bool" where
  "held n sz m f ho \<longleftrightarrow> sz < 2 ^ 32 \<and> n < sz \<and> distinct (n # freelist f @ uselist f) \<and> set (n # freelist f @ uselist f) = {0..<sz} \<and>
     freenumbers f = length (freelist f) \<and> msg_owner f n = None \<and> hdr_inv (uselist f) (msg_owner f) m ho"

lemma take_node_held:
  assumes "rx_inv (msgboxsz can) m f (chdr can)" "0 < msgboxsz can"
  obtains n f' ho where
    "take_node can f = Some (Some n, f', can\<lparr>chdr := ho, cstatus := (cstatus can)\<lparr>dropedrcvpkg :=
       dropedrcvpkg (cstatus can) + (if length (uselist f) < msgboxsz can then 0 else 1)\<rparr>\<rparr>)"
    "held n (msgboxsz can) m f' ho" "same_hdrs (chdr can) ho"
    "queue f' = (if length (uselist f) < msgboxsz can then queue f else tl (queue f))"
proof (cases "freelist f")
  case (Cons n ns)
  have u: "removeAll n (uselist f) = uselist f" using assms(1) Cons by (simp add: rx_inv_def removeAll_id)
  obtain ho where ho: "unlink_hdr n (f\<lparr>freelist := ns\<rparr>) (chdr can) =
      (f\<lparr>freelist := ns, msg_owner := (msg_owner f)(n := None)\<rparr>, ho)"
      "hdr_inv (uselist f) ((msg_owner f)(n := None)) m ho" "same_hdrs (chdr can) ho"
    using unlink_hdr_inv [of "uselist f" "f\<lparr>freelist := ns\<rparr>" m "chdr can" n] rx_inv_length(2) [OF assms(1)] assms(1) u
    by (auto simp: rx_inv_def)
  show ?thesis
    using assms(1) Cons ho rx_inv_length [OF assms(1)]
    by (intro that [of n "f\<lparr>freelist := ns, msg_owner := (msg_owner f)(n := None), freenumbers := freenumbers f - 1\<rparr>" ho])
      (auto simp: take_node_def rx_inv_def held_def queue_def)
next
  case Nil
  then obtain n ns where us: "uselist f = n # ns"
    using assms rx_inv_length(1) [OF assms(1)] by (cases "uselist f") auto
  have u: "removeAll n (uselist f) = ns" using assms(1) us by (simp add: rx_inv_def removeAll_id)
  obtain ho where ho: "unlink_hdr n (f\<lparr>uselist := ns\<rparr>) (chdr can) =
      (f\<lparr>uselist := ns, msg_owner := (msg_owner f)(n := None)\<rparr>, ho)"
      "hdr_inv ns ((msg_owner f)(n := None)) m ho" "same_hdrs (chdr can) ho"
    using unlink_hdr_inv [of "uselist f" "f\<lparr>uselist := ns\<rparr>" m "chdr can" n] rx_inv_length(2) [OF assms(1)] assms(1) u
    by (auto simp: rx_inv_def)
  show ?thesis
    using assms(1) Nil us ho rx_inv_length [OF assms(1)]
    by (intro that [of n "f\<lparr>uselist := ns, msg_owner := (msg_owner f)(n := None)\<rparr>" ho])
      (auto simp: take_node_def rx_inv_def held_def queue_def)
qed

lemma put_in_chain:
  assumes "hdr_inv us ow m (Some hs)" "n \<notin> set us" "ow n = None" "k < m"
  shows "hdr_inv (us @ [n]) (ow(n := Some k)) m
      (Some (hs[k := (hs ! k)\<lparr>hlist := hlist (hs ! k) @ [n], hmsgs := hmsgs (hs ! k) + 1\<rparr>]))"
    "hdr_inv (us @ [n]) ow m (Some hs)"
proof -
  have "filter (\<lambda>x. (ow(n := Some k)) x = Some j) (us @ [n]) = filter (\<lambda>x. ow x = Some j) us @ (if j = k then [n] else [])" for j
    using assms(2) by (auto intro!: filter_cong)
  then show "hdr_inv (us @ [n]) (ow(n := Some k)) m
      (Some (hs[k := (hs ! k)\<lparr>hlist := hlist (hs ! k) @ [n], hmsgs := hmsgs (hs ! k) + 1\<rparr>]))"
    using assms unfolding hdr_inv_def option.case by (auto simp: nth_list_update simp del: filter_append split: if_splits)
  show "hdr_inv (us @ [n]) ow m (Some hs)" using assms by (auto simp: hdr_inv_def)
qed

lemma chdr_id: "chdr can = ho \<Longrightarrow> can\<lparr>chdr := ho\<rparr> = can"
  by (cases can) simp

lemma put_node_inv:
  assumes "held n (msgboxsz can) (maxhdr can) f (chdr can)" "0 \<le> hdr msg" "hdr msg < int (maxhdr can)"
  obtains f' ho where "put_node n msg f can = Some (f', can\<lparr>chdr := ho\<rparr>)" "rx_inv (msgboxsz can) (maxhdr can) f' ho"
    "same_hdrs (chdr can) ho" "queue f' = queue f @ [msg]"
proof -
  define f1 where "f1 = f\<lparr>buffer := (buffer f)(n := msg), uselist := uselist f @ [n]\<rparr>"
  have f1: "queue f1 = queue f @ [msg]" "distinct (freelist f1 @ uselist f1)" "set (freelist f1 @ uselist f1) = {0..<msgboxsz can}"
      "freenumbers f1 = length (freelist f1)"
    using assms(1) by (auto simp: f1_def queue_def held_def)
  define k where "k = nat (hdr msg)"
  have k: "k < maxhdr can" using assms(2,3) by (simp add: k_def)
  show ?thesis
  proof (cases "chdr can")
    case None
    then have "put_node n msg f can = Some (f1, can\<lparr>chdr := None\<rparr>)" by (simp add: put_node_def f1_def chdr_id)
    moreover have "msg_owner f1 = (\<lambda>_. None)" using assms(1) None by (simp add: f1_def held_def hdr_inv_def)
    then have "rx_inv (msgboxsz can) (maxhdr can) f1 None"
      using f1 assms(1) by (simp add: rx_inv_def held_def hdr_inv_def)
    ultimately show ?thesis using f1(1) None by (intro that) (auto simp: same_hdrs_def)
  next
    case (Some hs)
    have hi: "hdr_inv (uselist f) (msg_owner f) (maxhdr can) (Some hs)" "n \<notin> set (uselist f)" "msg_owner f n = None"
      using assms(1) Some by (simp_all add: held_def)
    note c = put_in_chain [OF hi k]
    have len: "k < length hs" using hi(1) k by (simp add: hdr_inv_def)
    show ?thesis
    proof (cases "connected (hs ! k)")
      case True
      define hs' where "hs' = hs[k := (hs ! k)\<lparr>hlist := hlist (hs ! k) @ [n], hmsgs := hmsgs (hs ! k) + 1\<rparr>]"
      have "put_node n msg f can = Some (f1\<lparr>msg_owner := (msg_owner f1)(n := Some k)\<rparr>, can\<lparr>chdr := Some hs'\<rparr>)"
        using True Some assms(2,3) by (simp add: put_node_def f1_def k_def hs'_def Let_def)
      moreover have "rx_inv (msgboxsz can) (maxhdr can) (f1\<lparr>msg_owner := (msg_owner f1)(n := Some k)\<rparr>) (Some hs')"
        using f1 c(1) assms(1) by (simp add: rx_inv_def held_def) (simp add: f1_def hs'_def)
      moreover have "same_hdrs (chdr can) (Some hs')"
        using Some len by (simp add: same_hdrs_def hs'_def map_update list_update_same_conv)
      ultimately show ?thesis using f1(1)
        by (intro that [of "f1\<lparr>msg_owner := (msg_owner f1)(n := Some k)\<rparr>" "Some hs'"]) (simp_all add: queue_def)
    next
      case False
      then have "put_node n msg f can = Some (f1, can\<lparr>chdr := Some hs\<rparr>)"
        using Some assms(2,3) by (simp add: put_node_def f1_def k_def Let_def chdr_id)
      moreover have "rx_inv (msgboxsz can) (maxhdr can) f1 (Some hs)"
        using f1 c(2) assms(1) by (simp add: rx_inv_def held_def) (simp add: f1_def)
      ultimately show ?thesis using f1(1) Some by (intro that) (auto simp: same_hdrs_def)
    qed
  qed
qed

text \<open>A message that is taken out by its place in the queue, whichever way it was asked for.\<close>

lemma fetch_oldest:
  assumes "rx_inv sz m f ho" "uselist f = n # ns"
  obtains f' ho' where "fetch (- 1) f ho m = Some (n, f', ho')" "held n sz m f' ho'" "same_hdrs ho ho'"
    "queue f' = tl (queue f)" "buffer f' = buffer f" "freelist f' = freelist f" "uselist f' = ns"
proof -
  have d: "removeAll n (uselist f) = ns" using assms by (simp add: rx_inv_def removeAll_id)
  obtain ho' where ho: "unlink_hdr n (f\<lparr>uselist := ns\<rparr>) ho = (f\<lparr>uselist := ns, msg_owner := (msg_owner f)(n := None)\<rparr>, ho')"
      "hdr_inv ns ((msg_owner f)(n := None)) m ho'" "same_hdrs ho ho'"
    using unlink_hdr_inv [of "uselist f" "f\<lparr>uselist := ns\<rparr>" m ho n] rx_inv_length(2) [OF assms(1)] assms(1) d
    by (auto simp: rx_inv_def)
  show ?thesis using assms ho
    by (intro that [of "f\<lparr>uselist := ns, msg_owner := (msg_owner f)(n := None)\<rparr>" ho'])
      (auto simp: fetch_def held_def rx_inv_def queue_def)
qed

lemma fetch_handler:
  assumes "rx_inv sz m f (Some hs)" "k < m" "hlist (hs ! k) = n # ns"
  obtains f' ho' where "fetch (int k) f (Some hs) m = Some (n, f', ho')" "held n sz m f' ho'" "same_hdrs (Some hs) ho'"
    "uselist f' = removeAll n (uselist f)" "buffer f' = buffer f" "freelist f' = freelist f"
proof -
  define hs1 where "hs1 = map (\<lambda>h. h\<lparr>hlist := removeAll n (hlist h)\<rparr>) hs"
  define hs2 where "hs2 = hs1[k := (hs1 ! k)\<lparr>hmsgs := hmsgs (hs1 ! k) - 1\<rparr>]"
  define f' where "f' = f\<lparr>uselist := removeAll n (uselist f), msg_owner := (msg_owner f)(n := None)\<rparr>"
  have ri: "hdr_inv (uselist f) (msg_owner f) m (Some hs)" "distinct (uselist f)" "length hs = m"
    using assms(1) by (auto simp: rx_inv_def hdr_inv_def)
  have "n \<in> set (filter (\<lambda>x. msg_owner f x = Some k) (uselist f))" using ri(1) assms(2,3) by (auto simp: hdr_inv_def)
  then have n: "msg_owner f n = Some k" "n \<in> set (uselist f)" by auto
  note c = drop_from_chain [OF ri(1,2) rx_inv_length(2) [OF assms(1)] n(1), folded hs1_def, folded hs2_def]
  have "fetch (int k) f (Some hs) m = Some (n, f', Some hs2)"
    using assms(2,3) c by (simp add: fetch_def hs1_def hs2_def f'_def Let_def)
  moreover have "held n sz m f' (Some hs2)"
    using assms(1) c n(2) by (auto simp: held_def rx_inv_def f'_def distinct_removeAll)
  moreover have "same_hdrs (Some hs) (Some hs2)"
    using assms(2) ri(3) by (simp add: same_hdrs_def hs1_def hs2_def map_update comp_def list_update_same_conv)
  ultimately show ?thesis by (intro that [of f' "Some hs2"]) (simp_all add: f'_def)
qed

lemma release_node:
  assumes "held n sz m f ho"
  shows "rx_inv sz m (f\<lparr>freelist := freelist f @ [n], freenumbers := freenumbers f + 1\<rparr>) ho" "freenumbers f + 1 \<le> sz"
proof -
  show "rx_inv sz m (f\<lparr>freelist := freelist f @ [n], freenumbers := freenumbers f + 1\<rparr>) ho"
    using assms by (auto simp: held_def rx_inv_def)
  from rx_inv_length(1) [OF this] show "freenumbers f + 1 \<le> sz" using assms by (simp add: held_def)
qed

text \<open>
  The interrupt appends the message, at the price of the oldest one when the queue is full.
\<close>

lemma isr_rx_queue:
  assumes "can_ok can" "recvmsg rx tmp = Some msg" "hdr msg = 0"
  obtains can' ind where "isr_rx rx tmp can = Some (can', ind)" "can_ok can'" "msgboxsz can' = msgboxsz can"
    "rx_queue can' = (if length (rx_queue can) < msgboxsz can then rx_queue can else tl (rx_queue can)) @ [msg]"
    "dropedrcvpkg (cstatus can') = dropedrcvpkg (cstatus can) + (if length (rx_queue can) < msgboxsz can then 0 else 1)"
    "rcvpkg (cstatus can') = rcvpkg (cstatus can) + 1" "same_hdrs (chdr can) (chdr can')" "maxhdr can' = maxhdr can"
proof -
  obtain f where f: "can_rx can = Some f" "rx_inv (msgboxsz can) (maxhdr can) f (chdr can)" "int_rx can" "0 < msgboxsz can" "0 < maxhdr can"
    using assms(1) by (auto simp: can_ok_def)
  define can1 where "can1 = can\<lparr>cstatus := (cstatus can)\<lparr>rcvpkg := rcvpkg (cstatus can) + 1, rcvchange := 1\<rparr>\<rparr>"
  obtain n f2 ho2 where t: "take_node can1 f = Some (Some n, f2, can1\<lparr>chdr := ho2, cstatus := (cstatus can1)\<lparr>dropedrcvpkg :=
       dropedrcvpkg (cstatus can1) + (if length (uselist f) < msgboxsz can1 then 0 else 1)\<rparr>\<rparr>)"
    "held n (msgboxsz can1) (maxhdr can) f2 ho2" "same_hdrs (chdr can1) ho2"
    "queue f2 = (if length (uselist f) < msgboxsz can1 then queue f else tl (queue f))"
    by (rule take_node_held [of can1 "maxhdr can" f]) (use f in \<open>auto simp: can1_def\<close>)
  define can2 where "can2 = can1\<lparr>chdr := ho2, cstatus := (cstatus can1)\<lparr>dropedrcvpkg :=
       dropedrcvpkg (cstatus can1) + (if length (uselist f) < msgboxsz can1 then 0 else 1)\<rparr>\<rparr>"
  obtain f3 ho3 where p: "put_node n msg f2 can2 = Some (f3, can2\<lparr>chdr := ho3\<rparr>)" "rx_inv (msgboxsz can2) (maxhdr can2) f3 ho3"
      "same_hdrs (chdr can2) ho3" "queue f3 = queue f2 @ [msg]"
    by (rule put_node_inv [of n can2 f2 msg]) (use t f assms(3) in \<open>auto simp: can2_def can1_def\<close>)
  obtain ind where i: "indicate (Some n) msg f3 (can2\<lparr>chdr := ho3\<rparr>) = Some ind"
    by (cases "indicate (Some n) msg f3 (can2\<lparr>chdr := ho3\<rparr>)") (auto simp: indicate_def Let_def split: option.splits if_splits)
  have "isr_rx rx tmp can = Some (can2\<lparr>chdr := ho3, can_rx := Some f3\<rparr>, ind)"
    using f(1,3) assms(2) t(1) p(1) i by (simp add: isr_rx_def flip: can1_def can2_def)
  moreover have "can_ok (can2\<lparr>chdr := ho3, can_rx := Some f3\<rparr>)" using assms(1) p(2) by (simp add: can_ok_def can2_def can1_def)
  moreover have "same_hdrs (chdr can) ho3" using t(3) p(3) by (simp add: same_hdrs_def can2_def can1_def)
  moreover have "rx_queue can = queue f" "length (queue f) = length (uselist f)" using f(1) by (simp_all add: rx_queue_def queue_def)
  ultimately show ?thesis using t(4) p(4)
    by (intro that [of "can2\<lparr>chdr := ho3, can_rx := Some f3\<rparr>" ind]) (simp_all add: rx_queue_def can2_def can1_def)
qed

text \<open>Reading with \<open>hdr = - 1\<close> in every entry of the caller's buffer delivers the oldest messages in order.\<close>

lemma can_int_rx_oldest:
  assumes "rx_inv (msgboxsz can) (maxhdr can) f (chdr can)" "k \<le> length ds" "\<forall>d \<in> set (take k ds). hdr d = - 1"
  shows "\<exists>f' ho'. can_int_rx ds (16 * int k) f can =
      Some (take k (queue f) @ drop (min k (length (queue f))) ds, 16 * int (k - length (queue f)), f', can\<lparr>chdr := ho'\<rparr>) \<and>
    rx_inv (msgboxsz can) (maxhdr can) f' ho' \<and> same_hdrs (chdr can) ho' \<and> queue f' = drop k (queue f)"
  using assms
proof (induction k arbitrary: ds f can)
  case 0
  then show ?case by (cases ds) (auto simp: same_hdrs_def chdr_id intro!: exI [of _ f] exI [of _ "chdr can"])
next
  case (Suc k)
  then obtain d ds' where ds: "ds = d # ds'" "hdr d = - 1" "k \<le> length ds'" "\<forall>d \<in> set (take k ds'). hdr d = - 1"
    by (cases ds) auto
  show ?case
  proof (cases "uselist f")
    case Nil
    then have "fetch (- 1) f (chdr can) (maxhdr can) = None" by (simp add: fetch_def)
    then show ?thesis using ds Nil Suc.prems(1)
      by (auto simp: queue_def same_hdrs_def chdr_id intro!: exI [of _ f] exI [of _ "chdr can"])
  next
    case (Cons n ns)
    obtain f1 ho1 where f1: "fetch (- 1) f (chdr can) (maxhdr can) = Some (n, f1, ho1)" "held n (msgboxsz can) (maxhdr can) f1 ho1"
        "same_hdrs (chdr can) ho1" "queue f1 = tl (queue f)" "buffer f1 = buffer f"
      by (rule fetch_oldest [OF Suc.prems(1) Cons]) (rule that)
    define f2 where "f2 = f1\<lparr>freelist := freelist f1 @ [n], freenumbers := freenumbers f1 + 1\<rparr>"
    have f2: "rx_inv (msgboxsz can) (maxhdr can) f2 ho1" "freenumbers f2 \<le> msgboxsz can" "queue f2 = tl (queue f)" "buffer f2 n = buffer f n"
      using release_node [OF f1(2)] f1(4,5) by (simp_all add: f2_def queue_def)
    obtain f3 ho3 where r: "can_int_rx ds' (16 * int k) f2 (can\<lparr>chdr := ho1\<rparr>) =
        Some (take k (queue f2) @ drop (min k (length (queue f2))) ds', 16 * int (k - length (queue f2)), f3, can\<lparr>chdr := ho3\<rparr>)"
      "rx_inv (msgboxsz can) (maxhdr can) f3 ho3" "same_hdrs ho1 ho3" "queue f3 = drop k (queue f2)"
      using Suc.IH [of "can\<lparr>chdr := ho1\<rparr>" f2 ds'] f2(1) ds by auto
    obtain qs where q: "queue f = buffer f n # qs" "queue f2 = qs" using Cons f2(3) by (simp add: queue_def)
    have "can_int_rx ds (16 * int (Suc k)) f can =
        Some (buffer f n # take k (queue f2) @ drop (min k (length (queue f2))) ds', 16 * int (k - length (queue f2)), f3, can\<lparr>chdr := ho3\<rparr>)"
      using ds f1(1) f2(2,4) r(1) unfolding f2_def by (simp add: algebra_simps)
    moreover have "same_hdrs (chdr can) ho3" using f1(3) r(3) by (simp add: same_hdrs_def)
    ultimately show ?thesis unfolding q ds(1) using r(2,4) q(2) by (intro exI [of _ f3] exI [of _ ho3]) simp
  qed
qed

lemma rt_can_read_oldest:
  assumes "can_ok can" "k \<le> length buf" "\<forall>d \<in> set (take k buf). hdr d = - 1"
  shows "\<exists>can'. rt_can_read buf (16 * k) can =
      Some (take k (rx_queue can) @ drop (min k (length (rx_queue can))) buf, 16 * int (min k (length (rx_queue can))), can') \<and>
    can_ok can' \<and> rx_queue can' = drop k (rx_queue can) \<and> cstatus can' = cstatus can \<and> msgboxsz can' = msgboxsz can \<and>
    same_hdrs (chdr can) (chdr can')"
proof (cases "k = 0")
  case True
  then show ?thesis using assms(1) by (auto simp: rt_can_read_def same_hdrs_def)
next
  case False
  obtain f where f: "can_rx can = Some f" "rx_inv (msgboxsz can) (maxhdr can) f (chdr can)" "int_rx can" "0 < ref_count can"
    using assms(1) by (auto simp: can_ok_def)
  then have q: "rx_queue can = queue f" by (simp add: rx_queue_def)
  obtain f' ho' where r: "can_int_rx buf (16 * int k) f can =
      Some (take k (queue f) @ drop (min k (length (queue f))) buf, 16 * int (k - length (queue f)), f', can\<lparr>chdr := ho'\<rparr>)"
    "rx_inv (msgboxsz can) (maxhdr can) f' ho'" "same_hdrs (chdr can) ho'" "queue f' = drop k (queue f)"
    using can_int_rx_oldest [OF f(2) assms(2,3)] by blast
  have "16 * int k - 16 * int (k - length (queue f)) = 16 * int (min k (length (queue f)))"
    by (auto simp: min_def of_nat_diff)
  moreover have "can_ok (can\<lparr>chdr := ho', can_rx := Some f'\<rparr>)" using assms(1) r(2) by (simp add: can_ok_def)
  ultimately show ?thesis using False f r q
    by (auto simp: rt_can_read_def rx_queue_def intro!: exI [of _ "can\<lparr>chdr := ho', can_rx := Some f'\<rparr>"])
qed

subsection \<open>Streams of messages\<close>

text \<open>
  What happens to a receiving device: a frame arrives and is taken from the controller, or a thread reads
  up to \<open>k\<close> messages. The run collects the messages that arrived and those delivered.
\<close>

datatype can_op = Arrive CanMsg | Read nat

fun can_run :: "rt_can_msg \<Rightarrow> can_op list \<Rightarrow> rt_can_device \<Rightarrow> (rt_can_msg list \<times> rt_can_msg list \<times> rt_can_device) option" where
  "can_run tmp [] can = Some ([], [], can)"
| "can_run tmp (Arrive rx # ops) can =
     do { m \<leftarrow> recvmsg rx tmp;
          (can, _) \<leftarrow> rt_hw_can_isr 0x01 rx tmp can;
          (rcv, dlv, can) \<leftarrow> can_run tmp ops can;
          Some (m # rcv, dlv, can) }"
| "can_run tmp (Read k # ops) can =
     do { (buf, n, can) \<leftarrow> rt_can_read (replicate k (tmp\<lparr>hdr := - 1\<rparr>)) (16 * k) can;
          (rcv, dlv, can) \<leftarrow> can_run tmp ops can;
          Some (rcv, take (nat n div 16) buf @ dlv, can) }"

definition arrivals_ok :: "can_op list \<Rightarrow> bool" where
  "arrivals_ok ops \<longleftrightarrow> (\<forall>rx. Arrive rx \<in> set ops \<longrightarrow> DLC rx \<le> 8)"

lemma recvmsg_ok: "DLC rx \<le> 8 \<Longrightarrow> \<exists>m. recvmsg rx tmp = Some m \<and> hdr m = 0"
  by (auto simp: recvmsg_def)

lemma can_run_stream:
  assumes "can_ok can" "arrivals_ok ops"
  shows "\<exists>rcv dlv can' lost. can_run tmp ops can = Some (rcv, dlv, can') \<and> can_ok can' \<and> msgboxsz can' = msgboxsz can \<and>
    subseq (dlv @ rx_queue can') (rx_queue can @ rcv) \<and>
    length (rx_queue can @ rcv) = length (dlv @ rx_queue can') + lost \<and>
    dropedrcvpkg (cstatus can') = dropedrcvpkg (cstatus can) + of_nat lost \<and>
    rcvpkg (cstatus can') = rcvpkg (cstatus can) + of_nat (length rcv) \<and>
    (length (rx_queue can @ rcv) \<le> msgboxsz can \<longrightarrow> lost = 0)"
  using assms
proof (induction ops arbitrary: can)
  case Nil
  then show ?case by auto
next
  case (Cons op ops)
  have ok: "arrivals_ok ops" using Cons.prems(2) by (simp add: arrivals_ok_def)
  show ?case
  proof (cases op)
    case (Arrive rx)
    then have "DLC rx \<le> 8" using Cons.prems(2) by (simp add: arrivals_ok_def)
    then obtain m where m: "recvmsg rx tmp = Some m" "hdr m = 0" using recvmsg_ok by blast
    obtain can1 ind where i: "isr_rx rx tmp can = Some (can1, ind)" "can_ok can1" "msgboxsz can1 = msgboxsz can"
        "rx_queue can1 = (if length (rx_queue can) < msgboxsz can then rx_queue can else tl (rx_queue can)) @ [m]"
        "dropedrcvpkg (cstatus can1) = dropedrcvpkg (cstatus can) + (if length (rx_queue can) < msgboxsz can then 0 else 1)"
        "rcvpkg (cstatus can1) = rcvpkg (cstatus can) + 1"
      by (rule isr_rx_queue [OF Cons.prems(1) m]) (rule that)
    obtain rcv dlv can' lost where r: "can_run tmp ops can1 = Some (rcv, dlv, can')" "can_ok can'" "msgboxsz can' = msgboxsz can1"
        "subseq (dlv @ rx_queue can') (rx_queue can1 @ rcv)" "length (rx_queue can1 @ rcv) = length (dlv @ rx_queue can') + lost"
        "dropedrcvpkg (cstatus can') = dropedrcvpkg (cstatus can1) + of_nat lost"
        "rcvpkg (cstatus can') = rcvpkg (cstatus can1) + of_nat (length rcv)"
        "length (rx_queue can1 @ rcv) \<le> msgboxsz can1 \<longrightarrow> lost = 0"
      using Cons.IH [OF i(2) ok] by blast
    have run: "can_run tmp (op # ops) can = Some (m # rcv, dlv, can')"
      using Arrive m(1) i(1) r(1) by (simp add: rt_hw_can_isr_def)
    show ?thesis
    proof (cases "length (rx_queue can) < msgboxsz can")
      case True
      then show ?thesis using run i r
        by (intro exI [of _ "m # rcv"] exI [of _ dlv] exI [of _ can'] exI [of _ lost]) simp
    next
      case False
      then have ne: "rx_queue can \<noteq> []" using Cons.prems(1) by (auto simp: can_ok_def)
      have "subseq (rx_queue can1 @ rcv) (rx_queue can @ m # rcv)"
        using ne i(4) False by (cases "rx_queue can") auto
      then have "subseq (dlv @ rx_queue can') (rx_queue can @ m # rcv)" by (rule subseq_order.trans [OF r(4)])
      moreover have "length (rx_queue can @ m # rcv) = Suc (length (rx_queue can1 @ rcv))"
        using ne i(4) False by (cases "rx_queue can") auto
      ultimately show ?thesis using run i r False
        by (intro exI [of _ "m # rcv"] exI [of _ dlv] exI [of _ can'] exI [of _ "Suc lost"]) simp
    qed
  next
    case (Read k)
    define q where "q = rx_queue can"
    obtain can1 where rd: "rt_can_read (replicate k (tmp\<lparr>hdr := - 1\<rparr>)) (16 * k) can =
        Some (take k q @ drop (min k (length q)) (replicate k (tmp\<lparr>hdr := - 1\<rparr>)), 16 * int (min k (length q)), can1)"
        "can_ok can1" "rx_queue can1 = drop k q" "cstatus can1 = cstatus can" "msgboxsz can1 = msgboxsz can"
      using rt_can_read_oldest [OF Cons.prems(1), of k "replicate k (tmp\<lparr>hdr := - 1\<rparr>)"] by (auto simp: q_def)
    obtain rcv dlv can' lost where r: "can_run tmp ops can1 = Some (rcv, dlv, can')" "can_ok can'" "msgboxsz can' = msgboxsz can1"
        "subseq (dlv @ rx_queue can') (rx_queue can1 @ rcv)" "length (rx_queue can1 @ rcv) = length (dlv @ rx_queue can') + lost"
        "dropedrcvpkg (cstatus can') = dropedrcvpkg (cstatus can1) + of_nat lost"
        "rcvpkg (cstatus can') = rcvpkg (cstatus can1) + of_nat (length rcv)"
        "length (rx_queue can1 @ rcv) \<le> msgboxsz can1 \<longrightarrow> lost = 0"
      using Cons.IH [OF rd(2) ok] by blast
    have "nat (16 * int (min k (length q))) div 16 = length (take k q)" "take (min k (length q)) q = take k q"
      by (simp_all add: nat_mult_distrib min_def)
    then have "can_run tmp (op # ops) can = Some (rcv, take k q @ dlv, can')"
      using Read rd(1) r(1) by (simp add: min.commute)
    moreover have "subseq ((take k q @ dlv) @ rx_queue can') (q @ rcv)"
      using subseq_append' [THEN iffD2, OF r(4), of "take k q"] rd(3) by (metis append.assoc append_take_drop_id)
    ultimately show ?thesis using rd r
      by (intro exI [of _ rcv] exI [of _ "take k q @ dlv"] exI [of _ can'] exI [of _ lost]) (auto simp: q_def)
  qed
qed

lemma connect_hdr_empty:
  assumes "\<forall>h \<in> set hs. hlist h = [] \<and> hmsgs h = 0"
  shows "length (connect_hdr p hs) = length hs \<and> (\<forall>h \<in> set (connect_hdr p hs). hlist h = [] \<and> hmsgs h = 0)"
proof (cases p)
  case (Pair pitem ind)
  define x where "x = \<lparr>connected = True, hmsgs = 0, hlist = [], has_ind = ind\<rparr>"
  have "connect_hdr p hs = hs \<or> (\<exists>k. connect_hdr p hs = hs[k := x])"
    by (auto simp: Pair connect_hdr_def Let_def x_def)
  moreover have "\<forall>h \<in> set (hs[k := x]). hlist h = [] \<and> hmsgs h = 0" for k
    using set_update_subset_insert [of hs k x] assms by (auto simp: x_def)
  ultimately show ?thesis using assms by auto
qed

lemma fold_connect_empty:
  "\<forall>h \<in> set hs. hlist h = [] \<and> hmsgs h = 0 \<Longrightarrow>
     length (fold connect_hdr items hs) = length hs \<and> (\<forall>h \<in> set (fold connect_hdr items hs). hlist h = [] \<and> hmsgs h = 0)"
proof (induction items arbitrary: hs)
  case (Cons p items)
  note c = connect_hdr_empty [OF Cons.prems, of p]
  show ?case using Cons.IH [OF c [THEN conjunct2]] unfolding fold.simps comp_apply c [THEN conjunct1] .
qed simp

lemma opened_ok:
  assumes "can_rx can = None" "chdr can = None" "0 < msgboxsz can" "msgboxsz can < 2 ^ 32" "0 < maxhdr can" "0 < ref_count can"
  shows "can_ok (connect_filters items (open_hdr (open_rx zero can)))" "rx_queue (connect_filters items (open_hdr (open_rx zero can))) = []"
proof -
  define hs where "hs = fold connect_hdr items (replicate (maxhdr can) \<lparr>connected = False, hmsgs = 0, hlist = [], has_ind = False\<rparr>)"
  have "length hs = maxhdr can" "\<forall>h \<in> set hs. hlist h = [] \<and> hmsgs h = 0"
    using fold_connect_empty [of "replicate (maxhdr can) \<lparr>connected = False, hmsgs = 0, hlist = [], has_ind = False\<rparr>" items]
    by (simp_all add: hs_def)
  then have "hdr_inv [] (\<lambda>_. None) (maxhdr can) (Some hs)" by (simp add: hdr_inv_def)
  then show "can_ok (connect_filters items (open_hdr (open_rx zero can)))"
    using assms by (auto simp: can_ok_def connect_filters_def open_hdr_def open_rx_def rx_inv_def hs_def)
  show "rx_queue (connect_filters items (open_hdr (open_rx zero can))) = []"
    using assms by (simp add: rx_queue_def connect_filters_def open_hdr_def open_rx_def queue_def)
qed


definition can_dev0 :: rt_can_device where
  "can_dev0 = \<lparr>msgboxsz = 1, maxhdr = 2, can_rx = None, chdr = None, cstatus = can_status0, int_rx = False, ref_count = 1,
     has_rx_indicate = False\<rparr>"

definition can_msg0 :: rt_can_msg where
  "can_msg0 = \<lparr>id = 0, ide = 0, rtr = 0, len = 0, priv = 0, hdr = 0, data = replicate 8 0\<rparr>"

definition can_rx0 :: CanMsg where
  "can_rx0 = \<lparr>StdId = 0x123, ExtId = 0, IDE = 0, RTR = 0, DLC = 2, Data = [1, 2, 0, 0, 0, 0, 0, 0]\<rparr>"


text \<open>
  C30. A message from one node to another: it is sent by the driver, carried by the bus, taken out of the
  controller by the interrupt handler, queued, and read by a thread. The reader gets the identifier, the frame
  format, the length and the data of the message that was sent, and the receive buffer of the
  controller is released. The remote bit is lost: a remote frame is read as a data frame.
  If the controller reports an overrun afterwards, the message is queued a second time.
\<close>

theorem can_end_to_end:
  assumes "msg_ok m" "window_ok c" "length stack = 8" "length (data tmp) = 8" "can_ok can" "rx_queue can = []"
  shows "\<exists>c1. sendmsg stack m c = Some c1 \<and>
    (\<forall>c2 old. on_wire c1 c2 \<and> bit (IR c2) 0 \<longrightarrow>
      (\<exists>c3 rx can1 ind m' can2. ls1c_can_irqhandler c2 old = (c3, rx, Some 0x01) \<and> bit (CMR c3) 2 \<and>
        rt_hw_can_isr 0x01 rx tmp can = Some (can1, ind) \<and>
        rt_can_read [tmp\<lparr>hdr := - 1\<rparr>] 16 can1 = Some ([m'], 16, can2) \<and> rx_queue can2 = [] \<and>
        id m' = id m \<and> ide m' = ide m \<and> len m' = len m \<and> rtr m' = 0 \<and>
        (rtr m = 0 \<longrightarrow> take (unat (len m)) (data m') = take (unat (len m)) (data m)) \<and>
        (\<exists>can3 ind. rt_hw_can_isr 0x06 rx tmp can2 = Some (can3, ind) \<and> rx_queue can3 = [m'])))"
proof -
  obtain c1 where s: "sendmsg stack m c = Some c1" using sendmsg_window [OF assms(1-3)] by auto
  have "\<exists>c3 rx can1 ind m' can2. ls1c_can_irqhandler c2 old = (c3, rx, Some 0x01) \<and> bit (CMR c3) 2 \<and>
        rt_hw_can_isr 0x01 rx tmp can = Some (can1, ind) \<and>
        rt_can_read [tmp\<lparr>hdr := - 1\<rparr>] 16 can1 = Some ([m'], 16, can2) \<and> rx_queue can2 = [] \<and>
        id m' = id m \<and> ide m' = ide m \<and> len m' = len m \<and> rtr m' = 0 \<and>
        (rtr m = 0 \<longrightarrow> take (unat (len m)) (data m') = take (unat (len m)) (data m)) \<and>
        (\<exists>can3 ind. rt_hw_can_isr 0x06 rx tmp can2 = Some (can3, ind) \<and> rx_queue can3 = [m'])"
    if w: "on_wire c1 c2" "bit (IR c2) 0" for c2 old
  proof -
    define rx where "rx = CAN_Receive c2 old"
    obtain m' where m': "recvmsg rx tmp = Some m'" "id m' = id m" "ide m' = ide m" "len m' = len m" "hdr m' = 0" "rtr m' = 0"
        "rtr m = 0 \<longrightarrow> take (unat (len m)) (data m') = take (unat (len m)) (data m)"
      using can_frame [OF assms(1-3) s w(1) assms(4), of old] by (auto simp: rx_def)
    obtain can1 ind where i: "isr_rx rx tmp can = Some (can1, ind)" "can_ok can1" "msgboxsz can1 = msgboxsz can" "rx_queue can1 = [m']"
      by (rule isr_rx_queue [OF assms(5) m'(1,5)]) (use assms(6) that in auto)
    obtain can2 where rd: "rt_can_read [tmp\<lparr>hdr := - 1\<rparr>] 16 can1 = Some ([m'], 16, can2)" "can_ok can2" "rx_queue can2 = []"
      using rt_can_read_oldest [OF i(2), of 1 "[tmp\<lparr>hdr := - 1\<rparr>]"] i(4) by auto
    define can2' where "can2' = can2\<lparr>cstatus := (cstatus can2)\<lparr>dropedrcvpkg := dropedrcvpkg (cstatus can2) + 1\<rparr>\<rparr>"
    have ok: "can_ok can2'" "rx_queue can2' = []" using rd(2,3) by (simp_all add: can2'_def can_ok_def rx_queue_def)
    obtain can3 ind3 where o3: "isr_rx rx tmp can2' = Some (can3, ind3)" "rx_queue can3 = [m']"
      by (rule isr_rx_queue [OF ok(1) m'(1,5)]) (use ok(2) that in auto)
    then have ov: "rt_hw_can_isr 0x06 rx tmp can2 = Some (can3, ind3)" by (simp add: rt_hw_can_isr_def can2'_def)
    have "ls1c_can_irqhandler c2 old = (c2\<lparr>CMR := CMR c2 OR CAN_CMR_RRB OR CAN_CMR_CDO\<rparr>, rx, Some 0x01)"
      using w(2) by (simp add: ls1c_can_irqhandler_def rx_def)
    moreover have "bit (CMR (c2\<lparr>CMR := CMR c2 OR CAN_CMR_RRB OR CAN_CMR_CDO\<rparr>)) 2" by (simp add: bit_or_iff)
    moreover have "rt_hw_can_isr 0x01 rx tmp can = Some (can1, ind)" using i(1) by (simp add: rt_hw_can_isr_def)
    ultimately show ?thesis using rd(1,3) m'(2-4,6,7) ov o3(2) by blast
  qed
  with s show ?thesis by blast
qed

theorem can_end_to_end_witness:
  "\<exists>c1. sendmsg (replicate 8 0) (can_msg0\<lparr>id := 0x123, len := 2, data := [7, 9, 0, 0, 0, 0, 0, 0]\<rparr>) can_regs0 = Some c1"
  using can_end_to_end [of "can_msg0\<lparr>id := 0x123, len := 2, data := [7, 9, 0, 0, 0, 0, 0, 0]\<rparr>" can_regs0 "replicate 8 0" can_msg0
      "connect_filters [] (open_hdr (open_rx can_msg0 can_dev0))"] opened_ok [of can_dev0]
  by (auto simp: can_msg0_def can_regs0_def msg_ok_def window_ok_def can_dev0_def)

end
