(* ===== verification/Ls1c_Spi.thy ===== *)
theory Ls1c_Spi
  imports Ls1c_Gpio Ls1c_Clock
begin

unbundle bit_operations_syntax

section \<open>SPI controllers (\<^verbatim>\<open>libraries/ls1c_spi.c\<close>, \<^verbatim>\<open>drivers/drv_spi.c\<close>)\<close>

text \<open>
  The two SPI masters, which serve the SD card and the touch panel: clock divider, mode, chip select and the
  exchange of bytes. The control registers read back what was written and are part of the bus; what the
  status and the data register show is input, one record \<open>spi_in\<close> for each byte exchanged.
\<close>

subsection \<open>Registers\<close>

abbreviation LS1C_SPI_SPCR_OFFSET :: u32 where "LS1C_SPI_SPCR_OFFSET \<equiv> 0"
abbreviation LS1C_SPI_SPSR_OFFSET :: u32 where "LS1C_SPI_SPSR_OFFSET \<equiv> 1"
abbreviation LS1C_SPI_TxFIFO_OFFSET :: u32 where "LS1C_SPI_TxFIFO_OFFSET \<equiv> 2"
abbreviation LS1C_SPI_SPER_OFFSET :: u32 where "LS1C_SPI_SPER_OFFSET \<equiv> 3"
abbreviation LS1C_SPI_SFC_PARAM_OFFSET :: u32 where "LS1C_SPI_SFC_PARAM_OFFSET \<equiv> 4"
abbreviation LS1C_SPI_SFC_SOFTCS_OFFSET :: u32 where "LS1C_SPI_SFC_SOFTCS_OFFSET \<equiv> 5"
abbreviation LS1C_SPI_SFC_TIMING_OFFSET :: u32 where "LS1C_SPI_SFC_TIMING_OFFSET \<equiv> 6"
abbreviation LS1C_SPI_SPSR_SPIF_MASK :: u8 where "LS1C_SPI_SPSR_SPIF_MASK \<equiv> 0x80"
abbreviation LS1C_SPI_SPSR_WCOL_MASK :: u8 where "LS1C_SPI_SPSR_WCOL_MASK \<equiv> 0x40"
abbreviation LS1C_SPI_SPCR_CPOL_MASK :: u8 where "LS1C_SPI_SPCR_CPOL_MASK \<equiv> 0x08"
abbreviation LS1C_SPI_SPCR_CPHA_MASK :: u8 where "LS1C_SPI_SPCR_CPHA_MASK \<equiv> 0x04"
abbreviation LS1C_SPI_SPCR_SPR_MASK :: u8 where "LS1C_SPI_SPCR_SPR_MASK \<equiv> 0x03"
abbreviation LS1C_SPI_SPER_SPRE_MASK :: u8 where "LS1C_SPI_SPER_SPRE_MASK \<equiv> 0x03"

definition ls1c_spi_get_base :: "u8 \<Rightarrow> u32" where
  "ls1c_spi_get_base SPIx = (if SPIx = 0 then 0xbfe80000 else if SPIx = 1 then 0xbfec0000 else 0)"

text \<open>The inputs of one exchange: the status at the \<open>n\<close>-th poll, the byte received, the status at the two reads that clear it.\<close>

record spi_in =
  polls :: "nat \<Rightarrow> u8"
  rx_fifo :: u8
  spsr1 :: u8
  spsr2 :: u8

subsection \<open>Operations\<close>

text \<open>\<open>None\<close>: division by zero, in the clock tree or for a speed of 0.\<close>

definition div_code :: "u32 \<Rightarrow> u32" where
  "div_code d =
     (let b = ls1c_fls d - 1;
          p = push_bit b 1
      in if p = 16 then (if d > p then 2 + 1 else 2)
         else if p = 32 then (if d > p then 3 + 2 else 3)
         else if p = 8 then (if d > p then 4 - 2 else 4)
         else (let t = of_nat b - 1 in if d > p then t + 1 else t))"

definition ls1c_spi_get_div :: "u32 \<Rightarrow> bus \<Rightarrow> u32 option" where
  "ls1c_spi_get_div max_speed_hz s =
     do { clk \<leftarrow> clk_get_apb_rate s;
          d \<leftarrow> cdiv (clk + max_speed_hz - 1) max_speed_hz;
          let d = (if d < 2 then 2 else d);
              d = (if d > 4096 then 4096 else d)
          in Some (div_code d) }"

definition ls1c_spi_set_clock :: "u32 \<Rightarrow> u32 \<Rightarrow> bus \<Rightarrow> bus option" where
  "ls1c_spi_set_clock spi_base max_hz s =
     do { d \<leftarrow> ls1c_spi_get_div max_hz s;
          let val = reg_read_8 (spi_base + LS1C_SPI_SPCR_OFFSET) s;
              val = val AND NOT LS1C_SPI_SPCR_SPR_MASK;
              val = val OR (ucast d AND LS1C_SPI_SPCR_SPR_MASK);
              s = reg_write_8 val (spi_base + LS1C_SPI_SPCR_OFFSET) s;
              val = reg_read_8 (spi_base + LS1C_SPI_SPER_OFFSET) s;
              val = val AND NOT LS1C_SPI_SPER_SPRE_MASK;
              val = val OR (ucast (drop_bit 2 d) AND LS1C_SPI_SPER_SPRE_MASK)
          in Some (reg_write_8 val (spi_base + LS1C_SPI_SPER_OFFSET) s) }"

definition ls1c_spi_set_mode :: "u32 \<Rightarrow> u8 \<Rightarrow> u8 \<Rightarrow> bus \<Rightarrow> bus" where
  "ls1c_spi_set_mode spi_base cpol cpha s =
     (let val = reg_read_8 (spi_base + LS1C_SPI_SPCR_OFFSET) s;
          val = val AND NOT LS1C_SPI_SPCR_CPOL_MASK;
          val = val OR push_bit 3 cpol;
          val = val AND NOT LS1C_SPI_SPCR_CPHA_MASK;
          val = val OR push_bit 2 cpha
      in reg_write_8 val (spi_base + LS1C_SPI_SPCR_OFFSET) s)"

text \<open>The new value of the chip-select register: the shifts are on 32 bits and cut to the byte.\<close>

definition cs_value :: "u8 \<Rightarrow> bool \<Rightarrow> u8 \<Rightarrow> u8" where
  "cs_value cs new_status val =
     (let val = val OR push_bit (unat cs) 0x01
      in if new_status then val OR push_bit (unat cs) 0x10 else val AND NOT (push_bit (unat cs) 0x10))"

definition ls1c_spi_set_cs :: "u32 \<Rightarrow> u8 \<Rightarrow> bool \<Rightarrow> bus \<Rightarrow> bus" where
  "ls1c_spi_set_cs spi_base cs new_status s =
     (let val = reg_read_8 (spi_base + LS1C_SPI_SFC_SOFTCS_OFFSET) s
      in reg_write_8 (cs_value cs new_status val) (spi_base + LS1C_SPI_SFC_SOFTCS_OFFSET) s)"

text \<open>The result tells whether the flag was seen within the given number of polls; the callers do not look.\<close>

fun spi_wait :: "(nat \<Rightarrow> u8) \<Rightarrow> nat \<Rightarrow> nat \<Rightarrow> bool" where
  "spi_wait status i 0 = False"
| "spi_wait status i (Suc timeout) =
     (if LS1C_SPI_SPSR_SPIF_MASK AND status i \<noteq> 0 then True else spi_wait status (Suc i) timeout)"

definition ls1c_spi_wait_txrx_done :: "spi_in \<Rightarrow> bool" where
  "ls1c_spi_wait_txrx_done i = spi_wait (polls i) 0 20000"

definition ls1c_spi_clear :: "u32 \<Rightarrow> spi_in \<Rightarrow> bus \<Rightarrow> bus" where
  "ls1c_spi_clear spi_base i s =
     (let s = reg_write_8 (spsr1 i OR LS1C_SPI_SPSR_SPIF_MASK) (spi_base + LS1C_SPI_SPSR_OFFSET) s
      in if LS1C_SPI_SPSR_WCOL_MASK AND spsr2 i \<noteq> 0
         then reg_write_8 (spsr2 i AND NOT LS1C_SPI_SPSR_WCOL_MASK) (spi_base + LS1C_SPI_SPSR_OFFSET) s
         else s)"

definition ls1c_spi_txrx_byte :: "u32 \<Rightarrow> u8 \<Rightarrow> spi_in \<Rightarrow> bus \<Rightarrow> bus \<times> u8" where
  "ls1c_spi_txrx_byte spi_base tx_ch i s =
     (let s = reg_write_8 tx_ch (spi_base + LS1C_SPI_TxFIFO_OFFSET) s;
          _ = ls1c_spi_wait_txrx_done i;
          rx_ch = rx_fifo i
      in (ls1c_spi_clear spi_base i s, rx_ch))"

text \<open>The driver.\<close>

record rt_spi_message =
  send_buf :: "u8 list option"
  recv_buf :: "u8 list option"
  mlength :: nat
  cs_take :: bool
  cs_release :: bool

definition spi_configure :: "u8 \<Rightarrow> u8 \<Rightarrow> u32 \<Rightarrow> bus \<Rightarrow> bus option" where
  "spi_configure SPIx mode max_hz s =
     (let spi_base = ls1c_spi_get_base SPIx;
          s = reg_write_8 0x53 (spi_base + LS1C_SPI_SPCR_OFFSET) s;
          s = reg_write_8 0xc0 (spi_base + LS1C_SPI_SPSR_OFFSET) s;
          s = reg_write_8 0x03 (spi_base + LS1C_SPI_SPER_OFFSET) s;
          val = reg_read_8 (spi_base + LS1C_SPI_SFC_PARAM_OFFSET) s AND 0xfe;
          s = reg_write_8 val (spi_base + LS1C_SPI_SFC_PARAM_OFFSET) s;
          s = reg_write_8 0x05 (spi_base + LS1C_SPI_SFC_TIMING_OFFSET) s
      in do { s \<leftarrow> ls1c_spi_set_clock spi_base max_hz s;
              let cpol = (if mode AND 0x02 \<noteq> 0 then 1 else 0);
                  cpha = (if mode AND 0x01 \<noteq> 0 then 1 else 0)
              in Some (ls1c_spi_set_mode spi_base cpol cpha s) })"

text \<open>
  The loop of \<open>xfer\<close>: \<open>n\<close> bytes are still to go; what is received is collected. \<open>None\<close>: the send buffer is
  shorter than the length of the message.
\<close>

fun xfer_loop :: "u32 \<Rightarrow> nat \<Rightarrow> u8 list option \<Rightarrow> spi_in list \<Rightarrow> bus \<Rightarrow> (bus \<times> u8 list) option" where
  "xfer_loop spi_base 0 send ins s = Some (s, [])"
| "xfer_loop spi_base (Suc n) send [] s = None"
| "xfer_loop spi_base (Suc n) send (i # ins) s =
     do { (d, rest) \<leftarrow> (case send of None \<Rightarrow> Some (0xFF, None) | Some [] \<Rightarrow> None | Some (b # bs) \<Rightarrow> Some (b, Some bs));
          let (s, r) = ls1c_spi_txrx_byte spi_base d i s
          in do { (s, rs) \<leftarrow> xfer_loop spi_base n rest ins s; Some (s, r # rs) } }"

text \<open>
  The result: the bus, the receive buffer and the length. \<open>None\<close>: a buffer is shorter than the length, or the
  inputs given do not cover the exchange.
\<close>

definition xfer :: "u8 \<Rightarrow> u8 \<Rightarrow> rt_spi_message \<Rightarrow> spi_in list \<Rightarrow> bus \<Rightarrow> (bus \<times> u8 list option \<times> nat) option" where
  "xfer SPIx cs m ins s =
     (let spi_base = ls1c_spi_get_base SPIx;
          s = (if cs_take m then ls1c_spi_set_cs spi_base cs False s else s)
      in if (case recv_buf m of None \<Rightarrow> False | Some b \<Rightarrow> length b < mlength m) then None
         else do { (s, rs) \<leftarrow> xfer_loop spi_base (mlength m) (send_buf m) ins s;
                   let s = (if cs_release m then ls1c_spi_set_cs spi_base cs True s else s)
                   in Some (s, map_option (\<lambda>b. rs @ drop (mlength m) b) (recv_buf m), mlength m) })"

subsection \<open>The clock divider\<close>

text \<open>
  The divisor for each value of the two rate fields (low two bits in \<open>SPCR\<close>, high two in \<open>SPER\<close>), as the
  controller's manual lists them: the powers of two up to 4096, 8 out of order.
\<close>

definition spi_divisor :: "nat \<Rightarrow> nat" where
  "spi_divisor code = [2, 4, 16, 32, 8, 64, 128, 256, 512, 1024, 2048, 4096] ! code"

lemma unat_push_bit_1: "b < 32 \<Longrightarrow> unat (push_bit b 1 :: u32) = 2 ^ b"
proof -
  assume "b < 32"
  then have "take_bit 32 (2 ^ b :: nat) = 2 ^ b" using power_strict_increasing [of b 32 "2::nat"] by (intro take_bit_nat_eq_self) simp
  then show ?thesis by (simp add: unsigned_push_bit_eq push_bit_of_1 [where 'a = nat] del: push_bit_of_1)
qed

lemma push_bit_1_eq: "b < 32 \<Longrightarrow> k < 32 \<Longrightarrow> push_bit b 1 = (push_bit k 1 :: u32) \<longleftrightarrow> b = k"
  using unat_push_bit_1 [of b] unat_push_bit_1 [of k] by (metis power_inject_exp one_less_numeral_iff semiring_norm(76))

lemma div_code_cases:
  assumes "2 ^ b \<le> unat d" "unat d < 2 ^ Suc b" "1 \<le> b" "b \<le> 12"
  shows "div_code d = (let x = (if unat d = 2 ^ b then 0 else 1) in
     if b = 4 then 2 + x else if b = 5 then 3 + 2 * x else if b = 3 then 4 - 2 * x else of_nat b - 1 + x)"
proof -
  have fls: "ls1c_fls d - 1 = b" using ls1c_fls_unique [OF assms(1,2)] by simp
  have b: "b < 32" using assms(4) by simp
  have gt: "d > push_bit b 1 \<longleftrightarrow> unat d \<noteq> 2 ^ b"
    using assms(1) unat_push_bit_1 [OF b] by (auto simp: word_less_nat_alt simp del: push_bit_of_1)
  have p: "push_bit b 1 = (16 :: u32) \<longleftrightarrow> b = 4" "push_bit b 1 = (32 :: u32) \<longleftrightarrow> b = 5" "push_bit b 1 = (8 :: u32) \<longleftrightarrow> b = 3"
    using push_bit_1_eq [OF b, of 4] push_bit_1_eq [OF b, of 5] push_bit_1_eq [OF b, of 3] by simp_all
  show ?thesis unfolding div_code_def fls Let_def gt p by simp
qed

text \<open>The divisor chosen is the least power of two that is large enough, but 16 instead of 8 for 5, 6 and 7.\<close>

lemma div_code_divisor:
  assumes "2 \<le> unat d" "unat d \<le> 4096"
  shows "unat (div_code d) < 12 \<and> (\<exists>k. spi_divisor (unat (div_code d)) = 2 ^ k \<and>
     (if unat d \<in> {5, 6, 7} then k = 4 else unat d \<le> 2 ^ k \<and> 2 ^ k < 2 * unat d))"
proof -
  define b where "b = ls1c_fls d - 1"
  have "d \<noteq> 0" using assms(1) by auto
  note f = ls1c_fls_bounds [OF this] ls1c_fls_top(1) [OF this]
  then have b: "2 ^ b \<le> unat d" "unat d < 2 ^ Suc b" by (simp_all add: b_def)
  have "b \<noteq> 0" using b(2) assms(1) by (intro notI) simp
  moreover have "b < 13"
  proof (rule ccontr)
    assume "\<not> b < 13"
    then have "(2::nat) ^ 13 \<le> 2 ^ b" by (intro power_increasing) simp_all
    with le_trans [OF b(1) assms(2)] show False by simp
  qed
  ultimately have "b \<in> set [1..<13]" by simp
  then have bs: "b \<in> {1, 2, 3, 4, 5, 6, 7, 8, 9, 10, 11, 12}" by (simp add: upt_rec numeral_eq_Suc)
  then have code: "div_code d = (let x = (if unat d = 2 ^ b then 0 else 1) in
     if b = 4 then 2 + x else if b = 5 then 3 + 2 * x else if b = 3 then 4 - 2 * x else of_nat b - 1 + x)"
    using div_code_cases [OF b] by auto
  show ?thesis
  proof (cases "unat d = 2 ^ b")
    case True
    with bs code show ?thesis
      by (elim insertE emptyE) (simp_all add: spi_divisor_def, (rule exI [of _ b], simp)+)
  next
    case False
    show ?thesis
    proof (cases "b = 2")
      case True
      then have "unat d = 5 \<or> unat d = 6 \<or> unat d = 7" using b False by simp linarith
      moreover have "spi_divisor (unat (div_code d)) = 2 ^ 4" "unat (div_code d) < 12"
        using code False True by (simp_all add: spi_divisor_def)
      ultimately show ?thesis by auto
    next
      case b2: False
      have "spi_divisor (unat (div_code d)) = 2 ^ Suc b \<and> unat (div_code d) < 12"
        using bs code False b2 b(1) assms(2) by (elim insertE emptyE) (simp_all add: spi_divisor_def)
      moreover have "unat d \<notin> {5, 6, 7}" using b b2 \<open>b \<noteq> 0\<close> bs by (elim insertE emptyE) auto
      moreover have "unat d \<le> 2 ^ Suc b" "2 ^ Suc b < 2 * unat d" using b False by simp_all
      ultimately show ?thesis by (auto intro!: exI [of _ "Suc b"])
    qed
  qed
qed

subsection \<open>Configuration\<close>

lemma spi_base_regs:
  assumes "SPIx \<in> {0, 1}"
  shows "ls1c_spi_get_base SPIx \<noteq> 0" "ls1c_spi_get_base SPIx + 1 \<noteq> 0" "ls1c_spi_get_base SPIx + 2 \<noteq> 0"
    "ls1c_spi_get_base SPIx + 3 \<noteq> 0" "ls1c_spi_get_base SPIx + 4 \<noteq> 0" "ls1c_spi_get_base SPIx + 5 \<noteq> 0"
    "ls1c_spi_get_base SPIx + 6 \<noteq> 0"
  using assms by (auto simp: ls1c_spi_get_base_def)

lemma apb_rate_wr8 [bus_simps]: "clk_get_apb_rate (wr8 a v s) = clk_get_apb_rate s"
  by (simp add: clk_get_apb_rate_def clk_get_ddr_rate_def clk_get_cpu_rate_def clk_get_pll_rate_def reg_read_32_def bus_simps)


lemma apb_rate_reg_write_8 [simp]: "clk_get_apb_rate (reg_write_8 v a s) = clk_get_apb_rate s"
  by (simp add: reg_write_8_def bus_simps)

text \<open>The ratio of clock to speed, rounded up and clipped to the divisors there are.\<close>

definition spi_need :: "nat \<Rightarrow> nat \<Rightarrow> nat" where
  "spi_need clk hz = max 2 (min 4096 ((clk + hz - 1) div hz))"

lemma spi_get_div_code:
  assumes "clk_get_apb_rate s = Some clk" "hz \<noteq> 0" "unat clk + unat hz < 2 ^ 32"
  shows "\<exists>d. ls1c_spi_get_div hz s = Some (div_code d) \<and> unat d = spi_need (unat clk) (unat hz)"
proof -
  define q where "q = (clk + hz - 1) div hz"
  have "unat (clk + hz) = unat clk + unat hz" using assms(3) by (intro unat_add32) simp
  moreover have "1 \<le> clk + hz" using assms(2) calculation by (simp add: word_le_nat_alt unat_gt_0 Suc_leI)
  ultimately have "unat (clk + hz - 1) = unat clk + unat hz - 1" by (simp add: unat_sub)
  then have q: "unat q = (unat clk + unat hz - 1) div unat hz" by (simp add: q_def unat_div_distrib)
  define d where "d = (if (if q < 2 then 2 else q) > 4096 then 4096 else (if q < 2 then 2 else q))"
  have "ls1c_spi_get_div hz s = Some (div_code d)"
    using assms(1,2) by (simp add: ls1c_spi_get_div_def cdiv_def q_def d_def Let_def)
  moreover have "unat d = spi_need (unat clk) (unat hz)"
    using q by (simp add: d_def spi_need_def word_less_nat_alt)
  ultimately show ?thesis by blast
qed

lemma mode_bits: "(m :: u8) AND 2 \<noteq> 0 \<longleftrightarrow> bit m 1" "m AND 1 \<noteq> 0 \<longleftrightarrow> bit m 0"
proof -
  have "m AND 2 = 0 \<longleftrightarrow> \<not> bit m 1"
    using bit_iff_and_push_bit_not_eq_0 [of m 1] by simp
  then show "m AND 2 \<noteq> 0 \<longleftrightarrow> bit m 1" by simp
qed (simp add: and_1_eq_bit)

lemma and_3_cases: "(x :: u8) AND 3 \<in> {0, 1, 2, 3}"
proof -
  have "unat (x AND 3) < 4" using unat_and_mask [of x 2] by (simp add: mask_eq_exp_minus_1)
  then have "unat (x AND 3) \<in> {0, 1, 2, 3}" by auto
  then have "x AND 3 \<in> word_of_nat ` {0, 1, 2, 3}" by (intro image_eqI [of _ _ "unat (x AND 3)"]) simp_all
  then show ?thesis by simp
qed

lemma spi_configure_regs:
  assumes "SPIx \<in> {0, 1}" "clk_get_apb_rate s = Some clk" "hz \<noteq> 0" "unat clk + unat hz < 2 ^ 32"
  shows "\<exists>s' d. spi_configure SPIx mode hz s = Some s' \<and> unat d = spi_need (unat clk) (unat hz) \<and> bus_fault s' = bus_fault s \<and>
    rd8 (ls1c_spi_get_base SPIx) s' = 0x50 OR (ucast (div_code d) AND 3) OR (if bit mode 1 then 8 else 0) OR (if bit mode 0 then 4 else 0) \<and>
    rd8 (ls1c_spi_get_base SPIx + 3) s' = ucast (drop_bit 2 (div_code d)) AND 3"
proof -
  define base where "base = ls1c_spi_get_base SPIx"
  have ne: "base \<noteq> 0" "base + 1 \<noteq> 0" "base + 3 \<noteq> 0" "base + 4 \<noteq> 0" "base + 6 \<noteq> 0" using spi_base_regs [OF assms(1)] by (simp_all add: base_def)
  define s1 where "s1 = wr8 (base + 6) 0x05 (wr8 (base + 4) (rd8 (base + 4) s AND 0xfe) (wr8 (base + 3) 0x03 (wr8 (base + 1) 0xc0 (wr8 base 0x53 s))))"
  have r1: "clk_get_apb_rate s1 = Some clk" "rd8 base s1 = 0x53" "rd8 (base + 3) s1 = 0x03" "bus_fault s1 = bus_fault s"
    using assms(2) ne by (simp_all add: s1_def bus_simps)
  obtain d where d: "ls1c_spi_get_div hz s1 = Some (div_code d)" "unat d = spi_need (unat clk) (unat hz)"
    using spi_get_div_code [OF r1(1) assms(3,4)] by blast
  define s2 where "s2 = wr8 (base + 3) (ucast (drop_bit 2 (div_code d)) AND 3) (wr8 base (0x50 OR (ucast (div_code d) AND 3)) s1)"
  have "ls1c_spi_set_clock base hz s1 = Some s2"
    using d(1) ne r1(2,3) by (simp add: ls1c_spi_set_clock_def reg_write_8_def reg_read_8_def s2_def bus_simps)
  then have e: "spi_configure SPIx mode hz s = Some (ls1c_spi_set_mode base (if bit mode 1 then 1 else 0) (if bit mode 0 then 1 else 0) s2)"
    by (simp add: spi_configure_def reg_write_8_def reg_read_8_def s1_def base_def Let_def and_1_eq_bit bus_simps ne [unfolded base_def] mode_bits)
  define s' where "s' = ls1c_spi_set_mode base (if bit mode 1 then 1 else 0) (if bit mode 0 then 1 else 0) s2"
  have c3: "ucast (div_code d) AND 3 \<in> {0, 1, 2, 3 :: u8}" by (rule and_3_cases)
  have "rd8 base s' = 0x50 OR (ucast (div_code d) AND 3) OR (if bit mode 1 then 8 else 0) OR (if bit mode 0 then 4 else 0)"
    using c3 ne by (auto simp: s'_def s2_def ls1c_spi_set_mode_def reg_write_8_def reg_read_8_def Let_def bus_simps)
  moreover have "rd8 (base + 3) s' = ucast (drop_bit 2 (div_code d)) AND 3" "bus_fault s' = bus_fault s"
    using ne r1(4) by (simp_all add: s'_def s2_def ls1c_spi_set_mode_def reg_write_8_def reg_read_8_def Let_def bus_simps)
  ultimately show ?thesis using e d(2) unfolding base_def s'_def by blast
qed

lemma ceil_mult: "0 < hz \<Longrightarrow> clk \<le> (clk + hz - 1) div hz * (hz :: nat)"
  using div_mult_mod_eq [of "clk + hz - 1" hz] mod_less_divisor [of hz "clk + hz - 1"] by linarith

lemma spi_need_enough:
  assumes "0 < hz" "clk \<le> 4096 * hz" "spi_need clk hz \<le> D"
  shows "clk \<le> D * (hz :: nat)"
proof -
  have "(clk + hz - 1) div hz < 4097" using assms(1,2) by (simp add: less_mult_imp_div_less algebra_simps)
  then have "(clk + hz - 1) div hz \<le> D" using assms(3) by (simp add: spi_need_def)
  then have "(clk + hz - 1) div hz * hz \<le> D * hz" by simp
  with ceil_mult [OF assms(1), of clk] show ?thesis by linarith
qed

lemma code_fields:
  assumes "unat (c :: u32) < 12"
  shows "unat (ucast c AND 3 :: u8) + 4 * unat (ucast (drop_bit 2 c) AND 3 :: u8) = unat c"
proof -
  have m: "(3 :: u8) = mask 2" by (simp add: mask_eq_exp_minus_1)
  have "unat (ucast c AND 3 :: u8) = unat c mod 4" "unat (ucast (drop_bit 2 c) AND 3 :: u8) = unat c div 4 mod 4"
    unfolding m unat_and_mask using assms by (simp_all add: unsigned_ucast_eq take_bit_eq_mod unat_drop_bit)
  then show ?thesis using assms by simp
qed

text \<open>
  C33. The configuration of an SPI controller. For a clock and a speed whose sum fits into 32 bits the driver
  programs it as enabled master without interrupts, in the mode asked for, with the least divisor that
  keeps the clock within the speed (at most 4096), except that it takes 16 where 8 would do for ratios
  from 5 to 7. The speed asked for is never exceeded unless even 4096 is too small.
\<close>

theorem spi_configured:
  assumes "SPIx \<in> {0, 1}" "clk_get_apb_rate s = Some clk" "hz \<noteq> 0" "unat clk + unat hz < 2 ^ 32"
  shows "\<exists>s' code k. spi_configure SPIx mode hz s = Some s' \<and> bus_fault s' = bus_fault s \<and>
    (let spcr = rd8 (ls1c_spi_get_base SPIx) s';
         sper = rd8 (ls1c_spi_get_base SPIx + 3) s';
         need = spi_need (unat clk) (unat hz)
     in code = unat (spcr AND 3) + 4 * unat (sper AND 3) \<and> code < 12 \<and> spi_divisor code = 2 ^ k \<and>
        (if need \<in> {5, 6, 7} then k = 4 else need \<le> 2 ^ k \<and> 2 ^ k < 2 * need) \<and>
        bit spcr 6 \<and> bit spcr 4 \<and> \<not> bit spcr 7 \<and> bit spcr 3 = bit mode 1 \<and> bit spcr 2 = bit mode 0) \<and>
    (unat clk \<le> 4096 * unat hz \<longrightarrow> unat clk \<le> spi_divisor code * unat hz)"
proof -
  obtain s' d where s': "spi_configure SPIx mode hz s = Some s'" "unat d = spi_need (unat clk) (unat hz)" "bus_fault s' = bus_fault s"
      "rd8 (ls1c_spi_get_base SPIx) s' = 0x50 OR (ucast (div_code d) AND 3) OR (if bit mode 1 then 8 else 0) OR (if bit mode 0 then 4 else 0)"
      "rd8 (ls1c_spi_get_base SPIx + 3) s' = ucast (drop_bit 2 (div_code d)) AND 3"
    using spi_configure_regs [OF assms] by blast
  have need: "2 \<le> unat d" "unat d \<le> 4096" by (simp_all add: s'(2) spi_need_def)
  obtain k where k: "unat (div_code d) < 12" "spi_divisor (unat (div_code d)) = 2 ^ k"
      "if unat d \<in> {5, 6, 7} then k = 4 else unat d \<le> 2 ^ k \<and> 2 ^ k < 2 * unat d"
    using div_code_divisor [OF need] by blast
  have "rd8 (ls1c_spi_get_base SPIx) s' AND 3 = ucast (div_code d) AND 3"
    using and_3_cases [of "ucast (div_code d)"] unfolding s'(4) by auto
  then have code: "unat (rd8 (ls1c_spi_get_base SPIx) s' AND 3) + 4 * unat (rd8 (ls1c_spi_get_base SPIx + 3) s' AND 3) = unat (div_code d)"
    using code_fields [OF k(1)] by (simp add: s'(5) and.assoc)
  have "bit (rd8 (ls1c_spi_get_base SPIx) s') 6 \<and> bit (rd8 (ls1c_spi_get_base SPIx) s') 4 \<and> \<not> bit (rd8 (ls1c_spi_get_base SPIx) s') 7 \<and>
      bit (rd8 (ls1c_spi_get_base SPIx) s') 3 = bit mode 1 \<and> bit (rd8 (ls1c_spi_get_base SPIx) s') 2 = bit mode 0"
    using and_3_cases [of "ucast (div_code d)"] unfolding s'(4) by (auto simp: bit_or_iff)
  moreover have "unat d \<le> spi_divisor (unat (div_code d))" using k(2,3) by (auto split: if_splits)
  then have "unat clk \<le> spi_divisor (unat (div_code d)) * unat hz" if "unat clk \<le> 4096 * unat hz"
    using spi_need_enough [of "unat hz" "unat clk"] that assms(3) s'(2) by (simp add: unat_gt_0)
  ultimately show ?thesis using s'(1,3) k code unfolding s'(2) [symmetric] Let_def
    by - (rule exI [of _ s'], rule exI [of _ "unat (div_code d)"], rule exI [of _ k], simp)
qed

theorem spi_configured_witness:
  "\<exists>s'. spi_configure 0 3 2000000 bus0 = Some s' \<and> bit (rd8 0xbfe80000 s') 3 \<and> bit (rd8 0xbfe80000 s') 2"
proof -
  have "clk_get_apb_rate bus0 = Some 12000000"
    by (simp add: clk_get_apb_rate_def clk_get_ddr_rate_def clk_get_cpu_rate_def reg_read_32_def rd32_def bus0_def)
  from spi_configured [OF _ this, of 0 2000000 3] show ?thesis by (auto simp: ls1c_spi_get_base_def Let_def)
qed

subsection \<open>Transfers\<close>

text \<open>
  What the slaves see of a list of bus accesses: the chip-select register, and each byte with the state of the
  register at the time it goes out.
\<close>

record spi_wire =
  softcs :: u8
  wire :: "(u8 \<times> u8) list"

fun spi_access :: "u32 \<Rightarrow> access \<Rightarrow> spi_wire \<Rightarrow> spi_wire" where
  "spi_access base (W8 a v) d =
     (if a = base + LS1C_SPI_SFC_SOFTCS_OFFSET then d\<lparr>softcs := v\<rparr>
      else if a = base + LS1C_SPI_TxFIFO_OFFSET then d\<lparr>wire := wire d @ [(v, softcs d)]\<rparr>
      else d)"
| "spi_access base (W32 a v) d = d"

definition spi_view :: "u32 \<Rightarrow> bus \<Rightarrow> spi_wire" where
  "spi_view base s = fold (spi_access base) (bus_trace s) \<lparr>softcs = 0, wire = []\<rparr>"

lemma spi_view_wr8:
  "a \<noteq> 0 \<Longrightarrow> spi_view base (wr8 a v s) = spi_access base (W8 a v) (spi_view base s)"
  by (simp add: spi_view_def bus_simps)

lemma txrx_view:
  assumes "SPIx \<in> {0, 1}"
  defines "base \<equiv> ls1c_spi_get_base SPIx"
  shows "spi_view base (fst (ls1c_spi_txrx_byte base b i s)) =
      (spi_view base s)\<lparr>wire := wire (spi_view base s) @ [(b, softcs (spi_view base s))]\<rparr>"
    "snd (ls1c_spi_txrx_byte base b i s) = rx_fifo i" "rd8 (base + 5) (fst (ls1c_spi_txrx_byte base b i s)) = rd8 (base + 5) s"
    "bus_fault (fst (ls1c_spi_txrx_byte base b i s)) = bus_fault s"
  using spi_base_regs [OF assms(1), folded base_def]
  by (simp_all add: ls1c_spi_txrx_byte_def ls1c_spi_clear_def reg_write_8_def Let_def spi_view_wr8 bus_simps)

text \<open>The bytes a message puts out.\<close>

definition out_bytes :: "rt_spi_message \<Rightarrow> u8 list" where
  "out_bytes m = (case send_buf m of None \<Rightarrow> replicate (mlength m) 0xFF | Some b \<Rightarrow> take (mlength m) b)"

lemma xfer_loop_view:
  assumes "SPIx \<in> {0, 1}" "n \<le> length ins" "case send of None \<Rightarrow> True | Some b \<Rightarrow> n \<le> length b"
  defines "base \<equiv> ls1c_spi_get_base SPIx"
  shows "\<exists>s'. xfer_loop base n send ins s = Some (s', map rx_fifo (take n ins)) \<and>
    spi_view base s' = (spi_view base s)\<lparr>wire := wire (spi_view base s) @
      map (\<lambda>b. (b, softcs (spi_view base s))) (case send of None \<Rightarrow> replicate n 0xFF | Some b \<Rightarrow> take n b)\<rparr> \<and>
    rd8 (base + 5) s' = rd8 (base + 5) s \<and> bus_fault s' = bus_fault s"
  using assms(2,3)
proof (induction n arbitrary: send ins s)
  case 0
  then show ?case by (cases send) auto
next
  case (Suc n)
  obtain i ins' where ins: "ins = i # ins'" using Suc.prems(1) by (cases ins) auto
  obtain b rest where b: "(case send of None \<Rightarrow> Some (0xFF, None) | Some [] \<Rightarrow> None | Some (b # bs) \<Rightarrow> Some (b, Some bs)) = Some (b, rest)"
      "(case rest of None \<Rightarrow> True | Some b \<Rightarrow> n \<le> length b)"
      "(case send of None \<Rightarrow> replicate (Suc n) 0xFF | Some b \<Rightarrow> take (Suc n) b) =
        b # (case rest of None \<Rightarrow> replicate n 0xFF | Some b \<Rightarrow> take n b)"
    using Suc.prems(2) by (cases send) (auto simp: Suc_le_length_iff)
  define s1 where "s1 = fst (ls1c_spi_txrx_byte base b i s)"
  note t = txrx_view [OF assms(1), of b i s, folded base_def, folded s1_def]
  obtain s' where s': "xfer_loop base n rest ins' s1 = Some (s', map rx_fifo (take n ins'))"
      "spi_view base s' = (spi_view base s1)\<lparr>wire := wire (spi_view base s1) @
        map (\<lambda>b. (b, softcs (spi_view base s1))) (case rest of None \<Rightarrow> replicate n 0xFF | Some b \<Rightarrow> take n b)\<rparr>"
      "rd8 (base + 5) s' = rd8 (base + 5) s1" "bus_fault s' = bus_fault s1"
    using Suc.IH [of ins' rest s1] Suc.prems(1) b(2) ins by auto
  have "xfer_loop base (Suc n) send ins s = Some (s', map rx_fifo (take (Suc n) ins))"
    using s'(1) t(2) b(1) by (simp add: ins s1_def split_beta)
  then show ?case using s'(2-4) t unfolding b(3) by simp
qed

lemma set_cs_view:
  assumes "SPIx \<in> {0, 1}"
  defines "base \<equiv> ls1c_spi_get_base SPIx"
  shows "spi_view base (ls1c_spi_set_cs base cs b s) = (spi_view base s)\<lparr>softcs := cs_value cs b (rd8 (base + 5) s)\<rparr>"
    "rd8 (base + 5) (ls1c_spi_set_cs base cs b s) = cs_value cs b (rd8 (base + 5) s)"
    "bus_fault (ls1c_spi_set_cs base cs b s) = bus_fault s"
  using spi_base_regs [OF assms(1), folded base_def]
  by (simp_all add: ls1c_spi_set_cs_def reg_write_8_def reg_read_8_def Let_def spi_view_wr8 bus_simps)

lemma cs_value_bits:
  assumes "cs < 4"
  shows "bit (cs_value cs b v) (4 + unat cs) \<longleftrightarrow> b" "bit (cs_value cs b v) (unat cs)"
    "i < 8 \<Longrightarrow> i \<noteq> unat cs \<Longrightarrow> i \<noteq> 4 + unat cs \<Longrightarrow> bit (cs_value cs b v) i \<longleftrightarrow> bit v i"
proof -
  have c: "unat cs < 4" using assms by (simp add: word_less_nat_alt)
  have p: "(0x10 :: u8) = push_bit 4 1" by simp
  have x: "bit (push_bit (unat cs) (0x10 :: u8)) j \<longleftrightarrow> j = 4 + unat cs" "bit (push_bit (unat cs) (1 :: u8)) j \<longleftrightarrow> j = unat cs" for j
    using c unfolding p by (auto simp: bit_push_bit_iff bit_1_iff simp del: push_bit_of_1)
  show "bit (cs_value cs b v) (4 + unat cs) \<longleftrightarrow> b" "bit (cs_value cs b v) (unat cs)"
    "i < 8 \<Longrightarrow> i \<noteq> unat cs \<Longrightarrow> i \<noteq> 4 + unat cs \<Longrightarrow> bit (cs_value cs b v) i \<longleftrightarrow> bit v i"
    using c by (auto simp: cs_value_def Let_def bit_or_iff bit_and_iff bit_not_iff x simp del: push_bit_of_1)
qed


definition spi_idle :: spi_in where
  "spi_idle = \<lparr>polls = (\<lambda>_. 0x80), rx_fifo = 0x5A, spsr1 = 0, spsr2 = 0\<rparr>"

definition spi_demo :: rt_spi_message where
  "spi_demo = \<lparr>send_buf = Some [1, 2], recv_buf = Some [0, 0], mlength = 2, cs_take = True, cs_release = True\<rparr>"


end
