(* ===== verification/Ls1c_I2c.thy ===== *)
theory Ls1c_I2c
  imports Ls1c_Gpio Ls1c_Clock
begin

unbundle bit_operations_syntax

section \<open>I2C controllers (\<^verbatim>\<open>libraries/ls1c_i2c.c\<close>, \<^verbatim>\<open>drivers/hw_i2c.c\<close>)\<close>

text \<open>
  The I2C masters and the transfer function the framework calls. The status and the data register show what
  the slave and the wire do: their readings are input, two lists that the operations consume in the order
  in which they read (\<open>None\<close> when a list runs out). What the operations do to the wire is read off the bus: each command
  written makes the controller send a byte, read one, or stop. The microsecond that passes between two
  readings of the status is not modelled.
\<close>

subsection \<open>Registers and state\<close>

datatype ls1c_i2c_t = LS1C_I2C_0 | LS1C_I2C_1 | LS1C_I2C_2

fun i2c_get_base :: "ls1c_i2c_t \<Rightarrow> u32" where
  "i2c_get_base LS1C_I2C_0 = 0xbfe58000"
| "i2c_get_base LS1C_I2C_1 = 0xbfe68000"
| "i2c_get_base LS1C_I2C_2 = 0xbfe70000"

abbreviation LS1C_I2C_PRER_LOW_OFFSET :: u32 where "LS1C_I2C_PRER_LOW_OFFSET \<equiv> 0"
abbreviation LS1C_I2C_PRER_HIGH_OFFSET :: u32 where "LS1C_I2C_PRER_HIGH_OFFSET \<equiv> 1"
abbreviation LS1C_I2C_CONTROL_OFFSET :: u32 where "LS1C_I2C_CONTROL_OFFSET \<equiv> 2"
abbreviation LS1C_I2C_DATA_OFFSET :: u32 where "LS1C_I2C_DATA_OFFSET \<equiv> 3"
abbreviation LS1C_I2C_CMD_OFFSET :: u32 where "LS1C_I2C_CMD_OFFSET \<equiv> 4"
abbreviation LS1C_I2C_CONTROL_EN :: u8 where "LS1C_I2C_CONTROL_EN \<equiv> 0x80"
abbreviation LS1C_I2C_CONTROL_IEN :: u8 where "LS1C_I2C_CONTROL_IEN \<equiv> 0x40"
abbreviation LS1C_I2C_CMD_START :: u8 where "LS1C_I2C_CMD_START \<equiv> 0x90"
abbreviation LS1C_I2C_CMD_STOP :: u8 where "LS1C_I2C_CMD_STOP \<equiv> 0x40"
abbreviation LS1C_I2C_CMD_WRITE :: u8 where "LS1C_I2C_CMD_WRITE \<equiv> 0x10"
abbreviation LS1C_I2C_CMD_READ_ACK :: u8 where "LS1C_I2C_CMD_READ_ACK \<equiv> 0x20"
abbreviation LS1C_I2C_CMD_READ_NACK :: u8 where "LS1C_I2C_CMD_READ_NACK \<equiv> 0x28"
abbreviation LS1C_I2C_CMD_IACK :: u8 where "LS1C_I2C_CMD_IACK \<equiv> 0x00"
abbreviation LS1C_I2C_STATUS_TIP :: u8 where "LS1C_I2C_STATUS_TIP \<equiv> 0x02"
abbreviation LS1C_I2C_STATUS_BUSY :: u8 where "LS1C_I2C_STATUS_BUSY \<equiv> 0x40"
abbreviation LS1C_I2C_STATUS_NACK :: u8 where "LS1C_I2C_STATUS_NACK \<equiv> 0x80"

datatype ls1c_i2c_ack_t = LS1C_I2C_ACK | LS1C_I2C_NACK

text \<open>\<open>i2c_send_data\<close> may return the length in place of a code.\<close>

datatype ls1c_i2c_ret_t = LS1C_I2C_RET_OK | LS1C_I2C_RET_TIMEOUT | i2c_ret_len nat

record i2c_st =
  ibus :: bus
  stats :: "u8 list"
  datas :: "u8 list"

subsection \<open>Operations\<close>

definition i2c_cmd :: "ls1c_i2c_t \<Rightarrow> u8 \<Rightarrow> i2c_st \<Rightarrow> i2c_st" where
  "i2c_cmd I2Cx cmd st = st\<lparr>ibus := reg_write_8 cmd (i2c_get_base I2Cx + LS1C_I2C_CMD_OFFSET) (ibus st)\<rparr>"

definition i2c_put :: "ls1c_i2c_t \<Rightarrow> u8 \<Rightarrow> i2c_st \<Rightarrow> i2c_st" where
  "i2c_put I2Cx b st = st\<lparr>ibus := reg_write_8 b (i2c_get_base I2Cx + LS1C_I2C_DATA_OFFSET) (ibus st)\<rparr>"

definition i2c_get_status :: "i2c_st \<Rightarrow> (u8 \<times> i2c_st) option" where
  "i2c_get_status st = (case stats st of [] \<Rightarrow> None | v # vs \<Rightarrow> Some (v, st\<lparr>stats := vs\<rparr>))"

fun poll_loop :: "u8 \<Rightarrow> nat \<Rightarrow> u8 list \<Rightarrow> (bool \<times> u8 list) option" where
  "poll_loop b loop_cntr [] = None"
| "poll_loop b loop_cntr (v # vs) =
     (if v AND b \<noteq> 0 then (if 0 < loop_cntr - 1 then poll_loop b (loop_cntr - 1) vs else Some (False, vs))
      else Some (0 < loop_cntr, vs))"

definition i2c_poll_status :: "u8 \<Rightarrow> i2c_st \<Rightarrow> (bool \<times> i2c_st) option" where
  "i2c_poll_status b st = map_option (\<lambda>(r, vs). (r, st\<lparr>stats := vs\<rparr>)) (poll_loop b 20000 (stats st))"

text \<open>\<open>None\<close> is also a division by zero.\<close>

definition i2c_init :: "ls1c_i2c_t \<Rightarrow> u32 \<Rightarrow> i2c_st \<Rightarrow> i2c_st option" where
  "i2c_init I2Cx clock st =
     (let base = i2c_get_base I2Cx;
          s = ibus st;
          ctrl = reg_read_8 (base + LS1C_I2C_CONTROL_OFFSET) s AND NOT (LS1C_I2C_CONTROL_EN OR LS1C_I2C_CONTROL_IEN);
          s = reg_write_8 ctrl (base + LS1C_I2C_CONTROL_OFFSET) s;
          clock = (if clock > 400000 then 400000 else clock)
      in do { rate \<leftarrow> clk_get_apb_rate s;
              q \<leftarrow> cdiv rate (5 * clock);
              let prescale = q - 1;
                  s = reg_write_8 (ucast (prescale AND 0xff)) (base + LS1C_I2C_PRER_LOW_OFFSET) s;
                  s = reg_write_8 (ucast (drop_bit 8 prescale)) (base + LS1C_I2C_PRER_HIGH_OFFSET) s;
                  st = i2c_cmd I2Cx LS1C_I2C_CMD_IACK (st\<lparr>ibus := s\<rparr>);
                  ctrl = ctrl OR LS1C_I2C_CONTROL_EN
              in Some (st\<lparr>ibus := reg_write_8 ctrl (base + LS1C_I2C_CONTROL_OFFSET) (ibus st)\<rparr>) })"

definition i2c_receive_ack :: "i2c_st \<Rightarrow> (ls1c_i2c_ack_t \<times> i2c_st) option" where
  "i2c_receive_ack st =
     map_option (\<lambda>(v, st). (if LS1C_I2C_STATUS_NACK AND v \<noteq> 0 then LS1C_I2C_NACK else LS1C_I2C_ACK, st)) (i2c_get_status st)"

text \<open>\<open>n\<close> bytes are still to be read; the bytes read are returned with the code.\<close>

fun i2c_receive_data :: "ls1c_i2c_t \<Rightarrow> nat \<Rightarrow> i2c_st \<Rightarrow> (ls1c_i2c_ret_t \<times> u8 list \<times> i2c_st) option" where
  "i2c_receive_data I2Cx 0 st = Some (LS1C_I2C_RET_OK, [], st)"
| "i2c_receive_data I2Cx (Suc n) st =
     (let st = i2c_cmd I2Cx (if n \<noteq> 0 then LS1C_I2C_CMD_READ_ACK else LS1C_I2C_CMD_READ_NACK) st
      in do { (ok, st) \<leftarrow> i2c_poll_status LS1C_I2C_STATUS_TIP st;
              if \<not> ok then Some (LS1C_I2C_RET_TIMEOUT, [], st)
              else (case datas st of
                      [] \<Rightarrow> None
                    | v # vs \<Rightarrow>
                        do { (r, bs, st) \<leftarrow> i2c_receive_data I2Cx n (st\<lparr>datas := vs\<rparr>);
                             Some (r, v # bs, st) }) })"

definition i2c_send_start_and_addr :: "ls1c_i2c_t \<Rightarrow> u8 \<Rightarrow> bool \<Rightarrow> i2c_st \<Rightarrow> (ls1c_i2c_ret_t \<times> i2c_st) option" where
  "i2c_send_start_and_addr I2Cx slave_addr rd st =
     do { (ok, st) \<leftarrow> i2c_poll_status LS1C_I2C_STATUS_BUSY st;
          if \<not> ok then Some (LS1C_I2C_RET_TIMEOUT, st)
          else let data = push_bit 1 slave_addr OR (if rd then 1 else 0);
                   st = i2c_cmd I2Cx LS1C_I2C_CMD_START (i2c_put I2Cx data st)
               in do { (ok, st) \<leftarrow> i2c_poll_status LS1C_I2C_STATUS_TIP st;
                       Some (if \<not> ok then LS1C_I2C_RET_TIMEOUT else LS1C_I2C_RET_OK, st) } }"

text \<open>\<open>len\<close> is the length of the whole message, which is returned when the slave does not acknowledge.\<close>

fun i2c_send_data :: "ls1c_i2c_t \<Rightarrow> nat \<Rightarrow> u8 list \<Rightarrow> i2c_st \<Rightarrow> (ls1c_i2c_ret_t \<times> i2c_st) option" where
  "i2c_send_data I2Cx len [] st = Some (LS1C_I2C_RET_OK, st)"
| "i2c_send_data I2Cx len (b # bs) st =
     (let st = i2c_cmd I2Cx LS1C_I2C_CMD_WRITE (i2c_put I2Cx b st)
      in do { (ok, st) \<leftarrow> i2c_poll_status LS1C_I2C_STATUS_TIP st;
              if \<not> ok then Some (LS1C_I2C_RET_TIMEOUT, st)
              else do { (a, st) \<leftarrow> i2c_receive_ack st;
                        if a \<noteq> LS1C_I2C_ACK then Some (i2c_ret_len len, st)
                        else i2c_send_data I2Cx len bs st } })"

definition i2c_send_stop :: "ls1c_i2c_t \<Rightarrow> i2c_st \<Rightarrow> i2c_st" where
  "i2c_send_stop I2Cx st = i2c_cmd I2Cx LS1C_I2C_CMD_STOP st"

text \<open>The driver. A message has its buffer; for a read the result is the buffer with the bytes received.\<close>

record rt_i2c_msg =
  i2c_addr :: u16
  flags :: u16
  ibuf :: "u8 list"

definition xfer_msg :: "ls1c_i2c_t \<Rightarrow> rt_i2c_msg \<Rightarrow> i2c_st \<Rightarrow> (rt_i2c_msg \<times> i2c_st) option" where
  "xfer_msg I2Cx msg st =
     (if flags msg = 1 then
        do { (_, st) \<leftarrow> i2c_send_start_and_addr I2Cx (ucast (i2c_addr msg)) True st;
             (_, st) \<leftarrow> i2c_receive_ack st;
             (_, bs, st) \<leftarrow> i2c_receive_data I2Cx (length (ibuf msg)) st;
             Some (msg\<lparr>ibuf := bs @ drop (length bs) (ibuf msg)\<rparr>, i2c_send_stop I2Cx st) }
      else if flags msg = 0 then
        do { (_, st) \<leftarrow> i2c_send_start_and_addr I2Cx (ucast (i2c_addr msg)) False st;
             (_, st) \<leftarrow> i2c_receive_ack st;
             (_, st) \<leftarrow> i2c_send_data I2Cx (length (ibuf msg)) (ibuf msg) st;
             Some (msg, i2c_send_stop I2Cx st) }
      else Some (msg, st))"

fun xfer_msgs :: "ls1c_i2c_t \<Rightarrow> rt_i2c_msg list \<Rightarrow> i2c_st \<Rightarrow> (rt_i2c_msg list \<times> nat \<times> i2c_st) option" where
  "xfer_msgs I2Cx [] st = Some ([], 0, st)"
| "xfer_msgs I2Cx (msg # msgs) st =
     do { (msg, st) \<leftarrow> xfer_msg I2Cx msg st;
          (msgs, ret, st) \<leftarrow> xfer_msgs I2Cx msgs st;
          Some (msg # msgs, Suc ret, st) }"

definition rt_i2c_master_xfer :: "ls1c_i2c_t \<Rightarrow> rt_i2c_msg list \<Rightarrow> i2c_st \<Rightarrow> (rt_i2c_msg list \<times> nat \<times> i2c_st) option" where
  "rt_i2c_master_xfer I2Cx msgs st = do { st \<leftarrow> i2c_init I2Cx 50000 st; xfer_msgs I2Cx msgs st }"

subsection \<open>The wire\<close>

text \<open>What the controller does on the wire for each command; \<open>Rd\<close> tells whether the byte read is acknowledged.\<close>

datatype i2c_ev = Start u8 | Wr u8 | Rd bool | Stop

fun cmd_event :: "u8 \<Rightarrow> u8 \<Rightarrow> i2c_ev list" where
  "cmd_event cmd d =
     (if cmd = LS1C_I2C_CMD_START then [Start d] else if cmd = LS1C_I2C_CMD_WRITE then [Wr d]
      else if cmd = LS1C_I2C_CMD_READ_ACK then [Rd True] else if cmd = LS1C_I2C_CMD_READ_NACK then [Rd False]
      else if cmd = LS1C_I2C_CMD_STOP then [Stop] else [])"

record i2c_dev =
  data_reg :: u8
  events :: "i2c_ev list"

fun i2c_access :: "u32 \<Rightarrow> access \<Rightarrow> i2c_dev \<Rightarrow> i2c_dev" where
  "i2c_access base (W8 a v) d =
     (if a = base + LS1C_I2C_DATA_OFFSET then d\<lparr>data_reg := v\<rparr>
      else if a = base + LS1C_I2C_CMD_OFFSET then d\<lparr>events := events d @ cmd_event v (data_reg d)\<rparr>
      else d)"
| "i2c_access base (W32 a v) d = d"

definition i2c_view :: "ls1c_i2c_t \<Rightarrow> i2c_st \<Rightarrow> i2c_dev" where
  "i2c_view I st = fold (i2c_access (i2c_get_base I)) (bus_trace (ibus st)) \<lparr>data_reg = 0, events = []\<rparr>"

abbreviation on_wire_of :: "ls1c_i2c_t \<Rightarrow> i2c_st \<Rightarrow> i2c_ev list" where
  "on_wire_of I st \<equiv> events (i2c_view I st)"

lemma i2c_base_nz [simp]:
  "i2c_get_base I \<noteq> 0" "i2c_get_base I + 1 \<noteq> 0" "i2c_get_base I + 2 \<noteq> 0" "i2c_get_base I + 3 \<noteq> 0" "i2c_get_base I + 4 \<noteq> 0"
  by (cases I; simp)+

lemma i2c_cmd_view [simp]:
  "i2c_view I (i2c_cmd I c st) = (i2c_view I st)\<lparr>events := on_wire_of I st @ cmd_event c (data_reg (i2c_view I st))\<rparr>"
  "stats (i2c_cmd I c st) = stats st" "datas (i2c_cmd I c st) = datas st"
  by (simp_all add: i2c_cmd_def i2c_view_def reg_write_8_def bus_simps del: cmd_event.simps)

lemma i2c_put_view [simp]:
  "i2c_view I (i2c_put I b st) = (i2c_view I st)\<lparr>data_reg := b\<rparr>" "stats (i2c_put I b st) = stats st" "datas (i2c_put I b st) = datas st"
  by (simp_all add: i2c_put_def i2c_view_def reg_write_8_def bus_simps)

lemma i2c_inputs_view [simp]: "i2c_view I (st\<lparr>stats := vs\<rparr>) = i2c_view I st" "i2c_view I (st\<lparr>datas := ds\<rparr>) = i2c_view I st"
  by (simp_all add: i2c_view_def)

subsection \<open>Transfers\<close>

text \<open>A status that shows neither a transfer in progress nor a busy bus: one poll is enough.\<close>

definition quiet :: "u8 \<Rightarrow> bool" where
  "quiet v \<longleftrightarrow> v AND LS1C_I2C_STATUS_TIP = 0 \<and> v AND LS1C_I2C_STATUS_BUSY = 0"

definition nack :: "u8 \<Rightarrow> bool" where
  "nack v \<longleftrightarrow> LS1C_I2C_STATUS_NACK AND v \<noteq> 0"

lemma poll_quiet:
  "stats st = v # vs \<Longrightarrow> quiet v \<Longrightarrow> b \<in> {LS1C_I2C_STATUS_TIP, LS1C_I2C_STATUS_BUSY} \<Longrightarrow>
     i2c_poll_status b st = Some (True, st\<lparr>stats := vs\<rparr>)"
  by (auto simp: i2c_poll_status_def quiet_def)

lemma poll_stuck: "0 < n \<Longrightarrow> v AND b \<noteq> 0 \<Longrightarrow> poll_loop b n (replicate n v @ vs) = Some (False, vs)"
proof (induction n)
  case (Suc n)
  then show ?case by (cases n) simp_all
qed simp

lemma receive_ack_eq:
  "stats st = v # vs \<Longrightarrow> i2c_receive_ack st = Some (if nack v then LS1C_I2C_NACK else LS1C_I2C_ACK, st\<lparr>stats := vs\<rparr>)"
  by (simp add: i2c_receive_ack_def i2c_get_status_def nack_def)

text \<open>The bytes that go out, given the readings of the status: all up to the first that is not acknowledged.\<close>

fun put_out :: "u8 list \<Rightarrow> u8 list \<Rightarrow> u8 list" where
  "put_out (b # bs) (p # a # vs) = b # (if nack a then [] else put_out bs vs)"
| "put_out _ _ = []"

lemma put_out_all: "2 * length bs \<le> length vs \<Longrightarrow> \<forall>v \<in> set vs. \<not> nack v \<Longrightarrow> put_out bs vs = bs"
proof (induction bs arbitrary: vs)
  case (Cons b bs)
  then obtain p a ws where "vs = p # a # ws" by (cases vs; cases "tl vs") auto
  with Cons show ?case by simp
qed simp

lemma send_data_wire:
  "2 * length bs \<le> length (stats st) \<Longrightarrow> \<forall>v \<in> set (stats st). quiet v \<Longrightarrow>
     \<exists>r st'. i2c_send_data I n bs st = Some (r, st') \<and> on_wire_of I st' = on_wire_of I st @ map Wr (put_out bs (stats st))"
proof (induction bs arbitrary: st)
  case Nil
  then show ?case by simp
next
  case (Cons b bs)
  obtain p a vs where vs: "stats st = p # a # vs" using Cons.prems(1) by (cases "stats st"; cases "tl (stats st)") auto
  define st1 where "st1 = i2c_cmd I LS1C_I2C_CMD_WRITE (i2c_put I b st)"
  have st1: "stats st1 = p # a # vs" "on_wire_of I st1 = on_wire_of I st @ [Wr b]" by (simp_all add: st1_def vs)
  have q: "quiet p" "\<forall>v \<in> set vs. quiet v" "2 * length bs \<le> length vs" using Cons.prems vs by auto
  have poll: "i2c_poll_status LS1C_I2C_STATUS_TIP st1 = Some (True, st1\<lparr>stats := a # vs\<rparr>)" by (rule poll_quiet [OF st1(1) q(1)]) simp
  have ack: "i2c_receive_ack (st1\<lparr>stats := a # vs\<rparr>) = Some (if nack a then LS1C_I2C_NACK else LS1C_I2C_ACK, st1\<lparr>stats := vs\<rparr>)"
    using receive_ack_eq [of "st1\<lparr>stats := a # vs\<rparr>" a vs] by simp
  show ?case
  proof (cases "nack a")
    case True
    then show ?thesis using poll ack st1(2) by (simp add: st1_def [symmetric] Let_def vs)
  next
    case False
    obtain r st' where "i2c_send_data I n bs (st1\<lparr>stats := vs\<rparr>) = Some (r, st')"
        "on_wire_of I st' = on_wire_of I (st1\<lparr>stats := vs\<rparr>) @ map Wr (put_out bs vs)"
      using Cons.IH [of "st1\<lparr>stats := vs\<rparr>"] q by auto
    then show ?thesis using False poll ack st1(2) by (simp add: st1_def [symmetric] Let_def vs)
  qed
qed

lemma receive_data_wire:
  "n \<le> length (stats st) \<Longrightarrow> n \<le> length (datas st) \<Longrightarrow> \<forall>v \<in> set (stats st). quiet v \<Longrightarrow>
     \<exists>st'. i2c_receive_data I n st = Some (LS1C_I2C_RET_OK, take n (datas st), st') \<and>
       on_wire_of I st' = on_wire_of I st @ map Rd (replicate (n - 1) True @ (if n = 0 then [] else [False]))"
proof (induction n arbitrary: st)
  case 0
  then show ?case by simp
next
  case (Suc n)
  obtain v vs d ds where vs: "stats st = v # vs" "datas st = d # ds" using Suc.prems by (cases "stats st"; cases "datas st") auto
  define st1 where "st1 = i2c_cmd I (if n \<noteq> 0 then LS1C_I2C_CMD_READ_ACK else LS1C_I2C_CMD_READ_NACK) st"
  have st1: "stats st1 = v # vs" "datas st1 = d # ds" "on_wire_of I st1 = on_wire_of I st @ [Rd (n \<noteq> 0)]"
    by (simp_all add: st1_def vs)
  have poll: "i2c_poll_status LS1C_I2C_STATUS_TIP st1 = Some (True, st1\<lparr>stats := vs\<rparr>)"
    using Suc.prems(3) vs by (intro poll_quiet [OF st1(1)]) simp_all
  obtain st' where r: "i2c_receive_data I n (st1\<lparr>stats := vs, datas := ds\<rparr>) = Some (LS1C_I2C_RET_OK, take n ds, st')"
      "on_wire_of I st' = on_wire_of I st1 @ map Rd (replicate (n - 1) True @ (if n = 0 then [] else [False]))"
    using Suc.IH [of "st1\<lparr>stats := vs, datas := ds\<rparr>"] Suc.prems vs by auto
  have "i2c_receive_data I (Suc n) st = Some (LS1C_I2C_RET_OK, take (Suc n) (datas st), st')"
    unfolding i2c_receive_data.simps Let_def st1_def [symmetric] by (simp add: poll st1 r(1) vs)
  moreover have "on_wire_of I st' = on_wire_of I st @ map Rd (replicate (Suc n - 1) True @ (if Suc n = 0 then [] else [False]))"
    using r(2) st1(3) by (cases n) simp_all
  ultimately show ?case by blast
qed

lemma start_wire:
  assumes "stats st = v # w # vs" "quiet v" "quiet w"
  shows "\<exists>st'. i2c_send_start_and_addr I a rd st = Some (LS1C_I2C_RET_OK, st') \<and> stats st' = vs \<and> datas st' = datas st \<and>
    on_wire_of I st' = on_wire_of I st @ [Start (push_bit 1 a OR (if rd then 1 else 0))]"
proof -
  have p1: "i2c_poll_status LS1C_I2C_STATUS_BUSY st = Some (True, st\<lparr>stats := w # vs\<rparr>)" by (rule poll_quiet [OF assms(1,2)]) simp
  define st1 where "st1 = i2c_cmd I LS1C_I2C_CMD_START (i2c_put I (push_bit 1 a OR (if rd then 1 else 0)) (st\<lparr>stats := w # vs\<rparr>))"
  have p2: "i2c_poll_status LS1C_I2C_STATUS_TIP st1 = Some (True, st1\<lparr>stats := vs\<rparr>)"
    using assms(3) by (intro poll_quiet [of _ w]) (simp_all add: st1_def)
  have "i2c_send_start_and_addr I a rd st = Some (LS1C_I2C_RET_OK, st1\<lparr>stats := vs\<rparr>)"
    using p1 p2 by (simp add: i2c_send_start_and_addr_def st1_def Let_def)
  then show ?thesis by (simp add: st1_def)
qed


lemma i2c_init_wire:
  assumes "clk_get_apb_rate (ibus st) = Some rate"
  shows "\<exists>st'. i2c_init I 50000 st = Some st' \<and> stats st' = stats st \<and> datas st' = datas st \<and> on_wire_of I st' = on_wire_of I st \<and>
    bit (rd8 (i2c_get_base I + 2) (ibus st')) 7"
proof -
  have ne: "i2c_get_base I + 2 \<noteq> i2c_get_base I + 3" "i2c_get_base I + 1 \<noteq> i2c_get_base I + 3" "i2c_get_base I \<noteq> i2c_get_base I + 3"
    "i2c_get_base I + 2 \<noteq> i2c_get_base I + 4" "i2c_get_base I + 1 \<noteq> i2c_get_base I + 4" "i2c_get_base I \<noteq> i2c_get_base I + 4" by simp_all
  have "clk_get_apb_rate (reg_write_8 v a (ibus st)) = Some rate" for v a
    using assms by (simp add: clk_get_apb_rate_def clk_get_ddr_rate_def clk_get_cpu_rate_def clk_get_pll_rate_def reg_read_32_def reg_write_8_def bus_simps)
  then show ?thesis
    by (simp add: i2c_init_def Let_def cdiv_def i2c_cmd_def i2c_view_def reg_write_8_def bus_simps ne bit_or_iff)
qed

lemma receive_ack_ex: "stats s = w # ws \<Longrightarrow> \<exists>a. i2c_receive_ack s = Some (a, s\<lparr>stats := ws\<rparr>)"
  using receive_ack_eq by blast

lemma send_stop_wire: "on_wire_of I (i2c_send_stop I st) = on_wire_of I st @ [Stop]"
  by (simp add: i2c_send_stop_def)

text \<open>The second half of a write message, after the address.\<close>

lemma send_rest:
  assumes "stats st = x # ws" "\<forall>v \<in> set ws. quiet v" "2 * length bs \<le> length ws"
  shows "\<exists>a r st'. i2c_receive_ack st = Some (a, st\<lparr>stats := ws\<rparr>) \<and> i2c_send_data I n bs (st\<lparr>stats := ws\<rparr>) = Some (r, st') \<and>
    on_wire_of I (i2c_send_stop I st') = on_wire_of I st @ map Wr (put_out bs ws) @ [Stop]"
  using receive_ack_ex [OF assms(1)] send_data_wire [of bs "st\<lparr>stats := ws\<rparr>" I n] assms(2,3) by (auto simp: send_stop_wire)

lemma xfer_write:
  assumes "flags msg = 0" "stats st = v # w # x # ws" "\<forall>v \<in> set (stats st). quiet v" "2 * length (ibuf msg) \<le> length ws"
  shows "\<exists>st'. xfer_msg I msg st = Some (msg, st') \<and>
    on_wire_of I st' = on_wire_of I st @ [Start (push_bit 1 (ucast (i2c_addr msg)))] @ map Wr (put_out (ibuf msg) ws) @ [Stop]"
proof -
  obtain st1 where st1: "i2c_send_start_and_addr I (ucast (i2c_addr msg)) False st = Some (LS1C_I2C_RET_OK, st1)" "stats st1 = x # ws"
      "on_wire_of I st1 = on_wire_of I st @ [Start (push_bit 1 (ucast (i2c_addr msg)))]"
    using start_wire [of st v w "x # ws" I "ucast (i2c_addr msg)" False] assms(2,3) by auto
  obtain a r st2 where "i2c_receive_ack st1 = Some (a, st1\<lparr>stats := ws\<rparr>)"
      "i2c_send_data I (length (ibuf msg)) (ibuf msg) (st1\<lparr>stats := ws\<rparr>) = Some (r, st2)"
      "on_wire_of I (i2c_send_stop I st2) = on_wire_of I st1 @ map Wr (put_out (ibuf msg) ws) @ [Stop]"
    using send_rest [OF st1(2) _ assms(4), of I "length (ibuf msg)"] assms(2,3) by auto
  then show ?thesis using assms(1) st1 by (simp add: xfer_msg_def)
qed

lemma xfer_read:
  assumes "flags msg = 1" "stats st = v # w # x # ws" "\<forall>v \<in> set (stats st). quiet v" "length (ibuf msg) = n" "n \<le> length ws" "n \<le> length (datas st)"
  shows "\<exists>st'. xfer_msg I msg st = Some (msg\<lparr>ibuf := take n (datas st)\<rparr>, st') \<and>
    on_wire_of I st' = on_wire_of I st @ [Start (push_bit 1 (ucast (i2c_addr msg)) OR 1)] @
      map Rd (replicate (n - 1) True @ (if n = 0 then [] else [False])) @ [Stop]"
proof -
  obtain st1 where st1: "i2c_send_start_and_addr I (ucast (i2c_addr msg)) True st = Some (LS1C_I2C_RET_OK, st1)" "stats st1 = x # ws"
      "datas st1 = datas st" "on_wire_of I st1 = on_wire_of I st @ [Start (push_bit 1 (ucast (i2c_addr msg)) OR 1)]"
    using start_wire [of st v w "x # ws" I "ucast (i2c_addr msg)" True] assms(2,3) by auto
  obtain a where a: "i2c_receive_ack st1 = Some (a, st1\<lparr>stats := ws\<rparr>)" using receive_ack_ex [OF st1(2)] by blast
  obtain st2 where st2: "i2c_receive_data I n (st1\<lparr>stats := ws\<rparr>) = Some (LS1C_I2C_RET_OK, take n (datas st), st2)"
      "on_wire_of I st2 = on_wire_of I st1 @ map Rd (replicate (n - 1) True @ (if n = 0 then [] else [False]))"
    using receive_data_wire [of n "st1\<lparr>stats := ws\<rparr>" I] assms(2,3,5,6) st1(3) by auto
  have "xfer_msg I msg st = Some (msg\<lparr>ibuf := take n (datas st)\<rparr>, i2c_send_stop I st2)"
    using assms(1,4,6) st1(1) a st2(1) by (simp add: xfer_msg_def)
  then show ?thesis using st2(2) st1(4) by (simp add: send_stop_wire)
qed

lemma xfer_busy:
  assumes "flags msg = 0" "stats st = replicate 20000 LS1C_I2C_STATUS_BUSY @ x # ws" "\<forall>v \<in> set ws. quiet v" "2 * length (ibuf msg) \<le> length ws"
  shows "\<exists>st'. xfer_msg I msg st = Some (msg, st') \<and> on_wire_of I st' = on_wire_of I st @ map Wr (put_out (ibuf msg) ws) @ [Stop]"
proof -
  have "poll_loop LS1C_I2C_STATUS_BUSY 20000 (stats st) = Some (False, x # ws)" using poll_stuck [of 20000] assms(2) by simp
  then have busy: "i2c_send_start_and_addr I (ucast (i2c_addr msg)) False st = Some (LS1C_I2C_RET_TIMEOUT, st\<lparr>stats := x # ws\<rparr>)"
    by (simp add: i2c_send_start_and_addr_def i2c_poll_status_def)
  obtain a r st2 where "i2c_receive_ack (st\<lparr>stats := x # ws\<rparr>) = Some (a, st\<lparr>stats := ws\<rparr>)"
      "i2c_send_data I (length (ibuf msg)) (ibuf msg) (st\<lparr>stats := ws\<rparr>) = Some (r, st2)"
      "on_wire_of I (i2c_send_stop I st2) = on_wire_of I st @ map Wr (put_out (ibuf msg) ws) @ [Stop]"
    using send_rest [of "st\<lparr>stats := x # ws\<rparr>" x ws "ibuf msg" I "length (ibuf msg)"] assms(3,4) by auto
  then show ?thesis using assms(1) busy by (simp add: xfer_msg_def)
qed


definition i2c_demo :: i2c_st where
  "i2c_demo = \<lparr>ibus = bus0, stats = replicate 7 0, datas = []\<rparr>"

definition i2c_demo_msg :: rt_i2c_msg where
  "i2c_demo_msg = \<lparr>i2c_addr = 0x5D, flags = 0, ibuf = [0x81, 0x4E]\<rparr>"


end
