(* ===== verification/Rt_Completion.thy ===== *)
theory Rt_Completion
  imports Rt_Sem
begin

section \<open>Completions (\<^verbatim>\<open>rt-thread/components/drivers/src/completion.c\<close>)\<close>

text \<open>
  A completion is a flag that one side, often an interrupt, sets and the one waiting thread consumes. Its
  list is the kernel list \<open>Wait i\<close>. The step relation at the end has one waiting thread, anybody who completes, and
  the rest of the kernel, the expiry of the waiting time included.
\<close>

subsection \<open>Operations\<close>

abbreviation RT_COMPLETED :: u32 where "RT_COMPLETED \<equiv> 1"
abbreviation RT_UNCOMPLETED :: u32 where "RT_UNCOMPLETED \<equiv> 0"

record rt_completion =
  co_flag :: u32

definition rt_completion_init :: "nat \<Rightarrow> kern \<Rightarrow> rt_completion \<times> kern" where
  "rt_completion_init i k = (\<lparr>co_flag = RT_UNCOMPLETED\<rparr>, k\<lparr>queues := (queues k)(Wait i := [])\<rparr>)"

definition rt_completion_wait :: "nat \<Rightarrow> tid \<Rightarrow> int \<Rightarrow> rt_completion \<times> kern \<Rightarrow> (rt_completion \<times> kern) \<times> outcome" where
  "rt_completion_wait i t timeout = (\<lambda>(c, k).
     if co_flag c \<noteq> RT_COMPLETED
     then let k = rt_assert (queues k (Wait i) = []) k
          in if timeout = 0 then ((c, k), Ret RT_ETIMEOUT)
             else ((c, ipc_wait (Wait i) t RT_IPC_FLAG_FIFO timeout (set_error t RT_EOK k)), Blocked)
     else ((c\<lparr>co_flag := RT_UNCOMPLETED\<rparr>, k), Ret RT_EOK))"

text \<open>What is left to do when the thread runs again.\<close>

definition rt_completion_wait_end :: "tid \<Rightarrow> rt_completion \<times> kern \<Rightarrow> (rt_completion \<times> kern) \<times> rt_err" where
  "rt_completion_wait_end t = (\<lambda>(c, k). ((c\<lparr>co_flag := RT_UNCOMPLETED\<rparr>, k), th_error (threads k t)))"

definition rt_completion_done :: "nat \<Rightarrow> rt_completion \<times> kern \<Rightarrow> rt_completion \<times> kern" where
  "rt_completion_done i = (\<lambda>(c, k).
     if co_flag c = RT_COMPLETED then (c, k)
     else (c\<lparr>co_flag := RT_COMPLETED\<rparr>,
           if queues k (Wait i) \<noteq> [] then rt_schedule (rt_ipc_list_resume (Wait i) k) else k))"

subsection \<open>One waiting thread\<close>

text \<open>
  The ghost fields: whether the thread is inside \<open>rt_completion_wait\<close>, how often the flag was set, how many waits
  returned \<open>RT_EOK\<close>, how many set flags were cleared by a wait that failed, and how many waiting times ran out.
\<close>

record co_sys =
  co :: "rt_completion \<times> kern"
  inside :: bool
  dones :: nat
  oks :: nat
  wasted :: nat
  expired :: nat

inductive co_step :: "nat \<Rightarrow> tid \<Rightarrow> co_sys \<Rightarrow> co_sys \<Rightarrow> bool" for i w where
  wait: "\<not> inside s \<Longrightarrow> runs w (snd (co s)) \<Longrightarrow> rt_completion_wait i w timeout (co s) = (c, out) \<Longrightarrow>
    co_step i w s (s\<lparr>co := c, inside := (out = Blocked), oks := oks s + (if out = Ret RT_EOK then 1 else 0)\<rparr>)"
| wake: "inside s \<Longrightarrow> runs w (snd (co s)) \<Longrightarrow> rt_completion_wait_end w (co s) = (c, e) \<Longrightarrow>
    co_step i w s (s\<lparr>co := c, inside := False, oks := oks s + (if e = RT_EOK then 1 else 0),
      wasted := wasted s + (if e \<noteq> RT_EOK \<and> co_flag (fst (co s)) = RT_COMPLETED then 1 else 0)\<rparr>)"
| complete: "rt_completion_done i (co s) = c \<Longrightarrow>
    co_step i w s (s\<lparr>co := c, dones := dones s + (if co_flag (fst (co s)) = RT_COMPLETED then 0 else 1)\<rparr>)"
| expire: "queues (snd (co s)) (Wait i) = [w] \<Longrightarrow> kinv k' \<Longrightarrow> queues k' (Wait i) = [] \<Longrightarrow> th_error (threads k' w) \<noteq> RT_EOK \<Longrightarrow>
    co_step i w s (s\<lparr>co := (fst (co s), k'), expired := expired s + 1\<rparr>)"
| env: "kinv k' \<Longrightarrow> queues k' (Wait i) = queues (snd (co s)) (Wait i) \<Longrightarrow>
    th_error (threads k' w) = th_error (threads (snd (co s)) w) \<Longrightarrow> co_step i w s (s\<lparr>co := (fst (co s), k')\<rparr>)"

inductive co_reach :: "nat \<Rightarrow> tid \<Rightarrow> co_sys \<Rightarrow> co_sys \<Rightarrow> bool" for i w s0 where
  start: "co_reach i w s0 s0"
| step: "co_reach i w s0 s \<Longrightarrow> co_step i w s s' \<Longrightarrow> co_reach i w s0 s'"

text \<open>A thread in the list has no error and no flag to consume; one that left it has one of the two.\<close>

definition co_ok :: "nat \<Rightarrow> tid \<Rightarrow> co_sys \<Rightarrow> bool" where
  "co_ok i w s \<longleftrightarrow> (case co s of (c, k) \<Rightarrow>
     kinv k \<and> co_flag c \<in> {RT_UNCOMPLETED, RT_COMPLETED} \<and>
     queues k (Wait i) \<in> {[], [w]} \<and>
     (queues k (Wait i) = [w] \<longrightarrow> inside s \<and> co_flag c = RT_UNCOMPLETED \<and> th_error (threads k w) = RT_EOK) \<and>
     (inside s \<longrightarrow> queues k (Wait i) = [] \<longrightarrow> co_flag c = RT_UNCOMPLETED \<longrightarrow> th_error (threads k w) \<noteq> RT_EOK) \<and>
     dones s = oks s + wasted s + unat (co_flag c) \<and>
     wasted s + (if inside s \<and> th_error (threads k w) \<noteq> RT_EOK then 1 else 0) \<le> expired s)"

text \<open>The first thread of a list is resumed, and the running thread goes to sleep on one.\<close>

lemma wake_first:
  assumes "kinv k" "waiting l" "queues k l = w # ws"
  defines "k' \<equiv> rt_schedule (rt_ipc_list_resume l k)"
  shows "kinv k'" "queues k' l = ws" "waiting l' \<Longrightarrow> l' \<noteq> l \<Longrightarrow> queues k' l' = queues k l'" "th_error (threads k' u) = th_error (threads k u)"
proof -
  note r = list_resume_sel [OF assms(1-3)]
  have w: "queues k' m = queues (rt_ipc_list_resume l k) m" if "waiting m" for m
    using rt_schedule_wait [OF r(1), of m] that by (auto simp: k'_def waiting_def)
  show "kinv k'" unfolding k'_def by (rule kinv_rt_schedule [OF r(1)])
  show "queues k' l = ws" "waiting l' \<Longrightarrow> l' \<noteq> l \<Longrightarrow> queues k' l' = queues k l'" using w r(2,3) assms(2) by simp_all
  show "th_error (threads k' u) = th_error (threads k u)" using r(4) [of u] rt_schedule_threads(3) [OF r(1)] by (simp add: k'_def thread_core_def)
qed

lemma wait_on:
  fixes time :: int
  assumes "kinv k" "runs w k" "waiting l"
  defines "k' \<equiv> ipc_wait l w RT_IPC_FLAG_FIFO time (set_error w RT_EOK k)"
  shows "kinv k'" "waiting l' \<Longrightarrow> queues k' l' = (if l' = l then queues k l @ [w] else queues k l')"
    "th_error (threads k' u) = (if u = w then RT_EOK else th_error (threads k u))"
proof -
  have p: "kinv (set_error w RT_EOK k)" "stat (threads (set_error w RT_EOK k) w) = RT_THREAD_RUNNING"
      "rt_current_thread (set_error w RT_EOK k) = Some w"
    using assms(1,2) by (simp_all add: set_error_prio)
  note s = ipc_wait_sel [OF p assms(3), where flag = RT_IPC_FLAG_FIFO and time = time, folded k'_def]
  show "kinv k'" by (rule s(6))
  show "waiting l' \<Longrightarrow> queues k' l' = (if l' = l then queues k l @ [w] else queues k l')"
    using s(1) [of l'] by (simp add: wait_insert_def fifo_insert_def)
  show "th_error (threads k' u) = (if u = w then RT_EOK else th_error (threads k u))" using s(3) [of u] by (simp add: thread_core_def set_error_def)
qed

lemma co_ok_step:
  assumes "co_ok i w s" "co_step i w s s'"
  shows "co_ok i w s'"
  using assms(2)
proof (cases rule: co_step.cases)
  case (wait timeout c out)
  obtain c0 k where s: "co s = (c0, k)" by fastforce
  have inv: "kinv k" "runs w k" "queues k (Wait i) = []" using assms(1) wait by (auto simp: co_ok_def s)
  then show ?thesis using assms(1) wait wait_on [where l = "Wait i" and time = timeout, OF inv(1,2) waiting_simps(1)]
    by (auto simp: co_ok_def s rt_completion_wait_def rt_assert_def split: if_splits)
next
  case (wake c e)
  obtain c0 k where s: "co s = (c0, k)" by fastforce
  have "w \<notin> set (queues k (Wait i))" using unlinked [of "{}" k w "Wait i"] assms(1) wake by (auto simp: co_ok_def s)
  then have "queues k (Wait i) = []" using assms(1) by (auto simp: co_ok_def s)
  then show ?thesis using assms(1) wake by (auto simp: co_ok_def s rt_completion_wait_end_def)
next
  case (complete c)
  obtain c0 k where s: "co s = (c0, k)" by fastforce
  have "kinv k" using assms(1) by (simp add: co_ok_def s)
  then show ?thesis using assms(1) complete wake_first [where l = "Wait i" and k = k and w = w and ws = "[]"]
    by (auto simp: co_ok_def s rt_completion_done_def split: if_splits)
qed (use assms(1) in \<open>auto simp: co_ok_def split: prod.splits if_splits\<close>)

lemma co_ok_reach: "co_reach i w s0 s \<Longrightarrow> co_ok i w s0 \<Longrightarrow> co_ok i w s"
  by (induction rule: co_reach.induct) (auto intro: co_ok_step)

text \<open>
  C24. A completion with one waiting thread, whatever the interleaving. The thread never sleeps while the flag
  is set, and when it calls \<open>rt_completion_wait\<close> the list is empty, as the code asserts. Every setting of the
  flag is consumed by one wait that returns \<open>RT_EOK\<close>, is still to be consumed, or is wasted; at most as many are
  wasted as waiting times have run out, none when the thread waits forever. One is wasted
  whenever the flag is set after the time has run out and before the thread runs again: the wait still
  returns the error, and the completion is as if it had not happened.
\<close>

theorem completion_counts:
  assumes "co_reach i w \<lparr>co = rt_completion_init i k0, inside = False, dones = 0, oks = 0, wasted = 0, expired = 0\<rparr> s"
    "kinv (snd (rt_completion_init i k0))" "co s = (c, k)"
  shows "kinv k \<and> (co_flag c = RT_COMPLETED \<longrightarrow> queues k (Wait i) = []) \<and> (\<not> inside s \<longrightarrow> queues k (Wait i) = []) \<and>
    dones s = oks s + wasted s + (if co_flag c = RT_COMPLETED then 1 else 0) \<and> wasted s \<le> expired s \<and>
    (inside s \<and> co_flag c = RT_UNCOMPLETED \<and> th_error (threads k w) \<noteq> RT_EOK \<longrightarrow>
      rt_completion_wait_end w (rt_completion_done i (co s)) = (co s, th_error (threads k w)))"
proof -
  have "co_ok i w s" using assms(2) by (intro co_ok_reach [OF assms(1)]) (simp add: co_ok_def rt_completion_init_def)
  then show ?thesis using assms(3) by (auto simp: co_ok_def rt_completion_done_def rt_completion_wait_end_def)
qed

definition co_demo0 :: co_sys where
  "co_demo0 = \<lparr>co = rt_completion_init 7 two_kern, inside = False, dones = 0, oks = 0, wasted = 0, expired = 0\<rparr>"

definition co_demo :: co_sys where
  "co_demo = co_demo0\<lparr>co := rt_completion_done 7 (co co_demo0), dones := 1\<rparr>"

theorem completion_counts_witness:
  "dones co_demo = 1 \<and> co_flag (fst (co co_demo)) = RT_COMPLETED \<and> oks co_demo + wasted co_demo = 0 \<and>
   queues (snd (co co_demo)) (Wait 7) = []"
proof -
  have q: "queues two_kern (Wait 7) = []" by code_simp
  have "(queues two_kern)(Wait 7 := []) = queues two_kern" using q by auto
  then have k: "rt_completion_init 7 two_kern = (\<lparr>co_flag = RT_UNCOMPLETED\<rparr>, two_kern)" by (simp add: rt_completion_init_def)
  have "co_step 7 1 co_demo0 (co_demo0\<lparr>co := rt_completion_done 7 (co co_demo0),
      dones := dones co_demo0 + (if co_flag (fst (co co_demo0)) = RT_COMPLETED then 0 else 1)\<rparr>)"
    by (intro co_step.complete refl)
  then have "co_reach 7 1 co_demo0 co_demo"
    by (intro co_reach.step [OF co_reach.start]) (simp add: co_demo_def co_demo0_def k)
  then have "co_reach 7 1 \<lparr>co = rt_completion_init 7 two_kern, inside = False, dones = 0, oks = 0, wasted = 0, expired = 0\<rparr> co_demo"
    by (simp only: co_demo0_def)
  from completion_counts [OF this] kinv_two_kern q show ?thesis
    by (simp add: k co_demo_def co_demo0_def rt_completion_done_def)
qed

end
