(* ===== verification/Rt_Dataqueue.thy ===== *)
theory Rt_Dataqueue
  imports Rt_Completion Fifo
begin

section \<open>Data queues (\<^verbatim>\<open>rt-thread/components/drivers/src/dataqueue.c\<close>)\<close>

text \<open>
  A bounded queue of pairs (pointer, size) between a driver and its client. The indices are 16-bit counters that
  run freely; the place of an item is the index modulo the size, which must divide \<^verbatim>\<open>0x10000\<close>. Threads
  wait on \<open>WaitSend i\<close> to push and on \<open>Wait i\<close> to pop. Differences of indices are computed in \<^verbatim>\<open>int\<close>, to
  which C promotes them, so they do not wrap with the indices. The events of the operations are
  returned as a list, which is what the notification function, if there is one, is called with.
\<close>

subsection \<open>Operations\<close>

type_synonym data_item = "nat \<times> nat"

record rt_data_queue =
  dq_alive :: bool
  dq_size :: u16
  dq_lwm :: u16
  get_index :: u16
  put_index :: u16
  items :: "data_item list"

datatype dq_event = RT_DATAQUEUE_EVENT_POP | RT_DATAQUEUE_EVENT_PUSH | RT_DATAQUEUE_EVENT_LWM

text \<open>\<^verbatim>\<open>put_index - get_index\<close>, a signed number.\<close>

definition dq_diff :: "rt_data_queue \<Rightarrow> int" where
  "dq_diff q = int (unat (put_index q)) - int (unat (get_index q))"

definition slot :: "u16 \<Rightarrow> rt_data_queue \<Rightarrow> nat" where
  "slot idx q = unat idx mod unat (dq_size q)"

text \<open>\<open>mem\<close> is the array that \<^verbatim>\<open>rt_malloc\<close> returns; the result \<open>None\<close> is the division by zero in the assertion.\<close>

definition rt_data_queue_init ::
  "nat \<Rightarrow> u16 \<Rightarrow> u16 \<Rightarrow> data_item list option \<Rightarrow> kern \<Rightarrow> ((rt_data_queue \<times> kern) \<times> rt_err) option" where
  "rt_data_queue_init i size0 lwm mem k =
     (if size0 = 0 then None
      else let k = rt_assert (0x10000 mod unat size0 = 0) k;
               k = k\<lparr>queues := (queues k)(WaitSend i := [], Wait i := [])\<rparr>;
               q = \<lparr>dq_alive = True, dq_size = size0, dq_lwm = lwm, get_index = 0, put_index = 0, items = []\<rparr>
           in Some (case mem of
                      None \<Rightarrow> ((q, k), RT_ENOMEM)
                    | Some m \<Rightarrow> ((q\<lparr>items := m\<rparr>, k), RT_EOK)))"

text \<open>
  One pass of the loop of \<open>rt_data_queue_push\<close> with what follows it, and what the thread does when it is
  resumed: it returns the error or takes another pass, with the full waiting time again.
\<close>

definition push_item :: "nat \<Rightarrow> data_item \<Rightarrow> rt_data_queue \<times> kern \<Rightarrow> (rt_data_queue \<times> kern) \<times> dq_event list" where
  "push_item i d = (\<lambda>(q, k).
     let q = q\<lparr>items := (items q)[slot (put_index q) q := d], put_index := put_index q + 1\<rparr>
     in if queues k (Wait i) \<noteq> [] then ((q, rt_schedule (rt_ipc_list_resume (Wait i) k)), [])
        else ((q, k), [RT_DATAQUEUE_EVENT_PUSH]))"

definition push_pass ::
  "nat \<Rightarrow> tid \<Rightarrow> data_item \<Rightarrow> int \<Rightarrow> rt_data_queue \<times> kern \<Rightarrow> (rt_data_queue \<times> kern) \<times> dq_event list \<times> outcome" where
  "push_pass i t d timeout = (\<lambda>(q, k).
     if dq_diff q = int (unat (dq_size q))
     then if timeout = 0 then ((q, k), [], Ret RT_ETIMEOUT)
          else ((q, ipc_wait (WaitSend i) t RT_IPC_FLAG_FIFO timeout (set_error t RT_EOK k)), [], Blocked)
     else case push_item i d (q, k) of (qk, evs) \<Rightarrow> (qk, evs, Ret RT_EOK))"

definition rt_data_queue_push ::
  "nat \<Rightarrow> tid \<Rightarrow> data_item \<Rightarrow> int \<Rightarrow> rt_data_queue \<times> kern \<Rightarrow> (rt_data_queue \<times> kern) \<times> dq_event list \<times> outcome" where
  "rt_data_queue_push i t d timeout = (\<lambda>(q, k). push_pass i t d timeout (q, rt_assert (dq_alive q) k))"

definition rt_data_queue_push_resume ::
  "nat \<Rightarrow> tid \<Rightarrow> data_item \<Rightarrow> int \<Rightarrow> rt_data_queue \<times> kern \<Rightarrow> (rt_data_queue \<times> kern) \<times> dq_event list \<times> outcome" where
  "rt_data_queue_push_resume i t d timeout = (\<lambda>(q, k).
     if th_error (threads k t) \<noteq> RT_EOK then ((q, k), [], Ret (th_error (threads k t)))
     else push_pass i t d timeout (q, k))"

definition pop_item :: "nat \<Rightarrow> rt_data_queue \<times> kern \<Rightarrow> (rt_data_queue \<times> kern) \<times> data_item \<times> dq_event list" where
  "pop_item i = (\<lambda>(q, k).
     let d = items q ! slot (get_index q) q;
         q = q\<lparr>get_index := get_index q + 1\<rparr>
     in if dq_diff q \<le> int (unat (dq_lwm q))
        then ((q, if queues k (WaitSend i) \<noteq> [] then rt_schedule (rt_ipc_list_resume (WaitSend i) k) else k), d, [RT_DATAQUEUE_EVENT_LWM])
        else ((q, k), d, [RT_DATAQUEUE_EVENT_POP]))"

definition pop_pass ::
  "nat \<Rightarrow> tid \<Rightarrow> int \<Rightarrow> rt_data_queue \<times> kern \<Rightarrow> (rt_data_queue \<times> kern) \<times> data_item option \<times> dq_event list \<times> outcome" where
  "pop_pass i t timeout = (\<lambda>(q, k).
     if get_index q = put_index q
     then if timeout = 0 then ((q, k), None, [], Ret RT_ETIMEOUT)
          else ((q, ipc_wait (Wait i) t RT_IPC_FLAG_FIFO timeout (set_error t RT_EOK k)), None, [], Blocked)
     else case pop_item i (q, k) of (qk, d, evs) \<Rightarrow> (qk, Some d, evs, Ret RT_EOK))"

definition rt_data_queue_pop ::
  "nat \<Rightarrow> tid \<Rightarrow> int \<Rightarrow> rt_data_queue \<times> kern \<Rightarrow> (rt_data_queue \<times> kern) \<times> data_item option \<times> dq_event list \<times> outcome" where
  "rt_data_queue_pop i t timeout = (\<lambda>(q, k). pop_pass i t timeout (q, rt_assert (dq_alive q) k))"

definition rt_data_queue_pop_resume ::
  "nat \<Rightarrow> tid \<Rightarrow> int \<Rightarrow> rt_data_queue \<times> kern \<Rightarrow> (rt_data_queue \<times> kern) \<times> data_item option \<times> dq_event list \<times> outcome" where
  "rt_data_queue_pop_resume i t timeout = (\<lambda>(q, k).
     if th_error (threads k t) \<noteq> RT_EOK then ((q, k), None, [], Ret (th_error (threads k t)))
     else pop_pass i t timeout (q, k))"

definition rt_data_queue_peak :: "rt_data_queue \<times> kern \<Rightarrow> (rt_data_queue \<times> kern) \<times> data_item option \<times> rt_err" where
  "rt_data_queue_peak = (\<lambda>(q, k).
     ((q, rt_assert (dq_alive q) k),
      if get_index q = put_index q then (None, RT_EEMPTY) else (Some (items q ! slot (get_index q) q), RT_EOK)))"

text \<open>The items stay where they are: only the waiting threads are told.\<close>

definition rt_data_queue_reset :: "nat \<Rightarrow> rt_data_queue \<times> kern \<Rightarrow> rt_data_queue \<times> kern" where
  "rt_data_queue_reset i = (\<lambda>(q, k).
      let k = rt_assert (dq_alive q) k;
          k = rt_enter_critical k;
          k = rt_ipc_list_resume_all (Wait i) k;
          k = rt_ipc_list_resume_all (WaitSend i) k
      in (q, rt_schedule (rt_exit_critical k)))"

definition rt_data_queue_deinit :: "nat \<Rightarrow> rt_data_queue \<times> kern \<Rightarrow> rt_data_queue \<times> kern" where
  "rt_data_queue_deinit i = (\<lambda>(q, k).
     case rt_data_queue_reset i (q, rt_assert (dq_alive q) k) of (q, k) \<Rightarrow> (q\<lparr>dq_alive := False, items := []\<rparr>, k))"

subsection \<open>Contents\<close>

definition dq_count :: "rt_data_queue \<Rightarrow> nat" where
  "dq_count q = unat (put_index q - get_index q)"

definition dq_contents :: "rt_data_queue \<Rightarrow> data_item list" where
  "dq_contents q = map (\<lambda>j. items q ! ((unat (get_index q) + j) mod unat (dq_size q))) [0..<dq_count q]"

definition dq_inv :: "rt_data_queue \<Rightarrow> bool" where
  "dq_inv q \<longleftrightarrow> dq_alive q \<and> 0 < unat (dq_size q) \<and> unat (dq_size q) dvd 65536 \<and> length (items q) = unat (dq_size q) \<and>
     dq_count q \<le> unat (dq_size q)"

lemma length_contents [simp]: "length (dq_contents q) = dq_count q"
  by (simp add: dq_contents_def)

lemma empty_iff: "get_index q = put_index q \<longleftrightarrow> dq_contents q = []"
  by (simp add: dq_contents_def dq_count_def) (metis eq_iff_diff_eq_0 unat_eq_0)

text \<open>The place of an index that has run on: since the size divides the range, the wrap does not matter.\<close>

lemma slot_add:
  fixes idx :: u16
  assumes "dq_inv q"
  shows "unat (idx + of_nat j) mod unat (dq_size q) = (unat idx + j) mod unat (dq_size q)"
proof -
  have "unat (idx + of_nat j) = (unat idx + j) mod 65536" by (simp add: unat_word_ariths unat_of_nat mod_simps)
  then show ?thesis using assms by (simp add: dq_inv_def mod_mod_cancel)
qed

lemma put_slot:
  assumes "dq_inv q"
  shows "slot (put_index q) q = (unat (get_index q) + dq_count q) mod unat (dq_size q)"
proof -
  have "put_index q = get_index q + of_nat (dq_count q)" by (simp add: dq_count_def)
  then show ?thesis using slot_add [OF assms, of "get_index q" "dq_count q"] by (simp add: slot_def)
qed

text \<open>The queue after \<open>push_item\<close> and \<open>pop_item\<close>.\<close>

abbreviation pushed_queue :: "data_item \<Rightarrow> rt_data_queue \<Rightarrow> rt_data_queue" where
  "pushed_queue d q \<equiv> q\<lparr>items := (items q)[slot (put_index q) q := d], put_index := put_index q + 1\<rparr>"

abbreviation popped_queue :: "rt_data_queue \<Rightarrow> rt_data_queue" where
  "popped_queue q \<equiv> q\<lparr>get_index := get_index q + 1\<rparr>"

lemma count_pushed:
  assumes "dq_inv q"
  shows "dq_count (pushed_queue d q) = (dq_count q + 1) mod 65536"
proof -
  have "dq_count (pushed_queue d q) = unat (put_index q + 1 - get_index q)" by (simp add: dq_count_def)
  also have "\<dots> = unat ((put_index q - get_index q) + 1)" by (rule arg_cong [where f = unat]) simp
  finally show ?thesis unfolding dq_count_def unat_word_ariths(1) by simp
qed

lemma size_bound: "dq_inv q \<Longrightarrow> unat (dq_size q) \<le> 65535"
  using unsigned_less [of "dq_size q", where ?'a = nat] by simp

lemma push_contents:
  assumes "dq_inv q" "dq_count q < unat (dq_size q)"
  shows "dq_inv (pushed_queue d q)" "dq_contents (pushed_queue d q) = dq_contents q @ [d]"
proof -
  have c: "dq_count (pushed_queue d q) = dq_count q + 1" using count_pushed [OF assms(1), of d] assms(2) size_bound [OF assms(1)] by simp
  show "dq_inv (pushed_queue d q)" using assms c unfolding dq_inv_def by simp
  have "(items q)[slot (put_index q) q := d] ! ((unat (get_index q) + j) mod unat (dq_size q)) =
      (if j = dq_count q then d else items q ! ((unat (get_index q) + j) mod unat (dq_size q)))" if "j \<le> dq_count q" for j
  proof -
    have "(unat (get_index q) + dq_count q) mod unat (dq_size q) = (unat (get_index q) + j) mod unat (dq_size q) \<longleftrightarrow> j = dq_count q"
      using mod_add_inj [of "dq_count q" "unat (dq_size q)" j "unat (get_index q)"] that assms(2) by auto
    then show ?thesis using assms(1) put_slot [OF assms(1)] by (auto simp: nth_list_update dq_inv_def)
  qed
  then show "dq_contents (pushed_queue d q) = dq_contents q @ [d]"
    unfolding dq_contents_def c by simp
qed

lemma pop_contents:
  assumes "dq_inv q" "dq_contents q \<noteq> []"
  shows "dq_inv (popped_queue q)" "dq_contents q = items q ! slot (get_index q) q # dq_contents (popped_queue q)"
proof -
  have pos: "0 < dq_count q" using assms(2) length_contents [of q] by (metis length_greater_0_conv)
  have "dq_count (popped_queue q) = unat (put_index q - (get_index q + 1))" by (simp add: dq_count_def)
  also have "\<dots> = unat ((put_index q - get_index q) - 1)" by (rule arg_cong [where f = unat]) simp
  finally have "dq_count (popped_queue q) = unat ((put_index q - get_index q) - 1)" .
  moreover have "0 < put_index q - get_index q" using pos by (simp add: dq_count_def word_less_nat_alt)
  ultimately have c: "dq_count (popped_queue q) = dq_count q - 1"
    using unat_minus_one16 [of "put_index q - get_index q"] by (simp add: dq_count_def)
  show "dq_inv (popped_queue q)" using assms(1) c unfolding dq_inv_def by auto
  have "unat (get_index q + 1) mod unat (dq_size q) = (unat (get_index q) + 1) mod unat (dq_size q)"
    using slot_add [OF assms(1), of "get_index q" 1] by simp
  then have "(unat (get_index q + 1) + j) mod unat (dq_size q) = (unat (get_index q) + Suc j) mod unat (dq_size q)" for j
    by (metis add_Suc_shift mod_add_left_eq plus_1_eq_Suc add.commute)
  then show "dq_contents q = items q ! slot (get_index q) q # dq_contents (popped_queue q)"
    unfolding dq_contents_def c by (simp add: upt_0_Cons [OF pos] slot_def)
qed

subsection \<open>Many threads on one queue\<close>

text \<open>
  The ghost fields: the items pushed and popped so far, and the threads that a push has resumed and that have
  not run since. \<open>env\<close> stands for the rest of the kernel, which may take threads off the lists, with an error.
\<close>

record dq_sys =
  dqs :: "rt_data_queue \<times> kern"
  pushed :: "data_item list"
  popped :: "data_item list"
  woken :: "tid set"

definition after_push :: "nat \<Rightarrow> data_item \<Rightarrow> (rt_data_queue \<times> kern) \<times> dq_event list \<times> outcome \<Rightarrow> dq_sys \<Rightarrow> dq_sys" where
  "after_push i d = (\<lambda>(qk, evs, out) s.
     s\<lparr>dqs := qk, pushed := pushed s @ (if out = Ret RT_EOK then [d] else []),
       woken := woken s \<union> (if out = Ret RT_EOK then set (take 1 (queues (snd (dqs s)) (Wait i))) else {})\<rparr>)"

definition after_pop :: "tid \<Rightarrow> (rt_data_queue \<times> kern) \<times> data_item option \<times> dq_event list \<times> outcome \<Rightarrow> dq_sys \<Rightarrow> dq_sys" where
  "after_pop t = (\<lambda>(qk, d, evs, out) s.
     s\<lparr>dqs := qk, popped := popped s @ (case d of None \<Rightarrow> [] | Some d \<Rightarrow> [d]), woken := woken s - {t}\<rparr>)"

inductive dq_step :: "nat \<Rightarrow> dq_sys \<Rightarrow> dq_sys \<Rightarrow> bool" for i where
  push: "runs t (snd (dqs s)) \<Longrightarrow> t \<notin> woken s \<Longrightarrow> dq_step i s (after_push i d (rt_data_queue_push i t d timeout (dqs s)) s)"
| push_resume: "runs t (snd (dqs s)) \<Longrightarrow> t \<notin> woken s \<Longrightarrow> dq_step i s (after_push i d (rt_data_queue_push_resume i t d timeout (dqs s)) s)"
| pop: "runs t (snd (dqs s)) \<Longrightarrow> t \<notin> woken s \<Longrightarrow> dq_step i s (after_pop t (rt_data_queue_pop i t timeout (dqs s)) s)"
| pop_resume: "runs t (snd (dqs s)) \<Longrightarrow> dq_step i s (after_pop t (rt_data_queue_pop_resume i t timeout (dqs s)) s)"
| reset: "dq_step i s (s\<lparr>dqs := rt_data_queue_reset i (dqs s)\<rparr>)"
| env: "kinv k' \<Longrightarrow> set (queues k' (Wait i)) \<subseteq> set (queues (snd (dqs s)) (Wait i)) \<Longrightarrow>
    set (queues k' (WaitSend i)) \<subseteq> set (queues (snd (dqs s)) (WaitSend i)) \<Longrightarrow>
    \<forall>t \<in> set (queues k' (Wait i)) \<union> woken s. th_error (threads k' t) = th_error (threads (snd (dqs s)) t) \<Longrightarrow>
    dq_step i s (s\<lparr>dqs := (fst (dqs s), k')\<rparr>)"

inductive dq_reach :: "nat \<Rightarrow> dq_sys \<Rightarrow> dq_sys \<Rightarrow> bool" for i s0 where
  start: "dq_reach i s0 s0"
| step: "dq_reach i s0 s \<Longrightarrow> dq_step i s s' \<Longrightarrow> dq_reach i s0 s'"

text \<open>The part of the invariant that is about the waiting threads.\<close>

definition wake_ok :: "nat \<Rightarrow> nat \<Rightarrow> kern \<Rightarrow> tid set \<Rightarrow> bool" where
  "wake_ok i n k W \<longleftrightarrow> kinv k \<and> finite W \<and> W \<inter> set (queues k (Wait i)) = {} \<and> W \<inter> set (queues k (WaitSend i)) = {} \<and>
     (\<forall>t \<in> set (queues k (Wait i)) \<union> W. th_error (threads k t) = RT_EOK) \<and> (queues k (Wait i) \<noteq> [] \<longrightarrow> n \<le> card W)"

definition dq_ok :: "nat \<Rightarrow> u16 \<Rightarrow> dq_sys \<Rightarrow> bool" where
  "dq_ok i n s \<longleftrightarrow> (case dqs s of (q, k) \<Rightarrow>
     dq_inv q \<and> dq_size q = n \<and> put_index q = of_nat (length (pushed s)) \<and> get_index q = of_nat (length (popped s)) \<and>
     pushed s = popped s @ dq_contents q \<and> wake_ok i (dq_count q) k (woken s))"

lemma runs_unlinked: "kinv k \<Longrightarrow> runs t k \<Longrightarrow> t \<notin> set (queues k l)"
  using unlinked [of "{}" k t l] by simp

lemma wake_ok_wait:
  assumes "wake_ok i n k W" "runs t k" "t \<notin> W" "l = Wait i \<and> n = 0 \<or> l = WaitSend i"
  shows "wake_ok i n (ipc_wait l t RT_IPC_FLAG_FIFO time (set_error t RT_EOK k)) W"
proof -
  have k: "kinv k" "waiting l" using assms(1,4) by (auto simp: wake_ok_def)
  note w = wait_on [where l = l and time = time, OF k(1) assms(2) k(2)]
  have "t \<notin> set (queues k (Wait i))" "t \<notin> set (queues k (WaitSend i))" using runs_unlinked [OF k(1) assms(2)] by simp_all
  then show ?thesis using assms(1,3,4) w by (auto simp: wake_ok_def)
qed

lemma wake_ok_push:
  assumes "wake_ok i n k W" "queues k (Wait i) = t # ts"
  shows "wake_ok i (Suc n) (rt_schedule (rt_ipc_list_resume (Wait i) k)) (insert t W)"
proof -
  have k: "kinv k" "distinct (queues k (Wait i))" using assms(1) kinv_D(10) [of "{}" k "Wait i"] by (auto simp: wake_ok_def)
  note w = wake_first [OF k(1) waiting_simps(1) assms(2)]
  have "t \<notin> set (queues k (WaitSend i))"
    using k(1) assms(2) unfolding kinv_x_def links_ok_def by (metis list.set_intros(1) lid.distinct(7))
  then show ?thesis using assms k(2) w(1,2,4) w(3) [of "WaitSend i"] by (auto simp: wake_ok_def)
qed

lemma wake_ok_release:
  assumes "wake_ok i n k W" "queues k (WaitSend i) = t # ts"
  shows "wake_ok i n (rt_schedule (rt_ipc_list_resume (WaitSend i) k)) W"
proof -
  have k: "kinv k" using assms(1) by (simp add: wake_ok_def)
  note w = wake_first [OF k waiting_simps(2) assms(2)]
  show ?thesis using assms w(1,2,4) w(3) [of "Wait i"] by (auto simp: wake_ok_def)
qed

lemma wake_ok_pop: "wake_ok i (Suc n) k W \<Longrightarrow> wake_ok i n k (W - {t})"
  by (auto simp: wake_ok_def card_Diff_singleton_if)

lemma wake_ok_mono: "wake_ok i n k W \<Longrightarrow> m \<le> n \<Longrightarrow> wake_ok i m k W"
  by (auto simp: wake_ok_def)

lemma dq_ok_diff:
  assumes "dq_ok i n s" "dqs s = (q, k)" "length (pushed s) < 65536"
  shows "dq_diff q = int (dq_count q)"
proof -
  have p: "pushed s = popped s @ dq_contents q" "put_index q = of_nat (length (pushed s))" "get_index q = of_nat (length (popped s))"
    using assms(1,2) by (simp_all add: dq_ok_def)
  have "length (popped s) + dq_count q = length (pushed s)" using p(1) by simp
  then show ?thesis using assms(3) p(2,3) by (auto simp: dq_diff_def unat_of_nat)
qed

lemma dq_ok_push:
  assumes "dq_ok i n s" "dqs s = (q, k)" "runs t k" "t \<notin> woken s" "length (pushed s) < 65536"
  shows "dq_ok i n (after_push i d (push_pass i t d timeout (q, k)) s)"
proof (cases "dq_diff q = int (unat (dq_size q))")
  case True
  have "wake_ok i (dq_count q) k (woken s)" using assms(1,2) by (simp add: dq_ok_def)
  then show ?thesis using True assms wake_ok_wait [where l = "WaitSend i"]
    by (auto simp: push_pass_def after_push_def dq_ok_def)
next
  case False
  have ok: "dq_inv q" "wake_ok i (dq_count q) k (woken s)" using assms(1,2) by (simp_all add: dq_ok_def)
  have "dq_count q \<noteq> unat (dq_size q)" using False unfolding dq_ok_diff [OF assms(1,2,5)] by metis
  then have room: "dq_count q < unat (dq_size q)" using ok(1) by (simp add: dq_inv_def)
  note p = push_contents [OF ok(1) room, of d]
  have c: "dq_count (pushed_queue d q) = Suc (dq_count q)" using p(2) length_contents [of "pushed_queue d q"] by simp
  define k' where "k' = (if queues k (Wait i) \<noteq> [] then rt_schedule (rt_ipc_list_resume (Wait i) k) else k)"
  have "wake_ok i (Suc (dq_count q)) k' (woken s \<union> set (take 1 (queues k (Wait i))))"
    using ok(2) wake_ok_push [OF ok(2)] by (cases "queues k (Wait i)") (auto simp: k'_def wake_ok_def)
  moreover have "\<exists>evs. push_pass i t d timeout (q, k) = ((pushed_queue d q, k'), evs, Ret RT_EOK)"
    using False by (simp add: push_pass_def push_item_def Let_def k'_def)
  ultimately show ?thesis using assms(1,2) p c by (auto simp: dq_ok_def after_push_def)
qed

lemma dq_ok_pop:
  assumes "dq_ok i n s" "dqs s = (q, k)" "runs t k"
  shows "dq_ok i n (after_pop t (pop_pass i t timeout (q, k)) s)"
proof (cases "dq_contents q")
  case Nil
  then have e: "get_index q = put_index q" "dq_count q = 0" using empty_iff [of q] length_contents [of q] by simp_all
  have "wake_ok i 0 k (woken s - {t})" using assms(1,2) by (auto simp: dq_ok_def wake_ok_def)
  then show ?thesis using assms e wake_ok_wait [where l = "Wait i" and n = 0 and W = "woken s - {t}"]
    by (auto simp: pop_pass_def after_pop_def dq_ok_def)
next
  case (Cons d ds)
  have ok: "dq_inv q" "wake_ok i (dq_count q) k (woken s)" using assms(1,2) by (simp_all add: dq_ok_def)
  have ne: "get_index q \<noteq> put_index q" "dq_contents q \<noteq> []" using empty_iff [of q] Cons by simp_all
  note p = pop_contents [OF ok(1) ne(2)]
  have c: "dq_count q = Suc (dq_count (popped_queue q))" using p(2) length_contents [of q] length_contents [of "popped_queue q"] by (metis length_Cons)
  define k' where "k' = (if dq_diff (popped_queue q) \<le> int (unat (dq_lwm q)) \<and> queues k (WaitSend i) \<noteq> []
      then rt_schedule (rt_ipc_list_resume (WaitSend i) k) else k)"
  have "wake_ok i (dq_count (popped_queue q)) k (woken s - {t})" using wake_ok_pop ok(2) c by simp
  then have "wake_ok i (dq_count (popped_queue q)) k' (woken s - {t})"
    using wake_ok_release by (cases "queues k (WaitSend i)") (auto simp: k'_def)
  moreover have "\<exists>evs. pop_pass i t timeout (q, k) = ((popped_queue q, k'), Some (items q ! slot (get_index q) q), evs, Ret RT_EOK)"
    using ne(1) by (simp add: pop_pass_def pop_item_def Let_def k'_def)
  ultimately show ?thesis using assms(1,2) p by (auto simp: dq_ok_def after_pop_def)
qed

lemma reset_sel:
  fixes i :: nat
  assumes "kinv k"
  defines "k' \<equiv> rt_schedule (rt_exit_critical (rt_ipc_list_resume_all (WaitSend i) (rt_ipc_list_resume_all (Wait i) (rt_enter_critical k))))"
  shows "kinv k'" "queues k' (Wait i) = []" "queues k' (WaitSend i) = []"
    "u \<notin> set (queues k (Wait i)) \<Longrightarrow> u \<notin> set (queues k (WaitSend i)) \<Longrightarrow> th_error (threads k' u) = th_error (threads k u)"
proof -
  define k1 where "k1 = rt_ipc_list_resume_all (Wait i) (rt_enter_critical k)"
  define k2 where "k2 = rt_ipc_list_resume_all (WaitSend i) k1"
  have e: "queues (rt_enter_critical k) = queues k" "threads (rt_enter_critical k) = threads k" by (simp_all add: rt_enter_critical_def)
  have r1: "resumed_all (Wait i) (rt_enter_critical k) k1"
    unfolding k1_def using kinv_critical(1) [OF assms(1)] by (intro resume_all_post) simp_all
  then have r2: "resumed_all (WaitSend i) k1 k2" unfolding k2_def by (intro resume_all_post) (simp_all add: resumed_all_def)
  have k2: "kinv k2" "queues k2 (Wait i) = []" "queues k2 (WaitSend i) = []" using r1 r2 by (auto simp: resumed_all_def e)
  have x: "kinv (rt_exit_critical k2)" by (rule kinv_critical(2) [OF k2(1)])
  have y: "queues (rt_exit_critical k2) m = queues k2 m" "th_error (threads (rt_exit_critical k2) u) = th_error (threads k2 u)"
    if "waiting m" for m u
  proof -
    have kk: "kinv (k2\<lparr>lock_nest := lock_nest k2 - 1\<rparr>)" using k2(1) by (simp add: kinv_critical(1) kinv_x_def links_ok_def prio_ok_def run_ok_def timers_ok_def)
    show "queues (rt_exit_critical k2) m = queues k2 m" "th_error (threads (rt_exit_critical k2) u) = th_error (threads k2 u)"
      using rt_schedule_wait [OF kk, of m] rt_schedule_threads(3) [OF kk, of u] that by (auto simp: rt_exit_critical_def Let_def waiting_def)
  qed
  have k': "k' = rt_schedule (rt_exit_critical k2)" by (simp add: k'_def k2_def k1_def)
  show "kinv k'" unfolding k' by (rule kinv_rt_schedule [OF x])
  show "queues k' (Wait i) = []" "queues k' (WaitSend i) = []"
    using rt_schedule_wait [OF x, of "Wait i"] rt_schedule_wait [OF x, of "WaitSend i"] y(1) k2 by (simp_all add: k')
  show "th_error (threads k' u) = th_error (threads k u)" if "u \<notin> set (queues k (Wait i))" "u \<notin> set (queues k (WaitSend i))"
    using rt_schedule_threads(3) [OF x, of u] y(2) [of "Wait i" u] r1 r2 that by (simp add: k' resumed_all_def e)
qed

lemma dq_ok_step:
  assumes "dq_ok i n s" "dq_step i s s'" "length (pushed s) < 65536"
  shows "dq_ok i n s'"
proof -
  obtain q k where s: "dqs s = (q, k)" by fastforce
  have alive: "rt_assert (dq_alive q) k = k" using assms(1) by (simp add: dq_ok_def dq_inv_def rt_assert_def s)
  have w: "wake_ok i (dq_count q) k (woken s)" using assms(1) by (simp add: dq_ok_def s)
  have same: "dq_ok i n (after_push i d ((q, k), [], Ret e) s)" if "e \<noteq> RT_EOK" for d e
    using assms(1) that by (simp add: dq_ok_def after_push_def s)
  show ?thesis using assms(2)
  proof (cases rule: dq_step.cases)
    case (push t d timeout)
    then show ?thesis using dq_ok_push [OF assms(1) s _ _ assms(3), of t d timeout] by (simp add: s rt_data_queue_push_def alive)
  next
    case (push_resume t d timeout)
    then show ?thesis using dq_ok_push [OF assms(1) s _ _ assms(3), of t d timeout] same
      by (simp add: s rt_data_queue_push_resume_def)
  next
    case (pop t timeout)
    then show ?thesis using dq_ok_pop [OF assms(1) s, of t timeout] by (simp add: s rt_data_queue_pop_def alive)
  next
    case (pop_resume t timeout)
    have "t \<notin> woken s" if "th_error (threads k t) \<noteq> RT_EOK" using w that by (auto simp: wake_ok_def)
    then show ?thesis using pop_resume dq_ok_pop [OF assms(1) s, of t timeout] assms(1)
      by (auto simp: s rt_data_queue_pop_resume_def after_pop_def dq_ok_def)
  next
    case reset
    have "kinv k" using w by (simp add: wake_ok_def)
    note r = reset_sel [OF this, where i = i]
    have "\<forall>u \<in> woken s. u \<notin> set (queues k (Wait i)) \<and> u \<notin> set (queues k (WaitSend i)) \<and> th_error (threads k u) = RT_EOK"
      using w by (auto simp: wake_ok_def)
    then show ?thesis using reset assms(1) r w by (simp add: dq_ok_def rt_data_queue_reset_def s alive wake_ok_def)
  next
    case (env k')
    have "queues k' (Wait i) \<noteq> [] \<Longrightarrow> queues k (Wait i) \<noteq> []" using env(3) s by auto
    then show ?thesis using env assms(1) by (auto simp: dq_ok_def s wake_ok_def)
  qed
qed

lemma pushed_mono: "dq_step i s s' \<Longrightarrow> length (pushed s) \<le> length (pushed s')"
  by (induction rule: dq_step.induct) (auto simp: after_push_def after_pop_def split: prod.splits)

lemma dq_ok_reach: "dq_reach i s0 s \<Longrightarrow> dq_ok i n s0 \<Longrightarrow> length (pushed s) < 65536 \<Longrightarrow> dq_ok i n s"
proof (induction rule: dq_reach.induct)
  case (step s s')
  then show ?case using dq_ok_step pushed_mono [OF step.hyps(2)] by fastforce
qed

text \<open>
  C22. A data queue of a size that divides \<^verbatim>\<open>0x10000\<close>, from its creation until its sixteen-bit counter wraps, with any number of
  threads that push, pop, wait, time out and reset it in any order. What has been popped followed by what
  the queue holds is what has been pushed; it never holds more than its size. A pop returns the oldest item at once if there
  is one, a push succeeds at once if there is room and otherwise fails or waits. No wake-up
  is lost on the side of the consumers: if a thread sleeps although there are items, a thread has already been resumed for
  each of them.
\<close>

theorem data_queue_fifo:
  assumes "rt_data_queue_init i n lwm (Some m) k0 = Some (qk, RT_EOK)" "65536 mod unat n = 0" "length m = unat n" "kinv (snd qk)"
    "dq_reach i \<lparr>dqs = qk, pushed = [], popped = [], woken = {}\<rparr> s" "length (pushed s) < 65536" "dqs s = (q, k)"
  shows "pushed s = popped s @ dq_contents q \<and> length (dq_contents q) \<le> unat n \<and> kinv k \<and>
    (queues k (Wait i) \<noteq> [] \<longrightarrow> length (dq_contents q) \<le> card (woken s)) \<and>
    (\<forall>t timeout d ds. dq_contents q = d # ds \<longrightarrow>
      (\<exists>q' k' evs. rt_data_queue_pop i t timeout (q, k) = ((q', k'), Some d, evs, Ret RT_EOK) \<and> dq_contents q' = ds)) \<and>
    (\<forall>t timeout d. if length (dq_contents q) < unat n
      then \<exists>q' k' evs. rt_data_queue_push i t d timeout (q, k) = ((q', k'), evs, Ret RT_EOK) \<and> dq_contents q' = dq_contents q @ [d]
      else snd (snd (rt_data_queue_push i t d timeout (q, k))) = (if timeout = 0 then Ret RT_ETIMEOUT else Blocked))"
proof -
  have "n \<noteq> 0" and qk: "qk = (\<lparr>dq_alive = True, dq_size = n, dq_lwm = lwm, get_index = 0, put_index = 0, items = m\<rparr>,
      k0\<lparr>queues := (queues k0)(WaitSend i := [], Wait i := [])\<rparr>)"
    using assms(1,2) by (auto simp: rt_data_queue_init_def rt_assert_def Let_def split: if_splits)
  then have "dq_ok i n \<lparr>dqs = qk, pushed = [], popped = [], woken = {}\<rparr>"
    using assms(2-4) by (simp add: dq_ok_def dq_inv_def dq_contents_def dq_count_def wake_ok_def dvd_eq_mod_eq_0 unat_gt_0)
  then have ok: "dq_ok i n s" using dq_ok_reach [OF assms(5) _ assms(6)] by blast
  have inv: "dq_inv q" "dq_size q = n" using ok by (simp_all add: dq_ok_def assms(7))
  then have "rt_assert (dq_alive q) k = k" by (simp add: dq_inv_def rt_assert_def)
  note inv = inv this
  have "\<exists>q' k' evs. rt_data_queue_pop i t timeout (q, k) = ((q', k'), Some d, evs, Ret RT_EOK) \<and> dq_contents q' = ds"
    if "dq_contents q = d # ds" for t timeout d ds
    using pop_contents [OF inv(1)] empty_iff [of q] that by (simp add: rt_data_queue_pop_def inv(3) pop_pass_def pop_item_def Let_def)
  moreover have "\<exists>q' k' evs. rt_data_queue_push i t d timeout (q, k) = ((q', k'), evs, Ret RT_EOK) \<and> dq_contents q' = dq_contents q @ [d]"
    if "length (dq_contents q) < unat n" for t timeout d
  proof -
    have "dq_diff q \<noteq> int (unat (dq_size q))" using that unfolding dq_ok_diff [OF ok assms(7,6)] inv(2) length_contents by linarith
    then show ?thesis using push_contents [OF inv(1)] that by (simp add: rt_data_queue_push_def inv push_pass_def push_item_def Let_def)
  qed
  moreover have "snd (snd (rt_data_queue_push i t d timeout (q, k))) = (if timeout = 0 then Ret RT_ETIMEOUT else Blocked)"
    if "\<not> length (dq_contents q) < unat n" for t timeout d
  proof -
    have "dq_count q = unat n" using that inv by (simp add: dq_inv_def)
    then have "dq_diff q = int (unat (dq_size q))" unfolding dq_ok_diff [OF ok assms(7,6)] inv(2) by simp
    then show ?thesis by (simp add: rt_data_queue_push_def inv(3) push_pass_def)
  qed
  moreover have "pushed s = popped s @ dq_contents q" "kinv k" "queues k (Wait i) \<noteq> [] \<longrightarrow> dq_count q \<le> card (woken s)" "dq_count q \<le> unat n"
    using ok inv(2) by (auto simp: dq_ok_def assms(7) dq_inv_def wake_ok_def)
  ultimately show ?thesis by simp
qed

definition dq_demo0 :: dq_sys where
  "dq_demo0 = \<lparr>dqs = (\<lparr>dq_alive = True, dq_size = 4, dq_lwm = 0, get_index = 0, put_index = 0, items = replicate 4 (0, 0)\<rparr>, two_kern),
     pushed = [], popped = [], woken = {}\<rparr>"

definition dq_demo1 :: dq_sys where
  "dq_demo1 = after_push 7 (5, 6) (rt_data_queue_push 7 1 (5, 6) 0 (dqs dq_demo0)) dq_demo0"

lemma dq_demo_lists: "queues two_kern (Wait 7) = []" "queues two_kern (WaitSend 7) = []"
  by code_simp+

lemma dq_demo_init: "rt_data_queue_init 7 4 0 (Some (replicate 4 (0, 0))) two_kern = Some (dqs dq_demo0, RT_EOK)"
proof -
  have "(queues two_kern)(WaitSend 7 := [], Wait 7 := []) = queues two_kern" using dq_demo_lists by (auto simp: fun_eq_iff)
  then show ?thesis by (simp add: rt_data_queue_init_def dq_demo0_def rt_assert_def)
qed

theorem data_queue_fifo_witness:
  "pushed dq_demo1 = popped dq_demo1 @ dq_contents (fst (dqs dq_demo1)) \<and> dq_contents (fst (dqs dq_demo1)) = [(5, 6)]"
proof -
  have p: "pushed dq_demo1 = [(5, 6)]" "popped dq_demo1 = []" "fst (dqs dq_demo0) = \<lparr>dq_alive = True, dq_size = 4, dq_lwm = 0,
      get_index = 0, put_index = 0, items = replicate 4 (0, 0)\<rparr>"
    by (simp_all add: dq_demo1_def dq_demo0_def after_push_def rt_data_queue_push_def push_pass_def push_item_def dq_diff_def Let_def split: prod.splits)
  have "dq_step 7 dq_demo0 dq_demo1"
    unfolding dq_demo1_def using two_kern_runs by (intro dq_step.push) (simp_all add: dq_demo0_def)
  then have "dq_reach 7 \<lparr>dqs = dqs dq_demo0, pushed = [], popped = [], woken = {}\<rparr> dq_demo1"
    by (intro dq_reach.step [OF dq_reach.start]) (simp add: dq_demo0_def)
  from data_queue_fifo [OF dq_demo_init _ _ _ this _ surjective_pairing] kinv_two_kern p show ?thesis by (simp add: dq_demo0_def)
qed

subsection \<open>When the counter wraps\<close>

text \<open>One item in and out, and a list of items in, without waiting.\<close>

definition dq_cycle :: "nat \<Rightarrow> tid \<Rightarrow> data_item \<Rightarrow> rt_data_queue \<times> kern \<Rightarrow> rt_data_queue \<times> kern" where
  "dq_cycle i t d s = fst (rt_data_queue_pop i t 0 (fst (rt_data_queue_push i t d 0 s)))"

fun push_all :: "nat \<Rightarrow> tid \<Rightarrow> data_item list \<Rightarrow> rt_data_queue \<times> kern \<Rightarrow> (rt_data_queue \<times> kern) \<times> outcome list" where
  "push_all i t [] s = (s, [])"
| "push_all i t (d # ds) s =
     (case rt_data_queue_push i t d 0 s of (s, evs, out) \<Rightarrow> case push_all i t ds s of (s, outs) \<Rightarrow> (s, out # outs))"

text \<open>What stays as it is.\<close>

definition dq_frame :: "nat \<Rightarrow> u16 \<Rightarrow> rt_data_queue \<times> kern \<Rightarrow> bool" where
  "dq_frame i n = (\<lambda>(q, k). dq_alive q \<and> dq_size q = n \<and> length (items q) = unat n \<and> queues k (Wait i) = [] \<and> queues k (WaitSend i) = [])"

lemma push_now:
  assumes "dq_frame i n (q, k)" "dq_diff q \<noteq> int (unat n)"
  shows "rt_data_queue_push i t d 0 (q, k) = ((pushed_queue d q, k), [RT_DATAQUEUE_EVENT_PUSH], Ret RT_EOK)" "dq_frame i n (pushed_queue d q, k)"
  using assms by (simp_all add: dq_frame_def rt_data_queue_push_def rt_assert_def push_pass_def push_item_def Let_def)

lemma dq_cycle_eq:
  assumes "dq_frame i n (q, k)" "get_index q = put_index q" "n \<noteq> 0"
  shows "\<exists>q'. dq_cycle i t d (q, k) = (q', k) \<and> dq_frame i n (q', k) \<and> put_index q' = put_index q + 1 \<and> get_index q' = put_index q + 1"
proof -
  have "0 < unat n" "dq_diff q = 0" using assms(2,3) by (simp_all add: dq_diff_def unat_gt_0)
  then have "dq_diff q \<noteq> int (unat n)" by linarith
  note p = push_now [OF assms(1) this, where d = d]
  have "put_index q \<noteq> put_index q + 1" by simp
  then show ?thesis using assms p by (auto simp: dq_cycle_def dq_frame_def rt_data_queue_pop_def rt_assert_def pop_pass_def pop_item_def Let_def)
qed

lemma dq_cycles:
  assumes "dq_frame i n (q, k)" "get_index q = 0" "put_index q = 0" "n \<noteq> 0"
  shows "\<exists>q'. (dq_cycle i t d ^^ c) (q, k) = (q', k) \<and> dq_frame i n (q', k) \<and> put_index q' = of_nat c \<and> get_index q' = of_nat c"
proof (induction c)
  case 0
  then show ?case using assms by simp
next
  case (Suc c)
  then obtain q1 where q1: "(dq_cycle i t d ^^ c) (q, k) = (q1, k)" "dq_frame i n (q1, k)" "put_index q1 = of_nat c" "get_index q1 = of_nat c"
    by blast
  then show ?case using dq_cycle_eq [OF q1(2) _ assms(4), of t d] by (auto simp: add.commute)
qed

lemma push_all_ok:
  assumes "dq_frame i n (q, k)" "put_index q = get_index q + of_nat j" "j + length ds \<le> Suc (unat n)" "unat (get_index q) + unat n \<ge> 65536"
  shows "\<exists>q'. push_all i t ds (q, k) = ((q', k), replicate (length ds) (Ret RT_EOK)) \<and> dq_frame i n (q', k) \<and>
    get_index q' = get_index q \<and> put_index q' = get_index q + of_nat (j + length ds) \<and>
    (ds \<noteq> [] \<longrightarrow> items q' ! slot (put_index q' - 1) q' = last ds)"
  using assms
proof (induction ds arbitrary: q j)
  case (Cons d ds)
  have "unat (put_index q) = (unat (get_index q) + j) mod 65536"
    using Cons.prems(2) by (simp add: unat_word_ariths unat_of_nat mod_simps)
  moreover have "unat (get_index q) < 65536" "unat n < 65536" "j \<le> unat n" using unsigned_less [of "get_index q", where ?'a = nat]
      unsigned_less [of n, where ?'a = nat] Cons.prems(3) by simp_all
  moreover from this have "(unat (get_index q) + j) mod 65536 = (if unat (get_index q) + j < 65536 then unat (get_index q) + j else unat (get_index q) + j - 65536)"
    by (auto simp: le_mod_geq)
  ultimately have diff: "dq_diff q \<noteq> int (unat n)" using Cons.prems(4) unfolding dq_diff_def
    by (cases "unat (get_index q) + j < 65536") linarith+
  note p = push_now [OF Cons.prems(1) diff, where d = d]
  obtain q' where q': "push_all i t ds (pushed_queue d q, k) = ((q', k), replicate (length ds) (Ret RT_EOK))" "dq_frame i n (q', k)"
      "get_index q' = get_index q" "put_index q' = get_index q + of_nat (Suc j + length ds)"
      "ds \<noteq> [] \<longrightarrow> items q' ! slot (put_index q' - 1) q' = last ds"
    using Cons.IH [OF p(2), of "Suc j"] Cons.prems by (auto simp: add_ac)
  have n: "0 < unat n" using Cons.prems(4) unsigned_less [of "get_index q", where ?'a = nat] by simp
  have "items q' ! slot (put_index q' - 1) q' = last (d # ds)"
  proof (cases ds)
    case Nil
    then have e: "q' = pushed_queue d q" using q'(1) by simp
    have "put_index q' - 1 = put_index q" by (simp add: e)
    moreover have "slot (put_index q) q < length (items q)" using Cons.prems(1) n by (simp add: slot_def dq_frame_def)
    ultimately show ?thesis using Nil by (simp add: e slot_def)
  qed (use q'(5) in simp)
  then show ?case using p(1) q' by simp
qed simp

text \<open>
  C23. The overrun. The difference of the two indices is taken in \<^verbatim>\<open>int\<close> and does not wrap with them, so that the test for a full queue
  fails to hold once the put index has wrapped and the get index has not. After \<open>c\<close> items have gone in and
  out one by one, with \<open>c\<close> at most the size short of \<^verbatim>\<open>0x10000\<close>, the queue accepts one item more than it has room for, without any error;
  the oldest item is overwritten, and the next pop returns the newest in its place.
\<close>

theorem data_queue_overrun:
  assumes "rt_data_queue_init i n lwm (Some m) k0 = Some ((q, k), RT_EOK)" "65536 mod unat n = 0" "length m = unat n"
    "65536 - unat n \<le> c" "c < 65536" "length ds = Suc (unat n)"
  shows "\<exists>q' k' evs s. push_all i t ds ((dq_cycle i t d ^^ c) (q, k)) = ((q', k'), replicate (Suc (unat n)) (Ret RT_EOK)) \<and>
    dq_count q' = Suc (unat n) \<and> rt_data_queue_pop i t 0 (q', k') = (s, Some (last ds), evs, Ret RT_EOK)"
proof -
  have n0: "n \<noteq> 0" and q: "dq_frame i n (q, k)" "get_index q = 0" "put_index q = 0"
    using assms(1,3) by (auto simp: rt_data_queue_init_def rt_assert_def Let_def dq_frame_def split: if_splits)
  have n1: "Suc (unat n) < 65536"
  proof -
    have "unat n dvd 65536" using assms(2) by presburger
    moreover have "unat n < 65536" using unsigned_less [of n, where ?'a = nat] by simp
    moreover have "\<not> 65535 dvd (65536 :: nat)" by simp
    ultimately show ?thesis by (cases "unat n = 65535") auto
  qed
  obtain q1 where q1: "(dq_cycle i t d ^^ c) (q, k) = (q1, k)" "dq_frame i n (q1, k)" "put_index q1 = of_nat c" "get_index q1 = of_nat c"
    using dq_cycles [OF q n0] by blast
  have big: "65536 \<le> c + unat n" using assms(4) by linarith
  have g: "unat (get_index q1) = c" using assms(5) q1(4) by (simp add: unat_of_nat)
  obtain q' where q': "push_all i t ds (q1, k) = ((q', k), replicate (length ds) (Ret RT_EOK))" "dq_frame i n (q', k)"
      "get_index q' = get_index q1" "put_index q' = get_index q1 + of_nat (length ds)" "items q' ! slot (put_index q' - 1) q' = last ds"
    using push_all_ok [OF q1(2), of 0 ds t] big assms(6) q1(3,4) g by auto
  have cnt: "dq_count q' = Suc (unat n)" using q'(3,4) assms(6) n1 by (simp add: dq_count_def unat_word_ariths)
  have "put_index q' - 1 = get_index q' + of_nat (unat n)" using q'(3,4) assms(6) by simp
  then have "unat (put_index q' - 1) = (unat (get_index q') + unat n) mod 65536" by (simp add: unat_word_ariths)
  moreover have "unat n dvd 65536" using assms(2) by presburger
  ultimately have "slot (put_index q' - 1) q' = slot (get_index q') q'" using q'(2) by (simp add: slot_def dq_frame_def mod_mod_cancel)
  then have it: "items q' ! slot (get_index q') q' = last ds" using q'(5) by simp
  have "get_index q' \<noteq> put_index q'" using cnt by (auto simp: dq_count_def)
  then have "\<exists>evs s. rt_data_queue_pop i t 0 (q', k) = (s, Some (last ds), evs, Ret RT_EOK)"
    using it q'(2) by (simp add: rt_data_queue_pop_def rt_assert_def dq_frame_def pop_pass_def pop_item_def Let_def)
  then show ?thesis using q1(1) q'(1) cnt assms(6) by auto
qed

theorem data_queue_overrun_witness:
  "\<exists>q' k' evs s. push_all 7 1 [(1, 1), (2, 1), (3, 1), (4, 1), (5, 1)] ((dq_cycle 7 1 (0, 0) ^^ 65534) (dqs dq_demo0)) =
     ((q', k'), replicate 5 (Ret RT_EOK)) \<and> rt_data_queue_pop 7 1 0 (q', k') = (s, Some (5, 1), evs, Ret RT_EOK)"
proof -
  have "rt_data_queue_init 7 4 0 (Some (replicate 4 (0, 0))) two_kern = Some ((fst (dqs dq_demo0), snd (dqs dq_demo0)), RT_EOK)"
    using dq_demo_init by simp
  from data_queue_overrun [OF this _ _ _ _, of 65534 "[(1, 1), (2, 1), (3, 1), (4, 1), (5, 1)]" 1 "(0, 0)"]
  have "\<exists>q' k' evs s. push_all 7 1 [(1, 1), (2, 1), (3, 1), (4, 1), (5, 1)] ((dq_cycle 7 1 (0, 0) ^^ 65534) (dqs dq_demo0)) =
      ((q', k'), replicate (Suc (unat (4 :: u16))) (Ret RT_EOK)) \<and> dq_count q' = Suc (unat (4 :: u16)) \<and>
      rt_data_queue_pop 7 1 0 (q', k') = (s, Some (last [(1, 1), (2, 1), (3, 1), (4, 1), (5, 1)]), evs, Ret RT_EOK)"
    unfolding surjective_pairing [symmetric] by simp
  then show ?thesis by (simp del: replicate_Suc push_all.simps funpow.simps) blast
qed

end
