(* ===== verification/Rt_Device.thy ===== *)
theory Rt_Device
  imports Rt_Object Rt_Serial Rt_Completion Ls1c_Uart
begin

unbundle bit_operations_syntax

section \<open>Devices (\<^verbatim>\<open>rt-thread/src/device.c\<close>) and the life of a serial device (\<^verbatim>\<open>serial.c\<close>)\<close>

text \<open>
  Every driver is used through a device: \<^verbatim>\<open>rt_device_open\<close> activates it and counts its users, the last
  \<^verbatim>\<open>rt_device_close\<close> gives it back to the driver. The driver's functions are arguments; they act on the device, which for a
  driver is a record with more fields, and on what is around it (heap, kernel, bus). \<open>None\<close> is a failed assertion. The
  locale \<open>device_driver\<close> says what the device layer relies on; serial devices interpret it.
\<close>

subsection \<open>The device layer\<close>

abbreviation RT_DEVICE_FLAG_STANDALONE :: u16 where "RT_DEVICE_FLAG_STANDALONE \<equiv> 0x008"
abbreviation RT_DEVICE_FLAG_ACTIVATED :: u16 where "RT_DEVICE_FLAG_ACTIVATED \<equiv> 0x010"
abbreviation RT_DEVICE_FLAG_STREAM :: u16 where "RT_DEVICE_FLAG_STREAM \<equiv> 0x040"
abbreviation RT_DEVICE_FLAG_INT_RX :: u16 where "RT_DEVICE_FLAG_INT_RX \<equiv> 0x100"
abbreviation RT_DEVICE_FLAG_DMA_RX :: u16 where "RT_DEVICE_FLAG_DMA_RX \<equiv> 0x200"
abbreviation RT_DEVICE_FLAG_INT_TX :: u16 where "RT_DEVICE_FLAG_INT_TX \<equiv> 0x400"
abbreviation RT_DEVICE_FLAG_DMA_TX :: u16 where "RT_DEVICE_FLAG_DMA_TX \<equiv> 0x800"
abbreviation RT_DEVICE_OFLAG_OPEN :: u16 where "RT_DEVICE_OFLAG_OPEN \<equiv> 0x008"
abbreviation RT_DEVICE_OFLAG_MASK :: u16 where "RT_DEVICE_OFLAG_MASK \<equiv> 0xf0f"

abbreviation has :: "u16 \<Rightarrow> u16 \<Rightarrow> bool" where
  "has f b \<equiv> f AND b \<noteq> 0"

record rt_device =
  dflag :: u16
  open_flag :: u16
  ref_count :: u8
  rx_indicate :: "nat option"
  tx_complete :: "nat option"

text \<open>The result of a driver function: the state behind it and its code.\<close>

type_synonym ('a, 'e) dev_st = "'a rt_device_scheme \<times> 'e"
type_synonym ('a, 'e) handler = "('a, 'e) dev_st \<Rightarrow> (('a, 'e) dev_st \<times> rt_err) option"

definition rt_device_init :: "('a, 'e) handler option \<Rightarrow> ('a, 'e) handler" where
  "rt_device_init init = (\<lambda>(dev, e).
     case init of
       None \<Rightarrow> Some ((dev, e), RT_EOK)
     | Some f \<Rightarrow>
         if has (dflag dev) RT_DEVICE_FLAG_ACTIVATED then Some ((dev, e), RT_EOK)
         else do { ((dev, e), result) \<leftarrow> f (dev, e);
                   if result \<noteq> RT_EOK then Some ((dev, e), result)
                   else Some ((dev\<lparr>dflag := dflag dev OR RT_DEVICE_FLAG_ACTIVATED\<rparr>, e), RT_EOK) })"

text \<open>The first part of \<open>rt_device_open\<close>.\<close>

definition activate :: "('a, 'e) handler option \<Rightarrow> ('a, 'e) handler" where
  "activate init = (\<lambda>(dev, e).
     if has (dflag dev) RT_DEVICE_FLAG_ACTIVATED then Some ((dev, e), RT_EOK)
     else do { ((dev, e), result) \<leftarrow> (case init of None \<Rightarrow> Some ((dev, e), RT_EOK) | Some f \<Rightarrow> f (dev, e));
               if result \<noteq> RT_EOK then Some ((dev, e), result)
               else Some ((dev\<lparr>dflag := dflag dev OR RT_DEVICE_FLAG_ACTIVATED\<rparr>, e), RT_EOK) })"

definition rt_device_open ::
  "('a, 'e) handler option \<Rightarrow> (u16 \<Rightarrow> ('a, 'e) handler) option \<Rightarrow> u16 \<Rightarrow> ('a, 'e) handler" where
  "rt_device_open init opn oflag s =
     do { ((dev, e), result) \<leftarrow> activate init s;
          if result \<noteq> RT_EOK then Some ((dev, e), result)
          else if has (dflag dev) RT_DEVICE_FLAG_STANDALONE \<and> has (open_flag dev) RT_DEVICE_OFLAG_OPEN then Some ((dev, e), RT_EBUSY)
          else do { ((dev, e), result) \<leftarrow>
                      (case opn of
                         Some f \<Rightarrow> f oflag (dev, e)
                       | None \<Rightarrow> Some ((dev\<lparr>open_flag := oflag AND RT_DEVICE_OFLAG_MASK\<rparr>, e), RT_EOK));
                    if result = RT_EOK \<or> result = RT_ENOSYS
                    then let dev = dev\<lparr>open_flag := open_flag dev OR RT_DEVICE_OFLAG_OPEN, ref_count := ref_count dev + 1\<rparr>
                         in if ref_count dev = 0 then None else Some ((dev, e), result)
                    else Some ((dev, e), result) } }"

definition rt_device_close :: "('a, 'e) handler option \<Rightarrow> ('a, 'e) handler" where
  "rt_device_close cls = (\<lambda>(dev, e).
     if ref_count dev = 0 then Some ((dev, e), RT_ERROR)
     else let dev = dev\<lparr>ref_count := ref_count dev - 1\<rparr>
          in if ref_count dev \<noteq> 0 then Some ((dev, e), RT_EOK)
             else do { ((dev, e), result) \<leftarrow> (case cls of None \<Rightarrow> Some ((dev, e), RT_EOK) | Some f \<Rightarrow> f (dev, e));
                       if result = RT_EOK \<or> result = RT_ENOSYS then Some ((dev\<lparr>open_flag := 0\<rparr>, e), result)
                       else Some ((dev, e), result) })"

text \<open>\<open>rt_device_read\<close> with a read function that delivers characters; the third result is what \<^verbatim>\<open>rt_set_errno\<close> is called with.\<close>

definition rt_device_read ::
  "(nat \<Rightarrow> ('a, 'e) dev_st \<Rightarrow> (('a, 'e) dev_st \<times> string) option) option \<Rightarrow> nat \<Rightarrow> ('a, 'e) dev_st \<Rightarrow>
   (('a, 'e) dev_st \<times> string \<times> rt_err option) option" where
  "rt_device_read rd n s =
     (if ref_count (fst s) = 0 then Some (s, [], Some RT_ERROR)
      else case rd of None \<Rightarrow> Some (s, [], Some RT_ENOSYS) | Some f \<Rightarrow> do { (s, str) \<leftarrow> f n s; Some (s, str, None) })"

definition rt_device_control :: "(int \<Rightarrow> ('a, 'e) handler) option \<Rightarrow> int \<Rightarrow> ('a, 'e) handler" where
  "rt_device_control ctl cmd s = (case ctl of None \<Rightarrow> Some (s, RT_ENOSYS) | Some f \<Rightarrow> f cmd s)"

definition rt_device_set_rx_indicate :: "nat option \<Rightarrow> 'a rt_device_scheme \<Rightarrow> 'a rt_device_scheme" where
  "rt_device_set_rx_indicate rx_ind dev = dev\<lparr>rx_indicate := rx_ind\<rparr>"

definition rt_device_set_tx_complete :: "nat option \<Rightarrow> 'a rt_device_scheme \<Rightarrow> 'a rt_device_scheme" where
  "rt_device_set_tx_complete tx_done dev = dev\<lparr>tx_complete := tx_done\<rparr>"

text \<open>Registration; \<open>p\<close> is the address of the device, \<open>dsize\<close> the size of its structure.\<close>

abbreviation RT_Object_Class_Device :: u8 where "RT_Object_Class_Device \<equiv> 9"

definition rt_device_find :: "string \<Rightarrow> ksys \<Rightarrow> nat option" where
  "rt_device_find name s = find (\<lambda>p. oname s p = clip_name name) (container s RT_Object_Class_Device)"

definition rt_device_register ::
  "nat \<Rightarrow> string \<Rightarrow> u16 \<Rightarrow> 'a rt_device_scheme \<times> ksys \<Rightarrow> (('a rt_device_scheme \<times> ksys) \<times> rt_err) option" where
  "rt_device_register p name flags = (\<lambda>(dev, s).
     if p = 0 then Some ((dev, s), RT_ERROR)
     else if rt_device_find name s \<noteq> None then Some ((dev, s), RT_ERROR)
     else do { s \<leftarrow> rt_object_init p RT_Object_Class_Device name s;
               Some ((dev\<lparr>dflag := flags, ref_count := 0, open_flag := 0\<rparr>, s), RT_EOK) })"

definition rt_device_unregister :: "nat \<Rightarrow> ksys \<Rightarrow> ksys option" where
  "rt_device_unregister p s =
     (if p = 0 \<or> rt_object_get_type p s \<noteq> RT_Object_Class_Device \<or> \<not> rt_object_is_systemobject p s then None
      else rt_object_detach p s)"

definition rt_device_create :: "nat \<Rightarrow> nat \<Rightarrow> ksys \<Rightarrow> (ksys \<times> nat) option" where
  "rt_device_create dsize attach_size s =
     do { (h, p) \<leftarrow> rt_malloc (RT_ALIGN8 dsize + RT_ALIGN8 attach_size) (sys_heap s);
          if p = 0 then Some (s\<lparr>sys_heap := h\<rparr>, 0)
          else Some (s\<lparr>sys_heap := h\<lparr>bytes := rt_memset p 0 dsize (bytes h)\<rparr>, otype := (otype s)(p := 0), oname := (oname s)(p := [])\<rparr>, p) }"

definition rt_device_destroy :: "nat \<Rightarrow> ksys \<Rightarrow> ksys option" where
  "rt_device_destroy p s =
     (if p = 0 \<or> rt_object_get_type p s \<noteq> RT_Object_Class_Device \<or> rt_object_is_systemobject p s then None
      else do { s \<leftarrow> rt_object_detach p s; h \<leftarrow> rt_free p (sys_heap s); Some (s\<lparr>sys_heap := h\<rparr>) })"

subsection \<open>Serial devices\<close>

text \<open>
  The fields of a serial device: its port, the configuration, the addresses of the two buffers (0 without one), the
  receive ring at the first of them, and whether its interrupt is unmasked.
\<close>

record rt_serial_device = rt_device +
  uart :: ls1c_uart_t
  baud_rate :: u32
  cfg_bufsz :: nat
  serial_rx :: nat
  serial_tx :: nat
  ring :: rt_serial
  irq_on :: bool

record serial_env =
  sk :: ksys
  ubus :: bus

type_synonym serial_st = "rt_serial_device \<times> serial_env"

abbreviation RT_DEVICE_CTRL_CONFIG :: int where "RT_DEVICE_CTRL_CONFIG \<equiv> 0x03"
abbreviation RT_DEVICE_CTRL_CLOSE :: int where "RT_DEVICE_CTRL_CLOSE \<equiv> 0x04"
abbreviation RT_DEVICE_CTRL_SET_INT :: int where "RT_DEVICE_CTRL_SET_INT \<equiv> 0x10"
abbreviation RT_DEVICE_CTRL_CLR_INT :: int where "RT_DEVICE_CTRL_CLR_INT \<equiv> 0x11"

text \<open>The driver of the port ignores the argument that tells which interrupt is meant.\<close>

definition ls1c_uart_control :: "int \<Rightarrow> rt_serial_device \<Rightarrow> rt_serial_device" where
  "ls1c_uart_control cmd d =
     (if cmd = RT_DEVICE_CTRL_CLR_INT then d\<lparr>irq_on := False\<rparr>
      else if cmd = RT_DEVICE_CTRL_SET_INT then d\<lparr>irq_on := True\<rparr>
      else d)"

definition rt_serial_init :: "serial_st \<Rightarrow> (serial_st \<times> rt_err) option" where
  "rt_serial_init = (\<lambda>(d, e).
     let d = d\<lparr>serial_rx := 0, serial_tx := 0\<rparr>
     in do { b \<leftarrow> ls1c_uart_configure (uart d) (baud_rate d) (ubus e);
             Some ((d, e\<lparr>ubus := b\<rparr>), RT_EOK) })"

text \<open>Sizes on a 32-bit machine: \<^verbatim>\<open>struct rt_serial_rx_fifo\<close> has 12 bytes, \<^verbatim>\<open>rt_serial_rx_dma\<close> 4, \<^verbatim>\<open>rt_serial_tx_fifo\<close> 12.\<close>

definition new_rx_fifo :: "serial_st \<Rightarrow> serial_st option" where
  "new_rx_fifo = (\<lambda>(d, e).
     do { (h, p) \<leftarrow> rt_malloc (12 + cfg_bufsz d) (sys_heap (sk e));
          if p = 0 then None
          else Some (d\<lparr>serial_rx := p, ring := \<lparr>fifo = replicate (cfg_bufsz d) (CHR 0x00), put_index = 0, get_index = 0, is_full = False,
                         bufsz = cfg_bufsz d, indicated = []\<rparr>\<rparr>,
                     e\<lparr>sk := sk e\<lparr>sys_heap := h\<lparr>bytes := rt_memset (p + 12) 0 (cfg_bufsz d) (bytes h)\<rparr>\<rparr>\<rparr>) })"

definition serial_open_rx :: "u16 \<Rightarrow> serial_st \<Rightarrow> serial_st option" where
  "serial_open_rx oflag = (\<lambda>(d, e).
     if serial_rx d = 0
     then if has oflag RT_DEVICE_FLAG_INT_RX
          then do { (d, e) \<leftarrow> new_rx_fifo (d, e);
                    let d = d\<lparr>open_flag := open_flag d OR RT_DEVICE_FLAG_INT_RX\<rparr>
                    in Some (ls1c_uart_control RT_DEVICE_CTRL_SET_INT d, e) }
          else if has oflag RT_DEVICE_FLAG_DMA_RX
          then do { (d, e) \<leftarrow>
                      (if cfg_bufsz d = 0
                       then do { (h, p) \<leftarrow> rt_malloc 4 (sys_heap (sk e));
                                 if p = 0 then None else Some (d\<lparr>serial_rx := p\<rparr>, e\<lparr>sk := sk e\<lparr>sys_heap := h\<rparr>\<rparr>) }
                       else do { (d, e) \<leftarrow> new_rx_fifo (d, e); Some (ls1c_uart_control RT_DEVICE_CTRL_CONFIG d, e) });
                    Some (d\<lparr>open_flag := open_flag d OR RT_DEVICE_FLAG_DMA_RX\<rparr>, e) }
          else Some (d, e)
     else if has oflag RT_DEVICE_FLAG_INT_RX then Some (d\<lparr>open_flag := open_flag d OR RT_DEVICE_FLAG_INT_RX\<rparr>, e)
     else if has oflag RT_DEVICE_FLAG_DMA_RX then Some (d\<lparr>open_flag := open_flag d OR RT_DEVICE_FLAG_DMA_RX\<rparr>, e)
     else Some (d, e))"

text \<open>
  Opening for transmission by DMA is left out, \<open>None\<close> stands for it: a port that is registered without it, as all
  ports of this program are, refuses it before.
\<close>

definition serial_open_tx :: "u16 \<Rightarrow> serial_st \<Rightarrow> serial_st option" where
  "serial_open_tx oflag = (\<lambda>(d, e).
     if serial_tx d = 0
     then if has oflag RT_DEVICE_FLAG_INT_TX
          then do { (h, p) \<leftarrow> rt_malloc 12 (sys_heap (sk e));
                    if p = 0 then None
                    else let d = d\<lparr>serial_tx := p, open_flag := open_flag d OR RT_DEVICE_FLAG_INT_TX\<rparr>
                         in Some (ls1c_uart_control RT_DEVICE_CTRL_SET_INT d,
                                  e\<lparr>sk := sk e\<lparr>sys_heap := h, sys_kern := snd (rt_completion_init p (sys_kern (sk e)))\<rparr>\<rparr>) }
          else if has oflag RT_DEVICE_FLAG_DMA_TX then None
          else Some (d, e)
     else if has oflag RT_DEVICE_FLAG_INT_TX then Some (d\<lparr>open_flag := open_flag d OR RT_DEVICE_FLAG_INT_TX\<rparr>, e)
     else if has oflag RT_DEVICE_FLAG_DMA_TX then None
     else Some (d, e))"

definition rt_serial_open :: "u16 \<Rightarrow> serial_st \<Rightarrow> (serial_st \<times> rt_err) option" where
  "rt_serial_open oflag = (\<lambda>(d, e).
     if has oflag RT_DEVICE_FLAG_DMA_RX \<and> \<not> has (dflag d) RT_DEVICE_FLAG_DMA_RX \<or>
        has oflag RT_DEVICE_FLAG_DMA_TX \<and> \<not> has (dflag d) RT_DEVICE_FLAG_DMA_TX \<or>
        has oflag RT_DEVICE_FLAG_INT_RX \<and> \<not> has (dflag d) RT_DEVICE_FLAG_INT_RX \<or>
        has oflag RT_DEVICE_FLAG_INT_TX \<and> \<not> has (dflag d) RT_DEVICE_FLAG_INT_TX
     then Some ((d, e), RT_EIO)
     else let stream_flag = (if has oflag RT_DEVICE_FLAG_STREAM \<or> has (open_flag d) RT_DEVICE_FLAG_STREAM then RT_DEVICE_FLAG_STREAM else 0);
              d = d\<lparr>open_flag := oflag AND 0xff\<rparr>
          in do { (d, e) \<leftarrow> serial_open_rx oflag (d, e);
                  (d, e) \<leftarrow> serial_open_tx oflag (d, e);
                  Some ((d\<lparr>open_flag := open_flag d OR stream_flag\<rparr>, e), RT_EOK) })"

definition free_rx :: "u16 \<Rightarrow> serial_st \<Rightarrow> serial_st option" where
  "free_rx f = (\<lambda>(d, e).
     if serial_rx d = 0 then None
     else do { h \<leftarrow> rt_free (serial_rx d) (sys_heap (sk e));
               let d = d\<lparr>serial_rx := 0, open_flag := open_flag d AND NOT f\<rparr>
               in Some (ls1c_uart_control RT_DEVICE_CTRL_CLR_INT d, e\<lparr>sk := sk e\<lparr>sys_heap := h\<rparr>\<rparr>) })"

definition free_tx :: "serial_st \<Rightarrow> serial_st option" where
  "free_tx = (\<lambda>(d, e).
     if serial_tx d = 0 then None
     else do { h \<leftarrow> rt_free (serial_tx d) (sys_heap (sk e));
               let d = d\<lparr>serial_tx := 0, open_flag := open_flag d AND NOT RT_DEVICE_FLAG_INT_TX\<rparr>
               in Some (ls1c_uart_control RT_DEVICE_CTRL_CLR_INT d, e\<lparr>sk := sk e\<lparr>sys_heap := h\<rparr>\<rparr>) })"

definition rt_serial_close :: "serial_st \<Rightarrow> (serial_st \<times> rt_err) option" where
  "rt_serial_close = (\<lambda>(d, e).
     if ref_count d > 1 then Some ((d, e), RT_EOK)
     else do { (d, e) \<leftarrow> (if has (open_flag d) RT_DEVICE_FLAG_INT_RX then free_rx RT_DEVICE_FLAG_INT_RX (d, e)
                         else if has (open_flag d) RT_DEVICE_FLAG_DMA_RX then free_rx RT_DEVICE_FLAG_DMA_RX (d, e)
                         else Some (d, e));
               (d, e) \<leftarrow> (if has (open_flag d) RT_DEVICE_FLAG_INT_TX then free_tx (d, e)
                         else if has (open_flag d) RT_DEVICE_FLAG_DMA_TX then None
                         else Some (d, e));
               let d = ls1c_uart_control RT_DEVICE_CTRL_CLOSE d
               in Some ((d\<lparr>dflag := dflag d AND NOT RT_DEVICE_FLAG_ACTIVATED\<rparr>, e), RT_EOK) })"

text \<open>Reading a device that is open for reception by interrupt; the other two ways are left out.\<close>

definition serial_read :: "nat \<Rightarrow> serial_st \<Rightarrow> (serial_st \<times> string) option" where
  "serial_read n = (\<lambda>(d, e).
     if n = 0 then Some ((d, e), [])
     else if has (open_flag d) RT_DEVICE_FLAG_INT_RX
     then case serial_int_rx n (ring d) of (str, r) \<Rightarrow> Some ((d\<lparr>ring := r\<rparr>, e), str)
     else None)"

definition rt_hw_serial_register :: "nat \<Rightarrow> string \<Rightarrow> u16 \<Rightarrow> serial_st \<Rightarrow> (serial_st \<times> rt_err) option" where
  "rt_hw_serial_register p name flag = (\<lambda>(d, e).
     do { ((d, s), ret) \<leftarrow> rt_device_register p name flag (d\<lparr>rx_indicate := None, tx_complete := None\<rparr>, sk e);
          Some ((d, e\<lparr>sk := s\<rparr>), ret) })"

subsection \<open>The contract between the device layer and a driver\<close>

text \<open>
  \<open>P0\<close> describes a device nobody uses, \<open>P1\<close> one that is in use; \<open>fit\<close> tells the flags with which it may be opened. The
  device layer relies on this: initialisation and opening succeed or do not return, closing succeeds and
  leads back to \<open>P0\<close>, and neither predicate looks at what the device layer keeps for itself.
\<close>

datatype dev_op = DevOpen u16 | DevClose

fun dev_run :: "('a, 'e) handler \<Rightarrow> (u16 \<Rightarrow> ('a, 'e) handler) \<Rightarrow> ('a, 'e) handler \<Rightarrow> dev_op list \<Rightarrow> ('a, 'e) dev_st \<Rightarrow>
    (('a, 'e) dev_st \<times> rt_err list) option" where
  "dev_run init opn cls [] s = Some (s, [])"
| "dev_run init opn cls (DevOpen oflag # ops) s =
     do { (s, r) \<leftarrow> rt_device_open (Some init) (Some opn) oflag s; (s, rs) \<leftarrow> dev_run init opn cls ops s; Some (s, r # rs) }"
| "dev_run init opn cls (DevClose # ops) s =
     do { (s, r) \<leftarrow> rt_device_close (Some cls) s; (s, rs) \<leftarrow> dev_run init opn cls ops s; Some (s, r # rs) }"

text \<open>The abstract device: a number of users.\<close>

fun users_run :: "dev_op list \<Rightarrow> nat \<Rightarrow> nat \<times> rt_err list" where
  "users_run [] n = (n, [])"
| "users_run (DevOpen oflag # ops) n = (case users_run ops (n + 1) of (m, rs) \<Rightarrow> (m, RT_EOK # rs))"
| "users_run (DevClose # ops) n =
     (case users_run ops (n - 1) of (m, rs) \<Rightarrow> (m, (if n = 0 then RT_ERROR else RT_EOK) # rs))"

locale device_driver =
  fixes init :: "('a, 'e) handler"
    and opn :: "u16 \<Rightarrow> ('a, 'e) handler"
    and cls :: "('a, 'e) handler"
    and fit :: "u16 \<Rightarrow> bool"
    and P0 :: "('a, 'e) dev_st \<Rightarrow> bool"
    and P1 :: "('a, 'e) dev_st \<Rightarrow> bool"
  assumes init_ok: "P0 (d, e) \<Longrightarrow> init (d, e) = Some ((d', e'), r) \<Longrightarrow> r = RT_EOK \<and> P0 (d', e') \<and> ref_count d' = ref_count d"
    and open_ok: "P0 (d, e) \<and> has (dflag d) RT_DEVICE_FLAG_ACTIVATED \<or> P1 (d, e) \<Longrightarrow> fit oflag \<Longrightarrow> opn oflag (d, e) = Some ((d', e'), r) \<Longrightarrow>
      r = RT_EOK \<and> P1 (d', e') \<and> ref_count d' = ref_count d"
    and close_ok: "P1 (d, e) \<Longrightarrow> ref_count d = 0 \<Longrightarrow>
      \<exists>d' e'. cls (d, e) = Some ((d', e'), RT_EOK) \<and> P0 (d'\<lparr>open_flag := 0\<rparr>, e') \<and> ref_count d' = 0"
    and active0: "P0 (d, e) \<Longrightarrow> P0 (d\<lparr>dflag := dflag d OR RT_DEVICE_FLAG_ACTIVATED\<rparr>, e)"
    and active1: "P1 (d, e) \<Longrightarrow> has (dflag d) RT_DEVICE_FLAG_ACTIVATED"
    and frame_ref: "P1 (d\<lparr>ref_count := n\<rparr>, e) = P1 (d, e)"
    and frame_open: "P1 (d, e) \<Longrightarrow> P1 (d\<lparr>open_flag := open_flag d OR RT_DEVICE_OFLAG_OPEN\<rparr>, e)"
    and shared: "P0 (d, e) \<or> P1 (d, e) \<Longrightarrow> \<not> has (dflag d) RT_DEVICE_FLAG_STANDALONE"
begin

definition dev_inv :: "('a, 'e) dev_st \<Rightarrow> bool" where
  "dev_inv s \<longleftrightarrow> (if ref_count (fst s) = 0 then P0 s else P1 s)"

lemma activate_ok:
  assumes "dev_inv (d, e)" "activate (Some init) (d, e) = Some ((d', e'), r)"
  shows "r = RT_EOK \<and> ref_count d' = ref_count d \<and> (P0 (d', e') \<and> has (dflag d') RT_DEVICE_FLAG_ACTIVATED \<and> ref_count d = 0 \<or> P1 (d', e') \<and> ref_count d \<noteq> 0)"
proof (cases "ref_count d = 0")
  case True
  then have "P0 (d, e)" using assms(1) by (simp add: dev_inv_def)
  then show ?thesis using assms(2) True init_ok [of d e] active0
    by (fastforce simp: activate_def or.commute bit_simps split: if_splits Option.bind_splits)
next
  case False
  then have "P1 (d, e)" using assms(1) by (simp add: dev_inv_def)
  then show ?thesis using assms(2) False active1 [of d e] by (simp add: activate_def)
qed

lemma open_keeps:
  assumes "dev_inv (d, e)" "fit oflag" "rt_device_open (Some init) (Some opn) oflag (d, e) = Some ((d', e'), r)"
  shows "r = RT_EOK \<and> dev_inv (d', e') \<and> unat (ref_count d') = unat (ref_count d) + 1"
proof -
  obtain d1 e1 r1 where a: "activate (Some init) (d, e) = Some ((d1, e1), r1)" using assms(3) by (auto simp: rt_device_open_def split: Option.bind_splits)
  note k = activate_ok [OF assms(1) a]
  then have sh: "\<not> has (dflag d1) RT_DEVICE_FLAG_STANDALONE" using shared by blast
  then obtain d2 e2 r2 where o: "opn oflag (d1, e1) = Some ((d2, e2), r2)" using assms(3) a k by (auto simp: rt_device_open_def split: Option.bind_splits)
  have p: "r2 = RT_EOK" "P1 (d2, e2)" "ref_count d2 = ref_count d" using open_ok [OF _ assms(2) o] k by auto
  have d': "d' = d2\<lparr>open_flag := open_flag d2 OR RT_DEVICE_OFLAG_OPEN, ref_count := ref_count d2 + 1\<rparr>" "e' = e2" "r = RT_EOK" "ref_count d2 + 1 \<noteq> 0"
    using assms(3) a k sh o p by (auto simp: rt_device_open_def Let_def split: if_splits)
  have "P1 (d', e')" using frame_open [OF p(2)] by (simp add: d' frame_ref)
  moreover have "unat (ref_count d2 + 1) = unat (ref_count d2) + 1" using d'(4) by (simp add: unat_plus_simple unatSuc add.commute)
  ultimately show ?thesis using d' p by (simp add: dev_inv_def)
qed

lemma close_keeps:
  assumes "dev_inv (d, e)"
  shows "\<exists>d' e'. rt_device_close (Some cls) (d, e) = Some ((d', e'), if ref_count d = 0 then RT_ERROR else RT_EOK) \<and>
    dev_inv (d', e') \<and> unat (ref_count d') = unat (ref_count d) - 1"
proof (cases "ref_count d = 0")
  case True
  then show ?thesis using assms by (simp add: rt_device_close_def)
next
  case False
  then have p: "P1 (d\<lparr>ref_count := ref_count d - 1\<rparr>, e)" using assms frame_ref by (simp add: dev_inv_def)
  have u: "unat (ref_count d - 1) = unat (ref_count d) - 1" using False by (simp add: unat_minus_one)
  show ?thesis
  proof (cases "ref_count d - 1 = 0")
    case True
    then obtain d' e' where "cls (d\<lparr>ref_count := ref_count d - 1\<rparr>, e) = Some ((d', e'), RT_EOK)" "P0 (d'\<lparr>open_flag := 0\<rparr>, e')" "ref_count d' = 0"
      using close_ok [OF p] by auto
    then show ?thesis using False True u by (simp add: rt_device_close_def dev_inv_def)
  next
    case f2: False
    then show ?thesis using False p u by (simp add: rt_device_close_def dev_inv_def)
  qed
qed

text \<open>Any sequence of openings and closings that returns acts like the number of users.\<close>

lemma run_refines:
  "dev_inv s \<Longrightarrow> (\<forall>oflag. DevOpen oflag \<in> set ops \<longrightarrow> fit oflag) \<Longrightarrow> dev_run init opn cls ops s = Some (s', rs) \<Longrightarrow>
     dev_inv s' \<and> users_run ops (unat (ref_count (fst s))) = (unat (ref_count (fst s')), rs)"
proof (induction ops arbitrary: s rs)
  case (Cons op ops)
  obtain d e where s: "s = (d, e)" by fastforce
  show ?case
  proof (cases op)
    case (DevOpen oflag)
    then obtain d1 e1 r rs1 where a: "rt_device_open (Some init) (Some opn) oflag (d, e) = Some ((d1, e1), r)"
        "dev_run init opn cls ops (d1, e1) = Some (s', rs1)" "rs = r # rs1"
      using Cons.prems(3) by (auto simp: s split: Option.bind_splits)
    have "fit oflag" using Cons.prems(2) DevOpen by simp
    note k = open_keeps [OF _ this a(1)]
    then show ?thesis using Cons.IH [of "(d1, e1)" rs1] a Cons.prems DevOpen s by auto
  next
    case DevClose
    obtain d1 e1 where a: "rt_device_close (Some cls) (d, e) = Some ((d1, e1), if ref_count d = 0 then RT_ERROR else RT_EOK)"
        "dev_inv (d1, e1)" "unat (ref_count d1) = unat (ref_count d) - 1"
      using close_keeps [of d e] Cons.prems(1) s by blast
    then show ?thesis using Cons.IH [of "(d1, e1)" "tl rs"] Cons.prems DevClose s
      by (auto simp: unat_eq_0 split: Option.bind_splits)
  qed
qed simp

end

subsection \<open>Serial devices keep the contract\<close>

text \<open>A port that is opened for reception by interrupt, and \<open>B\<close>, the blocks of the heap that others have.\<close>

definition rx_flag :: "u16 \<Rightarrow> bool" where
  "rx_flag oflag \<longleftrightarrow> has oflag RT_DEVICE_FLAG_INT_RX \<and> \<not> has oflag RT_DEVICE_FLAG_DMA_RX \<and> \<not> has oflag RT_DEVICE_FLAG_INT_TX \<and>
     \<not> has oflag RT_DEVICE_FLAG_DMA_TX"

definition port_ok :: "rt_serial_device \<Rightarrow> bool" where
  "port_ok d \<longleftrightarrow> has (dflag d) RT_DEVICE_FLAG_INT_RX \<and> \<not> has (dflag d) RT_DEVICE_FLAG_STANDALONE \<and> cfg_bufsz d < 65536"

definition port_closed :: "(nat \<times> nat) set \<Rightarrow> serial_st \<Rightarrow> bool" where
  "port_closed B = (\<lambda>(d, e). port_ok d \<and> heap_inv (sys_heap (sk e)) \<and> allocated (sys_heap (sk e)) = B \<and>
     serial_rx d = 0 \<and> serial_tx d = 0 \<and> \<not> irq_on d)"

definition port_open :: "(nat \<times> nat) set \<Rightarrow> serial_st \<Rightarrow> bool" where
  "port_open B = (\<lambda>(d, e). port_ok d \<and> heap_inv (sys_heap (sk e)) \<and> has (dflag d) RT_DEVICE_FLAG_ACTIVATED \<and>
     has (open_flag d) RT_DEVICE_FLAG_INT_RX \<and> \<not> has (open_flag d) RT_DEVICE_FLAG_INT_TX \<and> \<not> has (open_flag d) RT_DEVICE_FLAG_DMA_TX \<and>
     serial_tx d = 0 \<and> irq_on d \<and> serial_rx d \<noteq> 0 \<and>
     (\<exists>m \<ge> 12 + cfg_bufsz d. (serial_rx d, m) \<notin> B \<and> allocated (sys_heap (sk e)) = insert (serial_rx d, m) B))"

lemma flag_bits:
  "(f :: u16) AND 0x008 = 0 \<longleftrightarrow> \<not> bit f 3" "f AND 0x010 = 0 \<longleftrightarrow> \<not> bit f 4" "f AND 0x100 = 0 \<longleftrightarrow> \<not> bit f 8"
  "f AND 0x200 = 0 \<longleftrightarrow> \<not> bit f 9" "f AND 0x400 = 0 \<longleftrightarrow> \<not> bit f 10" "f AND 0x800 = 0 \<longleftrightarrow> \<not> bit f 11"
  using and_exp_eq_0_iff_not_bit [of f 3] and_exp_eq_0_iff_not_bit [of f 4] and_exp_eq_0_iff_not_bit [of f 8]
    and_exp_eq_0_iff_not_bit [of f 9] and_exp_eq_0_iff_not_bit [of f 10] and_exp_eq_0_iff_not_bit [of f 11] by simp_all

lemma new_rx_fifo_spec:
  assumes "heap_inv (sys_heap (sk e))" "cfg_bufsz d < 65536" "new_rx_fifo (d, e) = Some (d', e')"
  shows "\<exists>p m r h. p \<noteq> 0 \<and> d' = d\<lparr>serial_rx := p, ring := r\<rparr> \<and> serial_inv r = (2 \<le> cfg_bufsz d) \<and> e' = e\<lparr>sk := sk e\<lparr>sys_heap := h\<rparr>\<rparr> \<and>
    heap_inv h \<and> allocated h = insert (p, m) (allocated (sys_heap (sk e))) \<and> (p, m) \<notin> allocated (sys_heap (sk e)) \<and> 12 + cfg_bufsz d \<le> m"
  using assms(1)
proof (cases rule: malloc_spec [where n = "12 + cfg_bufsz d"])
  case (success h p m)
  have "12 + cfg_bufsz d \<le> align32 (12 + cfg_bufsz d)"
    using assms(2) RT_ALIGN8_bounds [of "12 + cfg_bufsz d"] by (simp add: align32_def)
  then have m: "12 + cfg_bufsz d \<le> m" using success(6) by simp
  define r where "r = \<lparr>fifo = replicate (cfg_bufsz d) (CHR 0x00), put_index = 0, get_index = 0, is_full = False, bufsz = cfg_bufsz d, indicated = []\<rparr>"
  define h' where "h' = h\<lparr>bytes := rt_memset (p + 12) 0 (cfg_bufsz d) (bytes h)\<rparr>"
  have "serial_inv r = (2 \<le> cfg_bufsz d)" using assms(2) by (auto simp: r_def serial_inv_def serial_rep_def serial_rx_length_def)
  moreover have "d' = d\<lparr>serial_rx := p, ring := r\<rparr>" "e' = e\<lparr>sk := sk e\<lparr>sys_heap := h'\<rparr>\<rparr>"
    using success(1,2) assms(3) by (simp_all add: new_rx_fifo_def r_def h'_def)
  moreover have "heap_inv h'" "allocated h' = insert (p, m) (allocated (sys_heap (sk e)))" using success(3,4) by (simp_all add: h'_def)
  moreover have "(p, m) \<notin> allocated (sys_heap (sk e))" using success(5) by force
  ultimately show ?thesis using m success(2) by blast
qed (use assms(3) in \<open>simp add: new_rx_fifo_def\<close>)


lemma serial_open_first:
  assumes "port_closed B (d, e)" "has (dflag d) RT_DEVICE_FLAG_ACTIVATED" "rx_flag oflag" "rt_serial_open oflag (d, e) = Some ((d', e'), r)"
  shows "r = RT_EOK \<and> port_open B (d', e') \<and> ref_count d' = ref_count d"
proof -
  have c: "port_ok d" "heap_inv (sys_heap (sk e))" "allocated (sys_heap (sk e)) = B" "serial_rx d = 0" "serial_tx d = 0" "cfg_bufsz d < 65536"
    using assms(1) by (simp_all add: port_closed_def port_ok_def)
  define st where "st = (if has oflag RT_DEVICE_FLAG_STREAM \<or> has (open_flag d) RT_DEVICE_FLAG_STREAM then RT_DEVICE_FLAG_STREAM else 0)"
  obtain d1 e1 where n: "new_rx_fifo (d\<lparr>open_flag := oflag AND 0xff\<rparr>, e) = Some (d1, e1)"
    using assms(3,4) c by (auto simp: rt_serial_open_def rx_flag_def port_ok_def serial_open_rx_def Let_def split: Option.bind_splits if_splits)
  obtain p m ri h where p: "p \<noteq> 0" "d1 = d\<lparr>open_flag := oflag AND 0xff, serial_rx := p, ring := ri\<rparr>" "e1 = e\<lparr>sk := sk e\<lparr>sys_heap := h\<rparr>\<rparr>" "heap_inv h"
      "allocated h = insert (p, m) B" "(p, m) \<notin> B" "12 + cfg_bufsz d \<le> m"
    using new_rx_fifo_spec [OF c(2) _ n] c(3,6) by auto
  have "d' = d\<lparr>open_flag := ((oflag AND 0xff) OR RT_DEVICE_FLAG_INT_RX) OR st, serial_rx := p, ring := ri, irq_on := True\<rparr>" "e' = e1" "r = RT_EOK"
    using assms(3,4) c n p(2)
    by (auto simp: rt_serial_open_def rx_flag_def port_ok_def serial_open_rx_def serial_open_tx_def Let_def ls1c_uart_control_def st_def
        split: Option.bind_splits)
  then show ?thesis using c(1,5) p assms(2) by (auto simp: port_open_def port_ok_def flag_bits bit_or_iff bit_and_iff st_def)
qed

lemma serial_open_again:
  assumes "port_open B (d, e)" "rx_flag oflag" "rt_serial_open oflag (d, e) = Some ((d', e'), r)"
  shows "r = RT_EOK \<and> port_open B (d', e') \<and> ref_count d' = ref_count d"
proof -
  define st where "st = (if has oflag RT_DEVICE_FLAG_STREAM \<or> has (open_flag d) RT_DEVICE_FLAG_STREAM then RT_DEVICE_FLAG_STREAM else 0)"
  have "d' = d\<lparr>open_flag := ((oflag AND 0xff) OR RT_DEVICE_FLAG_INT_RX) OR st\<rparr>" "e' = e" "r = RT_EOK"
    using assms by (auto simp: rt_serial_open_def rx_flag_def port_open_def port_ok_def serial_open_rx_def serial_open_tx_def Let_def st_def)
  then show ?thesis using assms(1) by (auto simp: port_open_def port_ok_def flag_bits bit_or_iff bit_and_iff st_def)
qed

lemma serial_close_last:
  assumes "port_open B (d, e)" "ref_count d = 0"
  shows "\<exists>d' e'. rt_serial_close (d, e) = Some ((d', e'), RT_EOK) \<and> port_closed B (d'\<lparr>open_flag := 0\<rparr>, e') \<and> ref_count d' = 0"
proof -
  obtain m where m: "(serial_rx d, m) \<notin> B" "allocated (sys_heap (sk e)) = insert (serial_rx d, m) B" "heap_inv (sys_heap (sk e))"
    using assms(1) by (auto simp: port_open_def)
  obtain h where h: "rt_free (serial_rx d) (sys_heap (sk e)) = Some h" "heap_inv h" "allocated h = B"
    using free_spec [OF m(3), of "serial_rx d" m] m(1,2) by auto
  define f where "f = open_flag d AND NOT RT_DEVICE_FLAG_INT_RX"
  have "\<not> has f RT_DEVICE_FLAG_INT_TX" "\<not> has f RT_DEVICE_FLAG_DMA_TX"
    using assms(1) by (simp_all add: port_open_def flag_bits f_def bit_and_iff)
  then have "rt_serial_close (d, e) = Some ((d\<lparr>serial_rx := 0, open_flag := f, irq_on := False, dflag := dflag d AND NOT RT_DEVICE_FLAG_ACTIVATED\<rparr>,
      e\<lparr>sk := sk e\<lparr>sys_heap := h\<rparr>\<rparr>), RT_EOK)"
    using assms h(1) by (simp add: rt_serial_close_def port_open_def free_rx_def ls1c_uart_control_def Let_def f_def)
  then show ?thesis using assms h by (auto simp: port_open_def port_closed_def port_ok_def flag_bits bit_and_iff bit_not_iff)
qed

interpretation serial_dev: device_driver rt_serial_init rt_serial_open rt_serial_close rx_flag "port_closed B" "port_open B" for B
proof unfold_locales
  show "port_closed B (d, e) \<Longrightarrow> rt_serial_init (d, e) = Some ((d', e'), r) \<Longrightarrow> r = RT_EOK \<and> port_closed B (d', e') \<and> ref_count d' = ref_count d" for d e d' e' r
    by (auto simp: port_closed_def rt_serial_init_def port_ok_def split: Option.bind_splits)
  show "port_closed B (d, e) \<and> has (dflag d) RT_DEVICE_FLAG_ACTIVATED \<or> port_open B (d, e) \<Longrightarrow> rx_flag oflag \<Longrightarrow>
      rt_serial_open oflag (d, e) = Some ((d', e'), r) \<Longrightarrow> r = RT_EOK \<and> port_open B (d', e') \<and> ref_count d' = ref_count d" for d e d' e' r oflag
    using serial_open_first serial_open_again by blast
  show "port_open B (d, e) \<Longrightarrow> ref_count d = 0 \<Longrightarrow>
      \<exists>d' e'. rt_serial_close (d, e) = Some ((d', e'), RT_EOK) \<and> port_closed B (d'\<lparr>open_flag := 0\<rparr>, e') \<and> ref_count d' = 0" for d e
    by (rule serial_close_last)
qed (auto simp: port_closed_def port_open_def port_ok_def flag_bits bit_or_iff)

text \<open>
  C27. The life of a serial device. Whatever the order in which its users open it for reception by interrupt and close it, the
  results are those of a counter of users, and the resources follow the counter: with no user the heap is
  what the others have and the interrupt is masked; with one or more, exactly one block more is allocated, large enough for the ring,
  and the interrupt is unmasked. Closing always returns, and so does opening a device that is in use, up to 255 users.
\<close>

theorem serial_device_life:
  assumes "port_closed B (d, e)" "ref_count d = 0" "\<forall>oflag. DevOpen oflag \<in> set ops \<longrightarrow> rx_flag oflag"
    "dev_run rt_serial_init rt_serial_open rt_serial_close ops (d, e) = Some ((d', e'), rs)"
  shows "users_run ops 0 = (unat (ref_count d'), rs) \<and> heap_inv (sys_heap (sk e')) \<and>
    (if ref_count d' = 0 then serial_rx d' = 0 \<and> \<not> irq_on d' \<and> allocated (sys_heap (sk e')) = B
     else has (open_flag d') RT_DEVICE_FLAG_INT_RX \<and> irq_on d' \<and>
       (\<exists>m \<ge> 12 + cfg_bufsz d'. (serial_rx d', m) \<notin> B \<and> allocated (sys_heap (sk e')) = insert (serial_rx d', m) B)) \<and>
    (\<exists>s r. rt_device_close (Some rt_serial_close) (d', e') = Some (s, r)) \<and>
    (\<forall>oflag. ref_count d' \<noteq> 0 \<and> ref_count d' \<noteq> 255 \<and> rx_flag oflag \<longrightarrow>
      (\<exists>s. rt_device_open (Some rt_serial_init) (Some rt_serial_open) oflag (d', e') = Some (s, RT_EOK)))"
proof -
  have "serial_dev.dev_inv B (d, e)" using assms(1,2) by (simp add: serial_dev.dev_inv_def)
  from serial_dev.run_refines [OF this assms(3,4)]
  have r: "serial_dev.dev_inv B (d', e')" "users_run ops 0 = (unat (ref_count d'), rs)" using assms(2) by simp_all
  have "\<exists>s. rt_device_open (Some rt_serial_init) (Some rt_serial_open) oflag (d', e') = Some (s, RT_EOK)"
    if h: "ref_count d' \<noteq> 0" "ref_count d' \<noteq> 255" "rx_flag oflag" for oflag
  proof -
    have p: "port_open B (d', e')" using r(1) h(1) by (simp add: serial_dev.dev_inv_def)
    obtain d1 where o: "rt_serial_open oflag (d', e') = Some ((d1, e'), RT_EOK)"
      using p h(3) by (auto simp: rt_serial_open_def rx_flag_def port_open_def port_ok_def serial_open_rx_def serial_open_tx_def Let_def)
    have "ref_count d1 = ref_count d'" using serial_open_again [OF p h(3) o] by simp
    moreover have "(255 :: u8) = - 1" by simp
    then have "ref_count d' + 1 \<noteq> 0" using h(2) eq_neg_iff_add_eq_0 [of "ref_count d'" 1] by metis
    ultimately show ?thesis using o p by (simp add: rt_device_open_def activate_def port_open_def port_ok_def Let_def)
  qed
  moreover have "\<exists>s r. rt_device_close (Some rt_serial_close) (d', e') = Some (s, r)" using serial_dev.close_keeps [OF r(1)] by blast
  moreover have "if ref_count d' = 0 then port_closed B (d', e') else port_open B (d', e')" using r(1) by (simp add: serial_dev.dev_inv_def)
  ultimately show ?thesis using r(2) by (auto simp: port_closed_def port_open_def)
qed

text \<open>The driver's flags, without any of the four transfer modes.\<close>

definition plain_flag :: "u16 \<Rightarrow> bool" where
  "plain_flag oflag \<longleftrightarrow> \<not> has oflag RT_DEVICE_FLAG_INT_RX \<and> \<not> has oflag RT_DEVICE_FLAG_DMA_RX \<and> \<not> has oflag RT_DEVICE_FLAG_INT_TX \<and>
     \<not> has oflag RT_DEVICE_FLAG_DMA_TX"

lemma plain_open:
  assumes "port_open B (d, e)" "ref_count d = 1" "plain_flag oflag"
  shows "\<exists>f. rt_device_open (Some rt_serial_init) (Some rt_serial_open) oflag (d, e) = Some ((d\<lparr>open_flag := f, ref_count := 2\<rparr>, e), RT_EOK) \<and> plain_flag f"
proof -
  define st where "st = (if has oflag RT_DEVICE_FLAG_STREAM \<or> has (open_flag d) RT_DEVICE_FLAG_STREAM then RT_DEVICE_FLAG_STREAM else 0)"
  have "rt_serial_open oflag (d, e) = Some ((d\<lparr>open_flag := (oflag AND 0xff) OR st\<rparr>, e), RT_EOK)"
    using assms by (simp add: rt_serial_open_def plain_flag_def port_open_def port_ok_def serial_open_rx_def serial_open_tx_def Let_def st_def)
  then have "rt_device_open (Some rt_serial_init) (Some rt_serial_open) oflag (d, e) =
      Some ((d\<lparr>open_flag := ((oflag AND 0xff) OR st) OR RT_DEVICE_OFLAG_OPEN, ref_count := 2\<rparr>, e), RT_EOK)"
    using assms(1,2) by (simp add: rt_device_open_def activate_def port_open_def port_ok_def Let_def)
  moreover have "plain_flag (((oflag AND 0xff) OR st) OR RT_DEVICE_OFLAG_OPEN)"
    using assms(3) by (auto simp: plain_flag_def flag_bits bit_or_iff bit_and_iff st_def)
  ultimately show ?thesis by blast
qed

text \<open>
  C28. A port that is opened with reception by interrupt and, while it is open, a second time without it. The second opening
  clears the flag that tells how the device receives; so when both users have closed the device,
  its ring is still allocated and its interrupt still unmasked, and the next initialisation forgets the address of the
  ring, which nobody can free any more.
\<close>

theorem serial_mixed_open_leaks:
  assumes "port_closed B (d, e)" "ref_count d = 0" "rx_flag f1" "plain_flag f2"
    "rt_device_open (Some rt_serial_init) (Some rt_serial_open) f1 (d, e) = Some (s1, RT_EOK)"
  shows "\<exists>s2 s3 d4 e4 m. rt_device_open (Some rt_serial_init) (Some rt_serial_open) f2 s1 = Some (s2, RT_EOK) \<and>
    rt_device_close (Some rt_serial_close) s2 = Some (s3, RT_EOK) \<and> rt_device_close (Some rt_serial_close) s3 = Some ((d4, e4), RT_EOK) \<and>
    ref_count d4 = 0 \<and> irq_on d4 \<and> \<not> has (dflag d4) RT_DEVICE_FLAG_ACTIVATED \<and>
    allocated (sys_heap (sk e4)) = insert (serial_rx d4, m) B \<and> (serial_rx d4, m) \<notin> B \<and>
    (\<forall>d5 e5 r. rt_serial_init (d4, e4) = Some ((d5, e5), r) \<longrightarrow> serial_rx d5 = 0 \<and> sys_heap (sk e5) = sys_heap (sk e4))"
proof -
  obtain d1 e1 where s1: "s1 = (d1, e1)" by fastforce
  have "serial_dev.dev_inv B (d, e)" using assms(1,2) by (simp add: serial_dev.dev_inv_def)
  from serial_dev.open_keeps [OF this assms(3) assms(5) [unfolded s1]] assms(2)
  have k: "serial_dev.dev_inv B (d1, e1)" "unat (ref_count d1) = 1" by simp_all
  then have one: "ref_count d1 = 1" by (simp add: word_unat_eq_iff)
  then have p: "port_open B (d1, e1)" using k(1) by (simp add: serial_dev.dev_inv_def)
  obtain f where f: "rt_device_open (Some rt_serial_init) (Some rt_serial_open) f2 (d1, e1) = Some ((d1\<lparr>open_flag := f, ref_count := 2\<rparr>, e1), RT_EOK)"
      "plain_flag f" using plain_open [OF p one assms(4)] by blast
  define d3 where "d3 = d1\<lparr>open_flag := f, ref_count := 1\<rparr>"
  define d4 where "d4 = d1\<lparr>open_flag := 0, ref_count := 0, dflag := dflag d1 AND NOT RT_DEVICE_FLAG_ACTIVATED\<rparr>"
  have c1: "rt_device_close (Some rt_serial_close) (d1\<lparr>open_flag := f, ref_count := 2\<rparr>, e1) = Some ((d3, e1), RT_EOK)"
    by (simp add: rt_device_close_def d3_def)
  have c2: "rt_device_close (Some rt_serial_close) (d3, e1) = Some ((d4, e1), RT_EOK)"
    using f(2) by (simp add: rt_device_close_def rt_serial_close_def plain_flag_def d3_def d4_def ls1c_uart_control_def Let_def)
  obtain m where m: "allocated (sys_heap (sk e1)) = insert (serial_rx d4, m) B" "(serial_rx d4, m) \<notin> B" "irq_on d4"
    using p by (auto simp: port_open_def d4_def)
  moreover have "ref_count d4 = 0" "\<not> has (dflag d4) RT_DEVICE_FLAG_ACTIVATED" by (simp_all add: d4_def flag_bits bit_and_iff bit_not_iff)
  moreover have "\<forall>d5 e5 r. rt_serial_init (d4, e1) = Some ((d5, e5), r) \<longrightarrow> serial_rx d5 = 0 \<and> sys_heap (sk e5) = sys_heap (sk e1)"
    by (auto simp: rt_serial_init_def split: Option.bind_splits)
  ultimately show ?thesis unfolding s1 using f(1) c1 c2 by blast
qed

text \<open>A port with a ring of eight characters, on the small heap of the examples.\<close>

definition port_demo :: serial_st where
  "port_demo = (\<lparr>dflag = 0x103, open_flag = 0, ref_count = 0, rx_indicate = None, tx_complete = None, uart = LS1C_UART1, baud_rate = 115200,
     cfg_bufsz = 8, serial_rx = 0, serial_tx = 0, ring = \<lparr>fifo = [], put_index = 0, get_index = 0, is_full = False, bufsz = 0, indicated = []\<rparr>,
     irq_on = False\<rparr>, \<lparr>sk = obj_demo, ubus = bus0\<rparr>)"

lemma port_demo_closed: "port_closed {} port_demo"
  using heap_demo_inv by (simp add: port_closed_def port_demo_def port_ok_def obj_demo_def)

lemma port_demo_opens: "\<exists>d e. rt_device_open (Some rt_serial_init) (Some rt_serial_open) 0x103 port_demo = Some ((d, e), RT_EOK) \<and> ref_count d = 1"
proof -
  have "ls1c_uart_configure LS1C_UART1 115200 bus0 \<noteq> None" by code_simp
  then show ?thesis using heap_demo1_malloc
    by (auto simp: port_demo_def rt_device_open_def activate_def rt_serial_init_def rt_serial_open_def serial_open_rx_def serial_open_tx_def
        new_rx_fifo_def obj_demo_def ls1c_uart_control_def Let_def)
qed

theorem serial_device_life_witness:
  "\<exists>d e. dev_run rt_serial_init rt_serial_open rt_serial_close [DevOpen 0x103, DevClose, DevClose] port_demo = Some ((d, e), [RT_EOK, RT_EOK, RT_ERROR]) \<and>
     allocated (sys_heap (sk e)) = {} \<and> \<not> irq_on d"
proof -
  obtain d0 e0 where p: "port_demo = (d0, e0)" by fastforce
  have z: "ref_count d0 = 0" using p by (auto simp: port_demo_def)
  obtain d1 e1 where o: "rt_device_open (Some rt_serial_init) (Some rt_serial_open) 0x103 (d0, e0) = Some ((d1, e1), RT_EOK)"
    using port_demo_opens p by auto
  have i0: "serial_dev.dev_inv {} (d0, e0)" using port_demo_closed z unfolding p by (simp add: serial_dev.dev_inv_def)
  have f: "rx_flag 0x103" by (simp add: rx_flag_def)
  have i1: "serial_dev.dev_inv {} (d1, e1)" using serial_dev.open_keeps [OF i0 f o] by simp
  obtain d2 e2 where c1: "rt_device_close (Some rt_serial_close) (d1, e1) = Some ((d2, e2), if ref_count d1 = 0 then RT_ERROR else RT_EOK)"
      "serial_dev.dev_inv {} (d2, e2)" using serial_dev.close_keeps [OF i1] by blast
  obtain d3 e3 r where c2: "rt_device_close (Some rt_serial_close) (d2, e2) = Some ((d3, e3), r)" using serial_dev.close_keeps [OF c1(2)] by blast
  have run: "dev_run rt_serial_init rt_serial_open rt_serial_close [DevOpen 0x103, DevClose, DevClose] (d0, e0) =
      Some ((d3, e3), [RT_EOK, if ref_count d1 = 0 then RT_ERROR else RT_EOK, r])" using o c1(1) c2 by simp
  have fl: "\<forall>oflag. DevOpen oflag \<in> set [DevOpen 0x103, DevClose, DevClose] \<longrightarrow> rx_flag oflag" using f by simp
  have cl: "port_closed {} (d0, e0)" using port_demo_closed unfolding p .
  have "users_run [DevOpen 0x103, DevClose, DevClose] 0 = (0, [RT_EOK, RT_EOK, RT_ERROR])" by simp
  with serial_device_life [OF cl z fl run] have "ref_count d3 = 0" "[RT_EOK, if ref_count d1 = 0 then RT_ERROR else RT_EOK, r] = [RT_EOK, RT_EOK, RT_ERROR]"
    "\<not> irq_on d3" "allocated (sys_heap (sk e3)) = {}" by (auto simp: unat_eq_0 split: if_splits)
  then show ?thesis using run p by simp
qed

theorem serial_mixed_open_leaks_witness:
  "\<exists>s1 s2 s3 d4 e4 m. rt_device_open (Some rt_serial_init) (Some rt_serial_open) 0x103 port_demo = Some (s1, RT_EOK) \<and>
     rt_device_open (Some rt_serial_init) (Some rt_serial_open) 0x003 s1 = Some (s2, RT_EOK) \<and>
     rt_device_close (Some rt_serial_close) s2 = Some (s3, RT_EOK) \<and> rt_device_close (Some rt_serial_close) s3 = Some ((d4, e4), RT_EOK) \<and>
     irq_on d4 \<and> allocated (sys_heap (sk e4)) = {(serial_rx d4, m)}"
proof -
  obtain d0 e0 where p: "port_demo = (d0, e0)" by fastforce
  have z: "ref_count d0 = 0" using p by (auto simp: port_demo_def)
  have cl: "port_closed {} (d0, e0)" using port_demo_closed unfolding p .
  have f: "rx_flag 0x103" "plain_flag 0x003" by (simp_all add: rx_flag_def plain_flag_def)
  obtain s1 where o: "rt_device_open (Some rt_serial_init) (Some rt_serial_open) 0x103 (d0, e0) = Some (s1, RT_EOK)" using port_demo_opens p by auto
  from serial_mixed_open_leaks [OF cl z f o] o show ?thesis unfolding p by blast
qed

subsection \<open>The registry\<close>

text \<open>
  What happens to the registry: registration, removal, creation and destruction of devices, and anything else that leaves the
  devices alone.
\<close>

inductive reg_step :: "ksys \<Rightarrow> ksys \<Rightarrow> bool" where
  register: "rt_device_register p name flags (dev :: rt_device, s) = Some ((dev', s'), r) \<Longrightarrow> reg_step s s'"
| unregister: "rt_device_unregister p s = Some s' \<Longrightarrow> reg_step s s'"
| create: "rt_device_create dsize n s = Some (s', p) \<Longrightarrow> p \<notin> set (container s RT_Object_Class_Device) \<Longrightarrow> reg_step s s'"
| destroy: "rt_device_destroy p s = Some s' \<Longrightarrow> reg_step s s'"
| other: "container s' RT_Object_Class_Device = container s RT_Object_Class_Device \<Longrightarrow>
    \<forall>p \<in> set (container s RT_Object_Class_Device). oname s' p = oname s p \<Longrightarrow>
    \<forall>p. otype s' p = RT_Object_Class_Device \<longrightarrow> otype s p = RT_Object_Class_Device \<Longrightarrow> reg_step s s'"

inductive reg_reach :: "ksys \<Rightarrow> ksys \<Rightarrow> bool" for s0 where
  start: "reg_reach s0 s0"
| step: "reg_reach s0 s \<Longrightarrow> reg_step s s' \<Longrightarrow> reg_reach s0 s'"

definition reg_ok :: "ksys \<Rightarrow> bool" where
  "reg_ok s \<longleftrightarrow> distinct (container s RT_Object_Class_Device) \<and> inj_on (oname s) (set (container s RT_Object_Class_Device)) \<and>
     (\<forall>p. otype s p \<noteq> RT_Object_Class_Device)"

lemma destroy_refused: "reg_ok s \<Longrightarrow> rt_device_destroy p s = None"
proof -
  assume "reg_ok s"
  then have "otype s p \<noteq> 9" by (simp add: reg_ok_def)
  moreover have "t = 9" if "(t :: u8) AND NOT RT_Object_Class_Static = 9" "t AND RT_Object_Class_Static = 0" for t
  proof -
    have "t = (t AND NOT RT_Object_Class_Static) OR (t AND RT_Object_Class_Static)" by (rule bit_eqI) (auto simp: bit_simps)
    then show ?thesis using that by simp
  qed
  ultimately show ?thesis by (auto simp: rt_device_destroy_def rt_object_get_type_def rt_object_is_systemobject_def)
qed

lemma find_None: "rt_device_find name s = None \<longleftrightarrow> clip_name name \<notin> oname s ` set (container s RT_Object_Class_Device)"
  by (simp add: rt_device_find_def find_None_iff image_iff) metis

lemma object_init_device:
  "rt_object_init p RT_Object_Class_Device name s =
     (if p \<in> set (container s RT_Object_Class_Device) then None
      else Some (s\<lparr>otype := (otype s)(p := 0x89), oname := (oname s)(p := clip_name name),
        container := (container s)(RT_Object_Class_Device := p # container s RT_Object_Class_Device)\<rparr>))"
  by (simp add: rt_object_init_def rt_object_get_information_def rt_object_container_def)

lemma reg_ok_step:
  assumes "reg_ok s" "reg_step s s'"
  shows "reg_ok s'"
  using assms(2)
proof (cases rule: reg_step.cases)
  case (register p name flags dev dev' r)
  show ?thesis
  proof (cases "s' = s")
    case False
    then have n: "rt_device_find name s = None" "rt_object_init p RT_Object_Class_Device name s = Some s'"
      using register by (auto simp: rt_device_register_def split: if_splits Option.bind_splits)
    have p: "p \<notin> set (container s RT_Object_Class_Device)" using n(2) by (metis object_init_device option.distinct(1))
    then have "s' = s\<lparr>otype := (otype s)(p := 0x89), oname := (oname s)(p := clip_name name),
        container := (container s)(RT_Object_Class_Device := p # container s RT_Object_Class_Device)\<rparr>"
      using n(2) by (simp add: object_init_device)
    then have s': "container s' RT_Object_Class_Device = p # container s RT_Object_Class_Device"
        "oname s' = (oname s)(p := clip_name name)" "otype s' = (otype s)(p := 0x89)" by simp_all
    have ok: "distinct (container s RT_Object_Class_Device)" "inj_on (oname s) (set (container s RT_Object_Class_Device))"
        "\<forall>q. otype s q \<noteq> RT_Object_Class_Device" using assms(1) unfolding reg_ok_def by blast+
    have "(oname s)(p := clip_name name) ` (set (container s RT_Object_Class_Device) - {p}) = oname s ` set (container s RT_Object_Class_Device)"
      using p by (intro image_cong) auto
    then have "inj_on (oname s') (set (container s' RT_Object_Class_Device))"
      using n(1) inj_on_fun_updI [OF ok(2), of "clip_name name" p] unfolding find_None s' by (simp add: inj_on_insert)
    then show ?thesis using ok(1,3) p s' by (simp add: reg_ok_def)
  qed (use assms(1) in simp)
next
  case (unregister p)
  then have "s' = unlink_object p s" by (auto simp: rt_device_unregister_def rt_object_detach_def split: if_splits)
  then show ?thesis using assms(1) by (auto simp: reg_ok_def unlink_object_def distinct_removeAll inj_on_def)
next
  case (create dsize n p)
  then show ?thesis using assms(1) by (auto simp: reg_ok_def rt_device_create_def inj_on_def split: Option.bind_splits if_splits)
next
  case (destroy p)
  then show ?thesis using destroy_refused [OF assms(1)] by simp
next
  case other
  then show ?thesis using assms(1) by (auto simp: reg_ok_def inj_on_def)
qed

lemma reg_ok_reach: "reg_reach s0 s \<Longrightarrow> reg_ok s0 \<Longrightarrow> reg_ok s"
  by (induction rule: reg_reach.induct) (auto intro: reg_ok_step)

text \<open>
  C20. The registry of devices, from the empty one on. No two devices have the same name, as far as names are kept (ten characters): a registration under a name
  in use is refused and changes nothing, one under a fresh name makes the device the one that is found, removing it makes the name free
  again. No device can ever be destroyed: \<open>rt_device_destroy\<close> asks for an object of the device class that is not static, but
  registration makes every device static, and creation gives it no class at all.
\<close>

theorem device_registry:
  assumes "reg_reach s0 s" "container s0 RT_Object_Class_Device = []" "\<forall>p. otype s0 p \<noteq> RT_Object_Class_Device"
  shows "inj_on (oname s) (set (container s RT_Object_Class_Device)) \<and>
    (\<forall>p name flags (dev :: rt_device). p \<noteq> 0 \<and> clip_name name \<in> oname s ` set (container s RT_Object_Class_Device) \<longrightarrow>
      rt_device_register p name flags (dev, s) = Some ((dev, s), RT_ERROR)) \<and>
    (\<forall>p name flags (dev :: rt_device). p \<noteq> 0 \<and> p \<notin> set (container s RT_Object_Class_Device) \<and>
      clip_name name \<notin> oname s ` set (container s RT_Object_Class_Device) \<longrightarrow>
      (\<exists>dev' s' s''. rt_device_register p name flags (dev, s) = Some ((dev', s'), RT_EOK) \<and> ref_count dev' = 0 \<and> rt_device_find name s' = Some p \<and>
        rt_device_unregister p s' = Some s'' \<and> rt_device_find name s'' = None \<and>
        container s'' RT_Object_Class_Device = container s RT_Object_Class_Device)) \<and>
    (\<forall>p. rt_device_destroy p s = None)"
proof -
  have ok: "reg_ok s" using assms(2,3) by (intro reg_ok_reach [OF assms(1)]) (simp add: reg_ok_def)
  have "rt_device_register p name flags (dev, s) = Some ((dev, s), RT_ERROR)"
    if "p \<noteq> 0" "clip_name name \<in> oname s ` set (container s RT_Object_Class_Device)" for p name flags and dev :: rt_device
    using that find_None [of name s] by (auto simp: rt_device_register_def)
  moreover have "\<exists>dev' s' s''. rt_device_register p name flags (dev, s) = Some ((dev', s'), RT_EOK) \<and> ref_count dev' = 0 \<and> rt_device_find name s' = Some p \<and>
        rt_device_unregister p s' = Some s'' \<and> rt_device_find name s'' = None \<and> container s'' RT_Object_Class_Device = container s RT_Object_Class_Device"
    if h: "p \<noteq> 0" "p \<notin> set (container s RT_Object_Class_Device)" "clip_name name \<notin> oname s ` set (container s RT_Object_Class_Device)"
    for p name flags and dev :: rt_device
  proof -
    define s' where "s' = s\<lparr>otype := (otype s)(p := 0x89), oname := (oname s)(p := clip_name name),
      container := (container s)(RT_Object_Class_Device := p # container s RT_Object_Class_Device)\<rparr>"
    have "rt_object_init p RT_Object_Class_Device name s = Some s'"
      using h(2) by (simp add: object_init_device s'_def)
    then have "rt_device_register p name flags (dev, s) = Some ((dev\<lparr>dflag := flags, ref_count := 0, open_flag := 0\<rparr>, s'), RT_EOK)"
      using h find_None [of name s] by (simp add: rt_device_register_def)
    moreover have "rt_device_find name s' = Some p" by (simp add: rt_device_find_def s'_def)
    moreover have "rt_device_unregister p s' = Some (unlink_object p s')"
      using h(1) by (simp add: rt_device_unregister_def rt_object_detach_def rt_object_get_type_def rt_object_is_systemobject_def s'_def)
    moreover have c: "container (unlink_object p s') RT_Object_Class_Device = container s RT_Object_Class_Device"
      using h(2) by (simp add: unlink_object_def s'_def)
    moreover have "rt_device_find name (unlink_object p s') = None"
      unfolding find_None c using h(2,3) by (auto simp: unlink_object_def s'_def)
    ultimately show ?thesis by auto
  qed
  ultimately show ?thesis using ok destroy_refused [OF ok] by (simp add: reg_ok_def)
qed

definition dev_demo :: rt_device where
  "dev_demo = \<lparr>dflag = 0, open_flag = 0, ref_count = 0, rx_indicate = None, tx_complete = None\<rparr>"

theorem device_registry_witness:
  "(\<exists>dev' s'. rt_device_register 0x9000 ''uart1'' 0x103 (dev_demo, obj_demo) = Some ((dev', s'), RT_EOK) \<and> rt_device_find ''uart1'' s' = Some 0x9000) \<and>
   rt_device_destroy 0x9000 obj_demo = None"
proof -
  have e: "container obj_demo RT_Object_Class_Device = []" "\<forall>p. otype obj_demo p \<noteq> RT_Object_Class_Device" by (simp_all add: obj_demo_def)
  note r = device_registry [OF reg_reach.start e]
  have "\<exists>dev' s' s''. rt_device_register 0x9000 ''uart1'' 0x103 (dev_demo, obj_demo) = Some ((dev', s'), RT_EOK) \<and> ref_count dev' = 0 \<and>
      rt_device_find ''uart1'' s' = Some 0x9000 \<and> rt_device_unregister 0x9000 s' = Some s'' \<and> rt_device_find ''uart1'' s'' = None \<and>
      container s'' RT_Object_Class_Device = container obj_demo RT_Object_Class_Device"
    by (intro r [THEN conjunct2, THEN conjunct2, THEN conjunct1, rule_format]) (simp add: e)
  moreover have "rt_device_destroy 0x9000 obj_demo = None" using r by blast
  ultimately show ?thesis by blast
qed

end
