(* ===== verification/Rt_Thread.thy ===== *)
theory Rt_Thread
  imports Rt_Object
begin

section \<open>Threads on the heap and the idle thread (\<^verbatim>\<open>rt-thread/src/thread.c\<close>, \<^verbatim>\<open>rt-thread/src/idle.c\<close>)\<close>

text \<open>
  A dynamic thread has two blocks of the heap, its control block and its stack. Deleting it or its return only puts it on the
  defunct list; the idle thread gives the blocks back. A thread is named by the address of its control block.
  The container entry of the timer inside a thread is not kept, nor is the initial contents of the stack
  frame, which is the processor's; signals are not used by this program, so there is nothing of theirs to free.
\<close>

subsection \<open>Operations\<close>

record tsys =
  ks :: ksys
  stack_addr :: "nat \<Rightarrow> nat"

abbreviation RT_Object_Class_Thread :: u8 where "RT_Object_Class_Thread \<equiv> 1"

abbreviation tkern :: "tsys \<Rightarrow> kern" where "tkern s \<equiv> sys_kern (ks s)"
abbreviation theap :: "tsys \<Rightarrow> mem_heap" where "theap s \<equiv> sys_heap (ks s)"

definition rt_thread_create ::
  "(u8 \<Rightarrow> nat) \<Rightarrow> string \<Rightarrow> nat \<Rightarrow> nat \<Rightarrow> u32 \<Rightarrow> tsys \<Rightarrow> (tsys \<times> nat) option" where
  "rt_thread_create osize name stack_size priority tick0 s =
     do { (k, p) \<leftarrow> rt_object_allocate osize RT_Object_Class_Thread name (ks s);
          if p = 0 then Some (s\<lparr>ks := k\<rparr>, 0)
          else do { (h, q) \<leftarrow> rt_malloc stack_size (sys_heap k);
                    let k = k\<lparr>sys_heap := h\<rparr>;
                    if q = 0 then do { k \<leftarrow> rt_object_delete p k; Some (s\<lparr>ks := k\<rparr>, 0) }
                    else if \<not> priority < 32 then None
                    else Some (\<lparr>ks = k\<lparr>sys_heap := h\<lparr>bytes := rt_memset q 35 stack_size (bytes h)\<rparr>,
                                      sys_kern := rt_thread_init p priority tick0 False (upd_thread p (\<lambda>_. zero_thread) (sys_kern k))\<rparr>,
                                stack_addr = (stack_addr s)(p := q)\<rparr>, p) } }"

definition thread_delete :: "nat \<Rightarrow> tsys \<Rightarrow> tsys option" where
  "thread_delete p s =
     (if \<not> deletable RT_Object_Class_Thread p (ks s) then None
      else Some (s\<lparr>ks := (ks s)\<lparr>sys_kern := rt_thread_delete p (tkern s)\<rparr>\<rparr>))"

text \<open>The running thread \<open>p\<close> returns from its entry function.\<close>

definition thread_exit :: "nat \<Rightarrow> tsys \<Rightarrow> tsys" where
  "thread_exit p s =
     (let k = (ks s)\<lparr>sys_kern := rt_thread_exit p (tkern s)\<rparr>
      in s\<lparr>ks := (if rt_object_is_systemobject p (ks s) \<and> \<not> has_cleanup (threads (tkern s) p) then unlink_object p k else k)\<rparr>)"

text \<open>Detaching a static thread, which keeps its memory.\<close>

definition thread_detach :: "nat \<Rightarrow> tsys \<Rightarrow> tsys option" where
  "thread_detach p s =
     (if \<not> (p \<noteq> 0 \<and> rt_object_get_type p (ks s) = RT_Object_Class_Thread \<and> rt_object_is_systemobject p (ks s)) then None
      else if stat (threads (tkern s) p) = RT_THREAD_CLOSE then Some s
      else let k = (ks s)\<lparr>sys_kern := rt_thread_detach p (tkern s)\<rparr>
           in Some (s\<lparr>ks := (if \<not> has_cleanup (threads (tkern s) p) then unlink_object p k else k)\<rparr>))"

text \<open>
  One pass of the loop of \<open>rt_thread_idle_excute\<close>, with \<open>cleanup\<close> for what the clean-up function of a thread does; the flag tells
  whether the loop goes on, which it does not behind a static thread.
\<close>

definition idle_pass :: "(nat \<Rightarrow> tsys \<Rightarrow> tsys) \<Rightarrow> tsys \<Rightarrow> (tsys \<times> bool) option" where
  "idle_pass cleanup s =
     (let t = hd (queues (tkern s) Defunct);
          s = s\<lparr>ks := (ks s)\<lparr>sys_kern := rt_enter_critical (rt_list_remove t (tkern s))\<rparr>\<rparr>;
          s = (if has_cleanup (threads (tkern s) t) then cleanup t s else s)
      in if rt_object_is_systemobject t (ks s)
         then do { k \<leftarrow> rt_object_detach t (ks s); Some (s\<lparr>ks := k\<lparr>sys_kern := rt_exit_critical (sys_kern k)\<rparr>\<rparr>, False) }
         else let k = (ks s)\<lparr>sys_kern := rt_exit_critical (tkern s)\<rparr>
              in do { h \<leftarrow> rt_free (stack_addr s t) (sys_heap k);
                      k \<leftarrow> rt_object_delete t (k\<lparr>sys_heap := h\<rparr>);
                      Some (s\<lparr>ks := k\<rparr>, True) })"

fun idle_loop :: "(nat \<Rightarrow> tsys \<Rightarrow> tsys) \<Rightarrow> nat \<Rightarrow> tsys \<Rightarrow> tsys option" where
  "idle_loop cleanup 0 s = Some s"
| "idle_loop cleanup (Suc n) s =
     (if queues (tkern s) Defunct = [] then Some s
      else do { (s, more) \<leftarrow> idle_pass cleanup s; if more then idle_loop cleanup n s else Some s })"

text \<open>Every pass takes one thread off the list: the bound is its length.\<close>

definition rt_thread_idle_excute :: "(nat \<Rightarrow> tsys \<Rightarrow> tsys) \<Rightarrow> tsys \<Rightarrow> tsys option" where
  "rt_thread_idle_excute cleanup s = idle_loop cleanup (length (queues (tkern s) Defunct)) s"

text \<open>
  The hooks of the idle thread, by address, with 0 for a free place; \<open>call\<close> stands for what a hook does. One round of the
  endless loop of the idle thread calls the hooks in order and then cleans up.
\<close>

fun replace_first :: "nat \<Rightarrow> nat \<Rightarrow> nat list \<Rightarrow> nat list option" where
  "replace_first a b [] = None"
| "replace_first a b (x # xs) = (if x = a then Some (b # xs) else map_option ((#) x) (replace_first a b xs))"

definition rt_thread_idle_sethook :: "nat \<Rightarrow> nat list \<Rightarrow> nat list \<times> rt_err" where
  "rt_thread_idle_sethook hook hooks = (case replace_first 0 hook hooks of None \<Rightarrow> (hooks, RT_EFULL) | Some hs \<Rightarrow> (hs, RT_EOK))"

definition rt_thread_idle_delhook :: "nat \<Rightarrow> nat list \<Rightarrow> nat list \<times> rt_err" where
  "rt_thread_idle_delhook hook hooks = (case replace_first hook 0 hooks of None \<Rightarrow> (hooks, RT_ENOSYS) | Some hs \<Rightarrow> (hs, RT_EOK))"

definition rt_thread_idle_entry ::
  "(nat \<Rightarrow> tsys \<Rightarrow> tsys) \<Rightarrow> (nat \<Rightarrow> tsys \<Rightarrow> tsys) \<Rightarrow> nat list \<Rightarrow> tsys \<Rightarrow> tsys option" where
  "rt_thread_idle_entry call cleanup hooks s = rt_thread_idle_excute cleanup (fold (\<lambda>h s. if h \<noteq> 0 then call h s else s) hooks s)"

text \<open>The idle thread is a static thread of the lowest priority; \<open>idle\<close> is the address of its control block, which is cleared at start.\<close>

definition rt_thread_idle_init :: "nat \<Rightarrow> tsys \<Rightarrow> tsys option" where
  "rt_thread_idle_init idle s =
     do { k \<leftarrow> rt_object_init idle RT_Object_Class_Thread ''tidle0'' (ks s);
          Some (s\<lparr>ks := k\<lparr>sys_kern := rt_thread_startup idle (rt_thread_init idle 31 32 True (sys_kern k))\<rparr>\<rparr>) }"

definition rt_thread_find :: "string \<Rightarrow> tsys \<Rightarrow> tsys \<times> nat option" where
  "rt_thread_find name s =
     (let self = rt_current_thread (tkern s) \<noteq> None;
          s = (if self then s\<lparr>ks := (ks s)\<lparr>sys_kern := rt_enter_critical (tkern s)\<rparr>\<rparr> else s);
          r = find (\<lambda>p. oname (ks s) p = clip_name name) (container (ks s) RT_Object_Class_Thread)
      in (if self then s\<lparr>ks := (ks s)\<lparr>sys_kern := rt_exit_critical (tkern s)\<rparr>\<rparr> else s, r))"

subsection \<open>What threads hold\<close>

definition dyn_threads :: "ksys \<Rightarrow> nat set" where
  "dyn_threads s = {p \<in> set (container s RT_Object_Class_Thread). otype s p = RT_Object_Class_Thread}"

definition threads_ok :: "kern \<Rightarrow> nat set \<Rightarrow> nat set \<Rightarrow> bool" where
  "threads_ok k T D \<longleftrightarrow>
     (\<forall>p \<in> D. \<not> is_systemobject (threads k p) \<and> \<not> has_cleanup (threads k p) \<and> (stat (threads k p) = RT_THREAD_CLOSE \<longleftrightarrow> p \<in> set (queues k Defunct)) \<and>
        queues k (Wait p) = [] \<and> queues k (WaitSend p) = []) \<and>
     set (queues k Defunct) \<subseteq> D \<and>
     (\<forall>p. p \<notin> T \<longrightarrow> stat (threads k p) = RT_THREAD_INIT \<or> stat (threads k p) = RT_THREAD_CLOSE)"

definition tinv :: "tsys \<Rightarrow> bool" where
  "tinv s \<longleftrightarrow> obj_inv (ks s) \<and>
     (\<forall>p \<in> dyn_threads (ks s). stack_addr s p \<in> fst ` allocated (theap s) \<and> stack_addr s p \<notin> live_objs (ks s)) \<and>
     inj_on (stack_addr s) (dyn_threads (ks s)) \<and>
     threads_ok (tkern s) (set (container (ks s) RT_Object_Class_Thread)) (dyn_threads (ks s))"

lemma zero_kinv:
  assumes "kinv k" "stat (threads k p) = RT_THREAD_INIT \<or> stat (threads k p) = RT_THREAD_CLOSE" "p \<notin> set (queues k Defunct)"
  shows "kinv (upd_thread p (\<lambda>_. zero_thread) k)"
proof -
  have "u \<noteq> p" if "u \<in> set (queues k l)" for u l
    using kinv_D(1) [OF assms(1) that] assms(2,3) that by (cases l) auto
  moreover have "ThreadTimer p \<notin> set (rt_timer_list k)" using kinv_D(7) [OF assms(1), of p] assms(2) by auto
  moreover have "\<not> live zero_thread" "stat zero_thread = RT_THREAD_INIT" by (simp_all add: live_def zero_thread_def)
  ultimately show ?thesis using assms(1) unfolding kinv_defs by auto
qed

lemma thread_class: "RT_Object_Class_Thread \<in> set rt_object_container"
  by (simp add: rt_object_container_def)

lemma obj_inv_kern:
  assumes "obj_inv s" "kinv k" "\<And>l. waiting l \<Longrightarrow> queues (sys_kern s) l = [] \<Longrightarrow> queues k l = []"
  shows "obj_inv (s\<lparr>sys_kern := k\<rparr>)"
  using assms(1,2) assms(3) [OF waiting_simps(1)] assms(3) [OF waiting_simps(2)] by (simp add: obj_inv_def live_objs_def registered_def)

lemma create_fail_keeps:
  assumes "tinv s" "obj_inv k" "allocated (sys_heap k) = allocated (theap s)" "container k = container (ks s)" "sys_kern k = tkern s"
    "\<forall>x \<in> live_objs (ks s). otype k x = otype (ks s) x"
  shows "tinv (s\<lparr>ks := k\<rparr>)"
proof -
  have l: "live_objs k = live_objs (ks s)" by (simp add: live_objs_def assms(4))
  have "dyn_threads k = dyn_threads (ks s)" using assms(4,6) by (auto simp: dyn_threads_def live_objs_def)
  then show ?thesis using assms l by (simp add: tinv_def)
qed

lemma init_threads_ok:
  assumes "threads_ok k T D" "p \<notin> T" "D \<subseteq> T" "p \<notin> set (queues k Defunct)" "queues k (Wait p) = []" "queues k (WaitSend p) = []"
  shows "threads_ok (rt_thread_init p prio tick0 False (upd_thread p (\<lambda>_. zero_thread) k)) (insert p T) (insert p D)"
  using assms by (auto simp: threads_ok_def rt_thread_init_def rt_timer_init_def Let_def rt_assert_def)

lemma init_sel:
  "queues (rt_thread_init p prio tick0 b k) = queues k" "stat (threads (rt_thread_init p prio tick0 b k) p) = RT_THREAD_INIT"
  "init_priority (threads (rt_thread_init p prio tick0 b k) p) = prio"
  by (simp_all add: rt_thread_init_def rt_timer_init_def Let_def rt_assert_def)

lemma create_ok:
  assumes "tinv s" "obj_inv k" "p \<notin> live_objs (ks s)" "p \<notin> fst ` allocated (theap s)" "allocated (sys_heap k) = insert (p, m) (allocated (theap s))"
    "container k = (container (ks s))(RT_Object_Class_Thread := p # container (ks s) RT_Object_Class_Thread)" "otype k p = RT_Object_Class_Thread"
    "sys_kern k = tkern s" "\<forall>x. x \<noteq> p \<longrightarrow> otype k x = otype (ks s) x"
    and h: "heap_inv h" "allocated h = insert (q, n) (allocated (sys_heap k))" "q \<notin> fst ` allocated (sys_heap k)" "same_heap (sys_heap k) h"
  shows "tinv \<lparr>ks = k\<lparr>sys_heap := h, sys_kern := rt_thread_init p prio tick0 False (upd_thread p (\<lambda>_. zero_thread) (tkern s))\<rparr>,
    stack_addr = (stack_addr s)(p := q)\<rparr>"
proof -
  define k2 where "k2 = rt_thread_init p prio tick0 False (upd_thread p (\<lambda>_. zero_thread) (tkern s))"
  have inv: "obj_inv (ks s)" "threads_ok (tkern s) (set (container (ks s) RT_Object_Class_Thread)) (dyn_threads (ks s))"
    "\<forall>x \<in> dyn_threads (ks s). stack_addr s x \<in> fst ` allocated (theap s) \<and> stack_addr s x \<notin> live_objs (ks s)"
    "inj_on (stack_addr s) (dyn_threads (ks s))" using assms(1) by (simp_all add: tinv_def)
  have np: "p \<notin> set (container (ks s) t)" for t using assms(3) by (auto simp: live_objs_def)
  have sub: "dyn_threads (ks s) \<subseteq> set (container (ks s) RT_Object_Class_Thread)" by (auto simp: dyn_threads_def)
  have nd: "p \<notin> set (queues (tkern s) Defunct)" "stat (threads (tkern s) p) = RT_THREAD_INIT \<or> stat (threads (tkern s) p) = RT_THREAD_CLOSE"
    using inv(2) np sub by (auto simp: threads_ok_def)
  have kk: "kinv k2" unfolding k2_def
    by (rule kinv_rt_thread_init [OF zero_kinv [OF obj_invD(2) [OF inv(1)] nd(2,1)]]) (simp add: zero_thread_def)
  have "obj_inv (k\<lparr>sys_heap := h\<rparr>)" using h by (intro obj_inv_heap [OF assms(2)]) auto
  then have o: "obj_inv (k\<lparr>sys_heap := h, sys_kern := k2\<rparr>)" using obj_inv_kern [OF _ kk, of "k\<lparr>sys_heap := h\<rparr>"] assms(8) by (simp add: k2_def init_sel)
  have dt: "dyn_threads k = insert p (dyn_threads (ks s))" using assms(6,7,9) np by (simp add: dyn_threads_def) fastforce
  have lo: "live_objs k = insert p (live_objs (ks s))" unfolding live_objs_def assms(6) by (auto split: if_splits) metis
  have "in_heap (sys_heap k) q" using allocated_in_heap [OF h(1), of q n] h(2) in_heap_same [OF h(4)] by simp
  then have ql: "q \<notin> live_objs k" using fresh_not_live [OF assms(2) h(3)] by simp
  have st: "((stack_addr s)(p := q)) x \<in> fst ` allocated h \<and> ((stack_addr s)(p := q)) x \<notin> live_objs k" if "x \<in> dyn_threads k" for x
    using that inv(3) ql assms(4,5) h(2) unfolding dt lo by (cases "x = p") force+
  have "q \<notin> stack_addr s ` dyn_threads (ks s)" using inv(3) h(3) assms(5) by force
  moreover have pd: "p \<notin> dyn_threads (ks s)" using sub np by blast
  ultimately have inj: "inj_on ((stack_addr s)(p := q)) (dyn_threads k)"
    using inv(4) unfolding dt by (auto simp: inj_on_insert intro: inj_on_fun_updI)
  have "threads_ok k2 (set (container k RT_Object_Class_Thread)) (dyn_threads k)"
    using init_threads_ok [OF inv(2) np sub nd(1) obj_invD(5,6) [OF inv(1) assms(3)]] by (simp add: k2_def assms(6) dt)
  then show ?thesis using o st inj unfolding tinv_def k2_def [symmetric] by (simp add: dyn_threads_def live_objs_def)
qed

lemma create_spec:
  assumes "tinv s" "osize RT_Object_Class_Thread \<le> 2 ^ 32 - 8" "stack_size \<le> 2 ^ 32 - 8" "priority < 32"
  obtains (fail) s' where "rt_thread_create osize name stack_size priority ticks s = Some (s', 0)" "tinv s'"
      "allocated (theap s') = allocated (theap s)" "container (ks s') = container (ks s)" "tkern s' = tkern s"
  | (success) s' p q m n where "rt_thread_create osize name stack_size priority ticks s = Some (s', p)" "p \<noteq> 0" "tinv s'"
      "allocated (theap s') = insert (p, m) (insert (q, n) (allocated (theap s)))" "p \<notin> fst ` allocated (theap s)" "q \<notin> fst ` allocated (theap s)" "p \<noteq> q"
      "osize RT_Object_Class_Thread \<le> m" "stack_size \<le> n" "stack_addr s' = (stack_addr s)(p := q)" "p \<notin> live_objs (ks s)"
      "container (ks s') = (container (ks s))(RT_Object_Class_Thread := p # container (ks s) RT_Object_Class_Thread)"
      "otype (ks s') p = RT_Object_Class_Thread" "stat (threads (tkern s') p) = RT_THREAD_INIT" "init_priority (threads (tkern s') p) = priority"
      "queues (tkern s') = queues (tkern s)" "\<forall>a. q \<le> a \<and> a < q + stack_size \<longrightarrow> bytes (theap s') a = 35"
proof -
  have inv: "obj_inv (ks s)" "threads_ok (tkern s) (set (container (ks s) RT_Object_Class_Thread)) (dyn_threads (ks s))" using assms(1) by (simp_all add: tinv_def)
  from inv(1) thread_class show thesis
  proof (cases rule: allocate_cases [where osize = osize and name = name])
    case fail
    then show thesis using that(1) [of s] assms(1) by (simp add: rt_thread_create_def)
  next
    case (success k p m)
    have np: "p \<notin> set (container (ks s) t)" for t using success(4) by (auto simp: live_objs_def)
    have qs: "queues (tkern s) (Wait p) = []" "queues (tkern s) (WaitSend p) = []" using obj_invD(5,6) [OF inv(1) success(4)] by simp_all
    from obj_invD(1) [OF success(3)] show thesis
    proof (cases rule: malloc_spec [where n = stack_size])
      case fail
      have "p \<in> set (container k RT_Object_Class_Thread)" "(p, m) \<in> allocated (sys_heap k)" using success by simp_all
      then obtain k' where k': "rt_object_delete p k = Some k'" "obj_inv k'" "allocated (sys_heap k') = allocated (sys_heap k) - {(p, m)}"
          "container k' = (\<lambda>u. removeAll p (container k u))" "sys_kern k' = sys_kern k"
        using object_delete_spec [OF success(3) _ success(9)] qs success(11) by metis
      have c: "container k' = container (ks s)" unfolding k'(4) success(8) using np by (auto simp: fun_eq_iff)
      have a: "allocated (sys_heap k') = allocated (theap s)" using k'(3) success(5,6) by force
      have o: "\<forall>x \<in> live_objs (ks s). otype k' x = otype (ks s) x"
        using k'(1) success(4,14) by (auto simp: rt_object_delete_def unlink_object_def Let_def split: if_splits Option.bind_splits)
      have t: "tinv (s\<lparr>ks := k'\<rparr>)" using create_fail_keeps [OF assms(1) k'(2) a c _ o] k'(5) success(11) by simp
      have "k\<lparr>sys_heap := sys_heap k\<rparr> = k" by simp
      then have "rt_thread_create osize name stack_size priority ticks s = Some (s\<lparr>ks := k'\<rparr>, 0)"
        using success(1,2) fail(1) k'(1) by (simp add: rt_thread_create_def)
      then show thesis using that(1) t a c k'(5) success(11) by simp
    next
      case m2: (success h q n)
      define k2 where "k2 = rt_thread_init p priority ticks False (upd_thread p (\<lambda>_. zero_thread) (tkern s))"
      define h2 where "h2 = h\<lparr>bytes := rt_memset q 35 stack_size (bytes h)\<rparr>"
      define s' where "s' = \<lparr>ks = k\<lparr>sys_heap := h2, sys_kern := k2\<rparr>, stack_addr = (stack_addr s)(p := q)\<rparr>"
      have e: "rt_thread_create osize name stack_size priority ticks s = Some (s', p)"
        using success(1,2,11) m2(1,2) assms(4) by (simp add: rt_thread_create_def s'_def k2_def h2_def)
      have h2: "heap_inv h2" "allocated h2 = insert (q, n) (allocated (sys_heap k))" "same_heap (sys_heap k) h2"
        using m2(3,4,7) by (simp_all add: h2_def same_heap_def)
      have t: "tinv s'" unfolding s'_def k2_def
        by (rule create_ok [OF assms(1) success(3,4,5,6,8,9,11) _ h2(1,2) m2(5) h2(3)]) (use success(14) in blast)
      have al: "osize RT_Object_Class_Thread \<le> m" "stack_size \<le> n"
        using success(7) m2(6) align32_ge(1) [OF assms(2)] align32_ge(1) [OF assms(3)] by linarith+
      have "q \<notin> fst ` allocated (theap s)" "p \<noteq> q" using m2(5) success(6) by auto
      then show thesis using that(2) [of s' p m q n] e t success(2,4,5,6,8,9) h2(2) al
        by (auto simp: s'_def k2_def init_sel h2_def rt_memset_eq filled_def insert_commute)
    qed
  qed
qed

subsection \<open>Threads that end\<close>

lemma schedule_close:
  assumes "kinv k"
  shows "stat (threads (rt_schedule k) u) = RT_THREAD_CLOSE \<longleftrightarrow> stat (threads k u) = RT_THREAD_CLOSE"
proof (cases "rt_current_thread k")
  case None
  then show ?thesis by (simp add: rt_schedule_def)
next
  case (Some c)
  have r: "stat (threads (rt_schedule k) u) \<noteq> RT_THREAD_CLOSE" if "stat (threads k u) \<noteq> RT_THREAD_CLOSE"
    using assms Some
  proof (cases rule: rt_schedule_cases)
    case (stay k0) then show ?thesis using that by (auto simp: sched_stay_sel)
  next
    case (switch k0 to) then show ?thesis using that by (auto simp: sched_switch_sel)
  qed (use that in simp)
  then show ?thesis using rt_schedule_core(2) [OF assms, of u] by fastforce
qed

lemma threads_ok_schedule:
  assumes "kinv k" "threads_ok k T D"
  shows "threads_ok (rt_schedule k) T D"
proof -
  have "is_systemobject (threads (rt_schedule k) u) = is_systemobject (threads k u)" "has_cleanup (threads (rt_schedule k) u) = has_cleanup (threads k u)"
    for u using rt_schedule_core(1) [OF assms(1), of u] by (simp_all add: thread_core_def)
  moreover have "stat (threads (rt_schedule k) u) = stat (threads k u)" if "stat (threads k u) = RT_THREAD_INIT" for u
    using rt_schedule_core(2) [OF assms(1), of u] that by simp
  ultimately show ?thesis using assms(2) schedule_close [OF assms(1)] rt_schedule_wait [OF assms(1)] unfolding threads_ok_def by (simp; blast)
qed

lemma exit_critical_ok:
  assumes "kinv k"
  shows "threads_ok k T D \<Longrightarrow> threads_ok (rt_exit_critical k) T D"
    "\<not> (\<exists>p. l = Ready p) \<Longrightarrow> queues (rt_exit_critical k) l = queues k l"
proof -
  define k1 where "k1 = k\<lparr>lock_nest := lock_nest k - 1\<rparr>"
  have k: "kinv k1" using assms by (simp add: k1_def)
  have e: "rt_exit_critical k = rt_schedule k1 \<or> rt_exit_critical k = k1" by (auto simp: rt_exit_critical_def k1_def Let_def)
  have t: "threads_ok k1 T D = threads_ok k T D" by (simp add: threads_ok_def k1_def)
  show "threads_ok k T D \<Longrightarrow> threads_ok (rt_exit_critical k) T D" using threads_ok_schedule [OF k, of T D] e t by auto
  show "\<not> (\<exists>p. l = Ready p) \<Longrightarrow> queues (rt_exit_critical k) l = queues k l"
    using rt_schedule_wait [OF k, of l] e by (auto simp: k1_def)
qed

lemma tinvD:
  assumes "tinv s"
  shows "obj_inv (ks s)" "inj_on (stack_addr s) (dyn_threads (ks s))"
    "threads_ok (tkern s) (set (container (ks s) RT_Object_Class_Thread)) (dyn_threads (ks s))"
    "p \<in> dyn_threads (ks s) \<Longrightarrow> stack_addr s p \<in> fst ` allocated (theap s)"
    "p \<in> dyn_threads (ks s) \<Longrightarrow> stack_addr s p \<notin> live_objs (ks s)"
  using assms by (auto simp: tinv_def)

lemma dyn_threadD:
  assumes "tinv s" "p \<in> dyn_threads (ks s)"
  shows "deletable RT_Object_Class_Thread p (ks s)" "\<not> rt_object_is_systemobject p (ks s)" "p \<in> fst ` allocated (theap s)"
    "p \<in> live_objs (ks s)" "p \<in> set (container (ks s) RT_Object_Class_Thread)" "otype (ks s) p = RT_Object_Class_Thread"
proof -
  show c: "p \<in> set (container (ks s) RT_Object_Class_Thread)" "otype (ks s) p = RT_Object_Class_Thread" using assms(2) by (simp_all add: dyn_threads_def)
  then show "p \<in> live_objs (ks s)" by (auto simp: live_objs_def)
  note r = obj_invD(4) [OF tinvD(1) [OF assms(1)] c(1)]
  show n: "\<not> rt_object_is_systemobject p (ks s)" using registered_type(2) [OF r] c(2) by simp
  show "deletable RT_Object_Class_Thread p (ks s)" using registered_type(1) [OF r] r n by (simp add: deletable_def registered_def)
  show "p \<in> fst ` allocated (theap s)" using r c(2) by (auto simp: registered_def)
qed

lemma tinv_kern:
  assumes "tinv s" "kinv k" "\<And>l. waiting l \<Longrightarrow> queues (tkern s) l = [] \<Longrightarrow> queues k l = []"
    "threads_ok k (set (container (ks s) RT_Object_Class_Thread)) (dyn_threads (ks s))"
  shows "tinv (s\<lparr>ks := (ks s)\<lparr>sys_kern := k\<rparr>\<rparr>)"
  using assms obj_inv_kern [OF tinvD(1) [OF assms(1)] assms(2,3)] by (auto simp: tinv_def dyn_threads_def live_objs_def)

lemma delete_spec:
  assumes "tinv s" "p \<in> dyn_threads (ks s)"
  obtains s' where "thread_delete p s = Some s'" "tinv s'" "container (ks s') = container (ks s)" "theap s' = theap s" "otype (ks s') = otype (ks s)"
    "stack_addr s' = stack_addr s" "queues (tkern s') Defunct = (if p \<in> set (queues (tkern s) Defunct) then queues (tkern s) Defunct else p # queues (tkern s) Defunct)"
proof -
  define k where "k = rt_thread_delete p (tkern s)"
  note t = tinvD(3) [OF assms(1)]
  have d: "stat (threads (tkern s) p) = RT_THREAD_CLOSE \<longleftrightarrow> p \<in> set (queues (tkern s) Defunct)" using t assms(2) by (simp add: threads_ok_def)
  have q: "queues k Defunct = (if p \<in> set (queues (tkern s) Defunct) then queues (tkern s) Defunct else p # queues (tkern s) Defunct)"
    using d by (simp add: k_def rt_thread_delete_def Let_def rt_timer_detach_def rt_timer_remove_def)
  have w: "queues k l = []" if "waiting l" "queues (tkern s) l = []" for l
    using that by (auto simp: k_def rt_thread_delete_def Let_def rt_timer_detach_def rt_timer_remove_def)
  have "dyn_threads (ks s) \<subseteq> set (container (ks s) RT_Object_Class_Thread)" by (auto simp: dyn_threads_def)
  then have "threads_ok k (set (container (ks s) RT_Object_Class_Thread)) (dyn_threads (ks s))"
    using t assms(2) d by (auto simp: threads_ok_def k_def rt_thread_delete_def Let_def rt_timer_detach_def rt_timer_remove_def)
  then have "tinv (s\<lparr>ks := (ks s)\<lparr>sys_kern := k\<rparr>\<rparr>)"
    using tinv_kern [OF assms(1) kinv_rt_thread_delete [OF obj_invD(2) [OF tinvD(1) [OF assms(1)]], of p]] w by (simp add: k_def)
  then show thesis using that [of "s\<lparr>ks := (ks s)\<lparr>sys_kern := k\<rparr>\<rparr>"] dyn_threadD(1) [OF assms] q by (simp add: thread_delete_def k_def)
qed

lemma exit_spec:
  assumes "tinv s" "p \<in> dyn_threads (ks s)" "stat (threads (tkern s) p) = RT_THREAD_RUNNING"
  shows "tinv (thread_exit p s)" "queues (tkern (thread_exit p s)) Defunct = p # queues (tkern s) Defunct"
    "theap (thread_exit p s) = theap s" "container (ks (thread_exit p s)) = container (ks s)"
proof -
  define k where "k = rt_thread_exit p (tkern s)"
  define k1 where "k1 = close_thread p (rt_timer_detach (ThreadTimer p) (rt_schedule_remove_thread p (tkern s)))"
  note t = tinvD(3) [OF assms(1)] and kv = obj_invD(2) [OF tinvD(1) [OF assms(1)]]
  have e: "thread_exit p s = s\<lparr>ks := (ks s)\<lparr>sys_kern := k\<rparr>\<rparr>" using dyn_threadD(2) [OF assms(1,2)] by (simp add: thread_exit_def k_def Let_def)
  have ki: "k = rt_schedule k1" by (simp add: k_def k1_def rt_thread_exit_def Let_def)
  have dy: "\<not> is_systemobject (threads (tkern s) p)" "p \<notin> set (queues (tkern s) l)" for l
    using t assms(2) unlinked [OF kv] assms(3) by (auto simp: threads_ok_def)
  have k1: "kinv k1" using kinv_close_thread [OF kinv_x_closing [OF kv, of p]] assms(3) by (simp add: k1_def)
  have q: "queues k1 = (queues (tkern s))(Defunct := p # queues (tkern s) Defunct)"
    "threads k1 = (threads (tkern s))(p := (threads (tkern s) p)\<lparr>stat := RT_THREAD_CLOSE, stat_yield := False\<rparr>)"
    using dy by (auto simp: k1_def close_thread_def Let_def rt_timer_detach_def rt_timer_remove_def fun_eq_iff)
  have "dyn_threads (ks s) \<subseteq> set (container (ks s) RT_Object_Class_Thread)" by (auto simp: dyn_threads_def)
  then have ok: "threads_ok k1 (set (container (ks s) RT_Object_Class_Thread)) (dyn_threads (ks s))"
    using t assms(2) unfolding threads_ok_def q by auto
  have w: "queues k l = []" if "waiting l" "queues (tkern s) l = []" for l
  proof -
    have "queues k l = queues k1 l" using rt_schedule_wait [OF k1, of l] that(1) by (auto simp: ki waiting_def)
    then show ?thesis using that by (cases "l = Defunct") (simp_all add: q)
  qed
  show "tinv (thread_exit p s)" unfolding e
    by (rule tinv_kern [OF assms(1)]) (use kinv_rt_schedule [OF k1] threads_ok_schedule [OF k1 ok] w ki in auto)
  show "queues (tkern (thread_exit p s)) Defunct = p # queues (tkern s) Defunct"
    "theap (thread_exit p s) = theap s" "container (ks (thread_exit p s)) = container (ks s)"
    using rt_schedule_wait [OF k1, of Defunct] by (simp_all add: e ki q)
qed

subsection \<open>The idle thread\<close>

lemma take_defunct:
  assumes "kinv k" "queues k Defunct = t # ws"
  shows "kinv (rt_enter_critical (rt_list_remove t k))" "waiting l \<Longrightarrow> queues (rt_enter_critical (rt_list_remove t k)) l = queues k l"
    "queues (rt_enter_critical (rt_list_remove t k)) Defunct = ws"
proof -
  have "t \<notin> set (queues k l)" if "l \<noteq> Defunct" for l using assms that unfolding kinv_defs by (metis list.set_intros(1))
  then have r: "removeAll t (queues k l) = queues k l" if "l \<noteq> Defunct" for l using that by simp
  have d: "t \<notin> set ws" using kinv_D(10) [OF assms(1), of Defunct] assms(2) by simp
  have "kinv (rt_list_remove t k)" using assms(1) r by (auto simp: kinv_defs distinct_removeAll)
  then show "kinv (rt_enter_critical (rt_list_remove t k))" by (rule kinv_critical(1))
  show "waiting l \<Longrightarrow> queues (rt_enter_critical (rt_list_remove t k)) l = queues k l" using r [of l] by (cases "l = Defunct") (simp_all add: rt_enter_critical_def)
  show "queues (rt_enter_critical (rt_list_remove t k)) Defunct = ws" using assms(2) d by (simp add: rt_enter_critical_def)
qed

text \<open>The kernel behind one pass of the idle thread.\<close>

lemma idle_kern:
  assumes "tinv s" "queues (tkern s) Defunct = t # ws"
  defines "k' \<equiv> rt_exit_critical (rt_enter_critical (rt_list_remove t (tkern s)))"
  shows "kinv k'" "waiting l \<Longrightarrow> queues k' l = queues (tkern s) l" "queues k' Defunct = ws"
    "threads_ok k' (set (container (ks s) RT_Object_Class_Thread) - {t}) (dyn_threads (ks s) - {t})"
proof -
  note kv = obj_invD(2) [OF tinvD(1) [OF assms(1)]] and ok = tinvD(3) [OF assms(1)]
  define k1 where "k1 = rt_enter_critical (rt_list_remove t (tkern s))"
  note k1 = take_defunct [OF kv assms(2), folded k1_def]
  have k': "k' = rt_exit_critical k1" by (simp add: k'_def k1_def)
  show "kinv k'" unfolding k' by (rule kinv_critical(2) [OF k1(1)])
  show "waiting l \<Longrightarrow> queues k' l = queues (tkern s) l"
    using exit_critical_ok(2) [OF k1(1), of l] k1(2) [of l] by (auto simp: k' waiting_def)
  show "queues k' Defunct = ws" using exit_critical_ok(2) [OF k1(1), of Defunct] k1(3) by (simp add: k')
  have th: "threads k1 = threads (tkern s)" by (simp add: k1_def rt_enter_critical_def)
  have "stat (threads k1 t) = RT_THREAD_CLOSE" "t \<notin> set ws"
    using kinv_D(1) [OF kv, of t Defunct] kinv_D(10) [OF kv, of Defunct] assms(2) th by simp_all
  then have "threads_ok k1 (set (container (ks s) RT_Object_Class_Thread) - {t}) (dyn_threads (ks s) - {t})"
    using ok assms(2) k1(3) k1(2) [OF waiting_simps(1)] k1(2) [OF waiting_simps(2)] unfolding threads_ok_def th by auto
  then show "threads_ok k' (set (container (ks s) RT_Object_Class_Thread) - {t}) (dyn_threads (ks s) - {t})"
    unfolding k' by (rule exit_critical_ok(1) [OF k1(1)])
qed

lemma drop_blocks:
  assumes "\<And>l. (q, l) \<in> A \<Longrightarrow> l = n" "\<And>l. (t, l) \<in> A \<Longrightarrow> l = m"
  shows "A - {(q, n)} - {(t, m)} = {b \<in> A. fst b \<noteq> t \<and> fst b \<noteq> q}"
proof (rule set_eqI)
  fix b
  show "b \<in> A - {(q, n)} - {(t, m)} \<longleftrightarrow> b \<in> {b \<in> A. fst b \<noteq> t \<and> fst b \<noteq> q}"
    using assms(1) [of "snd b"] assms(2) [of "snd b"] by (cases b) auto
qed

lemma tinv_shrink:
  assumes "tinv s" "t \<in> dyn_threads (ks s)" "obj_inv b" "dyn_threads b = dyn_threads (ks s) - {t}" "container b = (\<lambda>u. removeAll t (container (ks s) u))"
    "allocated (sys_heap b) = {b \<in> allocated (theap s). fst b \<noteq> t \<and> fst b \<noteq> stack_addr s t}"
    "threads_ok (sys_kern b) (set (container (ks s) RT_Object_Class_Thread) - {t}) (dyn_threads (ks s) - {t})"
  shows "tinv (s\<lparr>ks := b\<rparr>)"
proof -
  note inv = tinvD [OF assms(1)]
  have "stack_addr s p \<in> fst ` allocated (sys_heap b) \<and> stack_addr s p \<notin> live_objs b" if "p \<in> dyn_threads (ks s) - {t}" for p
  proof
    have p: "p \<in> dyn_threads (ks s)" "p \<noteq> t" using that by simp_all
    have "stack_addr s p \<noteq> t" "stack_addr s p \<noteq> stack_addr s t"
      using inv(5) [OF p(1)] dyn_threadD(4) [OF assms(1,2)] inv(2) p assms(2) by (auto simp: inj_on_def)
    then show "stack_addr s p \<in> fst ` allocated (sys_heap b)" using inv(4) [OF p(1)] unfolding assms(6) by force
    show "stack_addr s p \<notin> live_objs b" using inv(5) [OF p(1)] by (auto simp: live_objs_def assms(5))
  qed
  moreover have "inj_on (stack_addr s) (dyn_threads (ks s) - {t})" using inv(2) by (rule inj_on_subset) simp
  moreover have "set (container b RT_Object_Class_Thread) = set (container (ks s) RT_Object_Class_Thread) - {t}" by (simp add: assms(5))
  ultimately show ?thesis using assms(3,4,7) by (simp add: tinv_def)
qed

lemma idle_pass_spec:
  assumes "tinv s" "queues (tkern s) Defunct = t # ws"
  obtains s' where "idle_pass cleanup s = Some (s', True)" "tinv s'" "queues (tkern s') Defunct = ws" "stack_addr s' = stack_addr s"
    "allocated (theap s') = {b \<in> allocated (theap s). fst b \<noteq> t \<and> fst b \<noteq> stack_addr s t}"
    "container (ks s') = (\<lambda>u. removeAll t (container (ks s) u))" "dyn_threads (ks s') = dyn_threads (ks s) - {t}"
proof -
  note inv = tinvD [OF assms(1)] and hv = obj_invD(1) [OF tinvD(1) [OF assms(1)]]
  have t: "t \<in> dyn_threads (ks s)" "\<not> has_cleanup (threads (tkern s) t)" "queues (tkern s) (Wait t) = []" "queues (tkern s) (WaitSend t) = []"
    using inv(3) assms(2) by (auto simp: threads_ok_def)
  note d = dyn_threadD [OF assms(1) t(1)]
  define k1 where "k1 = rt_enter_critical (rt_list_remove t (tkern s))"
  note k2 = idle_kern [OF assms, folded k1_def]
  define a where "a = (ks s)\<lparr>sys_kern := rt_exit_critical k1\<rparr>"
  have oa: "obj_inv a" unfolding a_def by (rule obj_inv_kern [OF inv(1) k2(1)]) (use k2(2) in simp)
  obtain n m where n: "(stack_addr s t, n) \<in> allocated (theap s)" and m: "(t, m) \<in> allocated (theap s)" using inv(4) [OF t(1)] d(3) by auto
  obtain h where h: "rt_free (stack_addr s t) (theap s) = Some h" "heap_inv h" "allocated h = allocated (theap s) - {(stack_addr s t, n)}"
    "same_heap (theap s) h" using free_spec [OF hv n] by blast
  have sl: "stack_addr s t \<noteq> t" "stack_addr s t \<notin> live_objs a" using inv(5) [OF t(1)] d(4) by (auto simp: a_def live_objs_def)
  have ob: "obj_inv (a\<lparr>sys_heap := h\<rparr>)" by (rule obj_inv_heap [OF oa h(2)]) (use h(3,4) sl(2) in \<open>auto simp: a_def\<close>)
  have mh: "(t, m) \<in> allocated h" using m h(3) sl(1) by auto
  obtain b where b: "rt_object_delete t (a\<lparr>sys_heap := h\<rparr>) = Some b" "obj_inv b" "allocated (sys_heap b) = allocated h - {(t, m)}"
      "container b = (\<lambda>u. removeAll t (container (ks s) u))" "sys_kern b = rt_exit_critical k1"
    by (rule object_delete_spec [OF ob, of t RT_Object_Class_Thread m])
      (use mh d(5,6) t(3,4) k2(2) [OF waiting_simps(1)] k2(2) [OF waiting_simps(2)] in \<open>simp_all add: a_def\<close>)
  have e: "idle_pass cleanup s = Some (s\<lparr>ks := b\<rparr>, True)"
  proof -
    have "\<not> has_cleanup (threads k1 t)" using t(2) by (simp add: k1_def rt_enter_critical_def)
    moreover have "(ks s)\<lparr>sys_kern := rt_exit_critical k1, sys_heap := h\<rparr> = a\<lparr>sys_heap := h\<rparr>" by (simp add: a_def)
    ultimately show ?thesis using assms(2) d(2) h(1) b(1)
      by (simp add: idle_pass_def Let_def k1_def [symmetric] rt_object_is_systemobject_def)
  qed
  have al: "allocated (sys_heap b) = {b \<in> allocated (theap s). fst b \<noteq> t \<and> fst b \<noteq> stack_addr s t}"
    unfolding b(3) h(3) by (rule drop_blocks) (use allocated_unique [OF hv] n m in blast)+
  have ot: "otype b x = otype (ks s) x" if "x \<noteq> t" for x
    using b(1) that by (auto simp: a_def rt_object_delete_def unlink_object_def Let_def split: if_splits Option.bind_splits)
  have dt: "dyn_threads b = dyn_threads (ks s) - {t}" using ot by (auto simp: dyn_threads_def b(4))
  have "tinv (s\<lparr>ks := b\<rparr>)" by (rule tinv_shrink [OF assms(1) t(1) b(2) dt b(4) al]) (use k2(4) b(5) in simp)
  then show thesis using that [OF e] al b(4,5) dt k2(3) by simp
qed

subsection \<open>Hooks, the idle thread itself, search\<close>

lemma replace_first_spec:
  "replace_first a b xs = Some ys \<Longrightarrow> mset ys = add_mset b (mset xs - {#a#}) \<and> length ys = length xs"
  "replace_first a b xs = None \<longleftrightarrow> a \<notin> set xs"
  by (induction xs arbitrary: ys) (auto split: if_splits)

lemma idle_hooks:
  assumes "hook \<noteq> 0"
  shows "snd (rt_thread_idle_sethook hook hs) = (if 0 \<in> set hs then RT_EOK else RT_EFULL)"
    "0 \<in> set hs \<Longrightarrow> mset (fst (rt_thread_idle_sethook hook hs)) = add_mset hook (mset hs - {#0#})"
    "snd (rt_thread_idle_delhook hook hs) = (if hook \<in> set hs then RT_EOK else RT_ENOSYS)"
    "hook \<in> set hs \<Longrightarrow> mset (fst (rt_thread_idle_delhook hook hs)) = add_mset 0 (mset hs - {#hook#})"
    "mset (fst (rt_thread_idle_delhook hook (fst (rt_thread_idle_sethook hook hs)))) =
       (if 0 \<in> set hs then mset hs else mset (fst (rt_thread_idle_delhook hook hs)))"
proof -
  show s: "snd (rt_thread_idle_sethook hook hs) = (if 0 \<in> set hs then RT_EOK else RT_EFULL)"
    "0 \<in> set hs \<Longrightarrow> mset (fst (rt_thread_idle_sethook hook hs)) = add_mset hook (mset hs - {#0#})" for hs
    using replace_first_spec(1) [of 0 hook hs] replace_first_spec(2) [of 0 hook hs] by (auto simp: rt_thread_idle_sethook_def split: option.splits)
  show d: "snd (rt_thread_idle_delhook hook hs) = (if hook \<in> set hs then RT_EOK else RT_ENOSYS)"
    "hook \<in> set hs \<Longrightarrow> mset (fst (rt_thread_idle_delhook hook hs)) = add_mset 0 (mset hs - {#hook#})" for hs
    using replace_first_spec(1) [of hook 0 hs] replace_first_spec(2) [of hook 0 hs] by (auto simp: rt_thread_idle_delhook_def split: option.splits)
  show "mset (fst (rt_thread_idle_delhook hook (fst (rt_thread_idle_sethook hook hs)))) =
       (if 0 \<in> set hs then mset hs else mset (fst (rt_thread_idle_delhook hook hs)))"
  proof (cases "0 \<in> set hs")
    case True
    have "hook \<in> set (fst (rt_thread_idle_sethook hook hs))" using s(2) [OF True] by (metis union_single_eq_member set_mset_mset)
    then show ?thesis using d(2) s(2) [OF True] True by simp
  next
    case False
    then have "fst (rt_thread_idle_sethook hook hs) = hs" using replace_first_spec(2) [of 0 hook hs] by (auto simp: rt_thread_idle_sethook_def)
    then show ?thesis using False by simp
  qed
qed

lemma find_keeps:
  assumes "tinv s"
  shows "tinv (fst (rt_thread_find name s))" "snd (rt_thread_find name s) = rt_object_find name RT_Object_Class_Thread (ks s)"
    "theap (fst (rt_thread_find name s)) = theap s" "container (ks (fst (rt_thread_find name s))) = container (ks s)"
proof -
  define k where "k = rt_exit_critical (rt_enter_critical (tkern s))"
  have ke: "kinv (rt_enter_critical (tkern s))" by (rule kinv_critical(1) [OF obj_invD(2) [OF tinvD(1) [OF assms]]])
  have e: "queues (rt_enter_critical (tkern s)) = queues (tkern s)" "threads (rt_enter_critical (tkern s)) = threads (tkern s)"
    by (simp_all add: rt_enter_critical_def)
  have ok: "threads_ok k (set (container (ks s) RT_Object_Class_Thread)) (dyn_threads (ks s))" unfolding k_def
    by (rule exit_critical_ok(1) [OF ke]) (use tinvD(3) [OF assms] in \<open>simp add: threads_ok_def e\<close>)
  have "queues k l = queues (tkern s) l" if "waiting l" for l
    using exit_critical_ok(2) [OF ke, of l] that e by (auto simp: k_def waiting_def)
  then have "tinv (s\<lparr>ks := (ks s)\<lparr>sys_kern := k\<rparr>\<rparr>)" using tinv_kern [OF assms kinv_critical(2) [OF ke]] ok by (simp add: k_def)
  moreover have "fst (rt_thread_find name s) = s \<or> fst (rt_thread_find name s) = s\<lparr>ks := (ks s)\<lparr>sys_kern := k\<rparr>\<rparr>"
    by (simp add: rt_thread_find_def Let_def k_def)
  ultimately show "tinv (fst (rt_thread_find name s))" "theap (fst (rt_thread_find name s)) = theap s"
    "container (ks (fst (rt_thread_find name s))) = container (ks s)" using assms by auto
  show "snd (rt_thread_find name s) = rt_object_find name RT_Object_Class_Thread (ks s)"
    by (simp add: rt_thread_find_def Let_def rt_object_find_def class_bits [OF thread_class])
qed

lemma idle_init_spec:
  assumes "tinv s" "idle \<noteq> 0" "\<not> in_heap (theap s) idle" "idle \<notin> live_objs (ks s)" "stat (threads (tkern s) idle) = RT_THREAD_INIT"
    "rt_current_thread (tkern s) = None"
  shows "\<exists>s'. rt_thread_idle_init idle s = Some s' \<and> tinv s' \<and> idle \<in> set (queues (tkern s') (Ready 31)) \<and> allocated (theap s') = allocated (theap s)"
proof -
  note inv = tinvD [OF assms(1)] and kv = obj_invD(2) [OF tinvD(1) [OF assms(1)]]
  define b where "b = (ks s)\<lparr>otype := (otype (ks s))(idle := RT_Object_Class_Thread OR RT_Object_Class_Static),
    oname := (oname (ks s))(idle := clip_name ''tidle0''), container := (container (ks s))(RT_Object_Class_Thread := idle # container (ks s) RT_Object_Class_Thread)\<rparr>"
  define k where "k = rt_thread_startup idle (rt_thread_init idle 31 32 True (tkern s))"
  have c: "idle \<notin> set (container (ks s) t)" for t using assms(4) by (auto simp: live_objs_def)
  then have e: "rt_object_init idle RT_Object_Class_Thread ''tidle0'' (ks s) = Some b"
    by (simp add: rt_object_init_def class_bits [OF thread_class] b_def)
  have ob: "obj_inv b" by (rule static_init_inv [OF inv(1) thread_class assms(2-4) e])
  have kk: "kinv k" unfolding k_def by (rule kinv_rt_thread_startup [OF kinv_rt_thread_init [OF kv assms(5)]]) (simp_all add: init_sel)
  have nq: "idle \<notin> set (queues (tkern s) l)" for l using unlinked [OF kv] assms(5) by blast
  have q: "queues k = (queues (tkern s))(Ready 31 := queues (tkern s) (Ready 31) @ [idle])"
    using nq assms(6) by (simp add: k_def rt_thread_startup_def rt_thread_resume_def rt_schedule_insert_thread_def rt_thread_init_def
        rt_timer_init_def rt_timer_stop_def rt_timer_remove_def rt_assert_def set_stat_def Let_def fun_eq_iff)
  have th: "threads k x = threads (tkern s) x" if "x \<noteq> idle" for x
    using that assms(6) by (simp add: k_def rt_thread_startup_def rt_thread_resume_def rt_schedule_insert_thread_def rt_thread_init_def
        rt_timer_init_def rt_timer_stop_def rt_timer_remove_def rt_assert_def set_stat_def Let_def)
  have dt: "dyn_threads b = dyn_threads (ks s)" "idle \<notin> dyn_threads (ks s)" using c by (auto simp: dyn_threads_def b_def)
  have lo: "live_objs b = insert idle (live_objs (ks s))" unfolding live_objs_def b_def by (auto split: if_splits) metis
  have "stack_addr s p \<noteq> idle" if "p \<in> dyn_threads (ks s)" for p
    using inv(4) [OF that] allocated_in_heap [OF obj_invD(1) [OF inv(1)]] assms(3) by fastforce
  then have st: "\<forall>p \<in> dyn_threads (ks s). stack_addr s p \<in> fst ` allocated (theap s) \<and> stack_addr s p \<notin> live_objs b" using inv(4,5) lo by auto
  have "threads k x = threads (tkern s) x" if "x \<in> dyn_threads (ks s)" for x using th dt(2) that by metis
  then have ok: "threads_ok k (insert idle (set (container (ks s) RT_Object_Class_Thread))) (dyn_threads (ks s))"
    using inv(3) dt(2) th unfolding threads_ok_def by (auto simp: q)
  have oi: "obj_inv (b\<lparr>sys_kern := k\<rparr>)" by (rule obj_inv_kern [OF ob kk]) (auto simp: q b_def)
  have "rt_thread_idle_init idle s = Some (s\<lparr>ks := b\<lparr>sys_kern := k\<rparr>\<rparr>)" using e by (simp add: rt_thread_idle_init_def k_def b_def)
  moreover have "tinv (s\<lparr>ks := b\<lparr>sys_kern := k\<rparr>\<rparr>)"
    using oi st inv(2) ok dt(1) unfolding tinv_def by (simp add: dyn_threads_def live_objs_def b_def)
  ultimately show ?thesis by (auto simp: q b_def)
qed

text \<open>Detaching a static thread that has no clean-up function.\<close>

lemma detach_spec:
  assumes "tinv s" "p \<in> set (container (ks s) RT_Object_Class_Thread)" "rt_object_is_systemobject p (ks s)" "is_systemobject (threads (tkern s) p)"
    "\<not> has_cleanup (threads (tkern s) p)" "stat (threads (tkern s) p) \<noteq> RT_THREAD_CLOSE"
    "queues (tkern s) (Wait p) = []" "queues (tkern s) (WaitSend p) = []"
  shows "\<exists>s'. thread_detach p s = Some s' \<and> tinv s' \<and> theap s' = theap s \<and> container (ks s') = (\<lambda>u. removeAll p (container (ks s) u)) \<and>
     queues (tkern s') = (\<lambda>l. removeAll p (queues (tkern s) l)) \<and> stat (threads (tkern s') p) = RT_THREAD_CLOSE"
proof -
  note inv = tinvD [OF assms(1)] and kv = obj_invD(2) [OF tinvD(1) [OF assms(1)]] and r = obj_invD(4) [OF tinvD(1) [OF assms(1)] assms(2)]
  define k where "k = rt_thread_detach p (tkern s)"
  define b where "b = unlink_object p ((ks s)\<lparr>sys_kern := k\<rparr>)"
  have i: "p \<notin> set (queues (tkern s) l)" if "stat (threads (tkern s) p) = RT_THREAD_INIT" for l using unlinked [OF kv] that by blast
  have q: "queues k = (\<lambda>l. removeAll p (queues (tkern s) l))"
    using assms(4-6) i by (auto simp: k_def rt_thread_detach_def close_thread_def Let_def rt_timer_detach_def rt_timer_remove_def fun_eq_iff)
  have th: "threads k = (threads (tkern s))(p := (threads (tkern s) p)\<lparr>stat := RT_THREAD_CLOSE, stat_yield := False\<rparr>)"
    using assms(4-6) by (auto simp: k_def rt_thread_detach_def close_thread_def Let_def rt_timer_detach_def rt_timer_remove_def fun_eq_iff)
  have e: "thread_detach p s = Some (s\<lparr>ks := b\<rparr>)"
    using assms(3,5,6) registered_type(1) [OF r] r by (simp add: thread_detach_def b_def k_def Let_def registered_def)
  have "obj_inv ((ks s)\<lparr>sys_kern := k\<rparr>)" by (rule obj_inv_kern [OF inv(1)]) (use kinv_rt_thread_detach [OF kv] q in \<open>simp_all add: k_def\<close>)
  then have ob: "obj_inv b" by (rule detach_inv [of _ p]) (use assms(7,8) r in \<open>simp_all add: q b_def rt_object_detach_def registered_def\<close>)
  have pd: "p \<notin> dyn_threads (ks s)" using dyn_threadD(2) [OF assms(1)] assms(3) by blast
  then have dt: "dyn_threads b = dyn_threads (ks s)" by (auto simp: dyn_threads_def b_def unlink_object_def)
  have lo: "live_objs b \<subseteq> live_objs (ks s)" by (auto simp: live_objs_def b_def unlink_object_def)
  have "p \<notin> set (queues (tkern s) Defunct)" using inv(3) pd by (auto simp: threads_ok_def)
  then have "threads_ok k (set (container b RT_Object_Class_Thread)) (dyn_threads b)"
    using inv(3) pd unfolding dt threads_ok_def q th by (auto simp: b_def unlink_object_def)
  then have "tinv (s\<lparr>ks := b\<rparr>)" using ob inv dt lo unfolding tinv_def by (auto simp: b_def unlink_object_def)
  then show ?thesis using e by (simp add: b_def unlink_object_def q th)
qed

lemma idle_loop_spec:
  assumes "tinv s" "length (queues (tkern s) Defunct) \<le> n"
  shows "\<exists>s'. idle_loop cleanup n s = Some s' \<and> tinv s' \<and> queues (tkern s') Defunct = [] \<and> stack_addr s' = stack_addr s \<and>
     dyn_threads (ks s') = dyn_threads (ks s) - set (queues (tkern s) Defunct) \<and>
     container (ks s') = (\<lambda>u. filter (\<lambda>p. p \<notin> set (queues (tkern s) Defunct)) (container (ks s) u)) \<and>
     allocated (theap s') = {b \<in> allocated (theap s). fst b \<notin> set (queues (tkern s) Defunct) \<union> stack_addr s ` set (queues (tkern s) Defunct)}"
  using assms
proof (induction n arbitrary: s)
  case (Suc n)
  show ?case
  proof (cases "queues (tkern s) Defunct")
    case (Cons t ws)
    from idle_pass_spec [OF Suc.prems(1) Cons] obtain s1 where
      s1: "idle_pass cleanup s = Some (s1, True)" "tinv s1" "queues (tkern s1) Defunct = ws" "stack_addr s1 = stack_addr s"
      "allocated (theap s1) = {b \<in> allocated (theap s). fst b \<noteq> t \<and> fst b \<noteq> stack_addr s t}"
      "container (ks s1) = (\<lambda>u. removeAll t (container (ks s) u))" "dyn_threads (ks s1) = dyn_threads (ks s) - {t}" by blast
    have "length (queues (tkern s1) Defunct) \<le> n" using Suc.prems(2) Cons s1(3) by simp
    from Suc.IH [OF s1(2) this] obtain s' where
      s': "idle_loop cleanup n s1 = Some s'" "tinv s'" "queues (tkern s') Defunct = []" "stack_addr s' = stack_addr s1"
      "dyn_threads (ks s') = dyn_threads (ks s1) - set ws" "container (ks s') = (\<lambda>u. filter (\<lambda>p. p \<notin> set ws) (container (ks s1) u))"
      "allocated (theap s') = {b \<in> allocated (theap s1). fst b \<notin> set ws \<union> stack_addr s1 ` set ws}" unfolding s1(3) by blast
    have "idle_loop cleanup (Suc n) s = Some s'" using s1(1) s'(1) Cons by simp
    moreover have "filter (\<lambda>p. p \<notin> set ws) (removeAll t xs) = filter (\<lambda>p. p \<notin> set (t # ws)) xs" for xs :: "nat list"
      by (induction xs) auto
    moreover have "allocated (theap s') = {b \<in> allocated (theap s). fst b \<notin> set (t # ws) \<union> stack_addr s ` set (t # ws)}"
      unfolding s'(7) s1(4,5) by auto
    ultimately show ?thesis using s' s1(4,6,7) unfolding Cons by auto
  qed (use Suc.prems in simp)
qed simp

subsection \<open>Properties\<close>

text \<open>
  C18. Threads on the heap, for every well-formed state, every priority below 32 and every stack of a size the heap can round up.
  \<open>rt_thread_create\<close> keeps the state well formed: it either gives 0 and leaves the kernel, the thread list and the set
  of blocks in use as they were, a control block without a stack given back included; or it registers a new
  thread in state INIT whose control block and stack are two new blocks, large enough, the stack filled with \<open>#\<close>.
  \<open>rt_thread_delete\<close> of any dynamic thread, whatever its state, puts it on the defunct list once, keeps the state well formed and
  gives nothing back; a running thread that returns does the same. \<open>rt_thread_idle_excute\<close> ends with an empty defunct list and has given back the control blocks and the
  stacks of exactly the threads that were on it.
\<close>

theorem threads_on_heap:
  assumes "tinv s" "osize RT_Object_Class_Thread \<le> 2 ^ 32 - 8" "stack_size \<le> 2 ^ 32 - 8" "priority < 32"
  shows "(\<exists>s' p. rt_thread_create osize name stack_size priority ticks s = Some (s', p) \<and> tinv s' \<and>
       (if p = 0 then tkern s' = tkern s \<and> container (ks s') = container (ks s) \<and> allocated (theap s') = allocated (theap s)
        else \<exists>m n. allocated (theap s') = allocated (theap s) \<union> {(p, m), (stack_addr s' p, n)} \<and> p \<noteq> stack_addr s' p \<and>
           p \<notin> fst ` allocated (theap s) \<and> stack_addr s' p \<notin> fst ` allocated (theap s) \<and>
           osize RT_Object_Class_Thread \<le> m \<and> stack_size \<le> n \<and> stat (threads (tkern s') p) = RT_THREAD_INIT \<and>
           init_priority (threads (tkern s') p) = priority \<and> queues (tkern s') = queues (tkern s) \<and>
           container (ks s') RT_Object_Class_Thread = p # container (ks s) RT_Object_Class_Thread \<and>
           (\<forall>a. stack_addr s' p \<le> a \<and> a < stack_addr s' p + stack_size \<longrightarrow> bytes (theap s') a = 35))) \<and>
     (\<forall>p \<in> dyn_threads (ks s). \<exists>s'. thread_delete p s = Some s' \<and> tinv s' \<and> theap s' = theap s \<and> container (ks s') = container (ks s) \<and>
       set (queues (tkern s') Defunct) = insert p (set (queues (tkern s) Defunct)) \<and> distinct (queues (tkern s') Defunct)) \<and>
     (\<forall>p \<in> dyn_threads (ks s). stat (threads (tkern s) p) = RT_THREAD_RUNNING \<longrightarrow>
       tinv (thread_exit p s) \<and> queues (tkern (thread_exit p s)) Defunct = p # queues (tkern s) Defunct \<and>
       theap (thread_exit p s) = theap s \<and> container (ks (thread_exit p s)) = container (ks s)) \<and>
     (\<exists>s'. rt_thread_idle_excute cleanup s = Some s' \<and> tinv s' \<and> queues (tkern s') Defunct = [] \<and>
       dyn_threads (ks s') = dyn_threads (ks s) - set (queues (tkern s) Defunct) \<and>
       allocated (theap s') =
         {b \<in> allocated (theap s). fst b \<notin> set (queues (tkern s) Defunct) \<union> stack_addr s ` set (queues (tkern s) Defunct)})"
    (is "?c \<and> ?d \<and> ?e \<and> ?i")
proof (intro conjI)
  from assms show ?c
  proof (cases rule: create_spec [where name = name and ticks = ticks])
    case (success s' p q m n)
    then have "allocated (theap s') = allocated (theap s) \<union> {(p, m), (q, n)}" by auto
    with success show ?thesis by (intro exI [of _ s'] exI [of _ p]) (simp, metis)
  qed auto
next
  show ?d
  proof
    fix p assume p: "p \<in> dyn_threads (ks s)"
    from assms(1) p obtain s' where s': "thread_delete p s = Some s'" "tinv s'" "container (ks s') = container (ks s)" "theap s' = theap s"
      "queues (tkern s') Defunct = (if p \<in> set (queues (tkern s) Defunct) then queues (tkern s) Defunct else p # queues (tkern s) Defunct)"
      by (rule delete_spec)
    moreover have "distinct (queues (tkern s') Defunct)" using kinv_D(10) [OF obj_invD(2) [OF tinvD(1) [OF s'(2)]]] .
    ultimately show "\<exists>s'. thread_delete p s = Some s' \<and> tinv s' \<and> theap s' = theap s \<and> container (ks s') = container (ks s) \<and>
         set (queues (tkern s') Defunct) = insert p (set (queues (tkern s) Defunct)) \<and> distinct (queues (tkern s') Defunct)" by (auto simp: insert_absorb)
  qed
next
  show ?e using exit_spec [OF assms(1)] by blast
next
  show ?i using idle_loop_spec [OF assms(1) order.refl, of cleanup] unfolding rt_thread_idle_excute_def by blast
qed


text \<open>A static thread with a clean-up function ends the idle thread's call, whatever is left on the list.\<close>

lemma idle_stops_at_static:
  assumes "queues (tkern s) Defunct = t # ws" "t \<noteq> 0" "rt_object_is_systemobject t (ks (cleanup t (s\<lparr>ks := (ks s)\<lparr>sys_kern := rt_enter_critical (rt_list_remove t (tkern s))\<rparr>\<rparr>)))"
    "has_cleanup (threads (tkern s) t)"
  shows "rt_thread_idle_excute cleanup s = map_option fst (idle_pass cleanup s)" "map_option snd (idle_pass cleanup s) = Some False"
  using assms by (simp_all add: rt_thread_idle_excute_def idle_pass_def Let_def rt_object_detach_def rt_enter_critical_def)

lemma loop_numeral:
  "next_free (numeral n) p s = (if used (hdr s p) \<and> p \<noteq> heap_end s then next_free (pred_numeral n) (nxt (hdr s p)) s else Some p)"
  "find_fit (numeral n) sz p s =
     (if p < sub32 (mem_size_aligned s) sz
      then (if \<not> used (hdr s p) \<and> sub32 (nxt (hdr s p)) (p + SIZEOF_STRUCT_MEM) \<ge> sz then Some (Some p) else find_fit (pred_numeral n) sz (nxt (hdr s p)) s)
      else Some None)"
  by (simp_all add: numeral_eq_Suc)

lemma heap_demo1_sel:
  "lfree heap_demo1 = 40" "mem_size_aligned heap_demo1 = 216" "heap_end heap_demo1 = 232" "heap_ptr heap_demo1 = 0x1008"
  "\<not> used (hdr heap_demo1 40)" "nxt (hdr heap_demo1 40) = 232"
proof -
  have a: "align32 20 = 24" by (simp add: align32_def)
  have h: "lfree heap_demo = 0" by (simp add: heap_demo_def rt_system_heap_init_def align32_def Let_def)
  have f: "find_fit 233 24 0 heap_demo = Some (Some 0)" by (simp add: loop_numeral heap_demo_sel sub32_def)
  have n: "next_free 233 0 (take_block 24 0 heap_demo) = Some 40"
    by (simp add: loop_numeral take_block_def heap_demo_sel Let_def count_used_def sub32_def)
  have e: "heap_demo1 = (take_block 24 0 heap_demo)\<lparr>lfree := 40\<rparr>" using f n by (simp add: heap_demo1_def rt_malloc_def a Let_def h heap_demo_sel)
  show "lfree heap_demo1 = 40" "mem_size_aligned heap_demo1 = 216" "heap_end heap_demo1 = 232" "heap_ptr heap_demo1 = 0x1008"
     "\<not> used (hdr heap_demo1 40)" "nxt (hdr heap_demo1 40) = 232"
    by (simp_all add: e take_block_def heap_demo_sel Let_def count_used_def sub32_def)
qed

lemma thread_demo_stack: "\<exists>h. rt_malloc 32 (heap_demo1\<lparr>bytes := f\<rparr>) = Some (h, 0x1040)"
proof -
  have a: "align32 32 = 32" by (simp add: align32_def)
  define g where "g = heap_demo1\<lparr>bytes := f\<rparr>"
  have s: "lfree g = 40" "mem_size_aligned g = 216" "heap_end g = 232" "heap_ptr g = 0x1008" "\<not> used (hdr g 40)" "nxt (hdr g 40) = 232"
    using heap_demo1_sel by (simp_all add: g_def)
  have f: "find_fit 233 32 40 g = Some (Some 40)" using s by (simp add: loop_numeral sub32_def)
  have n: "\<exists>l. next_free 233 40 (take_block 32 40 g) = Some l"
    using s by (simp add: loop_numeral take_block_def Let_def count_used_def sub32_def)
  show ?thesis using f n s unfolding g_def [symmetric] by (auto simp: rt_malloc_def a Let_def)
qed

definition thread_demo :: tsys where
  "thread_demo = \<lparr>ks = obj_demo, stack_addr = (\<lambda>_. 0)\<rparr>"

lemma thread_demo_inv: "tinv thread_demo" "queues (tkern thread_demo) Defunct = []"
proof -
  have "queues boot l = []" "stat (threads boot u) = RT_THREAD_INIT" for l u
    by (cases l) (simp_all add: boot_def rt_system_timer_init_def rt_system_scheduler_init_def zero_thread_def)
  then show "tinv thread_demo" "queues (tkern thread_demo) Defunct = []"
    using obj_demo_inv by (auto simp: tinv_def thread_demo_def dyn_threads_def threads_ok_def obj_demo_def)
qed

lemma thread_demo_create:
  "\<exists>s p. rt_thread_create (\<lambda>_. 20) ''t'' 32 10 20 thread_demo = Some (s, p) \<and> p \<noteq> 0"
proof -
  obtain h where "rt_malloc 32 (heap_demo1\<lparr>bytes := rt_memset 0x1018 0 20 (bytes heap_demo1)\<rparr>) = Some (h, 0x1040)" using thread_demo_stack by blast
  then show ?thesis using heap_demo1_malloc
    by (simp add: rt_thread_create_def thread_demo_def obj_demo_def rt_object_allocate_def class_bits [OF thread_class] Let_def)
qed

theorem threads_on_heap_witness:
  "\<exists>s' p. rt_thread_create (\<lambda>_. 20) ''t'' 32 10 20 thread_demo = Some (s', p) \<and> p \<noteq> 0 \<and> tinv s' \<and>
     stat (threads (tkern s') p) = RT_THREAD_INIT \<and> stack_addr s' p \<noteq> p"
proof -
  obtain s' p where c: "rt_thread_create (\<lambda>_. 20) ''t'' 32 10 20 thread_demo = Some (s', p)" "p \<noteq> 0" using thread_demo_create by blast
  have "tinv s' \<and> stat (threads (tkern s') p) = RT_THREAD_INIT \<and> stack_addr s' p \<noteq> p"
    using threads_on_heap [OF thread_demo_inv(1), where osize = "\<lambda>_. 20" and stack_size = 32 and priority = 10 and name = "''t''" and ticks = 20,
        THEN conjunct1] c by auto
  then show ?thesis using c by blast
qed


end
