(* ===== verification/Spec2Isabelle.thy ===== *)
theory Spec2Isabelle
  imports Ls1c_Clock Ls1c_Gpio Rt_System Rt_Mutex Rt_Event Rt_Mq Rt_Heap Rt_Ringbuffer Ls1c_Pwm App_Json Rt_Serial Ls1c_Uart Rt_Kmem Rt_Printf Rt_Object Rt_Can Ls1c_Spi Ls1c_I2c Rt_Dataqueue Rt_Device Rt_Thread
begin

text \<open>
  This library verifies the firmware of the kyoka mirror screen, a smart mirror on a Loongson 1C
  board (32-bit little-endian MIPS, one CPU) under RT-Thread 4.0.3. Paths are relative to
  \<^verbatim>\<open>src/\<close>.

  \<^bold>\<open>The program.\<close> Four application threads make the mirror (\<^verbatim>\<open>applications/\<close>): one fetches a calendar page
  over HTTP and stores its table cells, one reads the camera on a serial line and switches the
  display and its back light, one answers the commands of a phone application that arrive over
  the serial line of an ESP32 module, and one parses the account data in JSON which that thread
  mails to it. They run on the RT-Thread kernel (\<^verbatim>\<open>rt-thread/src/\<close>): preemptive priority scheduling,
  timers driven by the tick interrupt, blocking IPC objects, a heap, and the kernel's own memory,
  string and print functions. Data comes in through the serial device framework
  (\<^verbatim>\<open>rt-thread/components/drivers/\<close>) and the board drivers (\<^verbatim>\<open>drivers/\<close>), which program the peripherals
  through the register libraries of the chip (\<^verbatim>\<open>libraries/\<close>).

  \<^bold>\<open>The theories\<close>, from the bottom:

  \<^item> \<open>Prelude\<close>: C integers, the register bus with its locale \<open>register_file\<close> (a write is read back at its
    address and nowhere else), shared facts on bits and words. \<open>Fifo\<close>: the locale of a bounded
    first-in first-out store and what any interleaving of its operations delivers; mailboxes, ring
    buffers and the serial ring interpret it. \<open>C_Float\<close>: \<^verbatim>\<open>float\<close> and \<^verbatim>\<open>double\<close> as rationals with rounding.
  \<^item> \<open>Rt_Ffs\<close>: \<open>__rt_ffs\<close> of \<^verbatim>\<open>kservice.c\<close>. \<open>Rt_Kmem\<close>: its block and string functions, shown equal to the
    byte-wise operations. \<open>Rt_Printf\<close>: \<open>rt_vsnprintf\<close> and its relatives, shown to write a text given in
    closed form; decimal numbers are read back by \<open>skip_atoi\<close>.
  \<^item> \<open>Rt_Kernel\<close>: the state of the kernel (\<open>kern\<close>: thread and timer control blocks, ready queues and
    bitmap, waiting lists, timer list, tick, scheduler lock) and the operations of \<^verbatim>\<open>scheduler.c\<close>,
    \<^verbatim>\<open>thread.c\<close>, \<^verbatim>\<open>timer.c\<close> and \<^verbatim>\<open>clock.c\<close>. \<open>Rt_Kernel_Inv\<close>: the invariant \<open>kinv\<close> (every thread is in the one list
    its state says, the bitmap tells which queues are not empty, ...) and that all of them keep it.
    \<open>Rt_Timer_Check\<close>: order of the timer list across the wrap of the tick; the tick interrupt ends and
    fires exactly what is due. \<open>Rt_System\<close>: all states reachable from boot by kernel calls and ticks.
  \<^item> \<open>Rt_Ipc_List\<close>: the waiting lists of \<^verbatim>\<open>ipc.c\<close> with the locale \<open>wait_queue\<close> for the two queueing
    disciplines. \<open>Rt_Sem\<close>, \<open>Rt_Mutex\<close>, \<open>Rt_Event\<close>, \<open>Rt_Mailbox\<close>, \<open>Rt_Mq\<close>: one theory per kind of object, each
    with its operations, its invariant and a step relation in which any number of threads use the
    object while the rest of the kernel runs: permits are conserved, priority inversion is bounded by
    inheritance, no wake-up is lost, values come out in order, blocks are neither lost nor doubled.
  \<^item> \<open>Rt_Mem\<close>, \<open>Rt_Heap\<close>: the allocator of \<^verbatim>\<open>mem.c\<close> over its chain of block headers, and the contract its
    clients see: blocks are aligned, disjoint and large enough, and come back. \<open>Rt_Mempool\<close>: the pools of
    fixed-size blocks of \<^verbatim>\<open>mempool.c\<close>; no block has two owners. \<open>Rt_Object\<close>: the object container of \<^verbatim>\<open>object.c\<close>
    with its names, and the operations that create and delete IPC objects and pools over the heap, the
    container and the kernel together; a failed or undone creation leaves all three as they were.
    \<open>Rt_Thread\<close>: dynamic threads over the same state, the hooks and the clean-up of the idle thread
    (\<^verbatim>\<open>idle.c\<close>); what a thread takes of the heap comes back when it is gone. \<open>Rt_Device\<close>: the devices of \<^verbatim>\<open>device.c\<close>
    with the locale \<open>device_driver\<close> for what a driver owes the count of its users, interpreted by the open
    and close of \<^verbatim>\<open>serial.c\<close>: ring and interrupt are held exactly while there is a user.
  \<^item> \<open>Rt_Ringbuffer\<close>: \<^verbatim>\<open>ringbuffer.c\<close>, a byte queue with mirror bits. \<open>Rt_Completion\<close>: \<^verbatim>\<open>completion.c\<close>, where every
    completion is consumed, still to come or wasted on an expired wait. \<open>Rt_Dataqueue\<close>: \<^verbatim>\<open>dataqueue.c\<close>, a queue of
    items until its 16-bit counter wraps, and what happens then. \<open>Rt_Serial\<close>: the receive interrupt and
    the read of \<^verbatim>\<open>serial.c\<close>, and their composition with the camera thread.
  \<^item> \<open>Ls1c_Public\<close>, \<open>Ls1c_Clock\<close>, \<open>Ls1c_Gpio\<close>, \<open>Ls1c_Pwm\<close>, \<open>Ls1c_Uart\<close>, \<open>Ls1c_Can\<close>, \<open>Ls1c_Spi\<close>, \<open>Ls1c_I2c\<close>: the register
    libraries and the drivers above them, against what the hardware makes of the register writes: the
    duty cycle of a channel, the characters on a line, the frames and the filter of a CAN controller, the
    bytes under a chip select, the start, data and stop of an I2C message. \<open>Rt_Can\<close>: the receive queue of
    \<^verbatim>\<open>can.c\<close> above \<open>Ls1c_Can\<close>, and a message on its way from one node to another.
  \<^item> \<open>App_Text\<close>, \<open>App_Calendar\<close>, \<open>App_Openmv\<close>, \<open>App_Esp32\<close>, \<open>App_Json\<close>: the application threads, one turn of each
    receive loop at a time, with everything they send, store and switch.

  \<^bold>\<open>Conventions.\<close> One definition models one C function or one of its loops and has its name. State is
  passed explicitly; an operation that the code protects by disabling interrupts is one step. A
  blocking call is split at the context switch: the part up to it returns \<open>Blocked\<close>, the part
  behind it is a definition of its own that is applied to the state in which the thread is resumed.
  Errors are values; \<open>None\<close> is what C leaves undefined (an access outside an object, a zero divisor, a
  loop that never ends), and the lemmas say when it does not happen. Unsigned 32-bit quantities are
  words, or naturals with the wrap written out where a subtraction or product may wrap.

  \<^bold>\<open>Bounds and fuel.\<close> Loops are structural or have a measure, with these exceptions. The loop of
  \<open>rt_timer_check\<close> may run forever (a periodic timer of period 0) and has a fuel; \<open>Rt_Timer_Check\<close> shows that
  one more than the number of timers is enough when periods are positive. \<open>rt_ipc_list_resume_all\<close>
  has as bound the length of the list at its start, since each pass removes one thread, and the clean-up of the idle thread that of the defunct list. Loops
  that look for the zero byte of a string are \<^theory_text>\<open>partial_function\<close>s, and return on terminated strings.
  Polling loops on status registers take the values they will read as an argument.

  \<^bold>\<open>Not modelled.\<close> The context switch itself (assembler), SMP and soft timers (not configured),
  signals (configured, but no thread of the program installs a handler or sends one), the upper levels
  of the timer skip list (the configuration has one level), the shell, the file systems, the network
  stack, the web client and TLS (third-party packages, whose results are parameters), the graphics engine
  and the JSMN parser (not in the repository; the tokens of the latter are a parameter). Of the
  drivers, those for the real-time clock, the watchdog, the display and the touch panel are not modelled yet.
\<close>

end
